(* ===== verification/Prelude.thy ===== *)
theory Prelude
  imports Main "HOL-Library.Word"
begin

text \<open>
  Types, results and generic lemmas that every component of the development shares.

  C integers keep their width: \<open>uint8_t\<close>, \<open>uint16_t\<close>, \<open>uint32_t\<close> (and with it
  \<open>unsigned\<close>, \<open>size_t\<close>, \<open>vaddr_t\<close>, \<open>paddr_t\<close> on the 32-bit MIPS) and the 64-bit
  \<open>off_t\<close> are words, whose arithmetic wraps around as the machine's does.

  A kernel function that can stop the machine returns a value of \<open>'a res\<close>: \<open>Inl\<close> names
  why execution does not continue (a failed \<open>KASSERT\<close>, a call of \<open>panic\<close>, a
  dereference of a null pointer, an access outside an array or to freed memory, a wait for a spinlock
  that another CPU holds), \<open>Inr\<close> carries the result.
  A function that returns an error number or stores a result through a pointer returns a
  value of \<open>'a cret\<close>.
\<close>

unbundle bit_operations_syntax

type_synonym u8 = "8 word"
type_synonym u16 = "16 word"
type_synonym u32 = "32 word"
type_synonym u64 = "64 word"
type_synonym vaddr = "32 word"
type_synonym paddr = "32 word"

datatype kfault = KAssertFail | PanicCall | NullDeref | OutOfBounds | UseAfterFree | Spins

type_synonym 'a res = "kfault + 'a"

datatype 'a cret = Err int | Ret 'a

definition rbind :: "'a res \<Rightarrow> ('a \<Rightarrow> 'b res) \<Rightarrow> 'b res" where
  "rbind m f = (case m of Inl e \<Rightarrow> Inl e | Inr x \<Rightarrow> f x)"

lemma rbind_simps [simp]:
  "rbind (Inl e) f = Inl e"
  "rbind (Inr x) f = f x"
  by (simp_all add: rbind_def)

lemma rbind_eq_Inr [simp]: "rbind m f = Inr y \<longleftrightarrow> (\<exists>x. m = Inr x \<and> f x = Inr y)"
  by (cases m) auto

lemma rbind_Inl_cases:
  assumes "rbind m f = Inl e"
  obtains "m = Inl e" | x where "m = Inr x" and "f x = Inl e"
  using assms by (cases m) auto

subsection \<open>Error numbers\<close>

definition ENOSYS :: int where [simp]: "ENOSYS = 1"
definition ENOMEM :: int where [simp]: "ENOMEM = 3"
definition EFAULT :: int where [simp]: "EFAULT = 6"
definition ENAMETOOLONG :: int where [simp]: "ENAMETOOLONG = 7"
definition EINVAL :: int where [simp]: "EINVAL = 8"
definition EPERM :: int where [simp]: "EPERM = 9"
definition ENOEXEC :: int where [simp]: "ENOEXEC = 13"
definition EBADF :: int where [simp]: "EBADF = 30"
definition ENOSPC :: int where [simp]: "ENOSPC = 36"

subsection \<open>Collections of rewrite rules\<close>

named_theorems bitmap_simps
named_theorems vm_simps

subsection \<open>Words and naturals\<close>

lemma u32_less_eq_unat: "(a :: u32) < b \<longleftrightarrow> unat a < unat b"
  by (rule word_less_nat_alt)

lemma unat_u32_bound: "unat (x :: u32) < 4294967296"
proof -
  have "unat x < 2 ^ LENGTH(32)" by (rule unsigned_less)
  then show ?thesis by simp
qed

lemma unat_add_u32: "unat (a + b :: u32) = (unat a + unat b) mod 4294967296"
  by (simp add: unat_word_ariths)

lemma unat_mult_u32: "unat (a * b :: u32) = (unat a * unat b) mod 4294967296"
  by (simp add: unat_word_ariths)

lemma unat_add_u32_le:
  "unat a + unat b < 4294967296 \<Longrightarrow> unat (a + b :: u32) = unat a + unat b"
  by (simp add: unat_add_u32)

lemma unat_of_nat_u32: "n < 4294967296 \<Longrightarrow> unat (of_nat n :: u32) = n"
  by (simp add: unat_of_nat)

lemma and_exp_eq_0 [simp]: "w AND 2 ^ n = 0 \<longleftrightarrow> \<not> bit (w :: 'a::len word) n"
  using bit_iff_and_push_bit_not_eq_0 [of w n] by (simp add: push_bit_of_1)

lemma bit_or_exp [simp]:
  "n < LENGTH('a) \<Longrightarrow> bit (w OR 2 ^ n :: 'a::len word) m \<longleftrightarrow> bit w m \<or> m = n"
  by (auto simp: bit_simps)

lemma bit_and_not_exp [simp]:
  "bit (w AND NOT (2 ^ n) :: 'a::len word) m \<longleftrightarrow> bit w m \<and> m \<noteq> n"
  by (auto simp: bit_simps dest: bit_imp_le_length)

lemma u8_all_ones: "(w :: u8) = 0xff \<longleftrightarrow> (\<forall>n<8. bit w n)"
proof
  assume "w = 0xff"
  then have "w = mask 8" by (simp add: mask_eq_exp_minus_1)
  then show "\<forall>n<8. bit w n" by (simp add: bit_mask_iff)
next
  assume a: "\<forall>n<8. bit w n"
  have "w = mask 8"
    by (rule bit_eqI) (use a in \<open>auto simp: bit_mask_iff dest: bit_imp_le_length\<close>)
  then show "w = 0xff" by (simp add: mask_eq_exp_minus_1)
qed

subsection \<open>Loops that can fail\<close>

fun rfold :: "('a \<Rightarrow> 's \<Rightarrow> 's res) \<Rightarrow> 'a list \<Rightarrow> 's \<Rightarrow> 's res" where
  "rfold f [] s = Inr s"
| "rfold f (x # xs) s = rbind (f x s) (rfold f xs)"

fun rtimes :: "nat \<Rightarrow> ('s \<Rightarrow> ('a \<times> 's) res) \<Rightarrow> 's \<Rightarrow> ('a list \<times> 's) res" where
  "rtimes 0 f s = Inr ([], s)"
| "rtimes (Suc n) f s = rbind (f s) (\<lambda>(x, s1). rbind (rtimes n f s1) (\<lambda>(xs, s2). Inr (x # xs, s2)))"

end
