(* ===== verification/Bitmap.thy ===== *)
theory Bitmap
  imports Prelude
begin

text \<open>
  The fixed-size bit array of \<open>kern/lib/bitmap.c\<close>: an array of \<open>unsigned char\<close> words and
  the number of bits in use. Bits past \<open>nbits\<close> in the last word are kept set, so that the
  search for a clear bit never hands one out. \<open>kmalloc\<close> enters \<open>bitmap_create\<close> as the
  two answers it gives.
\<close>

record bitmap =
  bm_nbits :: u32
  bm_v :: "u8 list"

definition divroundup :: "u32 \<Rightarrow> u32 \<Rightarrow> u32" where
  "divroundup a b = (a + b - 1) div b"

fun bitmap_mark_over :: "u8 list \<Rightarrow> nat \<Rightarrow> nat list \<Rightarrow> u8 list" where
  "bitmap_mark_over v ix [] = v"
| "bitmap_mark_over v ix (j # js) = bitmap_mark_over (v[ix := v ! ix OR push_bit j 1]) ix js"

definition bitmap_create :: "bool \<Rightarrow> bool \<Rightarrow> u32 \<Rightarrow> bitmap option res" where
  "bitmap_create kmalloc_b kmalloc_v nbits =
     (let words = divroundup nbits 8 in
      if \<not> kmalloc_b then Inr None
      else if \<not> kmalloc_v then Inr None
      else
        let v = replicate (unat words) 0 in
        if words > nbits div 8 then
          let ix = words - 1; overbits = nbits - ix * 8 in
          if nbits div 8 \<noteq> words - 1 then Inl KAssertFail
          else if \<not> (overbits > 0 \<and> overbits < 8) then Inl KAssertFail
          else Inr (Some \<lparr>bm_nbits = nbits,
                 bm_v = bitmap_mark_over v (unat ix) [unat overbits..<8]\<rparr>)
        else Inr (Some \<lparr>bm_nbits = nbits, bm_v = v\<rparr>))"

definition bitmap_getdata :: "bitmap \<Rightarrow> u8 list" where
  "bitmap_getdata b = bm_v b"

fun bitmap_alloc_loop :: "bitmap \<Rightarrow> nat list \<Rightarrow> (u32 cret \<times> bitmap) res" where
  "bitmap_alloc_loop b [] = Inr (Err ENOSPC, b)"
| "bitmap_alloc_loop b (ix # ixs) =
     (if length (bm_v b) \<le> ix then Inl OutOfBounds
      else if bm_v b ! ix \<noteq> 0xff then
        (case find (\<lambda>offset. bm_v b ! ix AND push_bit offset 1 = 0) [0..<8] of
           Some offset \<Rightarrow>
             (let b' = b\<lparr>bm_v := (bm_v b)[ix := bm_v b ! ix OR push_bit offset 1]\<rparr>;
                  index = of_nat ix * 8 + of_nat offset in
              if index < bm_nbits b then Inr (Ret index, b') else Inl KAssertFail)
         | None \<Rightarrow> Inl KAssertFail)
      else bitmap_alloc_loop b ixs)"

definition bitmap_alloc :: "bitmap \<Rightarrow> (u32 cret \<times> bitmap) res" where
  "bitmap_alloc b = bitmap_alloc_loop b [0..<unat (divroundup (bm_nbits b) 8)]"

definition bitmap_translate :: "u32 \<Rightarrow> u32 \<times> u8" where
  "bitmap_translate bitno =
     (let ix = bitno div 8; offset = bitno mod 8 in (ix, push_bit (unat offset) 1))"

definition bitmap_mark :: "bitmap \<Rightarrow> u32 \<Rightarrow> bitmap res" where
  "bitmap_mark b index =
     (if \<not> index < bm_nbits b then Inl KAssertFail
      else case bitmap_translate index of (ix, bmask) \<Rightarrow>
        if length (bm_v b) \<le> unat ix then Inl OutOfBounds
        else if bm_v b ! unat ix AND bmask \<noteq> 0 then Inl KAssertFail
        else Inr (b\<lparr>bm_v := (bm_v b)[unat ix := bm_v b ! unat ix OR bmask]\<rparr>))"

definition bitmap_unmark :: "bitmap \<Rightarrow> u32 \<Rightarrow> bitmap res" where
  "bitmap_unmark b index =
     (if \<not> index < bm_nbits b then Inl KAssertFail
      else case bitmap_translate index of (ix, bmask) \<Rightarrow>
        if length (bm_v b) \<le> unat ix then Inl OutOfBounds
        else if bm_v b ! unat ix AND bmask = 0 then Inl KAssertFail
        else Inr (b\<lparr>bm_v := (bm_v b)[unat ix := bm_v b ! unat ix AND NOT bmask]\<rparr>))"

definition bitmap_isset :: "bitmap \<Rightarrow> u32 \<Rightarrow> u8 res" where
  "bitmap_isset b index =
     (case bitmap_translate index of (ix, bmask) \<Rightarrow>
        if length (bm_v b) \<le> unat ix then Inl OutOfBounds
        else Inr (bm_v b ! unat ix AND bmask))"

subsection \<open>The bits, the invariant\<close>

definition bm_bit :: "bitmap \<Rightarrow> nat \<Rightarrow> bool" where
  "bm_bit b i = bit (bm_v b ! (i div 8)) (i mod 8)"

definition bm_used :: "bitmap \<Rightarrow> nat set" where
  "bm_used b = {i. i < unat (bm_nbits b) \<and> bm_bit b i}"

definition bm_setbit :: "bitmap \<Rightarrow> nat \<Rightarrow> bitmap" where
  "bm_setbit b i = b\<lparr>bm_v := (bm_v b)[i div 8 := bm_v b ! (i div 8) OR push_bit (i mod 8) 1]\<rparr>"

definition bm_clearbit :: "bitmap \<Rightarrow> nat \<Rightarrow> bitmap" where
  "bm_clearbit b i =
     b\<lparr>bm_v := (bm_v b)[i div 8 := bm_v b ! (i div 8) AND NOT (push_bit (i mod 8) 1)]\<rparr>"

definition bitmap_wf :: "bitmap \<Rightarrow> bool" where
  "bitmap_wf b \<longleftrightarrow>
     unat (bm_nbits b) + 7 < 4294967296 \<and>
     length (bm_v b) = (unat (bm_nbits b) + 7) div 8 \<and>
     (\<forall>i. unat (bm_nbits b) \<le> i \<and> i < 8 * length (bm_v b) \<longrightarrow> bm_bit b i)"

lemma bm_setbit_nbits [simp]: "bm_nbits (bm_setbit b i) = bm_nbits b"
  by (simp add: bm_setbit_def)

lemma bm_setbit_length [simp]: "length (bm_v (bm_setbit b i)) = length (bm_v b)"
  by (simp add: bm_setbit_def)

lemma bm_clearbit_nbits [simp]: "bm_nbits (bm_clearbit b i) = bm_nbits b"
  by (simp add: bm_clearbit_def)

lemma bm_clearbit_length [simp]: "length (bm_v (bm_clearbit b i)) = length (bm_v b)"
  by (simp add: bm_clearbit_def)

lemma div_mod_8_eq: "i div 8 = j div 8 \<Longrightarrow> i mod 8 = j mod 8 \<Longrightarrow> i = (j :: nat)"
  by (metis div_mult_mod_eq)

lemma bm_bit_setbit:
  "i < 8 * length (bm_v b) \<Longrightarrow> bm_bit (bm_setbit b i) j \<longleftrightarrow> bm_bit b j \<or> j = i"
  by (cases "j div 8 = i div 8")
    (auto simp: bm_bit_def bm_setbit_def less_mult_imp_div_less mult.commute
      dest: div_mod_8_eq)

lemma bm_bit_clearbit:
  "i < 8 * length (bm_v b) \<Longrightarrow> bm_bit (bm_clearbit b i) j \<longleftrightarrow> bm_bit b j \<and> j \<noteq> i"
  by (cases "j div 8 = i div 8")
    (auto simp: bm_bit_def bm_clearbit_def less_mult_imp_div_less mult.commute
      dest: div_mod_8_eq)

lemma bitmap_wf_bound: "bitmap_wf b \<Longrightarrow> i < unat (bm_nbits b) \<Longrightarrow> i < 8 * length (bm_v b)"
  by (simp add: bitmap_wf_def)

lemma bitmap_wf_setbit: "bitmap_wf b \<Longrightarrow> i < unat (bm_nbits b) \<Longrightarrow> bitmap_wf (bm_setbit b i)"
  using bitmap_wf_bound [of b i] by (auto simp: bitmap_wf_def bm_bit_setbit)

lemma bitmap_wf_clearbit: "bitmap_wf b \<Longrightarrow> i < unat (bm_nbits b) \<Longrightarrow> bitmap_wf (bm_clearbit b i)"
  using bitmap_wf_bound [of b i] by (auto simp: bitmap_wf_def bm_bit_clearbit)

lemma bm_used_setbit:
  "bitmap_wf b \<Longrightarrow> i < unat (bm_nbits b) \<Longrightarrow> bm_used (bm_setbit b i) = insert i (bm_used b)"
  using bitmap_wf_bound [of b i] by (auto simp: bm_used_def bm_bit_setbit)

lemma bm_used_clearbit:
  "bitmap_wf b \<Longrightarrow> i < unat (bm_nbits b) \<Longrightarrow> bm_used (bm_clearbit b i) = bm_used b - {i}"
  using bitmap_wf_bound [of b i] by (auto simp: bm_used_def bm_bit_clearbit)

lemma finite_bm_used [simp]: "finite (bm_used b)"
  by (simp add: bm_used_def)

lemma unat_divroundup_8:
  "unat n + 7 < 4294967296 \<Longrightarrow> unat (divroundup n 8) = (unat n + 7) div 8"
proof -
  assume a: "unat n + 7 < 4294967296"
  have "n + 8 - 1 = n + 7" by simp
  moreover have "unat (n + 7) = unat n + 7" using a by (simp add: unat_add_u32_le)
  ultimately show ?thesis by (simp only: divroundup_def unat_div) simp
qed

subsection \<open>The search for a clear bit\<close>

lemma find_clear_bit:
  fixes w :: u8
  assumes "w \<noteq> 0xff"
  obtains offset where "offset < 8" and "\<not> bit w offset" and "\<forall>k<offset. bit w k"
    and "find (\<lambda>offset. w AND push_bit offset 1 = 0) [0..<8] = Some offset"
proof -
  from assms obtain n where n: "n < 8" "\<not> bit w n" by (auto simp: u8_all_ones)
  define k where "k = (LEAST n. \<not> bit w n)"
  have k1: "\<not> bit w k" unfolding k_def by (rule LeastI) (rule n(2))
  have k2: "\<forall>j<k. bit w j" unfolding k_def by (auto dest: not_less_Least)
  have "k \<le> n" unfolding k_def by (rule Least_le) (rule n(2))
  with n have k3: "k < 8" by simp
  have f: "find (\<lambda>offset. w AND push_bit offset 1 = 0) [0..<8] = Some k"
    unfolding find_Some_iff by (rule exI [of _ k]) (use k1 k2 k3 in auto)
  show thesis by (rule that [OF k3 k1 k2 f])
qed

lemma bm_bit_byte:
  "k < length (bm_v b) \<Longrightarrow> n < 8 \<Longrightarrow> bm_bit b (8 * k + n) \<longleftrightarrow> bit (bm_v b ! k) n"
  by (simp add: bm_bit_def)

lemma of_nat_index: "of_nat k * 8 + of_nat n = (of_nat (8 * k + n) :: u32)"
  by simp

lemma bitmap_alloc_hit:
  assumes wf: "bitmap_wf b" and k: "k < length (bm_v b)" and ff: "bm_v b ! k \<noteq> 0xff"
    and below: "\<forall>i<8 * k. bm_bit b i"
  shows "bitmap_alloc_loop b (k # ixs) =
      Inr (Ret (of_nat (LEAST i. \<not> bm_bit b i)), bm_setbit b (LEAST i. \<not> bm_bit b i))"
    and "(LEAST i. \<not> bm_bit b i) < unat (bm_nbits b)"
proof -
  from ff obtain n where n: "n < 8" "\<not> bit (bm_v b ! k) n" "\<forall>j<n. bit (bm_v b ! k) j"
    "find (\<lambda>offset. bm_v b ! k AND push_bit offset 1 = 0) [0..<8] = Some n"
    by (rule find_clear_bit)
  let ?i = "8 * k + n"
  have clear: "\<not> bm_bit b ?i" using n k by (simp add: bm_bit_byte)
  have lt: "bm_bit b j" if "j < ?i" for j
  proof (cases "j < 8 * k")
    case True then show ?thesis using below by simp
  next
    case False
    then have "bm_bit b (8 * k + (j - 8 * k))" using n k that by (simp only: bm_bit_byte)
    with False show ?thesis by simp
  qed
  have least: "(LEAST i. \<not> bm_bit b i) = ?i"
    by (rule Least_equality) (use clear lt in \<open>auto simp: not_less [symmetric]\<close>)
  have "?i < 8 * length (bm_v b)" using k n(1) by linarith
  then have bound: "?i < unat (bm_nbits b)"
    using wf clear unfolding bitmap_wf_def by (meson linorder_not_less)
  then show "(LEAST i. \<not> bm_bit b i) < unat (bm_nbits b)" by (simp add: least)
  have "?i < 4294967296" using bound unat_u32_bound [of "bm_nbits b"] by simp
  then have idx: "unat (of_nat ?i :: u32) = ?i" by (rule unat_of_nat_u32)
  have "(of_nat k * 8 + of_nat n :: u32) < bm_nbits b"
    unfolding of_nat_index u32_less_eq_unat idx by (rule bound)
  moreover have "?i div 8 = k" "?i mod 8 = n" using n(1) by simp_all
  ultimately show "bitmap_alloc_loop b (k # ixs) =
      Inr (Ret (of_nat (LEAST i. \<not> bm_bit b i)), bm_setbit b (LEAST i. \<not> bm_bit b i))"
    using n(4) k ff by (simp add: least bm_setbit_def)
qed

lemma bitmap_alloc_loop_spec:
  assumes wf: "bitmap_wf b"
  shows "k \<le> length (bm_v b) \<Longrightarrow> \<forall>i<8 * k. bm_bit b i \<Longrightarrow>
    bitmap_alloc_loop b [k..<length (bm_v b)] =
      (if \<forall>i<unat (bm_nbits b). bm_bit b i then Inr (Err ENOSPC, b)
       else Inr (Ret (of_nat (LEAST i. \<not> bm_bit b i)), bm_setbit b (LEAST i. \<not> bm_bit b i)))"
proof (induction "length (bm_v b) - k" arbitrary: k)
  case 0
  then have "k = length (bm_v b)" by simp
  moreover from this 0 wf have "\<forall>i<unat (bm_nbits b). bm_bit b i"
    using bitmap_wf_bound by blast
  ultimately show ?case by simp
next
  case (Suc d)
  then have k: "k < length (bm_v b)" by simp
  then have up: "[k..<length (bm_v b)] = k # [Suc k..<length (bm_v b)]" by (simp add: upt_conv_Cons)
  show ?case
  proof (cases "bm_v b ! k = 0xff")
    case True
    have "bm_bit b i" if "i < 8 * Suc k" for i
    proof (cases "i < 8 * k")
      case False
      with that have "i div 8 = k" by simp
      moreover have "bit (bm_v b ! k) (i mod 8)" using True by (simp only: u8_all_ones)
      ultimately show ?thesis by (simp add: bm_bit_def)
    qed (use Suc.prems in simp)
    then have "\<forall>i<8 * Suc k. bm_bit b i" by blast
    with Suc.hyps(1) [of "Suc k"] Suc.hyps(2) k
    show ?thesis unfolding up using True by simp
  next
    case False
    note hit = bitmap_alloc_hit [OF wf k False Suc.prems(2)]
    have "\<not> (\<forall>i<unat (bm_nbits b). bm_bit b i)"
    proof
      assume all: "\<forall>i<unat (bm_nbits b). bm_bit b i"
      with hit(2) have set: "bm_bit b (LEAST i. \<not> bm_bit b i)" by blast
      from False obtain n where "n < 8" "\<not> bit (bm_v b ! k) n" by (auto simp: u8_all_ones)
      with k have "\<not> bm_bit b (8 * k + n)" by (simp add: bm_bit_byte)
      then have "\<not> bm_bit b (LEAST i. \<not> bm_bit b i)" by (rule LeastI)
      with set show False by contradiction
    qed
    then show ?thesis unfolding up hit(1) by simp
  qed
qed

lemma bitmap_alloc_spec:
  assumes "bitmap_wf b"
  shows "bitmap_alloc b =
      (if \<forall>i<unat (bm_nbits b). bm_bit b i then Inr (Err ENOSPC, b)
       else Inr (Ret (of_nat (LEAST i. \<not> bm_bit b i)), bm_setbit b (LEAST i. \<not> bm_bit b i)))"
proof -
  have "unat (divroundup (bm_nbits b) 8) = length (bm_v b)"
    using assms by (simp add: bitmap_wf_def unat_divroundup_8)
  then show ?thesis
    unfolding bitmap_alloc_def using bitmap_alloc_loop_spec [OF assms, of 0] by simp
qed

subsection \<open>Single-bit operations\<close>

lemma bitmap_translate_eq:
  "bitmap_translate i = (i div 8, push_bit (unat i mod 8) 1)"
  by (simp add: bitmap_translate_def Let_def unat_mod)

lemma bitmap_wf_index:
  "bitmap_wf b \<Longrightarrow> i < bm_nbits b \<Longrightarrow> unat i div 8 < length (bm_v b)"
  using bitmap_wf_bound [of b "unat i"]
  by (simp add: u32_less_eq_unat less_mult_imp_div_less mult.commute)

lemma bitmap_mark_spec:
  "bitmap_wf b \<Longrightarrow> bitmap_mark b i =
     (if i < bm_nbits b \<and> \<not> bm_bit b (unat i) then Inr (bm_setbit b (unat i)) else Inl KAssertFail)"
  using bitmap_wf_index [of b i]
  by (auto simp: bitmap_mark_def bitmap_translate_eq bm_bit_def bm_setbit_def unat_div
      push_bit_of_1)

lemma bitmap_unmark_spec:
  "bitmap_wf b \<Longrightarrow> bitmap_unmark b i =
     (if i < bm_nbits b \<and> bm_bit b (unat i) then Inr (bm_clearbit b (unat i)) else Inl KAssertFail)"
  using bitmap_wf_index [of b i]
  by (auto simp: bitmap_unmark_def bitmap_translate_eq bm_bit_def bm_clearbit_def unat_div
      push_bit_of_1)

lemma bitmap_isset_spec:
  "bitmap_wf b \<Longrightarrow> i < bm_nbits b \<Longrightarrow>
     \<exists>r. bitmap_isset b i = Inr r \<and> (r \<noteq> 0 \<longleftrightarrow> unat i \<in> bm_used b)"
  using bitmap_wf_index [of b i]
  by (simp add: bitmap_isset_def bitmap_translate_eq bm_bit_def bm_used_def unat_div
      push_bit_of_1 u32_less_eq_unat)

lemma clear_setbit:
  assumes "i < 8 * length (bm_v b)" and "\<not> bm_bit b i"
  shows "bm_clearbit (bm_setbit b i) i = b"
proof -
  let ?w = "bm_v b ! (i div 8)"
  have "i div 8 < length (bm_v b)" using assms(1) by (simp add: less_mult_imp_div_less mult.commute)
  moreover have "(?w OR 2 ^ (i mod 8)) AND NOT (2 ^ (i mod 8)) = ?w"
    by (rule bit_eqI) (use assms(2) in \<open>auto simp: bm_bit_def\<close>)
  ultimately show ?thesis by (simp add: bm_setbit_def bm_clearbit_def)
qed

lemma Least_clear:
  assumes "\<not> (\<forall>i<n. bm_bit b i)"
  shows "(LEAST i. \<not> bm_bit b i) < n" and "\<not> bm_bit b (LEAST i. \<not> bm_bit b i)"
    and "\<forall>j<(LEAST i. \<not> bm_bit b i). bm_bit b j"
proof -
  from assms obtain i where i: "i < n" "\<not> bm_bit b i" by blast
  from i(2) have "(LEAST i. \<not> bm_bit b i) \<le> i" by (rule Least_le)
  with i(1) show "(LEAST i. \<not> bm_bit b i) < n" by simp
  from i(2) show "\<not> bm_bit b (LEAST i. \<not> bm_bit b i)" by (rule LeastI)
  show "\<forall>j<(LEAST i. \<not> bm_bit b i). bm_bit b j" by (auto dest: not_less_Least)
qed

lemma bitmap_alloc_Ret:
  assumes wf: "bitmap_wf b" and al: "bitmap_alloc b = Inr (Ret i, b')"
  shows "unat i < unat (bm_nbits b)" and "\<not> bm_bit b (unat i)"
    and "\<forall>j<unat i. bm_bit b j" and "b' = bm_setbit b (unat i)"
proof -
  let ?l = "LEAST i. \<not> bm_bit b i"
  from al have nf: "\<not> (\<forall>i<unat (bm_nbits b). bm_bit b i)"
    by (auto simp: bitmap_alloc_spec [OF wf] split: if_splits)
  with al have i: "i = of_nat ?l" and b': "b' = bm_setbit b ?l"
    by (auto simp: bitmap_alloc_spec [OF wf])
  note l = Least_clear [OF nf]
  from l(1) unat_u32_bound [of "bm_nbits b"] have "?l < 4294967296" by linarith
  then have u: "unat i = ?l" unfolding i by (rule unat_of_nat_u32)
  show "unat i < unat (bm_nbits b)" "\<not> bm_bit b (unat i)" "\<forall>j<unat i. bm_bit b j"
    "b' = bm_setbit b (unat i)"
    unfolding u by (rule l, rule l, rule l, rule b')
qed

subsection \<open>A fresh bitmap\<close>

lemma bitmap_mark_over_length [simp]: "length (bitmap_mark_over v ix js) = length v"
  by (induction v ix js rule: bitmap_mark_over.induct) simp_all

lemma bitmap_mark_over_nth:
  "ix < length v \<Longrightarrow> \<forall>j\<in>set js. j < 8 \<Longrightarrow>
     bit (bitmap_mark_over v ix js ! k) n \<longleftrightarrow> bit (v ! k) n \<or> k = ix \<and> n \<in> set js"
proof (induction v ix js rule: bitmap_mark_over.induct)
  case (2 v ix j js)
  then have "bit ((v[ix := v ! ix OR push_bit j 1]) ! k) n \<longleftrightarrow> bit (v ! k) n \<or> k = ix \<and> n = j"
    by (cases "k = ix") (simp_all add: push_bit_of_1)
  with 2 show ?case by auto
qed simp

lemma nat_divroundup_8: "(n + 7) div 8 = n div 8 + (if n mod 8 = 0 then 0 else (1::nat))"
proof -
  define q r where "q = n div 8" and "r = n mod 8"
  then have "n = 8 * q + r" and "r < 8" by simp_all
  then have "(n + 7) div 8 = q + (if r = 0 then 0 else 1)"
    by (intro div_nat_eqI) (auto split: if_splits)
  then show ?thesis by (simp add: q_def r_def)
qed

lemma divroundup_8_odd:
  assumes "unat n + 7 < 4294967296"
  shows "divroundup n 8 > n div 8 \<longleftrightarrow> unat n mod 8 \<noteq> 0"
    and "unat n mod 8 \<noteq> 0 \<Longrightarrow> divroundup n 8 - 1 = n div 8"
proof -
  have u: "unat (divroundup n 8) = (unat n + 7) div 8" by (rule unat_divroundup_8) (rule assms)
  show "divroundup n 8 > n div 8 \<longleftrightarrow> unat n mod 8 \<noteq> 0"
    by (simp add: u32_less_eq_unat u unat_div nat_divroundup_8)
  assume "unat n mod 8 \<noteq> 0"
  then have "(unat n + 7) div 8 = unat n div 8 + 1" by (simp add: nat_divroundup_8)
  then have "unat (divroundup n 8) = unat (n div 8 + 1)"
    using unat_u32_bound [of n] by (simp add: u unat_div unat_add_u32_le)
  then have "divroundup n 8 = n div 8 + 1" by (rule unsigned_word_eqI)
  then show "divroundup n 8 - 1 = n div 8" by simp
qed

lemma word_minus_div_mult: "(n :: u32) - n div m * m = n mod m"
  by (metis add_diff_cancel_left' div_mult_mod_eq)

lemma le_div_mod_8:
  "(n::nat) \<le> i \<longleftrightarrow> n div 8 < i div 8 \<or> n div 8 = i div 8 \<and> n mod 8 \<le> i mod 8"
proof -
  have "n = 8 * (n div 8) + n mod 8" "i = 8 * (i div 8) + i mod 8" by simp_all
  moreover have "n mod 8 < 8" "i mod 8 < 8" by simp_all
  ultimately show ?thesis by linarith
qed

lemma bitmap_create_even:
  assumes n: "unat nbits + 7 < 4294967296" and even: "unat nbits mod 8 = 0"
  shows "bitmap_create True True nbits =
    Inr (Some \<lparr>bm_nbits = nbits, bm_v = replicate ((unat nbits + 7) div 8) 0\<rparr>)"
proof -
  have "\<not> divroundup nbits 8 > nbits div 8"
    using even divroundup_8_odd(1) [OF n] by (simp only: simp_thms)
  then show ?thesis
    unfolding bitmap_create_def Let_def unat_divroundup_8 [OF n] by (simp only: if_False simp_thms)
qed

lemma bitmap_create_odd:
  assumes n: "unat nbits + 7 < 4294967296" and odd: "unat nbits mod 8 \<noteq> 0"
  shows "bitmap_create True True nbits =
    Inr (Some \<lparr>bm_nbits = nbits, bm_v = bitmap_mark_over (replicate ((unat nbits + 7) div 8) 0)
      (unat nbits div 8) [unat nbits mod 8..<8]\<rparr>)"
proof -
  have d1: "divroundup nbits 8 > nbits div 8"
    using odd divroundup_8_odd(1) [OF n] by (simp only: simp_thms)
  note d2 = divroundup_8_odd(2) [OF n odd]
  have over: "nbits - nbits div 8 * 8 = nbits mod 8" by (rule word_minus_div_mult)
  have pos: "0 < nbits mod 8" "nbits mod 8 < 8"
    using odd by (simp_all add: u32_less_eq_unat unat_mod)
  have u: "unat (nbits div 8) = unat nbits div 8" "unat (nbits mod 8) = unat nbits mod 8"
    by (simp_all add: unat_div unat_mod)
  show ?thesis
    unfolding bitmap_create_def Let_def unat_divroundup_8 [OF n] d2 over u
    by (simp only: d1 pos if_True if_False simp_thms)
qed

lemma bitmap_create_spec:
  assumes n: "unat nbits + 7 < 4294967296"
  shows "\<exists>b. bitmap_create True True nbits = Inr (Some b) \<and> bitmap_wf b \<and>
           bm_nbits b = nbits \<and> bm_used b = {}"
proof (cases "unat nbits mod 8 = 0")
  case True
  then have len: "(unat nbits + 7) div 8 * 8 = unat nbits"
    using div_mult_mod_eq [of "unat nbits" 8] by (simp add: nat_divroundup_8)
  let ?b = "\<lparr>bm_nbits = nbits, bm_v = replicate ((unat nbits + 7) div 8) 0\<rparr>"
  have "bitmap_create True True nbits = Inr (Some ?b)" by (rule bitmap_create_even [OF n True])
  moreover have "bitmap_wf ?b" using n len by (auto simp: bitmap_wf_def)
  moreover have "bm_used ?b = {}"
    using len by (auto simp: bm_used_def bm_bit_def less_mult_imp_div_less)
  ultimately show ?thesis by (intro exI [of _ ?b]) simp
next
  case False
  let ?k = "unat nbits div 8"
  let ?v = "bitmap_mark_over (replicate ((unat nbits + 7) div 8) 0) ?k [unat nbits mod 8..<8]"
  let ?b = "\<lparr>bm_nbits = nbits, bm_v = ?v\<rparr>"
  have k: "?k < (unat nbits + 7) div 8" and len: "(unat nbits + 7) div 8 = Suc ?k"
    using False by (simp_all add: nat_divroundup_8)
  have create: "bitmap_create True True nbits = Inr (Some ?b)" by (rule bitmap_create_odd [OF n False])
  have vbit: "bm_bit ?b i \<longleftrightarrow> i div 8 = ?k \<and> unat nbits mod 8 \<le> i mod 8"
    if "i < 8 * Suc ?k" for i
  proof -
    have "i div 8 < Suc ?k" using that by (simp add: less_mult_imp_div_less mult.commute)
    then show ?thesis
      by (simp add: bm_bit_def bitmap_mark_over_nth len del: replicate_Suc)
  qed
  have ge: "i div 8 = ?k \<and> unat nbits mod 8 \<le> i mod 8 \<longleftrightarrow> unat nbits \<le> i"
    if "i < 8 * Suc ?k" for i
  proof -
    have "i div 8 < Suc ?k" using that by (simp add: less_mult_imp_div_less mult.commute)
    then show ?thesis by (subst le_div_mod_8) auto
  qed
  have "\<forall>i. unat nbits \<le> i \<and> i < 8 * Suc ?k \<longrightarrow> bm_bit ?b i" using vbit ge by blast
  then have "bitmap_wf ?b" unfolding bitmap_wf_def using n len by simp
  moreover note create
  moreover have "bm_used ?b = {}"
  proof -
    have "\<not> bm_bit ?b i" if i: "i < unat nbits" for i
    proof -
      have "i < 8 * Suc ?k" using i div_mult_mod_eq [of "unat nbits" 8] by simp
      with i vbit ge show ?thesis by (meson linorder_not_less)
    qed
    then show ?thesis by (auto simp: bm_used_def)
  qed
  ultimately show ?thesis by (intro exI [of _ ?b]) simp
qed

subsection \<open>The interface: an allocator of numbered slots\<close>

text \<open>
  What the users of a bitmap rely on, stated without its representation. \<open>used\<close> is the set
  of slots in use, \<open>cap\<close> the number of slots. The swap area takes its slots through this
  interface.
\<close>

locale slot_alloc =
  fixes inv :: "'b \<Rightarrow> bool"
    and cap :: "'b \<Rightarrow> nat"
    and used :: "'b \<Rightarrow> nat set"
    and alloc :: "'b \<Rightarrow> (u32 cret \<times> 'b) res"
    and release :: "'b \<Rightarrow> u32 \<Rightarrow> 'b res"
  assumes used_cap: "inv b \<Longrightarrow> used b \<subseteq> {..<cap b}"
    and alloc_full: "inv b \<Longrightarrow> used b = {..<cap b} \<Longrightarrow> alloc b = Inr (Err ENOSPC, b)"
    and alloc_room: "inv b \<Longrightarrow> used b \<noteq> {..<cap b} \<Longrightarrow> \<exists>i b'. alloc b = Inr (Ret i, b')"
    and alloc_fresh: "inv b \<Longrightarrow> alloc b = Inr (Ret i, b') \<Longrightarrow> unat i < cap b \<and> unat i \<notin> used b"
    and alloc_used: "inv b \<Longrightarrow> alloc b = Inr (Ret i, b') \<Longrightarrow> used b' = insert (unat i) (used b)"
    and alloc_inv: "inv b \<Longrightarrow> alloc b = Inr (Ret i, b') \<Longrightarrow> inv b' \<and> cap b' = cap b"
    and release_used: "inv b \<Longrightarrow> unat i \<in> used b \<Longrightarrow>
      \<exists>b'. release b i = Inr b' \<and> inv b' \<and> cap b' = cap b \<and> used b' = used b - {unat i}"
begin

lemma alloc_total: "inv b \<Longrightarrow> \<exists>r b'. alloc b = Inr (r, b') \<and> inv b' \<and> cap b' = cap b"
  using alloc_full alloc_room alloc_inv by (metis (no_types))

lemma alloc_not_full: "inv b \<Longrightarrow> alloc b = Inr (Err e, b') \<Longrightarrow> used b = {..<cap b} \<and> b' = b"
  using alloc_full alloc_room by (metis Inr_inject Pair_inject cret.distinct(1))

lemma alloc_Err: "inv b \<Longrightarrow> alloc b = Inr (Err e, b') \<Longrightarrow> e = ENOSPC"
  using alloc_full alloc_not_full by (metis Inr_inject Pair_inject cret.inject(1))

lemma finite_used: "inv b \<Longrightarrow> finite (used b)"
  using used_cap finite_subset by blast

lemma room_alloc: "inv b \<Longrightarrow> card (used b) < cap b \<Longrightarrow> \<exists>i b'. alloc b = Inr (Ret i, b')"
  using alloc_room by fastforce

lemma alloc_card: "inv b \<Longrightarrow> alloc b = Inr (Ret i, b') \<Longrightarrow> card (used b') = Suc (card (used b))"
  using alloc_used alloc_fresh finite_used by simp

lemma alloc_release:
  assumes "inv b" and "alloc b = Inr (Ret i, b')"
  shows "\<exists>b''. release b' i = Inr b'' \<and> used b'' = used b"
proof -
  have "inv b'" and "unat i \<in> used b'" and "used b' - {unat i} = used b"
    using alloc_inv [OF assms] alloc_used [OF assms] alloc_fresh [OF assms] by auto
  then show ?thesis using release_used by fastforce
qed

end

definition bm_cap :: "bitmap \<Rightarrow> nat" where
  "bm_cap b = unat (bm_nbits b)"

interpretation bm: slot_alloc bitmap_wf bm_cap bm_used bitmap_alloc bitmap_unmark
proof
  fix b i b'
  assume wf: "bitmap_wf b"
  show "bm_used b \<subseteq> {..<bm_cap b}" by (auto simp: bm_used_def bm_cap_def)
  have full: "bm_used b = {..<bm_cap b} \<longleftrightarrow> (\<forall>i<unat (bm_nbits b). bm_bit b i)"
    by (auto simp: bm_used_def bm_cap_def)
  show "bm_used b = {..<bm_cap b} \<Longrightarrow> bitmap_alloc b = Inr (Err ENOSPC, b)"
    unfolding full bitmap_alloc_spec [OF wf] by (rule if_P)
  show "bm_used b \<noteq> {..<bm_cap b} \<Longrightarrow> \<exists>i b'. bitmap_alloc b = Inr (Ret i, b')"
    unfolding full bitmap_alloc_spec [OF wf] by (subst if_not_P, assumption) blast
  show "unat i \<in> bm_used b \<Longrightarrow> \<exists>b'. bitmap_unmark b i = Inr b' \<and> bitmap_wf b' \<and>
      bm_cap b' = bm_cap b \<and> bm_used b' = bm_used b - {unat i}"
  proof -
    assume "unat i \<in> bm_used b"
    then have i: "unat i < unat (bm_nbits b)" and b: "bm_bit b (unat i)" by (auto simp: bm_used_def)
    then have "bitmap_unmark b i = Inr (bm_clearbit b (unat i))"
      by (simp add: bitmap_unmark_spec [OF wf] u32_less_eq_unat)
    with bitmap_wf_clearbit [OF wf i] bm_used_clearbit [OF wf i] show ?thesis
      by (simp add: bm_cap_def)
  qed
  assume al: "bitmap_alloc b = Inr (Ret i, b')"
  note r = bitmap_alloc_Ret [OF wf al]
  show "unat i < bm_cap b \<and> unat i \<notin> bm_used b"
    using r(1,2) by (simp add: bm_cap_def bm_used_def)
  show "bm_used b' = insert (unat i) (bm_used b)"
    using bm_used_setbit [OF wf r(1)] r(4) by simp
  show "bitmap_wf b' \<and> bm_cap b' = bm_cap b"
    using bitmap_wf_setbit [OF wf r(1)] r(4) by (simp add: bm_cap_def)
qed

subsection \<open>Properties\<close>

text \<open>
  C23: On a well-formed bitmap \<open>bitmap_alloc\<close> never stops the kernel: either every bit is set, and it
  returns \<open>ENOSPC\<close> and leaves the bitmap alone, or it returns the lowest clear bit, sets exactly that
  bit and keeps the bitmap well-formed.
\<close>

theorem bitmap_alloc_first_clear:
  assumes "bitmap_wf b"
  shows "case bitmap_alloc b of
      Inl f \<Rightarrow> False
    | Inr (Err e, b') \<Rightarrow> e = ENOSPC \<and> b' = b \<and> bm_used b = {..<bm_cap b}
    | Inr (Ret i, b') \<Rightarrow> unat i < bm_cap b \<and> unat i \<notin> bm_used b \<and> {..<unat i} \<subseteq> bm_used b \<and>
        bm_used b' = insert (unat i) (bm_used b) \<and> bitmap_wf b' \<and> bm_cap b' = bm_cap b"
proof -
  obtain r b' where al: "bitmap_alloc b = Inr (r, b')" using bm.alloc_total [OF assms] by blast
  show ?thesis
  proof (cases r)
    case (Err e)
    with al bm.alloc_not_full [OF assms] bm.alloc_Err [OF assms] show ?thesis by simp
  next
    case (Ret i)
    with al have al': "bitmap_alloc b = Inr (Ret i, b')" by simp
    note R = bitmap_alloc_Ret [OF assms al']
    have "{..<unat i} \<subseteq> bm_used b" using R(1,3) by (auto simp: bm_used_def)
    with bm.alloc_used [OF assms al'] bm.alloc_fresh [OF assms al'] bm.alloc_inv [OF assms al'] al'
    show ?thesis by simp
  qed
qed

definition bitmap_ex :: bitmap where
  "bitmap_ex = \<lparr>bm_nbits = 10, bm_v = [0xff, 0xfc]\<rparr>"

lemma bitmap_ex_wf: "bitmap_wf bitmap_ex"
  unfolding bitmap_wf_def
proof (intro conjI allI impI)
  fix i assume "unat (bm_nbits bitmap_ex) \<le> i \<and> i < 8 * length (bm_v bitmap_ex)"
  then have "10 \<le> i" and "i < 16" by (simp_all add: bitmap_ex_def)
  then have "i = 10 \<or> i = 11 \<or> i = 12 \<or> i = 13 \<or> i = 14 \<or> i = 15" by linarith
  then show "bm_bit bitmap_ex i" by (auto simp: bm_bit_def bitmap_ex_def)
qed (simp_all add: bitmap_ex_def)

theorem bitmap_alloc_first_clear_witness:
  "bitmap_alloc bitmap_ex = Inr (Ret 8, bitmap_ex\<lparr>bm_v := [0xff, 0xfd]\<rparr>) \<and> 8 \<notin> bm_used bitmap_ex"
proof -
  have "bitmap_alloc bitmap_ex = Inr (Ret 8, bitmap_ex\<lparr>bm_v := [0xff, 0xfd]\<rparr>)"
    by code_simp
  with bitmap_alloc_first_clear [OF bitmap_ex_wf] show ?thesis by simp
qed

text \<open>
  A bitmap of any size below the 32-bit limit is created empty and well-formed when both
  allocations succeed: the bits beyond its size are set, so that they are never handed out, and a
  failed allocation gives a null pointer.
\<close>

theorem bitmap_create_empty:
  assumes "unat nbits + 7 < 4294967296"
  shows "(\<exists>b. bitmap_create True True nbits = Inr (Some b) \<and> bitmap_wf b \<and> bm_cap b = unat nbits \<and> bm_used b = {})
    \<and> bitmap_create False v nbits = Inr None \<and> bitmap_create b False nbits = Inr None"
  using bitmap_create_spec [OF assms] by (auto simp: bitmap_create_def bm_cap_def Let_def)

theorem bitmap_create_empty_witness:
  "\<exists>b. bitmap_create True True 2304 = Inr (Some b) \<and> bitmap_wf b \<and> bm_used b = {}"
  using bitmap_create_empty [of 2304 True True] by auto

text \<open>
  Clearing the bit that \<open>bitmap_alloc\<close> has just returned gives back exactly the bitmap before
  the allocation.
\<close>

theorem bitmap_alloc_unmark:
  assumes "bitmap_wf b" and "bitmap_alloc b = Inr (Ret i, b')"
  shows "bitmap_unmark b' i = Inr b"
proof -
  note R = bitmap_alloc_Ret [OF assms]
  have i: "unat i < 8 * length (bm_v b)" using bitmap_wf_bound [OF assms(1) R(1)] .
  have "bitmap_unmark b' i = Inr (bm_clearbit b' (unat i))"
    using bitmap_wf_setbit [OF assms(1) R(1)] R(1) i
    by (simp add: R(4) bitmap_unmark_spec u32_less_eq_unat bm_bit_setbit)
  also have "bm_clearbit b' (unat i) = b" unfolding R(4) by (rule clear_setbit [OF i R(2)])
  finally show ?thesis .
qed

theorem bitmap_alloc_unmark_witness:
  "bitmap_unmark (bitmap_ex\<lparr>bm_v := [0xff, 0xfd]\<rparr>) 8 = Inr bitmap_ex"
proof -
  have "bitmap_alloc bitmap_ex = Inr (Ret 8, bitmap_ex\<lparr>bm_v := [0xff, 0xfd]\<rparr>)"
    by code_simp
  then show ?thesis by (rule bitmap_alloc_unmark [OF bitmap_ex_wf])
qed

end
