(* ===== verification/Machine.thy ===== *)
theory Machine
  imports Prelude
begin

text \<open>
  The machine the paging code sees: page arithmetic and the address map of
  \<open>kern/arch/mips/include/vm.h\<close>, the two page table indices of \<open>kern/include/pt.h\<close>, and
  memory as the kernel reaches it through the direct-mapped segment \<open>kseg0\<close>, a function
  from kernel virtual addresses to bytes. Block operations on memory are written with an
  unsigned distance (\<open>a - base < len\<close>), which is the C loop's range even at the top of the
  address space.
\<close>

definition PAGE_SIZE :: u32 where "PAGE_SIZE = 4096"
definition PAGE_FRAME :: u32 where "PAGE_FRAME = 0xfffff000"
definition MIPS_KSEG0 :: u32 where "MIPS_KSEG0 = 0x80000000"
definition USERSPACETOP :: u32 where "USERSPACETOP = MIPS_KSEG0"
definition USERSTACK :: u32 where "USERSTACK = USERSPACETOP"

definition PADDR_TO_KVADDR :: "paddr \<Rightarrow> vaddr" where
  "PADDR_TO_KVADDR p = p + MIPS_KSEG0"

definition OUTER_PT_INDEX :: "vaddr \<Rightarrow> u32" where
  "OUTER_PT_INDEX v = drop_bit 22 v"

definition INNER_PT_INDEX :: "vaddr \<Rightarrow> u32" where
  "INNER_PT_INDEX v = drop_bit 12 v AND 0x3FF"

definition COREMAP_INDEX :: "paddr \<Rightarrow> u32" where
  "COREMAP_INDEX p = p div PAGE_SIZE"

subsection \<open>Memory\<close>

type_synonym mem = "u32 \<Rightarrow> u8"

definition bzero :: "u32 \<Rightarrow> u32 \<Rightarrow> mem \<Rightarrow> mem" where
  "bzero base len m = (\<lambda>a. if a - base < len then 0 else m a)"

definition memmove :: "u32 \<Rightarrow> u32 \<Rightarrow> u32 \<Rightarrow> mem \<Rightarrow> mem" where
  "memmove dst src len m = (\<lambda>a. if a - dst < len then m (src + (a - dst)) else m a)"

text \<open>The content of the page at a kernel address, and memory with that page replaced.\<close>

definition get_page :: "mem \<Rightarrow> u32 \<Rightarrow> u8 list" where
  "get_page m base = map (\<lambda>k. m (base + of_nat k)) [0..<4096]"

definition put_page :: "u32 \<Rightarrow> u8 list \<Rightarrow> mem \<Rightarrow> mem" where
  "put_page base pg m = (\<lambda>a. if a - base < PAGE_SIZE then pg ! unat (a - base) else m a)"

definition zero_page :: "u8 list" where
  "zero_page = replicate 4096 0"

lemma length_get_page [simp]: "length (get_page m base) = 4096"
  by (simp add: get_page_def)

lemma get_page_cong:
  "(\<And>k. k < 4096 \<Longrightarrow> m (base + of_nat k) = m' (base' + of_nat k)) \<Longrightarrow> get_page m base = get_page m' base'"
  by (simp add: get_page_def)

lemma of_nat_less_PAGE_SIZE: "k < 4096 \<Longrightarrow> (of_nat k :: u32) < PAGE_SIZE"
  by (simp add: PAGE_SIZE_def u32_less_eq_unat unat_of_nat_u32)

lemma get_put_page_same:
  assumes "length pg = 4096"
  shows "get_page (put_page base pg m) base = pg"
proof (rule nth_equalityI)
  fix k assume "k < length (get_page (put_page base pg m) base)"
  then have "k < 4096" by simp
  then show "get_page (put_page base pg m) base ! k = pg ! k"
    by (simp add: get_page_def put_page_def of_nat_less_PAGE_SIZE unat_of_nat_u32)
qed (use assms in simp)

lemma get_page_bzero: "get_page (bzero base PAGE_SIZE m) base = zero_page"
  by (rule nth_equalityI) (simp_all add: get_page_def bzero_def zero_page_def of_nat_less_PAGE_SIZE)

subsection \<open>Page alignment\<close>

abbreviation page_aligned :: "u32 \<Rightarrow> bool" where
  "page_aligned a \<equiv> a AND PAGE_FRAME = a"

lemma PAGE_FRAME_mask: "PAGE_FRAME = NOT (mask 12)"
  by (simp add: PAGE_FRAME_def mask_eq_exp_minus_1)

lemma page_aligned_bit: "page_aligned a \<longleftrightarrow> (\<forall>n<12. \<not> bit a n)"
proof
  assume "page_aligned a"
  then have "\<And>n. bit (a AND NOT (mask 12)) n = bit a n" by (simp add: PAGE_FRAME_mask)
  then show "\<forall>n<12. \<not> bit a n" by (auto simp: bit_simps)
next
  assume "\<forall>n<12. \<not> bit a n"
  then show "page_aligned a"
    unfolding PAGE_FRAME_mask
    by (intro bit_eqI) (auto simp: bit_simps not_le dest: bit_imp_le_length)
qed

lemma page_aligned_masked [simp]: "page_aligned (a AND PAGE_FRAME)"
  by (simp add: and.assoc)

lemma page_aligned_mod: "page_aligned a \<longleftrightarrow> unat a mod 4096 = 0"
proof -
  have "(\<forall>n<12. \<not> bit a n) \<longleftrightarrow> take_bit 12 a = 0"
  proof
    assume "\<forall>n<12. \<not> bit a n"
    then show "take_bit 12 a = 0" by (intro bit_eqI) (auto simp: bit_take_bit_iff)
  next
    assume "take_bit 12 a = 0"
    then have "\<not> bit (take_bit 12 a) n" for n by simp
    then show "\<forall>n<12. \<not> bit a n" by (simp add: bit_take_bit_iff)
  qed
  then have "page_aligned a \<longleftrightarrow> take_bit 12 a = 0" by (simp only: page_aligned_bit)
  also have "\<dots> \<longleftrightarrow> unat (take_bit 12 a) = 0"
    by (simp add: unat_eq_0)
  also have "\<dots> \<longleftrightarrow> unat a mod 4096 = 0"
    by (simp add: take_bit_eq_mod unat_mod)
  finally show ?thesis .
qed

lemma bit_OUTER: "bit (OUTER_PT_INDEX v) n \<longleftrightarrow> bit v (22 + n)"
  by (simp add: OUTER_PT_INDEX_def bit_simps)

lemma mask_10: "(0x3FF :: u32) = mask 10"
  by (simp add: mask_eq_exp_minus_1)

lemma bit_INNER: "bit (INNER_PT_INDEX v) n \<longleftrightarrow> n < 10 \<and> bit v (12 + n)"
  unfolding INNER_PT_INDEX_def mask_10 by (auto simp: bit_simps)

text \<open>
  The outer index, the inner index and the offset are a partition of the address: two
  page-aligned addresses share a page table slot exactly when they are equal, and both
  indices stay inside the 1024-entry tables.
\<close>

lemma page_index_inj:
  assumes "page_aligned v" and "page_aligned w"
    and "OUTER_PT_INDEX v = OUTER_PT_INDEX w" and "INNER_PT_INDEX v = INNER_PT_INDEX w"
  shows "v = w"
proof (rule bit_eqI)
  fix n :: nat
  consider "n < 12" | k where "n = 12 + k" "k < 10" | k where "n = 22 + k"
  proof (cases "n < 22")
    case True then show ?thesis using that(1) that(2) [of "n - 12"] by linarith
  next
    case False then show ?thesis using that(3) [of "n - 22"] by linarith
  qed
  then show "bit v n \<longleftrightarrow> bit w n"
  proof cases
    case 1 then show ?thesis using assms(1,2) by (simp add: page_aligned_bit)
  next
    case 2 then show ?thesis using bit_INNER [of v k] bit_INNER [of w k] assms(4) by simp
  next
    case 3 then show ?thesis using bit_OUTER [of v k] bit_OUTER [of w k] assms(3) by simp
  qed
qed

lemma OUTER_bound: "unat (OUTER_PT_INDEX v) < 1024"
proof -
  have "unat (OUTER_PT_INDEX v) = unat v div 4194304"
    by (simp add: OUTER_PT_INDEX_def drop_bit_eq_div unat_div)
  moreover have "unat v < 1024 * 4194304" using unat_u32_bound [of v] by simp
  ultimately show ?thesis by (simp only: less_mult_imp_div_less)
qed

lemma INNER_bound: "unat (INNER_PT_INDEX v) < 1024"
proof -
  have "unat (INNER_PT_INDEX v) \<le> unat (0x3FF :: u32)"
    unfolding INNER_PT_INDEX_def by (rule word_and_le1 [THEN word_le_nat_alt [THEN iffD1]])
  then show ?thesis by simp
qed

end
