(* ===== verification/Vm_Tlb.thy ===== *)
theory Vm_Tlb
  imports Machine
begin

text \<open>
  The software-loaded TLB: the entry format of \<open>kern/arch/mips/include/tlb.h\<close> and the
  insertion and flush of \<open>kern/vm/vm_tlb.c\<close>, with the statistics counters of
  \<open>kern/include/vmstats.h\<close> they touch. The 64 hardware entries are a list of
  (EntryHi, EntryLo) pairs; \<open>tlb_read\<close> and \<open>tlb_write\<close> access one of them by index.
\<close>

definition NUM_TLB :: nat where "NUM_TLB = 64"
definition TLBLO_DIRTY :: u32 where "TLBLO_DIRTY = 0x400"
definition TLBLO_VALID :: u32 where "TLBLO_VALID = 0x200"
definition TLBHI_VPAGE :: u32 where "TLBHI_VPAGE = 0xfffff000"
definition TLBLO_PPAGE :: u32 where "TLBLO_PPAGE = 0xfffff000"

definition TLBHI_INVALID :: "nat \<Rightarrow> u32" where
  "TLBHI_INVALID entryno = push_bit 12 (0x80000 + of_nat entryno)"

definition TLBLO_INVALID :: u32 where "TLBLO_INVALID = 0"

record vmstats =
  vms_tlbfaults :: u32
  vms_tlbfaultsfree :: u32
  vms_tlbfaultsreplace :: u32
  vms_tlbinvalidations :: u32
  vms_tlbreloads :: u32
  vms_pagefaultszeroed :: u32
  vms_pagefaultsdisk :: u32
  vms_pagefaultself :: u32
  vms_pagefaultsswapfile :: u32
  vms_swapfilewrites :: u32

record tlb_state =
  tlb :: "(u32 \<times> u32) list"
  next_victim :: u8

definition tlb_read :: "tlb_state \<Rightarrow> nat \<Rightarrow> u32 \<times> u32" where
  "tlb_read t i = tlb t ! i"

definition tlb_write :: "u32 \<Rightarrow> u32 \<Rightarrow> nat \<Rightarrow> tlb_state \<Rightarrow> tlb_state" where
  "tlb_write ehi elo i t = t\<lparr>tlb := (tlb t)[i := (ehi, elo)]\<rparr>"

definition tlb_getrrvictim :: "tlb_state \<Rightarrow> int \<times> tlb_state" where
  "tlb_getrrvictim t =
     (let victim = uint (next_victim t) in
      (victim, t\<lparr>next_victim := (next_victim t + 1) mod of_nat NUM_TLB\<rparr>))"

fun vmtlb_insert_loop ::
  "vaddr \<Rightarrow> paddr \<Rightarrow> bool \<Rightarrow> nat list \<Rightarrow> tlb_state \<times> vmstats \<Rightarrow> int \<times> tlb_state \<times> vmstats" where
  "vmtlb_insert_loop vaddr paddr iswritable [] (t, vms) =
     (case tlb_getrrvictim t of (victim, t') \<Rightarrow>
        if victim = -1 then (EFAULT, t', vms)
        else
          let ehi = vaddr;
              elo = paddr OR TLBLO_VALID;
              elo' = (if iswritable then elo OR TLBLO_DIRTY else elo)
          in (0, tlb_write ehi elo' (nat victim) t',
                vms\<lparr>vms_tlbfaultsreplace := vms_tlbfaultsreplace vms + 1\<rparr>))"
| "vmtlb_insert_loop vaddr paddr iswritable (i # is) (t, vms) =
     (case tlb_read t i of (ehi, elo) \<Rightarrow>
        if elo AND TLBLO_VALID \<noteq> 0 then vmtlb_insert_loop vaddr paddr iswritable is (t, vms)
        else
          let elo' = (if iswritable then paddr OR TLBLO_DIRTY OR TLBLO_VALID
                      else paddr OR TLBLO_VALID)
          in (0, tlb_write vaddr elo' i t,
                vms\<lparr>vms_tlbfaultsfree := vms_tlbfaultsfree vms + 1\<rparr>))"

definition vmtlb_insert ::
  "vaddr \<Rightarrow> paddr \<Rightarrow> bool \<Rightarrow> tlb_state \<times> vmstats \<Rightarrow> int \<times> tlb_state \<times> vmstats" where
  "vmtlb_insert vaddr paddr iswritable = vmtlb_insert_loop vaddr paddr iswritable [0..<NUM_TLB]"

definition vmtlb_reset :: "tlb_state \<times> vmstats \<Rightarrow> tlb_state \<times> vmstats" where
  "vmtlb_reset = (\<lambda>(t, vms).
     (fold (\<lambda>i. tlb_write (TLBHI_INVALID i) TLBLO_INVALID i) [0..<NUM_TLB] t,
      vms\<lparr>vms_tlbinvalidations := vms_tlbinvalidations vms + 1\<rparr>))"

subsection \<open>What the hardware looks up\<close>

text \<open>
  A virtual address hits an entry when the page numbers agree and the valid bit is set;
  the frame is the page field of the low word, and a store is allowed when the dirty bit
  (the MIPS write enable) is set.
\<close>

definition tlb_hit :: "(u32 \<times> u32) \<Rightarrow> vaddr \<Rightarrow> bool" where
  "tlb_hit e v \<longleftrightarrow> fst e AND TLBHI_VPAGE = v AND TLBHI_VPAGE \<and> snd e AND TLBLO_VALID \<noteq> 0"

definition tlb_frame :: "(u32 \<times> u32) \<Rightarrow> paddr" where
  "tlb_frame e = snd e AND TLBLO_PPAGE"

definition tlb_writable :: "(u32 \<times> u32) \<Rightarrow> bool" where
  "tlb_writable e \<longleftrightarrow> snd e AND TLBLO_DIRTY \<noteq> 0"

definition tlb_wf :: "tlb_state \<Rightarrow> bool" where
  "tlb_wf t \<longleftrightarrow> length (tlb t) = NUM_TLB \<and> unat (next_victim t) < NUM_TLB"

definition tlb_maps :: "tlb_state \<Rightarrow> vaddr \<Rightarrow> (u32 \<times> u32) set" where
  "tlb_maps t v = {e \<in> set (tlb t). tlb_hit e v}"

definition tlb_free :: "tlb_state \<Rightarrow> nat \<Rightarrow> bool" where
  "tlb_free t i \<longleftrightarrow> snd (tlb t ! i) AND TLBLO_VALID = 0"

definition tlb_elo :: "paddr \<Rightarrow> bool \<Rightarrow> u32" where
  "tlb_elo paddr iswritable = paddr OR TLBLO_VALID OR (if iswritable then TLBLO_DIRTY else 0)"

text \<open>No two entries answer for the same page: a second match is fatal on this processor.\<close>

definition tlb_unique :: "tlb_state \<Rightarrow> bool" where
  "tlb_unique t \<longleftrightarrow>
     (\<forall>i<NUM_TLB. \<forall>j<NUM_TLB. \<forall>v. tlb_hit (tlb t ! i) v \<and> tlb_hit (tlb t ! j) v \<longrightarrow> i = j)"

subsection \<open>Insertion\<close>

lemma find_none: "find P xs = None \<Longrightarrow> \<forall>x\<in>set xs. \<not> P x"
  by (simp add: find_None_iff)

lemma vmtlb_insert_loop_spec:
  "vmtlb_insert_loop v p w is (t, vms) =
     (case find (tlb_free t) is of
        Some i \<Rightarrow> (0, tlb_write v (tlb_elo p w) i t,
                    vms\<lparr>vms_tlbfaultsfree := vms_tlbfaultsfree vms + 1\<rparr>)
      | None \<Rightarrow> (0, tlb_write v (tlb_elo p w) (unat (next_victim t))
                     (t\<lparr>next_victim := (next_victim t + 1) mod of_nat NUM_TLB\<rparr>),
                    vms\<lparr>vms_tlbfaultsreplace := vms_tlbfaultsreplace vms + 1\<rparr>))"
proof (induction "is")
  case Nil
  have "uint (next_victim t) \<noteq> - 1" using uint_ge_0 [of "next_victim t"] by linarith
  then show ?case
    by (simp add: tlb_getrrvictim_def Let_def tlb_elo_def or.assoc)
next
  case (Cons i "is")
  obtain ehi elo where e: "tlb t ! i = (ehi, elo)" by fastforce
  show ?case
  proof (cases "elo AND TLBLO_VALID = 0")
    case True
    have "(if w then p OR TLBLO_DIRTY OR TLBLO_VALID else p OR TLBLO_VALID) = tlb_elo p w"
      by (simp add: tlb_elo_def or.assoc or.commute)
    with True show ?thesis by (simp add: tlb_read_def tlb_free_def e Let_def del: split_paired_All)
  next
    case False
    then show ?thesis using Cons by (simp add: tlb_read_def tlb_free_def e)
  qed
qed

lemma tlb_elo_bits:
  assumes "page_aligned p"
  shows "tlb_elo p w AND TLBLO_VALID \<noteq> 0" and "tlb_elo p w AND TLBLO_PPAGE = p"
    and "(tlb_elo p w AND TLBLO_DIRTY \<noteq> 0) = w"
proof -
  have V: "TLBLO_VALID = 2 ^ 9" and D: "TLBLO_DIRTY = 2 ^ 10" and P: "TLBLO_PPAGE = NOT (mask 12)"
    by (simp_all add: TLBLO_VALID_def TLBLO_DIRTY_def TLBLO_PPAGE_def mask_eq_exp_minus_1)
  from assms have p: "\<And>n. n < 12 \<Longrightarrow> \<not> bit p n" by (simp add: page_aligned_bit)
  have e: "bit (tlb_elo p w) n \<longleftrightarrow> bit p n \<or> n = 9 \<or> w \<and> n = 10" for n
  proof -
    have "bit (tlb_elo p w) n \<longleftrightarrow> bit p n \<or> bit (2 ^ 9 :: u32) n \<or> w \<and> bit (2 ^ 10 :: u32) n"
      unfolding tlb_elo_def V D by (cases w) (simp_all only: bit_or_iff if_True if_False, simp_all)
    then show ?thesis by (simp only: bit_exp_iff) auto
  qed
  show "tlb_elo p w AND TLBLO_VALID \<noteq> 0" "(tlb_elo p w AND TLBLO_DIRTY \<noteq> 0) = w"
    unfolding V D and_exp_eq_0 e using p [of 10] by auto
  show "tlb_elo p w AND TLBLO_PPAGE = p"
  proof (rule bit_eqI)
    fix n assume "possible_bit TYPE(32 word) n"
    then show "bit (tlb_elo p w AND TLBLO_PPAGE) n \<longleftrightarrow> bit p n"
      using p [of n] by (cases "n < 12") (auto simp: P bit_and_iff bit_not_iff bit_mask_iff e)
  qed
qed

definition tlb_slot :: "tlb_state \<Rightarrow> nat" where
  "tlb_slot t = (case find (tlb_free t) [0..<NUM_TLB] of Some i \<Rightarrow> i | None \<Rightarrow> unat (next_victim t))"

lemma tlb_slot_bound: "tlb_wf t \<Longrightarrow> tlb_slot t < NUM_TLB"
  by (auto simp: tlb_slot_def tlb_wf_def find_Some_iff split: option.splits)

lemma vmtlb_insert_frame:
  "vmtlb_insert v p w (t, vms) = (r, t', vms') \<Longrightarrow>
     r = 0 \<and> tlb t' = (tlb t)[tlb_slot t := (v, tlb_elo p w)]"
  by (auto simp: vmtlb_insert_def vmtlb_insert_loop_spec tlb_slot_def tlb_write_def
      split: option.splits)

lemma next_victim_bound: "unat ((n + 1) mod of_nat NUM_TLB :: u8) < NUM_TLB"
  by (simp add: NUM_TLB_def unat_mod)

lemma vmtlb_insert_wf:
  "tlb_wf t \<Longrightarrow> vmtlb_insert v p w (t, vms) = (r, t', vms') \<Longrightarrow> tlb_wf t'"
  using next_victim_bound
  by (auto simp: vmtlb_insert_def vmtlb_insert_loop_spec tlb_wf_def tlb_write_def
      split: option.splits)

lemma tlb_hit_new:
  "page_aligned p \<Longrightarrow> tlb_hit (v, tlb_elo p w) u \<longleftrightarrow> v AND TLBHI_VPAGE = u AND TLBHI_VPAGE"
  by (simp add: tlb_hit_def tlb_elo_bits)

lemma vmtlb_insert_unique:
  assumes wf: "tlb_wf t" and uniq: "tlb_unique t" and p: "page_aligned p"
    and miss: "tlb_maps t v = {}" and ins: "vmtlb_insert v p w (t, vms) = (r, t', vms')"
  shows "tlb_unique t'"
proof -
  let ?k = "tlb_slot t" and ?e = "(v, tlb_elo p w)"
  have len: "length (tlb t) = NUM_TLB" using wf by (simp add: tlb_wf_def)
  have t': "tlb t' = (tlb t)[?k := ?e]" using vmtlb_insert_frame [OF ins] by blast
  have nohit: "\<not> tlb_hit (tlb t ! i) u" if "i < NUM_TLB" "tlb_hit ?e u" for i u
  proof
    assume "tlb_hit (tlb t ! i) u"
    with that p have "tlb_hit (tlb t ! i) v" by (simp add: tlb_hit_new) (simp add: tlb_hit_def)
    moreover have "tlb t ! i \<in> set (tlb t)" using that len by simp
    ultimately show False using miss unfolding tlb_maps_def by blast
  qed
  have nth: "tlb t' ! i = (if i = ?k then ?e else tlb t ! i)" if "i < NUM_TLB" for i
    using that len by (simp add: t' nth_list_update)
  show ?thesis
    unfolding tlb_unique_def
  proof (intro allI impI)
    fix i j u assume i: "i < NUM_TLB" and j: "j < NUM_TLB"
      and h: "tlb_hit (tlb t' ! i) u \<and> tlb_hit (tlb t' ! j) u"
    show "i = j"
    proof (cases "i = ?k \<or> j = ?k")
      case True
      then show ?thesis using h nohit [of j u] nohit [of i u] i j by (auto simp: nth split: if_splits)
    next
      case False
      then show ?thesis using h uniq i j by (auto simp: nth tlb_unique_def)
    qed
  qed
qed

lemma vmtlb_insert_maps:
  assumes wf: "tlb_wf t" and p: "page_aligned p" and miss: "tlb_maps t v = {}"
    and ins: "vmtlb_insert v p w (t, vms) = (r, t', vms')"
  shows "tlb_maps t' v = {(v, tlb_elo p w)}"
proof -
  have "tlb t' = (tlb t)[tlb_slot t := (v, tlb_elo p w)]" using vmtlb_insert_frame [OF ins] by blast
  moreover have "tlb_slot t < length (tlb t)" using tlb_slot_bound [OF wf] wf by (simp add: tlb_wf_def)
  ultimately have "(v, tlb_elo p w) \<in> set (tlb t')" and "set (tlb t') \<subseteq> insert (v, tlb_elo p w) (set (tlb t))"
    by (simp_all add: set_update_memI set_update_subset_insert)
  with miss p show ?thesis by (auto simp: tlb_maps_def tlb_hit_new)
qed

lemma vmtlb_insert_others:
  assumes ins: "vmtlb_insert v p w (t, vms) = (r, t', vms')" and p: "page_aligned p"
    and u: "u AND TLBHI_VPAGE \<noteq> v AND TLBHI_VPAGE"
  shows "tlb_maps t' u \<subseteq> tlb_maps t u"
proof -
  have "set (tlb t') \<subseteq> insert (v, tlb_elo p w) (set (tlb t))"
    using vmtlb_insert_frame [OF ins] by (simp add: set_update_subset_insert)
  with u p show ?thesis by (auto simp: tlb_maps_def tlb_hit_new)
qed

subsection \<open>Flush\<close>

lemma tlb_write_sel [simp]:
  "tlb (tlb_write h l i t) = (tlb t)[i := (h, l)]" "next_victim (tlb_write h l i t) = next_victim t"
  by (simp_all add: tlb_write_def)

lemma tlb_write_fold:
  "n \<le> length (tlb t) \<Longrightarrow>
     tlb (fold (\<lambda>i. tlb_write (h i) l i) [0..<n] t) =
       map (\<lambda>i. (h i, l)) [0..<n] @ drop n (tlb t) \<and>
     next_victim (fold (\<lambda>i. tlb_write (h i) l i) [0..<n] t) = next_victim t"
proof (induction n)
  case (Suc n)
  then have IH: "tlb (fold (\<lambda>i. tlb_write (h i) l i) [0..<n] t) =
       map (\<lambda>i. (h i, l)) [0..<n] @ drop n (tlb t)"
    "next_victim (fold (\<lambda>i. tlb_write (h i) l i) [0..<n] t) = next_victim t" by simp_all
  have "drop n (tlb t) = tlb t ! n # drop (Suc n) (tlb t)" using Suc.prems by (simp add: Cons_nth_drop_Suc)
  with IH show ?case by (simp add: list_update_append)
qed simp

lemma vmtlb_reset_tlb:
  "tlb_wf t \<Longrightarrow> tlb (fst (vmtlb_reset (t, vms))) = map (\<lambda>i. (TLBHI_INVALID i, TLBLO_INVALID)) [0..<NUM_TLB]
     \<and> next_victim (fst (vmtlb_reset (t, vms))) = next_victim t"
  using tlb_write_fold [of NUM_TLB t TLBHI_INVALID TLBLO_INVALID]
  by (simp add: vmtlb_reset_def tlb_wf_def)

lemma vmtlb_reset_maps: "tlb_wf t \<Longrightarrow> tlb_maps (fst (vmtlb_reset (t, vms))) v = {}"
  by (auto simp: tlb_maps_def vmtlb_reset_tlb tlb_hit_def TLBLO_INVALID_def)

lemma vmtlb_reset_wf: "tlb_wf t \<Longrightarrow> tlb_wf (fst (vmtlb_reset (t, vms)))"
  using vmtlb_reset_tlb [of t vms] by (simp add: tlb_wf_def)

lemma vmtlb_reset_unique: "tlb_wf t \<Longrightarrow> tlb_unique (fst (vmtlb_reset (t, vms)))"
  by (auto simp: tlb_unique_def vmtlb_reset_tlb tlb_hit_def TLBLO_INVALID_def)

subsection \<open>Properties\<close>


definition tlb_ex :: tlb_state where
  "tlb_ex = \<lparr>tlb = replicate NUM_TLB (0, 0), next_victim = 0\<rparr>"

definition vmstats_ex :: vmstats where
  "vmstats_ex = \<lparr>vms_tlbfaults = 0, vms_tlbfaultsfree = 0, vms_tlbfaultsreplace = 0, vms_tlbinvalidations = 0,
     vms_tlbreloads = 0, vms_pagefaultszeroed = 0, vms_pagefaultsdisk = 0, vms_pagefaultself = 0,
     vms_pagefaultsswapfile = 0, vms_swapfilewrites = 0\<rparr>"

lemma tlb_ex_wf: "tlb_wf tlb_ex" and tlb_ex_maps: "tlb_maps tlb_ex v = {}" and tlb_ex_unique: "tlb_unique tlb_ex"
  by (auto simp: tlb_wf_def tlb_ex_def NUM_TLB_def tlb_maps_def tlb_hit_def tlb_unique_def)


text \<open>
  \<open>vmtlb_reset\<close> leaves no valid entry: after it no address of any process hits, each slot holds
  its own invalid tag, the round-robin position is kept and one invalidation is counted.
\<close>

theorem vmtlb_reset_correct:
  assumes "tlb_wf t"
  shows "case vmtlb_reset (t, vms) of (t', vms') \<Rightarrow>
    (\<forall>v. tlb_maps t' v = {}) \<and> tlb_wf t' \<and> tlb_unique t' \<and> next_victim t' = next_victim t \<and>
    (\<forall>i<NUM_TLB. tlb t' ! i = (TLBHI_INVALID i, TLBLO_INVALID)) \<and>
    vms' = vms\<lparr>vms_tlbinvalidations := vms_tlbinvalidations vms + 1\<rparr>"
proof -
  obtain t' vms' where e: "vmtlb_reset (t, vms) = (t', vms')" by fastforce
  moreover from e have "vms' = vms\<lparr>vms_tlbinvalidations := vms_tlbinvalidations vms + 1\<rparr>"
    by (simp add: vmtlb_reset_def)
  ultimately show ?thesis
    using vmtlb_reset_tlb [OF assms, of vms] vmtlb_reset_maps [OF assms, of vms] vmtlb_reset_wf [OF assms, of vms]
      vmtlb_reset_unique [OF assms, of vms] by simp
qed

theorem vmtlb_reset_correct_witness:
  "tlb_maps (fst (vmtlb_reset (tlb_ex\<lparr>tlb := (0x400000, 0x5200) # replicate 63 (0, 0)\<rparr>, vmstats_ex))) 0x400000 = {}
   \<and> tlb_maps (tlb_ex\<lparr>tlb := (0x400000, 0x5200) # replicate 63 (0, 0)\<rparr>) 0x400000 \<noteq> {}"
proof -
  let ?t = "tlb_ex\<lparr>tlb := (0x400000, 0x5200) # replicate 63 (0, 0)\<rparr>"
  have "tlb_wf ?t" by (simp add: tlb_wf_def tlb_ex_def NUM_TLB_def)
  from vmtlb_reset_correct [OF this, of vmstats_ex] show ?thesis
    by (auto simp: tlb_maps_def tlb_hit_def TLBLO_VALID_def split: prod.splits)
qed

end
