(* ===== verification/Segments.thy ===== *)
theory Segments
  imports Machine
begin

text \<open>
  The segment descriptors of \<open>kern/include/segments.h\<close> and \<open>kern/vm/segments.c\<close>: the
  lookup of the segment that holds an address and the computation of where in the
  executable, and how much of it, the page of a faulting address comes from. The array of
  an address space is a list; a vnode pointer is a number, the null pointer \<open>None\<close>.
\<close>

definition NUM_SEGMENTS :: nat where "NUM_SEGMENTS = 3"
definition STACK_PAGES :: u32 where "STACK_PAGES = 18"

record segment =
  vbase :: vaddr
  vtop :: vaddr
  npages :: u32
  readable :: bool
  writable :: bool
  executable :: bool
  elf_file :: "nat option"
  elf_segment_start :: u32
  elf_base_offset :: u32

fun segments_valid_address_loop :: "segment list \<Rightarrow> vaddr \<Rightarrow> nat list \<Rightarrow> int" where
  "segments_valid_address_loop segs vaddr [] = EINVAL"
| "segments_valid_address_loop segs vaddr (i # is) =
     (let s = segs ! i in
      if vbase s \<le> vaddr \<and> vaddr \<le> vtop s then 0
      else segments_valid_address_loop segs vaddr is)"

definition segments_valid_address :: "segment list \<Rightarrow> vaddr \<Rightarrow> int" where
  "segments_valid_address segs vaddr = segments_valid_address_loop segs vaddr [0..<NUM_SEGMENTS]"

fun segments_find_segment_loop :: "segment list \<Rightarrow> vaddr \<Rightarrow> nat list \<Rightarrow> segment option" where
  "segments_find_segment_loop segs vaddr [] = None"
| "segments_find_segment_loop segs vaddr (i # is) =
     (let s = segs ! i in
      if vbase s \<le> vaddr \<and> vaddr \<le> vtop s then Some s
      else segments_find_segment_loop segs vaddr is)"

definition segments_find_segment :: "segment list \<Rightarrow> vaddr \<Rightarrow> segment option" where
  "segments_find_segment segs vaddr = segments_find_segment_loop segs vaddr [0..<NUM_SEGMENTS]"

text \<open>The pointer arguments of \<open>segments_before_load\<close> are a triple in and a triple out.\<close>

definition segments_before_load ::
  "segment \<Rightarrow> vaddr \<Rightarrow> paddr \<Rightarrow> u32 \<Rightarrow> u32 \<Rightarrow> paddr \<times> u32 \<times> u32" where
  "segments_before_load s vaddr paddr elf_offset page_size =
     (let page_index = (vaddr - vbase s) div PAGE_SIZE in
      if page_index = 0 then
        (paddr + elf_base_offset s, elf_segment_start s, PAGE_SIZE - elf_base_offset s)
      else if page_index < npages s then
        let first_psize = PAGE_SIZE - elf_base_offset s in
        (paddr, elf_segment_start s + first_psize + (page_index - 1) * PAGE_SIZE, PAGE_SIZE)
      else (paddr, elf_offset, page_size))"

subsection \<open>Lookup\<close>

definition seg_covers :: "segment \<Rightarrow> vaddr \<Rightarrow> bool" where
  "seg_covers s v \<longleftrightarrow> vbase s \<le> v \<and> v \<le> vtop s"

lemma segments_find_segment_loop_find:
  "segments_find_segment_loop segs v is = find (\<lambda>s. seg_covers s v) (map ((!) segs) is)"
  by (induction "is") (simp_all add: Let_def seg_covers_def)

lemma segments_valid_address_loop_find:
  "segments_valid_address_loop segs v is = 0 \<longleftrightarrow> segments_find_segment_loop segs v is \<noteq> None"
  by (induction "is") (simp_all add: Let_def)

lemma segments_valid_address_range: "segments_valid_address_loop segs v is \<in> {0, EINVAL}"
  by (induction "is") (simp_all add: Let_def)

lemma segments_find_segment_eq:
  assumes "length segs = NUM_SEGMENTS"
  shows "segments_find_segment segs v = find (\<lambda>s. seg_covers s v) segs"
  using assms map_nth [of segs]
  by (simp add: segments_find_segment_def segments_find_segment_loop_find)

lemma segments_find_segment_Some:
  "length segs = NUM_SEGMENTS \<Longrightarrow> segments_find_segment segs v = Some s \<Longrightarrow> s \<in> set segs \<and> seg_covers s v"
  by (auto simp: segments_find_segment_eq find_Some_iff)

subsection \<open>Demand loading agrees with loading the segment at once\<close>

text \<open>
  The byte of the file that belongs at virtual address \<open>a\<close> of a segment whose file image
  starts at \<open>elf_segment_start\<close> and whose first byte is at \<open>vbase + elf_base_offset\<close>.
\<close>

definition seg_file_offset :: "segment \<Rightarrow> vaddr \<Rightarrow> u32" where
  "seg_file_offset s a = elf_segment_start s + (a - (vbase s + elf_base_offset s))"

text \<open>What one demand load puts at physical address \<open>a\<close>: the file offset it reads from.\<close>

definition load_file_offset :: "paddr \<times> u32 \<times> u32 \<Rightarrow> paddr \<Rightarrow> u32 option" where
  "load_file_offset ld a =
     (case ld of (pa, off, sz) \<Rightarrow> if a - pa < sz then Some (off + (a - pa)) else None)"

lemma word_div_mult_eq:
  fixes d :: u32
  assumes "unat d mod 4096 = 0"
  shows "d div 4096 * 4096 = d"
  using assms word_mod_div_equality [of d 4096] by (simp add: word_arith_nat_mod)

lemma load_file_offset_before_load:
  fixes k :: u32
  assumes al: "unat (v - vbase s) mod 4096 = 0" and np: "(v - vbase s) div PAGE_SIZE < npages s"
    and bo: "elf_base_offset s < PAGE_SIZE" and k: "k < PAGE_SIZE"
  shows "load_file_offset (segments_before_load s v p eo ps) (p + k) =
     (if v = vbase s \<and> k < elf_base_offset s then None else Some (seg_file_offset s (v + k)))"
proof (cases "v = vbase s")
  case True
  have sub: "k - b < PAGE_SIZE - b \<longleftrightarrow> \<not> k < b" if "b < PAGE_SIZE" for b :: u32
  proof -
    have "unat (PAGE_SIZE - b) = 4096 - unat b"
      using that by (simp add: PAGE_SIZE_def u32_less_eq_unat unat_sub_if')
    moreover have "unat (k - b) = (if unat b \<le> unat k then unat k - unat b else unat k + 4294967296 - unat b)"
      by (simp add: unat_sub_if')
    moreover have "unat b < 4096" "unat k < 4096"
      using that k by (simp_all add: PAGE_SIZE_def u32_less_eq_unat)
    ultimately show ?thesis by (auto simp: u32_less_eq_unat split: if_splits)
  qed
  have "segments_before_load s v p eo ps =
      (p + elf_base_offset s, elf_segment_start s, PAGE_SIZE - elf_base_offset s)"
    by (simp add: segments_before_load_def True)
  then show ?thesis
    using True sub [OF bo] by (simp add: load_file_offset_def seg_file_offset_def)
next
  case False
  have d: "(v - vbase s) div PAGE_SIZE * PAGE_SIZE = v - vbase s"
    using al by (simp add: PAGE_SIZE_def word_div_mult_eq)
  with False have "(v - vbase s) div PAGE_SIZE \<noteq> 0" by auto
  then have "segments_before_load s v p eo ps =
      (p, elf_segment_start s + (PAGE_SIZE - elf_base_offset s) +
          ((v - vbase s) div PAGE_SIZE - 1) * PAGE_SIZE, PAGE_SIZE)"
    using np by (simp add: segments_before_load_def Let_def)
  moreover have "((v - vbase s) div PAGE_SIZE - 1) * PAGE_SIZE = v - vbase s - PAGE_SIZE"
    by (simp add: left_diff_distrib d)
  ultimately show ?thesis
    using False k by (simp add: load_file_offset_def seg_file_offset_def)
qed


definition seg_ex :: segment where
  "seg_ex = \<lparr>vbase = 0x400000, vtop = 0x402000, npages = 2, readable = True, writable = False,
     executable = True, elf_file = Some 1, elf_segment_start = 0x74, elf_base_offset = 0x74\<rparr>"


text \<open>
  C34: \<open>segments_find_segment\<close> returns the first of the three segments whose bounds hold the address
  and null when there is none, and \<open>segments_valid_address\<close> returns 0 exactly when it finds one,
  \<open>EINVAL\<close> otherwise.
\<close>

theorem segments_find_segment_first:
  assumes "length segs = NUM_SEGMENTS"
  shows "(case segments_find_segment segs v of
      None \<Rightarrow> (\<forall>s\<in>set segs. \<not> (vbase s \<le> v \<and> v \<le> vtop s)) \<and> segments_valid_address segs v = EINVAL
    | Some s \<Rightarrow> (\<exists>i<NUM_SEGMENTS. s = segs ! i \<and> vbase s \<le> v \<and> v \<le> vtop s \<and>
          (\<forall>j<i. \<not> (vbase (segs ! j) \<le> v \<and> v \<le> vtop (segs ! j)))) \<and> segments_valid_address segs v = 0)"
proof (cases "segments_find_segment segs v")
  case None
  then have "segments_valid_address_loop segs v [0..<NUM_SEGMENTS] \<noteq> 0"
    using segments_valid_address_loop_find [of segs v "[0..<NUM_SEGMENTS]"] by (simp add: segments_find_segment_def)
  then have "segments_valid_address segs v = EINVAL"
    using segments_valid_address_range [of segs v "[0..<NUM_SEGMENTS]"] by (auto simp: segments_valid_address_def)
  moreover have "\<forall>s\<in>set segs. \<not> (vbase s \<le> v \<and> v \<le> vtop s)"
    using None by (auto simp: segments_find_segment_eq [OF assms] find_None_iff seg_covers_def)
  ultimately show ?thesis using None by simp
next
  case (Some s)
  then have "segments_valid_address segs v = 0"
    using segments_valid_address_loop_find [of segs v "[0..<NUM_SEGMENTS]"]
    by (simp add: segments_find_segment_def segments_valid_address_def)
  moreover have "\<exists>i<NUM_SEGMENTS. s = segs ! i \<and> vbase s \<le> v \<and> v \<le> vtop s \<and>
          (\<forall>j<i. \<not> (vbase (segs ! j) \<le> v \<and> v \<le> vtop (segs ! j)))"
    using Some assms by (auto simp: segments_find_segment_eq [OF assms] find_Some_iff seg_covers_def)
  ultimately show ?thesis using Some by simp
qed

theorem segments_find_segment_first_witness:
  "segments_find_segment [seg_ex, seg_ex\<lparr>vbase := 0x402000\<rparr>, seg_ex] 0x401000 = Some seg_ex \<and>
   segments_valid_address [seg_ex, seg_ex\<lparr>vbase := 0x402000\<rparr>, seg_ex] 0x401000 = 0"
proof -
  let ?l = "[seg_ex, seg_ex\<lparr>vbase := 0x402000\<rparr>, seg_ex]"
  have "segments_find_segment ?l 0x401000 = Some seg_ex"
    by (simp add: segments_find_segment_def NUM_SEGMENTS_def upt_rec seg_ex_def)
  with segments_find_segment_first [of ?l "0x401000"] show ?thesis by (simp add: NUM_SEGMENTS_def)
qed



text \<open>
  Well-formed segments: three of them, each with its file image starting inside its first page.
  Then a demand load never writes outside the frame it was given.
\<close>

definition segs_ok :: "segment list \<Rightarrow> bool" where
  "segs_ok segs \<longleftrightarrow> length segs = NUM_SEGMENTS \<and> (\<forall>s\<in>set segs. elf_base_offset s < PAGE_SIZE)"

lemma segs_ok_find: "segs_ok segs \<Longrightarrow> segments_find_segment segs v = Some s \<Longrightarrow> elf_base_offset s < PAGE_SIZE"
  using segments_find_segment_Some [of segs v s] by (simp add: segs_ok_def)

lemma segments_before_load_within:
  assumes bo: "elf_base_offset s < PAGE_SIZE" and ld: "segments_before_load s v p eo PAGE_SIZE = (pa, off, sz)"
    and a: "a - pa < sz"
  shows "a - p < PAGE_SIZE"
proof (cases "(v - vbase s) div PAGE_SIZE = 0")
  case True
  with ld have pa: "pa = p + elf_base_offset s" and sz: "sz = PAGE_SIZE - elf_base_offset s"
    by (auto simp: segments_before_load_def)
  from bo have b: "unat (elf_base_offset s) < 4096" by (simp add: PAGE_SIZE_def u32_less_eq_unat)
  have "unat sz = 4096 - unat (elf_base_offset s)"
    using b unfolding sz PAGE_SIZE_def by (simp add: unat_sub_if')
  with a have "unat (a - pa) < 4096 - unat (elf_base_offset s)" by (simp add: u32_less_eq_unat)
  moreover have "a - p = (a - pa) + elf_base_offset s" by (simp add: pa)
  moreover have "unat ((a - pa) + elf_base_offset s) = unat (a - pa) + unat (elf_base_offset s)"
    using b calculation(1) by (intro unat_add_u32_le) linarith
  ultimately have "unat (a - p) < 4096" by (simp only: less_diff_conv)
  then show ?thesis by (simp add: PAGE_SIZE_def u32_less_eq_unat)
next
  case False
  with ld a show ?thesis by (auto simp: segments_before_load_def Let_def split: if_splits)
qed

end
