(* ===== verification/Uio.thy ===== *)
theory Uio
  imports Machine
begin

text \<open>
  The transfer descriptor of \<open>kern/include/uio.h\<close> and \<open>kern/lib/uio.c\<close>. The array of
  remaining \<open>iovec\<close>s is a list whose head is the entry \<open>uio_iov\<close> points at;
  \<open>uio_space\<close> is an address space pointer.
\<close>

datatype uio_rw = UIO_READ | UIO_WRITE

datatype uio_seg = UIO_USERISPACE | UIO_USERSPACE | UIO_SYSSPACE

record iovec =
  iov_base :: u32
  iov_len :: u32

record uio =
  uio_iov :: "iovec list"
  uio_iovcnt :: u32
  uio_offset :: u64
  uio_resid :: u32
  uio_segflg :: uio_seg
  uio_rw :: uio_rw
  uio_space :: "vaddr option"

definition uio_kinit :: "u32 \<Rightarrow> u32 \<Rightarrow> u64 \<Rightarrow> uio_rw \<Rightarrow> uio" where
  "uio_kinit kbuf len pos rw =
     \<lparr>uio_iov = [\<lparr>iov_base = kbuf, iov_len = len\<rparr>], uio_iovcnt = 1, uio_offset = pos,
      uio_resid = len, uio_segflg = UIO_SYSSPACE, uio_rw = rw, uio_space = None\<rparr>"

end
