(* ===== verification/Vmstate.thy ===== *)
theory Vmstate
  imports Bitmap Vm_Tlb Segments Uio
begin

text \<open>
  The state the paging code shares. C globals become the fields of \<open>kstate\<close>: the coremap,
  its size and the FIFO replacement queue of \<open>kern/vm/coremap.c\<close> (a queue node is the index
  of the coremap entry it points at), the swap file and its bitmap of
  \<open>kern/vm/swapfile.c\<close>, the statistics, the TLB, the memory as seen through \<open>kseg0\<close>, the
  boot allocator's \<open>firstpaddr\<close> and \<open>lastpaddr\<close>, and the live address spaces by the
  kernel address of their \<open>struct addrspace\<close>. An inner page table carries the kernel
  address of the block it was allocated in.

  Vnode operations are dispatched through function pointers; \<open>vnode_ops\<close> holds what the
  paging code calls, over an abstract file system state \<open>'f\<close>. \<open>VOP_READ\<close> fills memory and
  \<open>VOP_WRITE\<close> reads it; both return the error number and the updated \<open>uio\<close>.
\<close>

record pt_entry =
  pte_paddr :: paddr
  pte_valid :: bool
  pte_swapped :: bool

record inner_pt =
  ipt_kva :: vaddr
  ipt :: "u32 \<Rightarrow> pt_entry"

record addrspace =
  segments :: "segment list"
  page_table :: "u32 \<Rightarrow> inner_pt option"

record coremap_entry =
  cme_as :: "vaddr option"
  cme_vaddr :: vaddr
  cme_paddr :: paddr
  cme_is_free :: bool
  cme_alloc_size :: u32

record 'f kstate =
  vms :: vmstats
  ktlb :: tlb_state
  coremap :: "coremap_entry list"
  num_frames :: u32
  replacement_queue :: "nat list"
  ases :: "vaddr \<Rightarrow> addrspace option"
  fsys :: 'f
  swapfile :: nat
  swapfile_freeentries :: bitmap
  kmem :: mem
  curproc :: "vaddr option option"
  vm_initialized :: bool
  firstpaddr :: paddr
  lastpaddr :: paddr

record 'f vnode_ops =
  vop_read :: "nat \<Rightarrow> uio \<Rightarrow> 'f \<Rightarrow> mem \<Rightarrow> int \<times> uio \<times> 'f \<times> mem"
  vop_write :: "nat \<Rightarrow> uio \<Rightarrow> 'f \<Rightarrow> mem \<Rightarrow> int \<times> uio \<times> 'f"
  vfs_close :: "nat \<Rightarrow> 'f \<Rightarrow> 'f"

subsection \<open>Page table access\<close>

text \<open>
  \<open>pte_of\<close> is the abstract content of the two-level table; \<open>pt_get\<close> is the function of
  \<open>kern/vm/pt.c\<close>: it asserts that the address space is not null, and the pointer it computes
  is only usable when the address space is live and its inner table exists.
\<close>

definition pte_of :: "'f kstate \<Rightarrow> vaddr \<Rightarrow> vaddr \<Rightarrow> pt_entry option" where
  "pte_of st a v =
     (case ases st a of None \<Rightarrow> None
      | Some A \<Rightarrow> map_option (\<lambda>t. ipt t (INNER_PT_INDEX v)) (page_table A (OUTER_PT_INDEX v)))"

definition pt_get :: "vaddr option \<Rightarrow> vaddr \<Rightarrow> 'f kstate \<Rightarrow> pt_entry res" where
  "pt_get as v st =
     (case as of None \<Rightarrow> Inl KAssertFail
      | Some a \<Rightarrow>
        (case ases st a of None \<Rightarrow> Inl UseAfterFree
         | Some A \<Rightarrow>
           (case page_table A (OUTER_PT_INDEX v) of None \<Rightarrow> Inl NullDeref
            | Some t \<Rightarrow> Inr (ipt t (INNER_PT_INDEX v)))))"

text \<open>A store through the pointer \<open>pt_get\<close> returned.\<close>

definition pt_store :: "vaddr \<Rightarrow> vaddr \<Rightarrow> pt_entry \<Rightarrow> 'f kstate \<Rightarrow> 'f kstate" where
  "pt_store a v e st =
     (case ases st a of None \<Rightarrow> st
      | Some A \<Rightarrow>
        (case page_table A (OUTER_PT_INDEX v) of None \<Rightarrow> st
         | Some t \<Rightarrow>
           st\<lparr>ases := (ases st)(a \<mapsto> A\<lparr>page_table := (page_table A)(OUTER_PT_INDEX v \<mapsto>
             t\<lparr>ipt := (ipt t)(INNER_PT_INDEX v := e)\<rparr>)\<rparr>)\<rparr>))"

lemma pt_get_Inr: "pt_get as v st = Inr e \<longleftrightarrow> (\<exists>a. as = Some a \<and> pte_of st a v = Some e)"
  by (auto simp: pt_get_def pte_of_def split: option.splits)

lemma pt_store_sel [simp]:
  "vms (pt_store a v e st) = vms st" "ktlb (pt_store a v e st) = ktlb st"
  "coremap (pt_store a v e st) = coremap st" "num_frames (pt_store a v e st) = num_frames st"
  "replacement_queue (pt_store a v e st) = replacement_queue st"
  "fsys (pt_store a v e st) = fsys st" "swapfile (pt_store a v e st) = swapfile st"
  "swapfile_freeentries (pt_store a v e st) = swapfile_freeentries st"
  "kmem (pt_store a v e st) = kmem st" "curproc (pt_store a v e st) = curproc st"
  "vm_initialized (pt_store a v e st) = vm_initialized st"
  "firstpaddr (pt_store a v e st) = firstpaddr st" "lastpaddr (pt_store a v e st) = lastpaddr st"
  by (simp_all add: pt_store_def split: option.splits)

lemma pte_of_pt_store:
  assumes "pte_of st a v \<noteq> None" and "page_aligned v" and "page_aligned w"
  shows "pte_of (pt_store a v e st) b w = (if (b, w) = (a, v) then Some e else pte_of st b w)"
  using assms page_index_inj [of w v]
  by (auto simp: pte_of_def pt_store_def split: option.splits)

lemma pt_store_ases:
  "ases (pt_store a v e st) b = None \<longleftrightarrow> ases st b = None"
  "map_option segments (ases (pt_store a v e st) b) = map_option segments (ases st b)"
  by (auto simp: pt_store_def split: option.splits)

lemma pt_store_domain: "pte_of (pt_store a v e st) b w = None \<longleftrightarrow> pte_of st b w = None"
  by (auto simp: pte_of_def pt_store_def split: option.splits)

end
