(* ===== verification/Ram.thy ===== *)
theory Ram
  imports Vmstate
begin

text \<open>
  The boot-time allocator of \<open>kern/arch/mips/vm/ram.c\<close>. \<open>ram_bootstrap\<close> takes the size the
  main bus reports and the first free virtual address that \<open>start.S\<close> saved.
\<close>

definition ram_bootstrap :: "u32 \<Rightarrow> vaddr \<Rightarrow> 'f kstate \<Rightarrow> 'f kstate" where
  "ram_bootstrap mainbus_ramsize firstfree st =
     (let ramsize = (if mainbus_ramsize > 512 * 1024 * 1024 then 512 * 1024 * 1024
                     else mainbus_ramsize)
      in st\<lparr>lastpaddr := ramsize, firstpaddr := firstfree - MIPS_KSEG0\<rparr>)"

definition ram_stealmem :: "u32 \<Rightarrow> 'f kstate \<Rightarrow> paddr \<times> 'f kstate" where
  "ram_stealmem n st =
     (let size = n * PAGE_SIZE in
      if firstpaddr st + size > lastpaddr st then (0, st)
      else (firstpaddr st, st\<lparr>firstpaddr := firstpaddr st + size\<rparr>))"

definition ram_getsize :: "'f kstate \<Rightarrow> paddr" where
  "ram_getsize st = lastpaddr st"

definition ram_getfirstfree :: "'f kstate \<Rightarrow> paddr \<times> 'f kstate" where
  "ram_getfirstfree st = (firstpaddr st, st\<lparr>firstpaddr := 0, lastpaddr := 0\<rparr>)"

text \<open>
  A request that fits is served from the front: the block lies inside the memory that was
  free, starts page-aligned and is disjoint from what is left.
\<close>

lemma ram_stealmem_ok:
  assumes fit: "unat (firstpaddr st) + unat n * 4096 \<le> unat (lastpaddr st)"
  shows "ram_stealmem n st =
    (firstpaddr st, st\<lparr>firstpaddr := firstpaddr st + n * PAGE_SIZE\<rparr>)"
    and "unat (firstpaddr st + n * PAGE_SIZE) = unat (firstpaddr st) + unat n * 4096"
proof -
  have "unat (lastpaddr st) < 4294967296" by (rule unat_u32_bound)
  with fit have "unat n * 4096 < 4294967296" by linarith
  then have m: "unat (n * PAGE_SIZE) = unat n * 4096" by (simp add: PAGE_SIZE_def unat_mult_u32)
  have "unat (firstpaddr st) + unat n * 4096 < 4294967296"
    using fit unat_u32_bound [of "lastpaddr st"] by linarith
  with m show s: "unat (firstpaddr st + n * PAGE_SIZE) = unat (firstpaddr st) + unat n * 4096"
    by (simp add: unat_add_u32_le)
  have "\<not> firstpaddr st + n * PAGE_SIZE > lastpaddr st"
    using fit by (simp add: u32_less_eq_unat s)
  then show "ram_stealmem n st = (firstpaddr st, st\<lparr>firstpaddr := firstpaddr st + n * PAGE_SIZE\<rparr>)"
    by (simp add: ram_stealmem_def Let_def)
qed

lemma ram_stealmem_fail:
  assumes "unat (lastpaddr st) < unat (firstpaddr st) + unat n * 4096"
    and "unat (firstpaddr st) + unat n * 4096 < 4294967296"
  shows "ram_stealmem n st = (0, st)"
proof -
  have "unat (n * PAGE_SIZE) = unat n * 4096"
    using assms(2) by (simp add: PAGE_SIZE_def unat_mult_u32)
  with assms have "unat (lastpaddr st) < unat (firstpaddr st + n * PAGE_SIZE)"
    by (simp add: unat_add_u32_le)
  then show ?thesis by (simp add: ram_stealmem_def Let_def u32_less_eq_unat)
qed

end
