(* ===== verification/Swapfile.thy ===== *)
theory Swapfile
  imports Vmstate
begin

text \<open>
  The swap file of \<open>kern/vm/swapfile.c\<close>: page-sized slots of one file, handed out by the
  bitmap. The spinlock around the bitmap is not modelled, every operation runs to its end.

  \<open>swapfile_init\<close> takes the outcome of \<open>vfs_open\<close> (an error number, or the vnode and the
  file system after the call) and of the two allocations of \<open>bitmap_create\<close>.
\<close>

definition SWAPFILE_MAX_PAGES :: u32 where "SWAPFILE_MAX_PAGES = 9 * 1024 * 1024 div PAGE_SIZE"

definition swapfile_init ::
  "(nat \<times> 'f) cret \<Rightarrow> bool \<Rightarrow> bool \<Rightarrow> 'f kstate \<Rightarrow> (int \<times> 'f kstate) res" where
  "swapfile_init vfs_open kmalloc_b kmalloc_v st =
     (case vfs_open of
        Err result \<Rightarrow> Inr (result, st)
      | Ret (v, f) \<Rightarrow>
          let st1 = st\<lparr>swapfile := v, fsys := f\<rparr> in
          rbind (bitmap_create kmalloc_b kmalloc_v SWAPFILE_MAX_PAGES) (\<lambda>r.
            case r of None \<Rightarrow> Inl PanicCall
            | Some b \<Rightarrow> Inr (0, st1\<lparr>swapfile_freeentries := b\<rparr>)))"

text \<open>The slot number stored through \<open>swap_index\<close> is the value of \<open>Ret\<close>.\<close>

definition swapfile_writepage ::
  "'f vnode_ops \<Rightarrow> paddr \<Rightarrow> 'f kstate \<Rightarrow> (u32 cret \<times> 'f kstate) res" where
  "swapfile_writepage ops pageaddr st =
     rbind (bitmap_alloc (swapfile_freeentries st)) (\<lambda>(result, b).
       case result of
         Err e \<Rightarrow> Inl PanicCall
       | Ret index \<Rightarrow>
           let ku = uio_kinit (PADDR_TO_KVADDR pageaddr) PAGE_SIZE (ucast (index * PAGE_SIZE)) UIO_WRITE in
           (case vop_write ops (swapfile st) ku (fsys st) (kmem st) of (result, ku', f) \<Rightarrow>
              let st1 = st\<lparr>swapfile_freeentries := b, fsys := f\<rparr> in
              if result \<noteq> 0 then Inr (Err result, st1)
              else Inr (Ret index,
                st1\<lparr>vms := (vms st1)\<lparr>vms_swapfilewrites := vms_swapfilewrites (vms st1) + 1\<rparr>\<rparr>)))"

definition swapfile_readpage ::
  "'f vnode_ops \<Rightarrow> paddr \<Rightarrow> u32 \<Rightarrow> 'f kstate \<Rightarrow> (int \<times> 'f kstate) res" where
  "swapfile_readpage ops frame swap_index st =
     (if \<not> swap_index < SWAPFILE_MAX_PAGES then Inl KAssertFail
      else
        let ku = uio_kinit (PADDR_TO_KVADDR frame) PAGE_SIZE (ucast (swap_index * PAGE_SIZE)) UIO_READ in
        (case vop_read ops (swapfile st) ku (fsys st) (kmem st) of (result, ku', f, m) \<Rightarrow>
           let st1 = st\<lparr>fsys := f, kmem := m\<rparr> in
           if result \<noteq> 0 then Inr (result, st1)
           else
             rbind (bitmap_unmark (swapfile_freeentries st1) swap_index) (\<lambda>b.
               Inr (0, st1\<lparr>swapfile_freeentries := b,
                 vms := (vms st1)\<lparr>vms_pagefaultsswapfile := vms_pagefaultsswapfile (vms st1) + 1,
                                  vms_pagefaultsdisk := vms_pagefaultsdisk (vms st1) + 1\<rparr>\<rparr>))))"

definition swapfile_shutdown :: "'f vnode_ops \<Rightarrow> 'f kstate \<Rightarrow> 'f kstate" where
  "swapfile_shutdown ops st = st\<lparr>fsys := vfs_close ops (swapfile st) (fsys st)\<rparr>"

subsection \<open>What the swap file relies on\<close>

text \<open>
  The vnode layer's contract for the swap file, as \<open>vnode.h\<close> describes \<open>VOP_READ\<close> and
  \<open>VOP_WRITE\<close>: \<open>slot f i\<close> is the content of page \<open>i\<close> of the file when it has been written. A
  successful page write stores the page and keeps the other pages; reading a page that has been
  written succeeds and delivers it; reading any file changes memory only inside the buffer and
  leaves the swap file's content alone.
\<close>

abbreviation swap_uio :: "vaddr \<Rightarrow> u32 \<Rightarrow> uio_rw \<Rightarrow> uio" where
  "swap_uio kva i rw \<equiv> uio_kinit kva PAGE_SIZE (ucast (i * PAGE_SIZE)) rw"

definition swap_vnode_ok :: "'f vnode_ops \<Rightarrow> nat \<Rightarrow> ('f \<Rightarrow> nat \<Rightarrow> u8 list option) \<Rightarrow> bool" where
  "swap_vnode_ok ops sv slot \<longleftrightarrow>
     (\<forall>kva i f m u f'. i < SWAPFILE_MAX_PAGES \<longrightarrow>
        vop_write ops sv (swap_uio kva i UIO_WRITE) f m = (0, u, f') \<longrightarrow>
        slot f' = (slot f)(unat i \<mapsto> get_page m kva)) \<and>
     (\<forall>kva i f m pg. i < SWAPFILE_MAX_PAGES \<longrightarrow> slot f (unat i) = Some pg \<longrightarrow>
        (\<exists>u f'. vop_read ops sv (swap_uio kva i UIO_READ) f m = (0, u, f', put_page kva pg m))) \<and>
     (\<forall>v kva len off f m r u f' m'. vop_read ops v (uio_kinit kva len off UIO_READ) f m = (r, u, f', m') \<longrightarrow>
        slot f' = slot f \<and> (\<forall>a. \<not> a - kva < len \<longrightarrow> m' a = m a)) \<and>
     (\<forall>f i pg. slot f i = Some pg \<longrightarrow> length pg = 4096)"

text \<open>Writes to the swap file do not fail.\<close>

definition swap_writes_succeed :: "'f vnode_ops \<Rightarrow> nat \<Rightarrow> bool" where
  "swap_writes_succeed ops sv \<longleftrightarrow>
     (\<forall>kva i f m. i < SWAPFILE_MAX_PAGES \<longrightarrow> fst (vop_write ops sv (swap_uio kva i UIO_WRITE) f m) = 0)"

lemma swap_write:
  "swap_vnode_ok ops sv slot \<Longrightarrow> i < SWAPFILE_MAX_PAGES \<Longrightarrow>
   vop_write ops sv (swap_uio kva i UIO_WRITE) f m = (0, u, f') \<Longrightarrow>
   slot f' = (slot f)(unat i \<mapsto> get_page m kva)"
  unfolding swap_vnode_ok_def by auto

lemma swap_read:
  "swap_vnode_ok ops sv slot \<Longrightarrow> i < SWAPFILE_MAX_PAGES \<Longrightarrow> slot f (unat i) = Some pg \<Longrightarrow>
   \<exists>u f'. vop_read ops sv (swap_uio kva i UIO_READ) f m = (0, u, f', put_page kva pg m)"
  unfolding swap_vnode_ok_def by blast

lemma vnode_read_frame:
  "swap_vnode_ok ops sv slot \<Longrightarrow>
   vop_read ops v (uio_kinit kva len off UIO_READ) f m = (r, u, f', m') \<Longrightarrow>
   slot f' = slot f \<and> (\<forall>a. \<not> a - kva < len \<longrightarrow> m' a = m a)"
  unfolding swap_vnode_ok_def by blast

lemma swap_slot_length:
  "swap_vnode_ok ops sv slot \<Longrightarrow> slot f i = Some pg \<Longrightarrow> length pg = 4096"
  unfolding swap_vnode_ok_def by blast

subsection \<open>Functional behaviour\<close>

lemma SWAPFILE_MAX_PAGES_val: "SWAPFILE_MAX_PAGES = 2304"
  by (simp add: SWAPFILE_MAX_PAGES_def PAGE_SIZE_def)

definition swap_wf :: "'f kstate \<Rightarrow> bool" where
  "swap_wf st \<longleftrightarrow> bitmap_wf (swapfile_freeentries st) \<and> bm_nbits (swapfile_freeentries st) = SWAPFILE_MAX_PAGES"

lemma swapfile_writepage_Ret:
  assumes ok: "swap_vnode_ok ops (swapfile st) slot" and wf: "swap_wf st"
    and w: "swapfile_writepage ops p st = Inr (Ret i, st')"
  obtains f where "unat i \<notin> bm_used (swapfile_freeentries st)" and "i < SWAPFILE_MAX_PAGES"
    and "slot f = (slot (fsys st))(unat i \<mapsto> get_page (kmem st) (PADDR_TO_KVADDR p))"
    and "st' = st\<lparr>swapfile_freeentries := bm_setbit (swapfile_freeentries st) (unat i), fsys := f,
           vms := (vms st)\<lparr>vms_swapfilewrites := vms_swapfilewrites (vms st) + 1\<rparr>\<rparr>"
proof -
  from w obtain r b where a0: "bitmap_alloc (swapfile_freeentries st) = Inr (r, b)"
    by (auto simp: swapfile_writepage_def)
  with w obtain j where r: "r = Ret j" by (cases r) (simp_all add: swapfile_writepage_def)
  obtain e u f where e: "vop_write ops (swapfile st) (swap_uio (PADDR_TO_KVADDR p) j UIO_WRITE) (fsys st) (kmem st) = (e, u, f)"
    by (metis prod.collapse)
  with w a0 r have "e = 0 \<and> j = i" by (simp add: swapfile_writepage_def Let_def split: if_splits)
  with w a0 r e have al: "bitmap_alloc (swapfile_freeentries st) = Inr (Ret i, b)"
    and wr: "vop_write ops (swapfile st) (swap_uio (PADDR_TO_KVADDR p) i UIO_WRITE) (fsys st) (kmem st) = (0, u, f)"
    and st': "st' = st\<lparr>swapfile_freeentries := b, fsys := f,
           vms := (vms st)\<lparr>vms_swapfilewrites := vms_swapfilewrites (vms st) + 1\<rparr>\<rparr>"
    by (auto simp: swapfile_writepage_def Let_def)
  from bitmap_alloc_Ret [OF _ al] wf have i: "i < SWAPFILE_MAX_PAGES" "\<not> bm_bit (swapfile_freeentries st) (unat i)"
    "b = bm_setbit (swapfile_freeentries st) (unat i)"
    by (auto simp: swap_wf_def u32_less_eq_unat)
  show thesis
    by (rule that [of f]) (use i st' swap_write [OF ok i(1) wr] in \<open>simp_all add: bm_used_def\<close>)
qed

lemma swapfile_writepage_total:
  assumes wf: "swap_wf st" and free: "bm_used (swapfile_freeentries st) \<noteq> {..<unat SWAPFILE_MAX_PAGES}"
    and wok: "swap_writes_succeed ops (swapfile st)"
  shows "\<exists>i st'. swapfile_writepage ops p st = Inr (Ret i, st')"
proof -
  let ?b = "swapfile_freeentries st"
  from wf free have "\<not> (\<forall>i<unat (bm_nbits ?b). bm_bit ?b i)"
    by (auto simp: bm_used_def swap_wf_def)
  with wf obtain i b where al: "bitmap_alloc ?b = Inr (Ret i, b)"
    by (simp add: swap_wf_def bitmap_alloc_spec)
  with bitmap_alloc_Ret(1) [OF _ al] wf have "i < SWAPFILE_MAX_PAGES"
    by (simp add: swap_wf_def u32_less_eq_unat)
  with wok have "fst (vop_write ops (swapfile st) (swap_uio (PADDR_TO_KVADDR p) i UIO_WRITE) (fsys st) (kmem st)) = 0"
    by (simp add: swap_writes_succeed_def)
  then obtain u f where "vop_write ops (swapfile st) (swap_uio (PADDR_TO_KVADDR p) i UIO_WRITE) (fsys st) (kmem st) = (0, u, f)"
    by (metis prod.collapse)
  then show ?thesis
    by (simp add: swapfile_writepage_def al Let_def)
qed

lemma swapfile_readpage_written:
  assumes ok: "swap_vnode_ok ops (swapfile st) slot" and wf: "swap_wf st"
    and i: "unat i \<in> bm_used (swapfile_freeentries st)" and pg: "slot (fsys st) (unat i) = Some pg"
  obtains f where "slot f = slot (fsys st)"
    and "swapfile_readpage ops p i st =
      Inr (0, st\<lparr>fsys := f, kmem := put_page (PADDR_TO_KVADDR p) pg (kmem st),
        swapfile_freeentries := bm_clearbit (swapfile_freeentries st) (unat i),
        vms := (vms st)\<lparr>vms_pagefaultsswapfile := vms_pagefaultsswapfile (vms st) + 1,
                        vms_pagefaultsdisk := vms_pagefaultsdisk (vms st) + 1\<rparr>\<rparr>)"
proof -
  from i wf have ib: "i < SWAPFILE_MAX_PAGES" "i < bm_nbits (swapfile_freeentries st)"
      "bm_bit (swapfile_freeentries st) (unat i)"
    by (simp_all add: bm_used_def swap_wf_def u32_less_eq_unat)
  obtain u f where rd: "vop_read ops (swapfile st) (swap_uio (PADDR_TO_KVADDR p) i UIO_READ) (fsys st) (kmem st)
      = (0, u, f, put_page (PADDR_TO_KVADDR p) pg (kmem st))"
    using swap_read [OF ok ib(1) pg] by blast
  have "bitmap_unmark (swapfile_freeentries st) i = Inr (bm_clearbit (swapfile_freeentries st) (unat i))"
    using wf ib by (simp add: swap_wf_def bitmap_unmark_spec)
  with rd ib have "swapfile_readpage ops p i st =
      Inr (0, st\<lparr>fsys := f, kmem := put_page (PADDR_TO_KVADDR p) pg (kmem st),
        swapfile_freeentries := bm_clearbit (swapfile_freeentries st) (unat i),
        vms := (vms st)\<lparr>vms_pagefaultsswapfile := vms_pagefaultsswapfile (vms st) + 1,
                        vms_pagefaultsdisk := vms_pagefaultsdisk (vms st) + 1\<rparr>\<rparr>)"
    by (simp add: swapfile_readpage_def Let_def)
  with that vnode_read_frame [OF ok rd] show thesis by blast
qed

end
