(* ===== verification/Coremap.thy ===== *)
theory Coremap
  imports Ram Swapfile
begin

text \<open>
  The coremap of \<open>kern/vm/coremap.c\<close>: one entry per physical frame, a FIFO queue of the
  frames that hold user pages, and the eviction of the oldest one to the swap file. The lock
  \<open>coremap_lock\<close> is not modelled: every operation runs to its end.

  \<open>alloc_kpages\<close>, \<open>free_kpages\<close> (\<open>kern/vm/vm.c\<close>) and the large-block path of
  \<open>kmalloc\<close> (\<open>kern/vm/kmalloc.c\<close>) stand here because the coremap is below and above them:
  queue nodes come from the kernel heap, which takes its pages from the coremap. What the heap
  does for the small block of a queue node is a parameter of type \<open>kmalloc_out\<close>: no memory, a
  block of a page it already has, or a block of a page it asks \<open>alloc_kpages\<close> for. A page whose
  blocks are all free again stays with the heap.
\<close>

datatype kmalloc_out = KmNull | KmBlock | KmPage

definition queue_pop :: "'f kstate \<Rightarrow> nat option \<times> 'f kstate" where
  "queue_pop st =
     (case replacement_queue st of
        [] \<Rightarrow> (None, st)
      | i # q \<Rightarrow> (Some i, st\<lparr>replacement_queue := q\<rparr>))"

text \<open>
  The loop \<open>while (victim->is_free) victim = queue_pop();\<close> over the queue behind the victim: when
  the queue runs out, the next test dereferences the null pointer \<open>queue_pop\<close> returned.
\<close>

fun coremap_victim :: "coremap_entry list \<Rightarrow> nat \<Rightarrow> nat list \<Rightarrow> (nat \<times> nat list) res" where
  "coremap_victim cm victim q =
     (if cme_is_free (cm ! victim) then
        (case q of [] \<Rightarrow> Inl NullDeref | i # q' \<Rightarrow> coremap_victim cm i q')
      else Inr (victim, q))"

definition coremap_replace :: "'f vnode_ops \<Rightarrow> 'f kstate \<Rightarrow> (paddr \<times> 'f kstate) res" where
  "coremap_replace ops st =
     (case queue_pop st of
        (None, st1) \<Rightarrow> Inl KAssertFail
      | (Some first, st1) \<Rightarrow>
          rbind (coremap_victim (coremap st1) first (replacement_queue st1)) (\<lambda>(victim, q).
          let st2 = st1\<lparr>replacement_queue := q\<rparr>;
              ve = coremap st2 ! victim;
              paddr = cme_paddr ve in
          rbind (pt_get (cme_as ve) (cme_vaddr ve) st2) (\<lambda>entry.
          rbind (swapfile_writepage ops (cme_paddr ve) st2) (\<lambda>(res, st3).
          case res of
            Err e \<Rightarrow> Inl PanicCall
          | Ret index \<Rightarrow>
              let st4 = st3\<lparr>coremap := (coremap st3)[victim := (coremap st3 ! victim)\<lparr>cme_is_free := True\<rparr>]\<rparr>
              in Inr (paddr, pt_store (the (cme_as ve)) (cme_vaddr ve)
                               (entry\<lparr>pte_paddr := index, pte_swapped := True\<rparr>) st4)))))"

text \<open>
  The scan of \<open>coremap_kalloc\<close> for a run of free frames. It returns the last value of
  \<open>first\<close>, which the next round starts from, and the end of the run when there is one.
\<close>

fun kalloc_scan :: "coremap_entry list \<Rightarrow> u32 \<Rightarrow> nat \<Rightarrow> nat list \<Rightarrow> nat \<times> nat option" where
  "kalloc_scan cm np first [] = (first, None)"
| "kalloc_scan cm np first (i # is) =
     (if cme_is_free (cm ! i) then
        let first' = (if i = 0 \<or> \<not> cme_is_free (cm ! (i - 1)) then i else first) in
        if (i - first') + 1 \<ge> unat np then (first', Some i)
        else kalloc_scan cm np first' is
      else kalloc_scan cm np first is)"

definition kalloc_mark_step :: "u32 \<Rightarrow> nat \<Rightarrow> nat \<Rightarrow> coremap_entry list \<Rightarrow> coremap_entry list" where
  "kalloc_mark_step np first i cm =
     (let cm' = (if i = 0 then cm[first + i := (cm ! (first + i))\<lparr>cme_alloc_size := np\<rparr>] else cm)
      in cm'[first + i := (cm' ! (first + i))\<lparr>cme_paddr := of_nat (first + i) * PAGE_SIZE,
                                              cme_is_free := False\<rparr>])"

definition kalloc_mark :: "u32 \<Rightarrow> nat \<Rightarrow> nat \<Rightarrow> coremap_entry list \<Rightarrow> coremap_entry list" where
  "kalloc_mark np first lst cm = fold (kalloc_mark_step np first) [0..<(lst - first) + 1] cm"

declare coremap_victim.simps [simp del]

lemma coremap_victim_queue: "coremap_victim cm v q = Inr (v', q') \<Longrightarrow> length q' \<le> length q"
proof (induction cm v q rule: coremap_victim.induct)
  case (1 cm v q)
  then show ?case
    by (subst (asm) (2) coremap_victim.simps) (fastforce split: list.split_asm if_split_asm)
qed

lemma swapfile_writepage_sel:
  assumes "swapfile_writepage ops p st = Inr (r, st')"
  shows "replacement_queue st' = replacement_queue st" and "coremap st' = coremap st"
    and "num_frames st' = num_frames st"
proof -
  from assms obtain r0 b where al: "bitmap_alloc (swapfile_freeentries st) = Inr (r0, b)"
    by (auto simp: swapfile_writepage_def)
  with assms obtain i where r0: "r0 = Ret i" by (cases r0) (simp_all add: swapfile_writepage_def)
  obtain e u f where "vop_write ops (swapfile st) (swap_uio (PADDR_TO_KVADDR p) i UIO_WRITE) (fsys st) (kmem st) = (e, u, f)"
    by (metis prod.collapse)
  with assms al r0 show "replacement_queue st' = replacement_queue st" "coremap st' = coremap st"
      "num_frames st' = num_frames st"
    by (auto simp: swapfile_writepage_def Let_def split: if_splits)
qed

lemma coremap_replace_Inr:
  assumes "coremap_replace ops st = Inr (p, st')"
  obtains v q victim q' a entry index st3
  where "replacement_queue st = v # q" and "coremap_victim (coremap st) v q = Inr (victim, q')"
    and "cme_as (coremap st ! victim) = Some a"
    and "pte_of st a (cme_vaddr (coremap st ! victim)) = Some entry"
    and "swapfile_writepage ops (cme_paddr (coremap st ! victim)) (st\<lparr>replacement_queue := q'\<rparr>) = Inr (Ret index, st3)"
    and "p = cme_paddr (coremap st ! victim)"
    and "st' = pt_store a (cme_vaddr (coremap st ! victim)) (entry\<lparr>pte_paddr := index, pte_swapped := True\<rparr>)
           (st3\<lparr>coremap := (coremap st)[victim := (coremap st ! victim)\<lparr>cme_is_free := True\<rparr>]\<rparr>)"
proof -
  from assms obtain v q where q: "replacement_queue st = v # q"
    by (auto simp: coremap_replace_def queue_pop_def split: list.splits)
  with assms obtain victim q' where v: "coremap_victim (coremap st) v q = Inr (victim, q')"
    by (auto simp: coremap_replace_def queue_pop_def)
  let ?ve = "coremap st ! victim" and ?st2 = "st\<lparr>replacement_queue := q'\<rparr>"
  from assms q v obtain entry where e: "pt_get (cme_as ?ve) (cme_vaddr ?ve) ?st2 = Inr entry"
    by (auto simp: coremap_replace_def queue_pop_def Let_def)
  then obtain a where a: "cme_as ?ve = Some a" "pte_of st a (cme_vaddr ?ve) = Some entry"
    by (auto simp: pt_get_Inr pte_of_def)
  from assms q v e obtain r st3 where w: "swapfile_writepage ops (cme_paddr ?ve) ?st2 = Inr (r, st3)"
    by (auto simp: coremap_replace_def queue_pop_def Let_def)
  from assms q v e w obtain index where "r = Ret index"
    by (cases r) (simp_all add: coremap_replace_def queue_pop_def Let_def)
  with assms q v e w a show thesis
    by (intro that [OF q v a])
      (auto simp: coremap_replace_def queue_pop_def Let_def swapfile_writepage_sel)
qed

lemma coremap_replace_shrinks:
  assumes "coremap_replace ops st = Inr (p, st')"
  shows "length (replacement_queue st') < length (replacement_queue st)"
  using assms
proof (cases rule: coremap_replace_Inr)
  case (1 v q victim q' a entry index st3)
  then show ?thesis
    using coremap_victim_queue [of "coremap st" v q victim q'] swapfile_writepage_sel(1) [OF 1(5)]
    by simp
qed

function coremap_kalloc_loop :: "'f vnode_ops \<Rightarrow> u32 \<Rightarrow> nat \<Rightarrow> 'f kstate \<Rightarrow> (paddr \<times> 'f kstate) res" where
  "coremap_kalloc_loop ops np first st =
     (case kalloc_scan (coremap st) np first [0..<unat (num_frames st)] of
        (first', Some lst) \<Rightarrow>
          Inr (of_nat first' * PAGE_SIZE, st\<lparr>coremap := kalloc_mark np first' lst (coremap st)\<rparr>)
      | (first', None) \<Rightarrow>
          (case coremap_replace ops st of
             Inl e \<Rightarrow> Inl e
           | Inr (p, st') \<Rightarrow> coremap_kalloc_loop ops np first' st'))"
  by pat_completeness auto
termination
  by (relation "measure (\<lambda>(ops, np, first, st). length (replacement_queue st))")
    (auto dest: coremap_replace_shrinks)

declare coremap_kalloc_loop.simps [simp del]

definition coremap_kalloc :: "'f vnode_ops \<Rightarrow> u32 \<Rightarrow> 'f kstate \<Rightarrow> (paddr \<times> 'f kstate) res" where
  "coremap_kalloc ops np st = coremap_kalloc_loop ops np 0 st"

text \<open>
  \<open>queue_push\<close> reads the head of the queue before it allocates the node. The allocation can
  evict a page, which pops and frees the head: the walk along the saved pointer then reads freed
  memory.
\<close>

definition queue_push :: "'f vnode_ops \<Rightarrow> kmalloc_out \<Rightarrow> nat \<Rightarrow> 'f kstate \<Rightarrow> (int \<times> 'f kstate) res" where
  "queue_push ops km entry st =
     (let head = replacement_queue st in
      case km of
        KmNull \<Rightarrow> Inr (ENOMEM, st)
      | KmBlock \<Rightarrow> Inr (0, st\<lparr>replacement_queue := head @ [entry]\<rparr>)
      | KmPage \<Rightarrow>
          rbind (coremap_kalloc ops 1 st) (\<lambda>(p, st1).
            if head = [] then Inr (0, st1\<lparr>replacement_queue := [entry]\<rparr>)
            else if replacement_queue st1 \<noteq> head then Inl UseAfterFree
            else Inr (0, st1\<lparr>replacement_queue := head @ [entry]\<rparr>)))"

function coremap_alloc :: "'f vnode_ops \<Rightarrow> kmalloc_out \<Rightarrow> vaddr \<Rightarrow> 'f kstate \<Rightarrow> (paddr \<times> 'f kstate) res" where
  "coremap_alloc ops km vaddr st =
     (case find (\<lambda>i. cme_is_free (coremap st ! i)) [0..<unat (num_frames st)] of
        Some i \<Rightarrow>
          (case curproc st of
             None \<Rightarrow> Inl NullDeref
           | Some as \<Rightarrow>
               let paddr = of_nat i * PAGE_SIZE;
                   st1 = st\<lparr>coremap := (coremap st)[i := (coremap st ! i)\<lparr>cme_paddr := paddr,
                           cme_is_free := False, cme_as := as, cme_vaddr := vaddr\<rparr>]\<rparr>
               in rbind (queue_push ops km i st1) (\<lambda>(r, st2). Inr (paddr, st2)))
      | None \<Rightarrow>
          (case coremap_replace ops st of
             Inl e \<Rightarrow> Inl e
           | Inr (p, st') \<Rightarrow> coremap_alloc ops km vaddr st'))"
  by pat_completeness auto
termination
  by (relation "measure (\<lambda>(ops, km, vaddr, st). length (replacement_queue st))")
    (auto dest: coremap_replace_shrinks)

declare coremap_alloc.simps [simp del]

definition coremap_free :: "paddr \<Rightarrow> 'f kstate \<Rightarrow> 'f kstate res" where
  "coremap_free paddr st =
     (let i = COREMAP_INDEX paddr in
      if \<not> i < num_frames st then Inl KAssertFail
      else Inr (st\<lparr>coremap := (coremap st)[unat i := (coremap st ! unat i)\<lparr>cme_is_free := True\<rparr>]\<rparr>))"

fun coremap_kfree_loop :: "nat list \<Rightarrow> coremap_entry list \<Rightarrow> coremap_entry list res" where
  "coremap_kfree_loop [] cm = Inr cm"
| "coremap_kfree_loop (i # is) cm =
     (if length cm \<le> i then Inl OutOfBounds
      else coremap_kfree_loop is (cm[i := (cm ! i)\<lparr>cme_is_free := True\<rparr>]))"

definition coremap_kfree :: "paddr \<Rightarrow> 'f kstate \<Rightarrow> 'f kstate res" where
  "coremap_kfree paddr st =
     (let i = COREMAP_INDEX paddr in
      if \<not> i < num_frames st then Inl KAssertFail
      else
        let nframes = cme_alloc_size (coremap st ! unat i) in
        rbind (coremap_kfree_loop [unat i..<unat i + unat nframes] (coremap st)) (\<lambda>cm.
          Inr (st\<lparr>coremap := cm\<rparr>)))"

subsection \<open>Kernel pages\<close>

definition alloc_kpages :: "'f vnode_ops \<Rightarrow> u32 \<Rightarrow> 'f kstate \<Rightarrow> (vaddr \<times> 'f kstate) res" where
  "alloc_kpages ops np st =
     (if vm_initialized st then
        rbind (coremap_kalloc ops np st) (\<lambda>(paddr, st1). Inr (PADDR_TO_KVADDR paddr, st1))
      else
        (case ram_stealmem np st of (paddr, st1) \<Rightarrow>
           if paddr = 0 then Inr (0, st1) else Inr (PADDR_TO_KVADDR paddr, st1)))"

definition free_kpages :: "vaddr \<Rightarrow> 'f kstate \<Rightarrow> 'f kstate res" where
  "free_kpages addr st =
     (if vm_initialized st then coremap_kfree (addr - MIPS_KSEG0) st else Inr st)"

definition kmalloc_large :: "'f vnode_ops \<Rightarrow> u32 \<Rightarrow> 'f kstate \<Rightarrow> (vaddr option \<times> 'f kstate) res" where
  "kmalloc_large ops sz st =
     (let np = (sz + PAGE_SIZE - 1) div PAGE_SIZE in
      rbind (alloc_kpages ops np st) (\<lambda>(address, st1).
        if address = 0 then Inr (None, st1)
        else if address mod PAGE_SIZE \<noteq> 0 then Inl KAssertFail
        else Inr (Some address, st1)))"

definition kfree_large :: "vaddr \<Rightarrow> 'f kstate \<Rightarrow> 'f kstate res" where
  "kfree_large ptr st =
     (if ptr = 0 then Inr st
      else if ptr mod PAGE_SIZE \<noteq> 0 then Inl KAssertFail
      else free_kpages ptr st)"

text \<open>
  \<open>coremap_init\<close>: \<open>raw\<close> is the uninitialised content of the array, of which the loop only sets
  \<open>is_free\<close>. The array is a large block for every machine with at least 103 frames.
\<close>

definition coremap_init :: "'f vnode_ops \<Rightarrow> (nat \<Rightarrow> coremap_entry) \<Rightarrow> 'f kstate \<Rightarrow> 'f kstate res" where
  "coremap_init ops raw st =
     (let nf = ram_getsize st div PAGE_SIZE in
      rbind (kmalloc_large ops (20 * nf) st) (\<lambda>(ptr, st1).
        case ptr of
          None \<Rightarrow> Inl PanicCall
        | Some c \<Rightarrow>
            (case ram_getfirstfree st1 of (firstfree, st2) \<Rightarrow>
               Inr (st2\<lparr>num_frames := nf,
                 coremap := map (\<lambda>i. if of_nat i < COREMAP_INDEX firstfree
                                      then (raw i)\<lparr>cme_is_free := False\<rparr>
                                      else (raw i)\<lparr>cme_is_free := True\<rparr>) [0..<unat nf]\<rparr>))))"

end
