(* ===== verification/Vm_Inv.thy ===== *)
theory Vm_Inv
  imports Coremap
begin

text \<open>
  The abstract view of the paging system and its invariant. A page of an address space is
  resident or swapped according to its page table entry; \<open>vmem\<close> is its content, wherever it
  is. The invariant ties the three data structures together: a resident page owns a frame of the
  coremap, a swapped page owns a used slot of the swap file, no two pages share one, and the
  replacement queue lists frames of resident pages.
\<close>

definition resident :: "'f kstate \<Rightarrow> vaddr \<Rightarrow> vaddr \<Rightarrow> paddr \<Rightarrow> bool" where
  "resident st a v p \<longleftrightarrow> page_aligned v \<and>
     (\<exists>e. pte_of st a v = Some e \<and> pte_valid e \<and> \<not> pte_swapped e \<and> pte_paddr e = p)"

definition swapped :: "'f kstate \<Rightarrow> vaddr \<Rightarrow> vaddr \<Rightarrow> u32 \<Rightarrow> bool" where
  "swapped st a v i \<longleftrightarrow> page_aligned v \<and>
     (\<exists>e. pte_of st a v = Some e \<and> pte_valid e \<and> pte_swapped e \<and> pte_paddr e = i)"

definition vmem :: "('f \<Rightarrow> nat \<Rightarrow> u8 list option) \<Rightarrow> 'f kstate \<Rightarrow> vaddr \<Rightarrow> vaddr \<Rightarrow> u8 list option" where
  "vmem slot st a v =
     (case pte_of st a v of
        None \<Rightarrow> None
      | Some e \<Rightarrow>
          if \<not> page_aligned v \<or> \<not> pte_valid e then None
          else if pte_swapped e then slot (fsys st) (unat (pte_paddr e))
          else Some (get_page (kmem st) (PADDR_TO_KVADDR (pte_paddr e))))"

definition frame_of :: "coremap_entry \<Rightarrow> vaddr \<Rightarrow> vaddr \<Rightarrow> bool" where
  "frame_of e a v \<longleftrightarrow> \<not> cme_is_free e \<and> cme_as e = Some a \<and> cme_vaddr e = v"

definition frames_ok :: "'f kstate \<Rightarrow> bool" where
  "frames_ok st \<longleftrightarrow> length (coremap st) = unat (num_frames st) \<and> unat (num_frames st) \<le> 131072"

definition resident_ok :: "'f kstate \<Rightarrow> bool" where
  "resident_ok st \<longleftrightarrow> (\<forall>a v p. resident st a v p \<longrightarrow>
     (\<exists>i<length (coremap st). p = of_nat i * PAGE_SIZE \<and> frame_of (coremap st ! i) a v))"

definition swapped_ok :: "('f \<Rightarrow> nat \<Rightarrow> u8 list option) \<Rightarrow> 'f kstate \<Rightarrow> bool" where
  "swapped_ok slot st \<longleftrightarrow> (\<forall>a v i. swapped st a v i \<longrightarrow>
     unat i \<in> bm_used (swapfile_freeentries st) \<and> slot (fsys st) (unat i) \<noteq> None)"

definition swapped_inj :: "'f kstate \<Rightarrow> bool" where
  "swapped_inj st \<longleftrightarrow> (\<forall>a v b w i. swapped st a v i \<and> swapped st b w i \<longrightarrow> (a, v) = (b, w))"

text \<open>
  \<open>queue_ok X\<close> exempts the frames in \<open>X\<close>: between \<open>coremap_alloc\<close> and the update of the page
  table entry, the new frame is queued and its page is not resident yet.
\<close>

definition queue_ok :: "nat set \<Rightarrow> 'f kstate \<Rightarrow> bool" where
  "queue_ok X st \<longleftrightarrow> distinct (replacement_queue st) \<and>
     (\<forall>i\<in>set (replacement_queue st). i < length (coremap st) \<and> \<not> cme_is_free (coremap st ! i) \<and>
        (i \<in> X \<or> (\<exists>a. cme_as (coremap st ! i) = Some a \<and> cme_paddr (coremap st ! i) = of_nat i * PAGE_SIZE \<and>
                     resident st a (cme_vaddr (coremap st ! i)) (cme_paddr (coremap st ! i)))))"

definition vm_inv_but :: "nat set \<Rightarrow> ('f \<Rightarrow> nat \<Rightarrow> u8 list option) \<Rightarrow> 'f kstate \<Rightarrow> bool" where
  "vm_inv_but X slot st \<longleftrightarrow> frames_ok st \<and> resident_ok st \<and> swapped_ok slot st \<and> swapped_inj st \<and>
     queue_ok X st \<and> swap_wf st"

definition vm_inv :: "('f \<Rightarrow> nat \<Rightarrow> u8 list option) \<Rightarrow> 'f kstate \<Rightarrow> bool" where
  "vm_inv slot st \<longleftrightarrow> vm_inv_but {} slot st"

lemmas vm_inv_defs = vm_inv_def vm_inv_but_def

subsection \<open>Page table entries under state updates\<close>

lemma pte_of_upd [simp]:
  "pte_of (st\<lparr>coremap := c\<rparr>) = pte_of st" "pte_of (st\<lparr>replacement_queue := q\<rparr>) = pte_of st"
  "pte_of (st\<lparr>fsys := f\<rparr>) = pte_of st" "pte_of (st\<lparr>swapfile_freeentries := b\<rparr>) = pte_of st"
  "pte_of (st\<lparr>vms := s\<rparr>) = pte_of st" "pte_of (st\<lparr>kmem := m\<rparr>) = pte_of st"
  "pte_of (st\<lparr>ktlb := t\<rparr>) = pte_of st"
  by (intro ext; simp add: pte_of_def)+

lemma resident_cong: "pte_of st = pte_of st' \<Longrightarrow> resident st = resident st'"
  by (intro ext) (simp add: resident_def)

lemma swapped_cong: "pte_of st = pte_of st' \<Longrightarrow> swapped st = swapped st'"
  by (intro ext) (simp add: swapped_def)

lemma resident_upd [simp]:
  "resident (st\<lparr>coremap := c\<rparr>) = resident st"
  "resident (st\<lparr>replacement_queue := q\<rparr>) = resident st"
  "resident (st\<lparr>fsys := f\<rparr>) = resident st"
  "resident (st\<lparr>swapfile_freeentries := b\<rparr>) = resident st"
  "resident (st\<lparr>vms := s\<rparr>) = resident st"
  "resident (st\<lparr>kmem := m\<rparr>) = resident st"
  "resident (st\<lparr>ktlb := t\<rparr>) = resident st"
  by (rule resident_cong, simp)+

lemma swapped_upd [simp]:
  "swapped (st\<lparr>coremap := c\<rparr>) = swapped st"
  "swapped (st\<lparr>replacement_queue := q\<rparr>) = swapped st"
  "swapped (st\<lparr>fsys := f\<rparr>) = swapped st"
  "swapped (st\<lparr>swapfile_freeentries := b\<rparr>) = swapped st"
  "swapped (st\<lparr>vms := s\<rparr>) = swapped st"
  "swapped (st\<lparr>kmem := m\<rparr>) = swapped st"
  "swapped (st\<lparr>ktlb := t\<rparr>) = swapped st"
  by (rule swapped_cong, simp)+

lemma resident_store:
  assumes "pte_of st a w \<noteq> None" and "page_aligned w"
  shows "resident (pt_store a w e st) b u p \<longleftrightarrow>
    (if (b, u) = (a, w) then pte_valid e \<and> \<not> pte_swapped e \<and> pte_paddr e = p else resident st b u p)"
  using assms by (auto simp: resident_def pte_of_pt_store)

lemma swapped_store:
  assumes "pte_of st a w \<noteq> None" and "page_aligned w"
  shows "swapped (pt_store a w e st) b u i \<longleftrightarrow>
    (if (b, u) = (a, w) then pte_valid e \<and> pte_swapped e \<and> pte_paddr e = i else swapped st b u i)"
  using assms by (auto simp: swapped_def pte_of_pt_store)

lemma resident_not_swapped: "resident st a v p \<Longrightarrow> \<not> swapped st a v i"
  by (auto simp: resident_def swapped_def)

lemma vmem_resident: "resident st a v p \<Longrightarrow> vmem slot st a v = Some (get_page (kmem st) (PADDR_TO_KVADDR p))"
  by (auto simp: vmem_def resident_def)

lemma vmem_swapped: "swapped st a v i \<Longrightarrow> vmem slot st a v = slot (fsys st) (unat i)"
  by (auto simp: vmem_def swapped_def)

lemma inv_upd_queue [simp]:
  "frames_ok (st\<lparr>replacement_queue := q\<rparr>) = frames_ok st"
  "resident_ok (st\<lparr>replacement_queue := q\<rparr>) = resident_ok st"
  "swapped_ok slot (st\<lparr>replacement_queue := q\<rparr>) = swapped_ok slot st"
  "swapped_inj (st\<lparr>replacement_queue := q\<rparr>) = swapped_inj st"
  "swap_wf (st\<lparr>replacement_queue := q\<rparr>) = swap_wf st"
  by (simp_all add: frames_ok_def resident_ok_def swapped_ok_def swapped_inj_def swap_wf_def)

lemma vm_inv_but_upd [simp]:
  "vm_inv_but X slot (st\<lparr>ktlb := t\<rparr>) = vm_inv_but X slot st"
  "vm_inv_but X slot (st\<lparr>vms := s\<rparr>) = vm_inv_but X slot st"
  "vm_inv_but X slot (st\<lparr>kmem := m\<rparr>) = vm_inv_but X slot st"
  by (simp_all add: vm_inv_but_def frames_ok_def resident_ok_def swapped_ok_def swapped_inj_def queue_ok_def swap_wf_def)

lemma vmem_upd [simp]:
  "vmem slot (st\<lparr>coremap := c\<rparr>) = vmem slot st" "vmem slot (st\<lparr>replacement_queue := q\<rparr>) = vmem slot st"
  "vmem slot (st\<lparr>ktlb := t\<rparr>) = vmem slot st" "vmem slot (st\<lparr>vms := s\<rparr>) = vmem slot st"
  by (intro ext; simp add: vmem_def split: option.split)+

lemma vmem_cases:
  obtains (resident) p where "resident st a v p" | (swapped) i where "swapped st a v i"
  | (unmapped) "\<And>p. \<not> resident st a v p" and "\<And>i. \<not> swapped st a v i" and "vmem slot st a v = None"
proof (cases "vmem slot st a v")
  case None
  then show ?thesis using that vmem_resident by (metis option.simps(3))
next
  case (Some pg)
  then show ?thesis using that(1,2)
    by (auto simp: vmem_def resident_def swapped_def split: option.splits if_splits)
qed

lemma vmem_None: "(\<And>p. \<not> resident st a v p) \<Longrightarrow> (\<And>i. \<not> swapped st a v i) \<Longrightarrow> vmem slot st a v = None"
  by (auto simp: vmem_def resident_def swapped_def split: option.splits)

subsection \<open>Frames\<close>

lemma frame_addr_unat: "i < 131072 \<Longrightarrow> unat (of_nat i * PAGE_SIZE) = i * 4096"
proof -
  assume i: "i < 131072"
  then have "unat (of_nat i :: u32) = i" by (simp add: unat_of_nat_u32)
  then have "unat (of_nat i * PAGE_SIZE) = (i * unat PAGE_SIZE) mod 4294967296" by (simp only: unat_mult_u32)
  also have "unat PAGE_SIZE = 4096" by (simp add: PAGE_SIZE_def)
  also have "(i * 4096) mod 4294967296 = i * 4096" using i by (intro mod_less) linarith
  finally show ?thesis .
qed

lemma frame_addr_inj:
  "i < 131072 \<Longrightarrow> j < 131072 \<Longrightarrow> of_nat i * PAGE_SIZE = (of_nat j * PAGE_SIZE :: u32) \<Longrightarrow> i = j"
  by (metis frame_addr_unat mult_cancel2 zero_neq_numeral)

lemma frame_addr_aligned: "i < 131072 \<Longrightarrow> page_aligned (of_nat i * PAGE_SIZE)"
  by (simp add: page_aligned_mod frame_addr_unat)

text \<open>Two frames that differ have disjoint ranges of kernel addresses.\<close>

lemma frame_disjoint:
  assumes i: "i < 131072" and j: "j < 131072" and ne: "i \<noteq> j" and k: "k < 4096"
  shows "\<not> PADDR_TO_KVADDR (of_nat i * PAGE_SIZE) + of_nat k - PADDR_TO_KVADDR (of_nat j * PAGE_SIZE) < PAGE_SIZE"
proof
  let ?d = "of_nat i * PAGE_SIZE + of_nat k - of_nat j * PAGE_SIZE :: u32"
  assume "PADDR_TO_KVADDR (of_nat i * PAGE_SIZE) + of_nat k - PADDR_TO_KVADDR (of_nat j * PAGE_SIZE) < PAGE_SIZE"
  moreover have "PADDR_TO_KVADDR (of_nat i * PAGE_SIZE) + of_nat k - PADDR_TO_KVADDR (of_nat j * PAGE_SIZE) = ?d"
    by (simp add: PADDR_TO_KVADDR_def)
  ultimately have "unat ?d < unat PAGE_SIZE" by (simp only: u32_less_eq_unat)
  then have d: "unat ?d < 4096" by (simp add: PAGE_SIZE_def)
  have "of_nat j * PAGE_SIZE + ?d = of_nat i * PAGE_SIZE + (of_nat k :: u32)" by simp
  then have "unat (of_nat j * PAGE_SIZE + ?d) = unat (of_nat i * PAGE_SIZE + (of_nat k :: u32))" by simp
  moreover have "unat (of_nat j * PAGE_SIZE + ?d) = j * 4096 + unat ?d"
    using d j frame_addr_unat [OF j] by (subst unat_add_u32_le) linarith+
  moreover have "unat (of_nat i * PAGE_SIZE + (of_nat k :: u32)) = i * 4096 + k"
    using k i frame_addr_unat [OF i] unat_of_nat_u32 [of k] by (subst unat_add_u32_le) linarith+
  ultimately have "(j * 4096 + unat ?d) div 4096 = (i * 4096 + k) div 4096" by simp
  then show False using d k ne by simp
qed

lemma get_page_frame_cong:
  assumes "i < 131072" and "j < 131072" and "i \<noteq> j"
    and "\<And>a. \<not> a - PADDR_TO_KVADDR (of_nat j * PAGE_SIZE) < PAGE_SIZE \<Longrightarrow> m' a = m a"
  shows "get_page m' (PADDR_TO_KVADDR (of_nat i * PAGE_SIZE)) = get_page m (PADDR_TO_KVADDR (of_nat i * PAGE_SIZE))"
  using assms frame_disjoint by (intro get_page_cong) blast

lemma resident_frame:
  assumes "frames_ok st" and "resident_ok st" and "resident st a v p"
  obtains i where "i < length (coremap st)" and "i < 131072" and "p = of_nat i * PAGE_SIZE"
    and "frame_of (coremap st ! i) a v"
  using assms by (fastforce simp: frames_ok_def resident_ok_def)

end
