(* ===== verification/Vm_Evict.thy ===== *)
theory Vm_Evict
  imports Vm_Inv
begin

text \<open>
  Eviction is invisible to user programs: \<open>coremap_replace\<close> moves the content of the oldest
  resident page to the swap file, keeps the invariant and the content of every page, and
  frees one frame. \<open>evicts\<close> is what any sequence of evictions can change.
\<close>

definition as_shape :: "addrspace \<Rightarrow> segment list \<times> (u32 \<Rightarrow> vaddr option)" where
  "as_shape A = (segments A, \<lambda>oi. map_option ipt_kva (page_table A oi))"

definition evicts :: "'f kstate \<Rightarrow> 'f kstate \<Rightarrow> bool" where
  "evicts st st' \<longleftrightarrow>
     ktlb st' = ktlb st \<and> num_frames st' = num_frames st \<and> kmem st' = kmem st \<and>
     curproc st' = curproc st \<and> vm_initialized st' = vm_initialized st \<and> swapfile st' = swapfile st \<and>
     (\<forall>a. map_option as_shape (ases st' a) = map_option as_shape (ases st a)) \<and>
     (\<forall>a v. page_aligned v \<longrightarrow> pte_of st' a v = pte_of st a v \<or>
        (\<exists>p i. resident st a v p \<and> swapped st' a v i))"

lemma evicts_refl: "evicts st st"
  by (simp add: evicts_def)

lemma evicts_trans:
  assumes "evicts st st1" and "evicts st1 st2"
  shows "evicts st st2"
proof -
  have "pte_of st2 a v = pte_of st a v \<or> (\<exists>p i. resident st a v p \<and> swapped st2 a v i)"
    if v: "page_aligned v" for a v
  proof -
    from assms v have 1: "pte_of st1 a v = pte_of st a v \<or> (\<exists>p i. resident st a v p \<and> swapped st1 a v i)"
      and 2: "pte_of st2 a v = pte_of st1 a v \<or> (\<exists>p i. resident st1 a v p \<and> swapped st2 a v i)"
      by (auto simp: evicts_def)
    from 1 show ?thesis
    proof
      assume "pte_of st1 a v = pte_of st a v"
      with 2 show ?thesis by (auto simp: resident_def)
    next
      assume s: "\<exists>p i. resident st a v p \<and> swapped st1 a v i"
      then have "\<And>p. \<not> resident st1 a v p" using resident_not_swapped by blast
      with 2 have "pte_of st2 a v = pte_of st1 a v" by blast
      with s show ?thesis by (auto simp: swapped_def)
    qed
  qed
  with assms show ?thesis by (simp add: evicts_def)
qed

lemma evicts_swapped: "evicts st st' \<Longrightarrow> swapped st a v i \<Longrightarrow> swapped st' a v i"
  unfolding evicts_def using resident_not_swapped by (metis swapped_def)

lemma evicts_pte:
  "evicts st st' \<Longrightarrow> page_aligned v \<Longrightarrow> \<forall>p. \<not> resident st a v p \<Longrightarrow> pte_of st' a v = pte_of st a v"
  unfolding evicts_def by blast

lemma evicts_ases: "evicts st st' \<Longrightarrow> ases st a = Some A \<Longrightarrow> \<exists>A'. ases st' a = Some A' \<and> as_shape A' = as_shape A"
  unfolding evicts_def by (metis (no_types, lifting) map_option_eq_Some)

subsection \<open>One eviction\<close>

lemma coremap_victim_nonfree: "\<not> cme_is_free (cm ! v) \<Longrightarrow> coremap_victim cm v q = Inr (v, q)"
  by (subst coremap_victim.simps) simp

lemma as_shape_store:
  "map_option as_shape (ases (pt_store a v e st) b) = map_option as_shape (ases st b)"
  by (auto simp: pt_store_def as_shape_def fun_eq_iff split: option.splits)

text \<open>
  What one eviction does, in the terms of the invariant: the oldest queued frame \<open>v\<close> holds the
  resident page \<open>w\<close> of \<open>a\<close>; the page moves to an unused slot.
\<close>

lemma coremap_replace_step:
  assumes inv: "vm_inv slot st" and ok: "swap_vnode_ok ops (swapfile st) slot"
    and rep: "coremap_replace ops st = Inr (p, st')"
  obtains v q a w e index f where "replacement_queue st = v # q" and "v < length (coremap st)"
    and "p = of_nat v * PAGE_SIZE" and "frame_of (coremap st ! v) a w"
    and "resident st a w p" and "pte_of st a w = Some e" and "pte_valid e"
    and "unat index \<notin> bm_used (swapfile_freeentries st)" and "index < SWAPFILE_MAX_PAGES"
    and "slot f = (slot (fsys st))(unat index \<mapsto> get_page (kmem st) (PADDR_TO_KVADDR p))"
    and "st' = pt_store a w (e\<lparr>pte_paddr := index, pte_swapped := True\<rparr>)
         (st\<lparr>replacement_queue := q,
             swapfile_freeentries := bm_setbit (swapfile_freeentries st) (unat index), fsys := f,
             vms := (vms st)\<lparr>vms_swapfilewrites := vms_swapfilewrites (vms st) + 1\<rparr>,
             coremap := (coremap st)[v := (coremap st ! v)\<lparr>cme_is_free := True\<rparr>]\<rparr>)"
  using rep
proof (cases rule: coremap_replace_Inr)
  case (1 v q victim q' a e index st3)
  from inv 1(1) have v: "v < length (coremap st)" "\<not> cme_is_free (coremap st ! v)"
    and r: "\<exists>a. cme_as (coremap st ! v) = Some a \<and> cme_paddr (coremap st ! v) = of_nat v * PAGE_SIZE \<and>
       resident st a (cme_vaddr (coremap st ! v)) (cme_paddr (coremap st ! v))"
    and wf: "swap_wf (st\<lparr>replacement_queue := q'\<rparr>)"
    by (auto simp: vm_inv_defs queue_ok_def swap_wf_def)
  from 1(2) v have vq: "victim = v" "q' = q" by (simp_all add: coremap_victim_nonfree)
  from r 1(3) vq have p: "cme_paddr (coremap st ! v) = of_nat v * PAGE_SIZE"
    and res: "resident st a (cme_vaddr (coremap st ! v)) (of_nat v * PAGE_SIZE)" by auto
  have e: "pte_valid e" using res 1(4) vq by (auto simp: resident_def)
  show thesis
  proof (rule swapfile_writepage_Ret [OF _ wf 1(5)])
    show "swap_vnode_ok ops (swapfile (st\<lparr>replacement_queue := q'\<rparr>)) slot" using ok by simp
  next
    fix f
    assume f: "unat index \<notin> bm_used (swapfile_freeentries (st\<lparr>replacement_queue := q'\<rparr>))"
      "index < SWAPFILE_MAX_PAGES"
      "slot f = (slot (fsys (st\<lparr>replacement_queue := q'\<rparr>)))(unat index \<mapsto>
         get_page (kmem (st\<lparr>replacement_queue := q'\<rparr>)) (PADDR_TO_KVADDR (cme_paddr (coremap st ! victim))))"
      "st3 = st\<lparr>replacement_queue := q',
         swapfile_freeentries := bm_setbit (swapfile_freeentries (st\<lparr>replacement_queue := q'\<rparr>)) (unat index),
         fsys := f, vms := (vms (st\<lparr>replacement_queue := q'\<rparr>))\<lparr>vms_swapfilewrites :=
           vms_swapfilewrites (vms (st\<lparr>replacement_queue := q'\<rparr>)) + 1\<rparr>\<rparr>"
    show thesis
      by (rule that [of v q a "cme_vaddr (coremap st ! v)" e index f])
        (use 1 vq v p res e f in \<open>simp_all add: frame_of_def\<close>)
  qed
qed

definition free_frames :: "'f kstate \<Rightarrow> nat set" where
  "free_frames st = {i. i < length (coremap st) \<and> cme_is_free (coremap st ! i)}"

text \<open>The same step as a relation between the abstract views of the two states.\<close>

definition evict_step ::
  "('f \<Rightarrow> nat \<Rightarrow> u8 list option) \<Rightarrow> nat \<Rightarrow> vaddr \<Rightarrow> vaddr \<Rightarrow> u32 \<Rightarrow> 'f kstate \<Rightarrow> 'f kstate \<Rightarrow> bool" where
  "evict_step slot v a w index st st' \<longleftrightarrow>
     (\<forall>b u r. resident st' b u r \<longleftrightarrow> (b, u) \<noteq> (a, w) \<and> resident st b u r) \<and>
     (\<forall>b u i. swapped st' b u i \<longleftrightarrow> (if (b, u) = (a, w) then i = index else swapped st b u i)) \<and>
     replacement_queue st = v # replacement_queue st' \<and> v < length (coremap st) \<and>
     frame_of (coremap st ! v) a w \<and> resident st a w (of_nat v * PAGE_SIZE) \<and>
     coremap st' = (coremap st)[v := (coremap st ! v)\<lparr>cme_is_free := True\<rparr>] \<and>
     unat index \<notin> bm_used (swapfile_freeentries st) \<and> index < SWAPFILE_MAX_PAGES \<and>
     swapfile_freeentries st' = bm_setbit (swapfile_freeentries st) (unat index) \<and>
     slot (fsys st') = (slot (fsys st))(unat index \<mapsto> get_page (kmem st) (PADDR_TO_KVADDR (of_nat v * PAGE_SIZE))) \<and>
     num_frames st' = num_frames st \<and> kmem st' = kmem st"

lemma evict_stepD:
  assumes "evict_step slot v a w index st st'"
  shows "resident st' b u r \<longleftrightarrow> (b, u) \<noteq> (a, w) \<and> resident st b u r"
    and "swapped st' b u i \<longleftrightarrow> (if (b, u) = (a, w) then i = index else swapped st b u i)"
    and "replacement_queue st = v # replacement_queue st'" and "v < length (coremap st)"
    and "frame_of (coremap st ! v) a w" and "resident st a w (of_nat v * PAGE_SIZE)"
    and "coremap st' = (coremap st)[v := (coremap st ! v)\<lparr>cme_is_free := True\<rparr>]"
    and "unat index \<notin> bm_used (swapfile_freeentries st)" and "index < SWAPFILE_MAX_PAGES"
    and "swapfile_freeentries st' = bm_setbit (swapfile_freeentries st) (unat index)"
    and "slot (fsys st') = (slot (fsys st))(unat index \<mapsto> get_page (kmem st) (PADDR_TO_KVADDR (of_nat v * PAGE_SIZE)))"
    and "num_frames st' = num_frames st" and "kmem st' = kmem st"
  using assms unfolding evict_step_def by blast+

lemma coremap_replace_evict_step:
  assumes inv: "vm_inv slot st" and ok: "swap_vnode_ok ops (swapfile st) slot"
    and rep: "coremap_replace ops st = Inr (p, st')"
  shows "evicts st st' \<and> (\<exists>v a w index. p = of_nat v * PAGE_SIZE \<and> evict_step slot v a w index st st')"
proof (rule coremap_replace_step [OF inv ok rep])
  fix v q a w e and index :: u32 and f
  let ?s = "st\<lparr>replacement_queue := q,
             swapfile_freeentries := bm_setbit (swapfile_freeentries st) (unat index), fsys := f,
             vms := (vms st)\<lparr>vms_swapfilewrites := vms_swapfilewrites (vms st) + 1\<rparr>,
             coremap := (coremap st)[v := (coremap st ! v)\<lparr>cme_is_free := True\<rparr>]\<rparr>"
  assume A: "replacement_queue st = v # q" "v < length (coremap st)"
    "p = of_nat v * PAGE_SIZE" "frame_of (coremap st ! v) a w" "resident st a w p"
    "unat index \<notin> bm_used (swapfile_freeentries st)" "index < SWAPFILE_MAX_PAGES"
    "slot f = (slot (fsys st))(unat index \<mapsto> get_page (kmem st) (PADDR_TO_KVADDR p))"
    and e: "pte_of st a w = Some e" "pte_valid e"
    and st': "st' = pt_store a w (e\<lparr>pte_paddr := index, pte_swapped := True\<rparr>) ?s"
  have al: "page_aligned w" using A(5) by (simp add: resident_def)
  have pte: "pte_of ?s = pte_of st" by simp
  have R: "resident st' b u r \<longleftrightarrow> (b, u) \<noteq> (a, w) \<and> resident st b u r" for b u r
    unfolding st' using e al resident_cong [OF pte] by (subst resident_store) auto
  have S: "swapped st' b u i \<longleftrightarrow> (if (b, u) = (a, w) then i = index else swapped st b u i)" for b u i
    unfolding st' using e al swapped_cong [OF pte] by (subst swapped_store) auto
  have "pte_of st' b u = pte_of st b u \<or> (\<exists>r i. resident st b u r \<and> swapped st' b u i)" if "page_aligned u" for b u
    using that e al A(5) S [of a w index] by (cases "(b, u) = (a, w)") (auto simp: st' pte_of_pt_store)
  moreover have "map_option as_shape (ases st' b) = map_option as_shape (ases st b)" for b
    unfolding st' by (subst as_shape_store) simp
  ultimately have "evicts st st'" by (simp add: evicts_def st')
  moreover have "evict_step slot v a w index st st'"
    unfolding evict_step_def using A R S by (simp add: st')
  ultimately show ?thesis using A(3) by blast
qed

lemma evict_step_index:
  assumes "evict_step slot v a w index st st'" and "swapped_ok slot st" and "swapped st b u i"
  shows "unat i \<noteq> unat index"
  using assms evict_stepD(8) unfolding swapped_ok_def by metis

lemma evict_step_resident_ok:
  assumes st: "evict_step slot v a w index st st'" and "frames_ok st" and "resident_ok st"
  shows "resident_ok st'"
  unfolding resident_ok_def
proof (intro allI impI)
  fix b u r assume "resident st' b u r"
  then have r: "(b, u) \<noteq> (a, w)" "resident st b u r" by (simp_all add: evict_stepD(1) [OF st])
  from resident_frame [OF assms(2,3) r(2)] obtain i where i: "i < length (coremap st)"
    "r = of_nat i * PAGE_SIZE" "frame_of (coremap st ! i) b u" by blast
  with r(1) evict_stepD(5) [OF st] have "i \<noteq> v" by (auto simp: frame_of_def)
  with i show "\<exists>i<length (coremap st'). r = of_nat i * PAGE_SIZE \<and> frame_of (coremap st' ! i) b u"
    by (auto simp: evict_stepD(7) [OF st])
qed

lemma evict_step_used:
  assumes st: "evict_step slot v a w index st st'" and wf: "swap_wf st"
  shows "bm_used (swapfile_freeentries st') = insert (unat index) (bm_used (swapfile_freeentries st))"
    and "swap_wf st'"
  using wf evict_stepD(9) [OF st]
  by (simp_all add: evict_stepD(10) [OF st] swap_wf_def bm_used_setbit bitmap_wf_setbit u32_less_eq_unat)

lemma evict_step_swapped_ok:
  assumes st: "evict_step slot v a w index st st'" and wf: "swap_wf st" and sw: "swapped_ok slot st"
    and inj: "swapped_inj st"
  shows "swapped_ok slot st'" and "swapped_inj st'"
proof -
  note idx = evict_step_index [OF st sw]
  show "swapped_ok slot st'"
    unfolding swapped_ok_def
  proof (intro allI impI)
    fix b u i assume "swapped st' b u i"
    then show "unat i \<in> bm_used (swapfile_freeentries st') \<and> slot (fsys st') (unat i) \<noteq> None"
      using sw idx [of b u i]
      by (cases "(b, u) = (a, w)")
        (auto simp: evict_stepD(2,11) [OF st] evict_step_used(1) [OF st wf] swapped_ok_def)
  qed
  show "swapped_inj st'"
    using inj idx unfolding swapped_inj_def evict_stepD(2) [OF st] by (metis (no_types))
qed

lemma evict_step_queue_ok:
  assumes st: "evict_step slot v a w index st st'" and fr: "frames_ok st" and q: "queue_ok {} st"
  shows "queue_ok {} st'"
  unfolding queue_ok_def
proof (intro conjI ballI)
  show "distinct (replacement_queue st')" using q evict_stepD(3) [OF st] by (simp add: queue_ok_def)
  fix i assume "i \<in> set (replacement_queue st')"
  with q evict_stepD(3) [OF st] have ne: "i \<noteq> v" and i: "i < length (coremap st)" "\<not> cme_is_free (coremap st ! i)"
    and ex: "\<exists>b. cme_as (coremap st ! i) = Some b \<and> cme_paddr (coremap st ! i) = of_nat i * PAGE_SIZE \<and>
          resident st b (cme_vaddr (coremap st ! i)) (cme_paddr (coremap st ! i))"
    by (auto simp: queue_ok_def)
  then obtain b where b: "cme_as (coremap st ! i) = Some b" "cme_paddr (coremap st ! i) = of_nat i * PAGE_SIZE"
    "resident st b (cme_vaddr (coremap st ! i)) (cme_paddr (coremap st ! i))" by blast
  have "(b, cme_vaddr (coremap st ! i)) \<noteq> (a, w)"
  proof
    assume "(b, cme_vaddr (coremap st ! i)) = (a, w)"
    with b evict_stepD(6) [OF st] have "of_nat i * PAGE_SIZE = (of_nat v * PAGE_SIZE :: u32)"
      by (auto simp: resident_def)
    then show False
      using ne i evict_stepD(4) [OF st] fr frame_addr_inj [of i v] by (simp add: frames_ok_def)
  qed
  with b i ne show "i < length (coremap st')" "\<not> cme_is_free (coremap st' ! i)"
    "i \<in> {} \<or> (\<exists>c. cme_as (coremap st' ! i) = Some c \<and> cme_paddr (coremap st' ! i) = of_nat i * PAGE_SIZE \<and>
        resident st' c (cme_vaddr (coremap st' ! i)) (cme_paddr (coremap st' ! i)))"
    by (simp_all add: evict_stepD(1,7) [OF st])
qed

lemma evict_step_vmem:
  assumes st: "evict_step slot v a w index st st'" and sw: "swapped_ok slot st"
  shows "vmem slot st' b u = vmem slot st b u"
proof (cases "(b, u) = (a, w)")
  case True
  then have "swapped st' b u index" by (simp add: evict_stepD(2) [OF st])
  with True evict_stepD(6) [OF st] show ?thesis by (simp add: vmem_swapped vmem_resident evict_stepD(11) [OF st])
next
  case False
  show ?thesis
  proof (cases rule: vmem_cases [where st = st and a = b and v = u and slot = slot])
    case (resident r)
    moreover from resident False have "resident st' b u r" by (simp add: evict_stepD(1) [OF st])
    ultimately show ?thesis by (simp add: vmem_resident evict_stepD(13) [OF st])
  next
    case (swapped i)
    moreover from swapped False have "swapped st' b u i" by (auto simp: evict_stepD(2) [OF st])
    ultimately show ?thesis
      using evict_step_index [OF st sw swapped] by (simp add: vmem_swapped evict_stepD(11) [OF st])
  next
    case unmapped
    with False show ?thesis by (auto simp: vmem_None evict_stepD(1,2) [OF st])
  qed
qed

lemma coremap_replace_ok:
  assumes inv: "vm_inv slot st" and ok: "swap_vnode_ok ops (swapfile st) slot"
    and rep: "coremap_replace ops st = Inr (p, st')"
  shows "vm_inv slot st'" and "evicts st st'" and "vmem slot st' = vmem slot st"
    and "\<exists>v. replacement_queue st = v # replacement_queue st' \<and> p = of_nat v * PAGE_SIZE \<and>
           v \<notin> free_frames st \<and> free_frames st' = insert v (free_frames st)"
proof -
  from coremap_replace_evict_step [OF assms] obtain v a w index
    where ev: "evicts st st'" and p: "p = of_nat v * PAGE_SIZE" and st: "evict_step slot v a w index st st'" by blast
  from inv have I: "frames_ok st" "resident_ok st" "swapped_ok slot st" "swapped_inj st" "queue_ok {} st" "swap_wf st"
    by (simp_all add: vm_inv_defs)
  have "frames_ok st'" using I(1) by (simp add: frames_ok_def evict_stepD(7,12) [OF st])
  then show "vm_inv slot st'"
    using evict_step_resident_ok [OF st I(1,2)] evict_step_swapped_ok [OF st I(6,3,4)]
      evict_step_queue_ok [OF st I(1,5)] evict_step_used(2) [OF st I(6)]
    by (simp add: vm_inv_defs)
  show "evicts st st'" by (rule ev)
  show "vmem slot st' = vmem slot st" by (intro ext evict_step_vmem [OF st I(3)])
  show "\<exists>v. replacement_queue st = v # replacement_queue st' \<and> p = of_nat v * PAGE_SIZE \<and>
           v \<notin> free_frames st \<and> free_frames st' = insert v (free_frames st)"
    using evict_stepD(3-5,7) [OF st] p
    by (intro exI [of _ v]) (auto simp: free_frames_def frame_of_def nth_list_update)
qed

lemma coremap_replace_total:
  assumes inv: "vm_inv slot st" and q: "replacement_queue st \<noteq> []"
    and free: "bm_used (swapfile_freeentries st) \<noteq> {..<unat SWAPFILE_MAX_PAGES}"
    and wok: "swap_writes_succeed ops (swapfile st)"
  shows "\<exists>p st'. coremap_replace ops st = Inr (p, st')"
proof -
  from q obtain v vs where vq: "replacement_queue st = v # vs" by (cases "replacement_queue st") auto
  let ?ve = "coremap st ! v"
  from inv vq have v: "\<not> cme_is_free ?ve"
    and "\<exists>a. cme_as ?ve = Some a \<and> resident st a (cme_vaddr ?ve) (cme_paddr ?ve)"
    by (auto simp: vm_inv_defs queue_ok_def)
  then obtain a e where a: "cme_as ?ve = Some a" "pte_of st a (cme_vaddr ?ve) = Some e"
    by (auto simp: resident_def)
  let ?st2 = "st\<lparr>replacement_queue := vs\<rparr>"
  have "swap_wf ?st2" using inv by (simp add: vm_inv_defs swap_wf_def)
  then obtain i st3 where w: "swapfile_writepage ops (cme_paddr ?ve) ?st2 = Inr (Ret i, st3)"
    using swapfile_writepage_total [of ?st2 ops] free wok by fastforce
  have "pt_get (Some a) (cme_vaddr ?ve) ?st2 = Inr e" using a by (simp add: pt_get_Inr)
  with w v a vq show ?thesis
    by (simp add: coremap_replace_def queue_pop_def coremap_victim_nonfree Let_def)
qed

text \<open>
  Frames the kernel holds are neither free nor queued; no allocation or eviction touches them.
\<close>

definition keeps_pinned :: "'f kstate \<Rightarrow> 'f kstate \<Rightarrow> bool" where
  "keeps_pinned st st' \<longleftrightarrow> length (coremap st') = length (coremap st) \<and>
     (\<forall>j<length (coremap st). \<not> cme_is_free (coremap st ! j) \<and> j \<notin> set (replacement_queue st) \<longrightarrow>
        coremap st' ! j = coremap st ! j \<and> j \<notin> set (replacement_queue st'))"

lemma keeps_pinned_refl: "keeps_pinned st st"
  by (simp add: keeps_pinned_def)

lemma keeps_pinned_trans: "keeps_pinned st st1 \<Longrightarrow> keeps_pinned st1 st2 \<Longrightarrow> keeps_pinned st st2"
  by (auto simp: keeps_pinned_def)

lemma coremap_replace_pinned:
  assumes "vm_inv slot st" and "swap_vnode_ok ops (swapfile st) slot" and "coremap_replace ops st = Inr (p, st')"
  shows "keeps_pinned st st'"
proof -
  from coremap_replace_evict_step [OF assms] obtain v a w index
    where st: "evict_step slot v a w index st st'" by blast
  show ?thesis
    using evict_stepD(3) [OF st] by (auto simp: keeps_pinned_def evict_stepD(7) [OF st])
qed

end
