(* ===== verification/Kalloc.thy ===== *)
theory Kalloc
  imports Vm_Evict
begin

text \<open>
  Contiguous allocation for the kernel: \<open>coremap_kalloc\<close> takes the lowest run of free frames that
  is long enough, evicting user pages until there is one.
\<close>

definition free_run :: "coremap_entry list \<Rightarrow> nat \<Rightarrow> nat \<Rightarrow> bool" where
  "free_run cm s m \<longleftrightarrow> s + m \<le> length cm \<and> (\<forall>j. s \<le> j \<and> j < s + m \<longrightarrow> cme_is_free (cm ! j))"

text \<open>What the scan knows when it reaches frame \<open>k\<close>: the run it is in starts at \<open>first\<close>.\<close>

definition scan_inv :: "coremap_entry list \<Rightarrow> nat \<Rightarrow> nat \<Rightarrow> nat \<Rightarrow> bool" where
  "scan_inv cm m first k \<longleftrightarrow>
     (0 < k \<and> cme_is_free (cm ! (k - 1)) \<longrightarrow>
        first < k \<and> (\<forall>j. first \<le> j \<and> j < k \<longrightarrow> cme_is_free (cm ! j)) \<and>
        (first = 0 \<or> \<not> cme_is_free (cm ! (first - 1))) \<and> k - first < m) \<and>
     (\<forall>s. free_run cm s m \<longrightarrow> k < s + m)"

lemma scan_inv_busy:
  assumes "scan_inv cm m first k" and "\<not> cme_is_free (cm ! k)" and "0 < m"
  shows "scan_inv cm m first (Suc k)"
proof -
  have "Suc k < s + m" if r: "free_run cm s m" for s
  proof (rule ccontr)
    assume "\<not> Suc k < s + m"
    with assms(1) r have "s + m = Suc k" unfolding scan_inv_def by fastforce
    with assms(2,3) r show False by (auto simp: free_run_def)
  qed
  with assms(2) show ?thesis by (simp add: scan_inv_def)
qed

lemma scan_inv_free:
  assumes inv: "scan_inv cm m first k" and fr: "cme_is_free (cm ! k)" and m: "0 < m" and k: "k < length cm"
    and f': "f' = (if k = 0 \<or> \<not> cme_is_free (cm ! (k - 1)) then k else first)"
  shows "k - f' + 1 \<ge> m \<Longrightarrow> free_run cm f' m \<and> Suc k = f' + m \<and> (\<forall>s. free_run cm s m \<longrightarrow> f' \<le> s)"
    and "\<not> k - f' + 1 \<ge> m \<Longrightarrow> scan_inv cm m f' (Suc k)"
proof -
  have f: "f' \<le> k" "\<And>j. f' \<le> j \<Longrightarrow> j \<le> k \<Longrightarrow> cme_is_free (cm ! j)" "f' = 0 \<or> \<not> cme_is_free (cm ! (f' - 1))"
    "k - f' < m"
    using inv fr m f' by (auto simp: scan_inv_def le_less split: if_splits)
  have early: "k < s + m" if "free_run cm s m" for s using inv that by (simp add: scan_inv_def)
  show "free_run cm f' m \<and> Suc k = f' + m \<and> (\<forall>s. free_run cm s m \<longrightarrow> f' \<le> s)" if "k - f' + 1 \<ge> m"
  proof -
    from that f have e: "Suc k = f' + m" by linarith
    moreover have "f' \<le> s" if "free_run cm s m" for s using early [OF that] e by linarith
    ultimately show ?thesis using f k by (auto simp: free_run_def)
  qed
  show "scan_inv cm m f' (Suc k)" if g: "\<not> k - f' + 1 \<ge> m"
  proof -
    have "Suc k < s + m" if r: "free_run cm s m" for s
    proof (rule ccontr)
      assume "\<not> Suc k < s + m"
      with early [OF r] have "s + m = Suc k" by linarith
      with g f have "s \<le> f' - 1" "f' - 1 < s + m" "f' \<noteq> 0" by linarith+
      with r f(3) show False by (auto simp: free_run_def)
    qed
    with f g show ?thesis by (auto simp: scan_inv_def)
  qed
qed

lemma kalloc_scan_spec:
  assumes "scan_inv cm (unat np) first k" and "0 < unat np" and "k \<le> length cm"
  shows "case kalloc_scan cm np first [k..<length cm] of
      (f, Some l) \<Rightarrow> free_run cm f (unat np) \<and> Suc l = f + unat np \<and> (\<forall>s. free_run cm s (unat np) \<longrightarrow> f \<le> s)
    | (f, None) \<Rightarrow> \<forall>s. \<not> free_run cm s (unat np)"
  using assms
proof (induction "length cm - k" arbitrary: k first)
  case 0
  then have "k = length cm" by simp
  with "0.prems" show ?case by (auto simp: scan_inv_def free_run_def)
next
  case (Suc n)
  then have k: "k < length cm" and n: "n = length cm - Suc k" by simp_all
  have u: "[k..<length cm] = k # [Suc k..<length cm]" using k by (simp add: upt_conv_Cons)
  show ?case
  proof (cases "cme_is_free (cm ! k)")
    case False
    with Suc.hyps(1) [OF n scan_inv_busy [OF Suc.prems(1) False Suc.prems(2)]] Suc.prems(2) k
    show ?thesis by (simp add: u)
  next
    case True
    define f where f: "f = (if k = 0 \<or> \<not> cme_is_free (cm ! (k - 1)) then k else first)"
    note F = scan_inv_free [OF Suc.prems(1) True Suc.prems(2) k f]
    show ?thesis
    proof (cases "k - f + 1 \<ge> unat np")
      case True
      have "kalloc_scan cm np first [k..<length cm] = (f, Some k)"
        using \<open>cme_is_free (cm ! k)\<close> True by (simp only: u kalloc_scan.simps Let_def if_True f [symmetric])
      with F(1) [OF True] show ?thesis by simp
    next
      case False
      have "kalloc_scan cm np first [k..<length cm] = kalloc_scan cm np f [Suc k..<length cm]"
        using \<open>cme_is_free (cm ! k)\<close> False by (simp only: u kalloc_scan.simps Let_def if_True if_False f [symmetric])
      with Suc.hyps(1) [OF n F(2) [OF False] Suc.prems(2)] k show ?thesis by simp
    qed
  qed
qed

lemma scan_inv_start: "0 < m \<Longrightarrow> scan_inv cm m first 0"
  by (simp add: scan_inv_def)

subsection \<open>Marking the run\<close>

definition kalloc_entry :: "u32 \<Rightarrow> nat \<Rightarrow> nat \<Rightarrow> coremap_entry \<Rightarrow> coremap_entry" where
  "kalloc_entry np f j e =
     (if j = f then e\<lparr>cme_alloc_size := np\<rparr> else e)\<lparr>cme_paddr := of_nat j * PAGE_SIZE, cme_is_free := False\<rparr>"

lemma kalloc_entry_sel [simp]:
  "cme_paddr (kalloc_entry np f j e) = of_nat j * PAGE_SIZE" "\<not> cme_is_free (kalloc_entry np f j e)"
  "cme_as (kalloc_entry np f j e) = cme_as e" "cme_vaddr (kalloc_entry np f j e) = cme_vaddr e"
  "cme_alloc_size (kalloc_entry np f f e) = np"
  by (simp_all add: kalloc_entry_def)

lemma kalloc_mark_step_nth:
  "f + i < length cm \<Longrightarrow> kalloc_mark_step np f i cm = cm[f + i := kalloc_entry np f (f + i) (cm ! (f + i))]"
  by (simp add: kalloc_mark_step_def kalloc_entry_def Let_def)

lemma kalloc_mark_fold:
  "f + n \<le> length cm \<Longrightarrow> length (fold (kalloc_mark_step np f) [0..<n] cm) = length cm \<and>
     (\<forall>j. fold (kalloc_mark_step np f) [0..<n] cm ! j =
        (if f \<le> j \<and> j < f + n then kalloc_entry np f j (cm ! j) else cm ! j))"
proof (induction n)
  case (Suc n)
  then have IH: "length (fold (kalloc_mark_step np f) [0..<n] cm) = length cm"
    "\<And>j. fold (kalloc_mark_step np f) [0..<n] cm ! j =
        (if f \<le> j \<and> j < f + n then kalloc_entry np f j (cm ! j) else cm ! j)" by simp_all
  with Suc.prems show ?case by (simp add: kalloc_mark_step_nth nth_list_update less_Suc_eq)
qed auto

lemma kalloc_mark_nth:
  assumes "free_run cm f m" and "Suc l = f + m" and "0 < m"
  shows "length (kalloc_mark np f l cm) = length cm"
    and "kalloc_mark np f l cm ! j = (if f \<le> j \<and> j < f + m then kalloc_entry np f j (cm ! j) else cm ! j)"
proof -
  have "l - f + 1 = m" and "f + m \<le> length cm" using assms by (auto simp: free_run_def)
  then show "length (kalloc_mark np f l cm) = length cm"
    and "kalloc_mark np f l cm ! j = (if f \<le> j \<and> j < f + m then kalloc_entry np f j (cm ! j) else cm ! j)"
    using kalloc_mark_fold [of f m cm np] by (simp_all add: kalloc_mark_def)
qed

subsection \<open>Taking free frames\<close>

text \<open>Changing entries of free frames only cannot disturb a page.\<close>

lemma vm_inv_coremap:
  assumes inv: "vm_inv_but X slot st" and len: "length cm = length (coremap st)"
    and same: "\<And>i. i < length (coremap st) \<Longrightarrow> \<not> cme_is_free (coremap st ! i) \<Longrightarrow> cm ! i = coremap st ! i"
  shows "vm_inv_but X slot (st\<lparr>coremap := cm\<rparr>)"
proof -
  let ?s = "st\<lparr>coremap := cm\<rparr>"
  have "resident_ok ?s"
    unfolding resident_ok_def resident_upd
  proof (intro allI impI)
    fix a v p assume "resident st a v p"
    with inv obtain i where "i < length (coremap st)" "p = of_nat i * PAGE_SIZE" "frame_of (coremap st ! i) a v"
      using resident_frame [of st a v p] by (metis vm_inv_but_def)
    with same [of i] len show "\<exists>i<length (coremap ?s). p = of_nat i * PAGE_SIZE \<and> frame_of (coremap ?s ! i) a v"
      by (auto simp: frame_of_def)
  qed
  moreover have "queue_ok X ?s"
    using inv len same by (simp add: vm_inv_but_def queue_ok_def)
  ultimately show ?thesis
    using inv len by (simp add: vm_inv_but_def frames_ok_def swapped_ok_def swapped_inj_def swap_wf_def)
qed

lemma evicts_coremap: "evicts st st' \<Longrightarrow> evicts st (st'\<lparr>coremap := cm\<rparr>)"
  by (simp add: evicts_def)

lemma free_not_resident:
  assumes "vm_inv_but X slot st" and "i < length (coremap st)" and "cme_is_free (coremap st ! i)"
  shows "\<not> resident st a v (of_nat i * PAGE_SIZE)"
proof
  assume r: "resident st a v (of_nat i * PAGE_SIZE)"
  from assms have ok: "frames_ok st" "resident_ok st" by (simp_all add: vm_inv_but_def)
  obtain j where "j < length (coremap st)" "j < 131072" "of_nat i * PAGE_SIZE = (of_nat j * PAGE_SIZE :: u32)"
    "frame_of (coremap st ! j) a v" by (rule resident_frame [OF ok r])
  with assms frame_addr_inj [of i j] ok(1) show False by (auto simp: frame_of_def frames_ok_def)
qed

text \<open>What a kernel allocation of the frames \<open>f, \<dots>, f + m - 1\<close> guarantees.\<close>

definition kalloc_post :: "('f \<Rightarrow> nat \<Rightarrow> u8 list option) \<Rightarrow> nat \<Rightarrow> nat \<Rightarrow> 'f kstate \<Rightarrow> 'f kstate \<Rightarrow> bool" where
  "kalloc_post slot f m st st' \<longleftrightarrow>
     vm_inv slot st' \<and> evicts st st' \<and> vmem slot st' = vmem slot st \<and> keeps_pinned st st' \<and>
     f + m \<le> length (coremap st') \<and> unat (cme_alloc_size (coremap st' ! f)) = m \<and>
     (\<forall>j. f \<le> j \<and> j < f + m \<longrightarrow> \<not> cme_is_free (coremap st' ! j) \<and> j \<notin> set (replacement_queue st') \<and>
        cme_paddr (coremap st' ! j) = of_nat j * PAGE_SIZE \<and>
        (\<forall>a v. \<not> resident st' a v (of_nat j * PAGE_SIZE))) \<and>
     (\<forall>j<length (coremap st). \<not> cme_is_free (coremap st ! j) \<and> j \<notin> set (replacement_queue st) \<longrightarrow>
        \<not> (f \<le> j \<and> j < f + m))"

lemma kalloc_mark_post:
  assumes inv: "vm_inv slot st" and run: "free_run (coremap st) f (unat np)" and l: "Suc l = f + unat np"
    and np: "0 < unat np"
  shows "kalloc_post slot f (unat np) st (st\<lparr>coremap := kalloc_mark np f l (coremap st)\<rparr>)"
proof -
  let ?cm = "kalloc_mark np f l (coremap st)"
  note nth = kalloc_mark_nth [OF run l np]
  have free: "cme_is_free (coremap st ! j) \<and> j < length (coremap st)" if "f \<le> j \<and> j < f + unat np" for j
    using run that by (auto simp: free_run_def)
  have inv': "vm_inv slot (st\<lparr>coremap := ?cm\<rparr>)"
    using inv free unfolding vm_inv_def by (intro vm_inv_coremap) (auto simp: nth)
  have "j \<notin> set (replacement_queue st)" if "f \<le> j \<and> j < f + unat np" for j
    using free [OF that] inv by (auto simp: vm_inv_defs queue_ok_def)
  moreover have "\<not> resident st a v (of_nat j * PAGE_SIZE)" if "f \<le> j \<and> j < f + unat np" for j a v
    using free [OF that] inv free_not_resident unfolding vm_inv_def by blast
  moreover have "f + unat np \<le> length (coremap st)" using run by (simp add: free_run_def)
  ultimately show ?thesis
    using free inv' evicts_coremap [OF evicts_refl] np
    by (auto simp: kalloc_post_def nth keeps_pinned_def)
qed

lemma kalloc_post_trans:
  assumes "evicts st st1" and "vmem slot st1 = vmem slot st" and "keeps_pinned st st1"
    and "kalloc_post slot f m st1 st2"
  shows "kalloc_post slot f m st st2"
proof -
  from assms have "evicts st st2" "vmem slot st2 = vmem slot st" "keeps_pinned st st2"
    using evicts_trans [of st st1 st2] keeps_pinned_trans [of st st1 st2] by (simp_all add: kalloc_post_def)
  moreover have "\<not> (f \<le> j \<and> j < f + m)" if "j < length (coremap st)"
      "\<not> cme_is_free (coremap st ! j)" "j \<notin> set (replacement_queue st)" for j
    using assms(3,4) that by (auto simp: kalloc_post_def keeps_pinned_def)
  ultimately show ?thesis using assms(4) unfolding kalloc_post_def by blast
qed

lemma coremap_kalloc_loop_ok:
  assumes "vm_inv slot st" and "swap_vnode_ok ops (swapfile st) slot" and "0 < unat np"
    and "coremap_kalloc_loop ops np first st = Inr (p, st')"
  shows "\<exists>f. p = of_nat f * PAGE_SIZE \<and> kalloc_post slot f (unat np) st st'"
  using assms
proof (induction ops np first st rule: coremap_kalloc_loop.induct)
  case (1 ops np first st)
  have len: "unat (num_frames st) = length (coremap st)"
    using "1.prems"(1) by (simp add: vm_inv_defs frames_ok_def)
  note scan = kalloc_scan_spec [OF scan_inv_start [OF "1.prems"(3)] "1.prems"(3), of "coremap st" first]
  obtain f r where sc: "kalloc_scan (coremap st) np first [0..<unat (num_frames st)] = (f, r)" by fastforce
  show ?case
  proof (cases r)
    case (Some l)
    with sc scan len have "free_run (coremap st) f (unat np)" "Suc l = f + unat np" by simp_all
    moreover from "1.prems"(4) sc Some have "p = of_nat f * PAGE_SIZE"
      "st' = st\<lparr>coremap := kalloc_mark np f l (coremap st)\<rparr>"
      by (simp_all add: coremap_kalloc_loop.simps [of ops np first st])
    ultimately show ?thesis using kalloc_mark_post [OF "1.prems"(1)] "1.prems"(3) by blast
  next
    case None
    with "1.prems"(4) sc obtain p1 st1 where rep: "coremap_replace ops st = Inr (p1, st1)"
      and rest: "coremap_kalloc_loop ops np f st1 = Inr (p, st')"
      by (auto simp: coremap_kalloc_loop.simps [of ops np first st] split: sum.splits)
    note R = coremap_replace_ok [OF "1.prems"(1,2) rep] coremap_replace_pinned [OF "1.prems"(1,2) rep]
    from R(2) "1.prems"(2) have "swap_vnode_ok ops (swapfile st1) slot" by (simp add: evicts_def)
    then obtain g where "p = of_nat g * PAGE_SIZE" "kalloc_post slot g (unat np) st1 st'"
      using "1.IH" [OF sc [symmetric] None rep refl R(1) _ "1.prems"(3) rest] by blast
    with kalloc_post_trans [OF R(2,3,5)] show ?thesis by blast
  qed
qed

lemma coremap_kalloc_ok:
  assumes "vm_inv slot st" and "swap_vnode_ok ops (swapfile st) slot" and "0 < unat np"
    and "coremap_kalloc ops np st = Inr (p, st')"
  obtains f where "p = of_nat f * PAGE_SIZE" and "kalloc_post slot f (unat np) st st'"
  using coremap_kalloc_loop_ok [OF assms(1-3)] assms(4) unfolding coremap_kalloc_def by blast

text \<open>Without an eviction the run is the lowest one that is long enough.\<close>

lemma coremap_kalloc_first_fit:
  assumes inv: "vm_inv slot st" and np: "0 < unat np" and ex: "\<exists>s. free_run (coremap st) s (unat np)"
  obtains f l where "coremap_kalloc ops np st = Inr (of_nat f * PAGE_SIZE,
      st\<lparr>coremap := kalloc_mark np f l (coremap st)\<rparr>)" and "Suc l = f + unat np"
    and "free_run (coremap st) f (unat np)" and "\<forall>s. free_run (coremap st) s (unat np) \<longrightarrow> f \<le> s"
proof -
  have len: "unat (num_frames st) = length (coremap st)"
    using inv by (simp add: vm_inv_defs frames_ok_def)
  obtain f r where sc: "kalloc_scan (coremap st) np 0 [0..<unat (num_frames st)] = (f, r)" by fastforce
  with kalloc_scan_spec [OF scan_inv_start [OF np] np, of "coremap st" 0] ex len
  obtain l where l: "r = Some l" "free_run (coremap st) f (unat np)" "Suc l = f + unat np"
    "\<forall>s. free_run (coremap st) s (unat np) \<longrightarrow> f \<le> s" by (cases r) auto
  with sc show thesis
    by (intro that [of f l]) (simp_all add: coremap_kalloc_def coremap_kalloc_loop.simps [of ops np 0 st])
qed

end
