(* ===== verification/Ualloc.thy ===== *)
theory Ualloc
  imports Kalloc
begin

text \<open>
  Allocation of a frame for a user page: \<open>coremap_alloc\<close> takes the lowest free frame, or evicts
  the oldest page first, records the owner and appends the frame to the replacement queue.
\<close>

lemma evicts_resident: "evicts st st' \<Longrightarrow> resident st' a v p \<Longrightarrow> resident st a v p"
  using resident_not_swapped unfolding evicts_def by (metis resident_def)

lemma vm_inv_but_mono: "vm_inv_but X slot st \<Longrightarrow> X \<subseteq> Y \<Longrightarrow> vm_inv_but Y slot st"
  unfolding vm_inv_but_def queue_ok_def by blast

lemma vm_inv_enqueue:
  assumes inv: "vm_inv slot st" and i: "i < length (coremap st)" "\<not> cme_is_free (coremap st ! i)"
    "i \<notin> set q" and q: "distinct q" "set q \<subseteq> set (replacement_queue st)"
  shows "vm_inv_but {i} slot (st\<lparr>replacement_queue := q @ [i]\<rparr>)"
proof -
  have "queue_ok {i} (st\<lparr>replacement_queue := q @ [i]\<rparr>)"
    using assms by (auto simp: vm_inv_defs queue_ok_def)
  with inv show ?thesis
    by (simp add: vm_inv_defs)
qed

lemma evicts_queue: "evicts st st' \<Longrightarrow> evicts st (st'\<lparr>replacement_queue := q\<rparr>)"
  by (simp add: evicts_def)

definition ualloc_post ::
  "('f \<Rightarrow> nat \<Rightarrow> u8 list option) \<Rightarrow> nat \<Rightarrow> vaddr option \<Rightarrow> vaddr \<Rightarrow> 'f kstate \<Rightarrow> 'f kstate \<Rightarrow> bool" where
  "ualloc_post slot i as v st st' \<longleftrightarrow>
     vm_inv_but {i} slot st' \<and> evicts st st' \<and> vmem slot st' = vmem slot st \<and> keeps_pinned st st' \<and>
     i < length (coremap st') \<and> \<not> cme_is_free (coremap st' ! i) \<and> cme_as (coremap st' ! i) = as \<and>
     cme_vaddr (coremap st' ! i) = v \<and> cme_paddr (coremap st' ! i) = of_nat i * PAGE_SIZE \<and>
     (\<forall>b u. \<not> resident st' b u (of_nat i * PAGE_SIZE))"

lemma queue_push_ok:
  assumes inv: "vm_inv slot st" and ok: "swap_vnode_ok ops (swapfile st) slot"
    and i: "i < length (coremap st)" "\<not> cme_is_free (coremap st ! i)" "i \<notin> set (replacement_queue st)"
    and nores: "\<And>b u. \<not> resident st b u (of_nat i * PAGE_SIZE)"
    and push: "queue_push ops km i st = Inr (r, st')"
  shows "vm_inv_but {i} slot st' \<and> evicts st st' \<and> vmem slot st' = vmem slot st \<and>
    coremap st' ! i = coremap st ! i \<and> length (coremap st') = length (coremap st) \<and>
    (\<forall>j<length (coremap st). \<not> cme_is_free (coremap st ! j) \<and> j \<noteq> i \<and> j \<notin> set (replacement_queue st) \<longrightarrow>
        coremap st' ! j = coremap st ! j \<and> j \<notin> set (replacement_queue st'))"
proof (cases km)
  case KmNull
  with push inv show ?thesis
    by (simp add: queue_push_def evicts_refl vm_inv_def) (rule vm_inv_but_mono, auto)
next
  case KmBlock
  with push have "st' = st\<lparr>replacement_queue := replacement_queue st @ [i]\<rparr>" by (simp add: queue_push_def)
  moreover have "distinct (replacement_queue st)" using inv by (simp add: vm_inv_defs queue_ok_def)
  ultimately show ?thesis
    using vm_inv_enqueue [OF inv i] evicts_queue [OF evicts_refl] by simp
next
  case KmPage
  with push obtain p st1 where k: "coremap_kalloc ops 1 st = Inr (p, st1)"
    by (auto simp: queue_push_def Let_def)
  obtain f where post: "kalloc_post slot f 1 st st1"
    using coremap_kalloc_ok [OF inv ok _ k] by auto
  define q where "q = (if replacement_queue st = [] then [] else replacement_queue st1)"
  from push k KmPage have st': "st' = st1\<lparr>replacement_queue := q @ [i]\<rparr>" and q: "set q \<subseteq> set (replacement_queue st1)"
    by (auto simp: queue_push_def q_def Let_def split: if_splits)
  from post have pin: "keeps_pinned st st1" and inv1: "vm_inv slot st1" by (simp_all add: kalloc_post_def)
  then have dq: "distinct q" by (simp add: q_def vm_inv_defs queue_ok_def)
  from pin i have i1: "i < length (coremap st1)" "coremap st1 ! i = coremap st ! i" "i \<notin> set (replacement_queue st1)"
    by (simp_all add: keeps_pinned_def)
  with inv1 q dq have "vm_inv_but {i} slot st'"
    unfolding st' using i(2) by (intro vm_inv_enqueue) auto
  moreover have "evicts st st'" "vmem slot st' = vmem slot st"
    using post evicts_queue [of st st1] by (simp_all add: kalloc_post_def st')
  ultimately show ?thesis using i1 pin q by (auto simp: keeps_pinned_def st')
qed

lemma coremap_take_ok:
  assumes inv: "vm_inv slot st" and ok: "swap_vnode_ok ops (swapfile st) slot"
    and i: "i < length (coremap st)" "cme_is_free (coremap st ! i)"
    and st1: "st1 = st\<lparr>coremap := (coremap st)[i := (coremap st ! i)\<lparr>cme_paddr := of_nat i * PAGE_SIZE,
                           cme_is_free := False, cme_as := as, cme_vaddr := v\<rparr>]\<rparr>"
    and push: "queue_push ops km i st1 = Inr (r, st')"
  shows "ualloc_post slot i as v st st'"
proof -
  have "vm_inv slot st1"
    using inv i unfolding vm_inv_def st1 by (intro vm_inv_coremap) (auto simp: nth_list_update)
  moreover have "i \<notin> set (replacement_queue st1)"
    using inv i by (auto simp: vm_inv_defs queue_ok_def st1)
  moreover have nores: "\<not> resident st1 b u (of_nat i * PAGE_SIZE)" for b u
    using inv i free_not_resident unfolding vm_inv_def st1 resident_upd by blast
  ultimately have K: "vm_inv_but {i} slot st' \<and> evicts st1 st' \<and> vmem slot st' = vmem slot st1 \<and>
    coremap st' ! i = coremap st1 ! i \<and> length (coremap st') = length (coremap st1) \<and>
    (\<forall>j<length (coremap st1). \<not> cme_is_free (coremap st1 ! j) \<and> j \<noteq> i \<and> j \<notin> set (replacement_queue st1) \<longrightarrow>
        coremap st' ! j = coremap st1 ! j \<and> j \<notin> set (replacement_queue st'))"
    using ok i by (intro queue_push_ok [OF _ _ _ _ _ _ push]) (simp_all add: st1)
  have "keeps_pinned st st'"
    unfolding keeps_pinned_def
  proof (intro conjI allI impI)
    show "length (coremap st') = length (coremap st)" using K by (simp add: st1)
    fix j assume j: "j < length (coremap st)" "\<not> cme_is_free (coremap st ! j) \<and> j \<notin> set (replacement_queue st)"
    with i have "j \<noteq> i" by auto
    with j K show "coremap st' ! j = coremap st ! j" "j \<notin> set (replacement_queue st')" by (simp_all add: st1)
  qed
  moreover have "evicts st st'"
    using K evicts_trans [of st st1 st'] unfolding st1 by (blast intro: evicts_coremap evicts_refl)
  moreover have "\<not> resident st' b u (of_nat i * PAGE_SIZE)" for b u
    using K evicts_resident [of st1 st'] nores by blast
  ultimately show ?thesis using K i by (simp add: ualloc_post_def st1)
qed

lemma ualloc_post_trans:
  assumes "evicts st st1" and "vmem slot st1 = vmem slot st" and "keeps_pinned st st1"
    and "ualloc_post slot i as v st1 st2"
  shows "ualloc_post slot i as v st st2"
  using assms evicts_trans [of st st1 st2] keeps_pinned_trans [of st st1 st2] by (simp add: ualloc_post_def)

lemma coremap_alloc_ok:
  assumes "vm_inv slot st" and "swap_vnode_ok ops (swapfile st) slot" and "curproc st = Some as"
    and "coremap_alloc ops km v st = Inr (p, st')"
  shows "\<exists>i. p = of_nat i * PAGE_SIZE \<and> ualloc_post slot i as v st st'"
  using assms
proof (induction ops km v st rule: coremap_alloc.induct)
  case (1 ops km v st)
  have len: "unat (num_frames st) = length (coremap st)"
    using "1.prems"(1) by (simp add: vm_inv_defs frames_ok_def)
  show ?case
  proof (cases "find (\<lambda>i. cme_is_free (coremap st ! i)) [0..<unat (num_frames st)]")
    case (Some i)
    then have i: "i < length (coremap st)" "cme_is_free (coremap st ! i)"
      by (auto simp: find_Some_iff len)
    let ?st1 = "st\<lparr>coremap := (coremap st)[i := (coremap st ! i)\<lparr>cme_paddr := of_nat i * PAGE_SIZE,
                           cme_is_free := False, cme_as := as, cme_vaddr := v\<rparr>]\<rparr>"
    have "coremap_alloc ops km v st = rbind (queue_push ops km i ?st1) (\<lambda>(r, st2). Inr (of_nat i * PAGE_SIZE, st2))"
      using "1.prems"(3) by (simp only: coremap_alloc.simps [of ops km v st] Some option.case Let_def)
    with "1.prems"(4) obtain r where "queue_push ops km i ?st1 = Inr (r, st')" "p = of_nat i * PAGE_SIZE"
      by (auto simp only: rbind_eq_Inr prod.case split_paired_Ex sum.inject prod.inject)
    with coremap_take_ok [OF "1.prems"(1,2) i refl] show ?thesis by blast
  next
    case None
    with "1.prems"(4) obtain p1 st1 where rep: "coremap_replace ops st = Inr (p1, st1)"
      and rest: "coremap_alloc ops km v st1 = Inr (p, st')"
      by (auto simp: coremap_alloc.simps [of ops km v st] split: sum.splits)
    note R = coremap_replace_ok [OF "1.prems"(1,2) rep] coremap_replace_pinned [OF "1.prems"(1,2) rep]
    from R(2) "1.prems"(2,3) have "swap_vnode_ok ops (swapfile st1) slot" "curproc st1 = Some as"
      by (simp_all add: evicts_def)
    then obtain i where "p = of_nat i * PAGE_SIZE" "ualloc_post slot i as v st1 st'"
      using "1.IH" [OF None rep refl R(1) _ _ rest] by blast
    with ualloc_post_trans [OF R(2,3,5)] show ?thesis by blast
  qed
qed

subsection \<open>Allocation succeeds\<close>

lemma coremap_alloc_free:
  assumes fr: "frames_ok st" and i: "i < length (coremap st)" "cme_is_free (coremap st ! i)"
    and cp: "curproc st = Some as"
  shows "\<exists>p st'. coremap_alloc ops KmBlock v st = Inr (p, st')"
proof -
  from fr i obtain j where "find (\<lambda>i. cme_is_free (coremap st ! i)) [0..<unat (num_frames st)] = Some j"
    by (cases "find (\<lambda>i. cme_is_free (coremap st ! i)) [0..<unat (num_frames st)]")
      (auto simp: find_None_iff frames_ok_def)
  with cp show ?thesis
    by (simp add: coremap_alloc.simps [of ops KmBlock v st] queue_push_def Let_def)
qed

lemma coremap_alloc_total:
  assumes inv: "vm_inv slot st" and ok: "swap_vnode_ok ops (swapfile st) slot" and cp: "curproc st = Some as"
    and room: "free_frames st \<noteq> {} \<or> replacement_queue st \<noteq> [] \<and>
        bm_used (swapfile_freeentries st) \<noteq> {..<unat SWAPFILE_MAX_PAGES} \<and> swap_writes_succeed ops (swapfile st)"
  shows "\<exists>p st'. coremap_alloc ops KmBlock v st = Inr (p, st')"
proof (cases "free_frames st = {}")
  case False
  then show ?thesis
    using coremap_alloc_free [OF _ _ _ cp] inv by (auto simp: free_frames_def vm_inv_defs)
next
  case True
  with room inv obtain p1 st1 where rep: "coremap_replace ops st = Inr (p1, st1)"
    using coremap_replace_total by blast
  note R = coremap_replace_ok [OF inv ok rep]
  from R(4) obtain j where "j \<in> free_frames st1" by blast
  then have "\<exists>p st'. coremap_alloc ops KmBlock v st1 = Inr (p, st')"
    using coremap_alloc_free [of st1 j as ops v] R(1,2) cp by (simp add: free_frames_def vm_inv_defs evicts_def)
  moreover have "find (\<lambda>i. cme_is_free (coremap st ! i)) [0..<unat (num_frames st)] = None"
    using True inv by (auto simp: find_None_iff free_frames_def vm_inv_defs frames_ok_def)
  ultimately show ?thesis using rep by (simp add: coremap_alloc.simps [of ops KmBlock v st])
qed

end
