(* ===== verification/Pt.thy ===== *)
theory Pt
  imports Coremap
begin

text \<open>
  The page table operations of \<open>kern/vm/pt.c\<close> and \<open>load_page\<close> of
  \<open>kern/syscall/loadelf.c\<close>. The inner table has 1024 entries of 8 bytes, so \<open>kmalloc\<close> serves it
  from \<open>alloc_kpages\<close>; \<open>bzero\<close> makes every entry invalid.
\<close>

definition INNER_PT_BYTES :: u32 where "INNER_PT_BYTES = 8 * 1024"

definition zero_pte :: pt_entry where
  "zero_pte = \<lparr>pte_paddr = 0, pte_valid = False, pte_swapped = False\<rparr>"

definition pt_set_inner :: "vaddr \<Rightarrow> u32 \<Rightarrow> inner_pt option \<Rightarrow> 'f kstate \<Rightarrow> 'f kstate res" where
  "pt_set_inner a oi t st =
     (case ases st a of
        None \<Rightarrow> Inl UseAfterFree
      | Some A \<Rightarrow> Inr (st\<lparr>ases := (ases st)(a \<mapsto> A\<lparr>page_table := (page_table A)(oi := t)\<rparr>)\<rparr>))"

definition inner_pt_create :: "'f vnode_ops \<Rightarrow> vaddr \<Rightarrow> vaddr \<Rightarrow> 'f kstate \<Rightarrow> (int \<times> 'f kstate) res" where
  "inner_pt_create ops a vaddr st =
     rbind (kmalloc_large ops INNER_PT_BYTES st) (\<lambda>(ptr, st1).
       case ptr of
         None \<Rightarrow> rbind (pt_set_inner a (OUTER_PT_INDEX vaddr) None st1) (\<lambda>st2. Inr (EPERM, st2))
       | Some kva \<Rightarrow>
           rbind (pt_set_inner a (OUTER_PT_INDEX vaddr) (Some \<lparr>ipt_kva = kva, ipt = \<lambda>_. zero_pte\<rparr>) st1) (\<lambda>st2.
             Inr (0, st2\<lparr>kmem := bzero kva INNER_PT_BYTES (kmem st2)\<rparr>)))"

definition load_page ::
  "'f vnode_ops \<Rightarrow> nat \<Rightarrow> paddr \<Rightarrow> u32 \<Rightarrow> u32 \<Rightarrow> bool \<Rightarrow> 'f kstate \<Rightarrow> int \<times> 'f kstate" where
  "load_page ops v paddr page_size offset is_executable st =
     (let u = uio_kinit (PADDR_TO_KVADDR paddr) page_size (ucast offset) UIO_READ in
      case vop_read ops v u (fsys st) (kmem st) of (result, u', f, m) \<Rightarrow>
        (result, st\<lparr>fsys := f, kmem := m\<rparr>))"

definition pt_load :: "'f vnode_ops \<Rightarrow> segment \<Rightarrow> vaddr \<Rightarrow> paddr \<Rightarrow> 'f kstate \<Rightarrow> (int \<times> 'f kstate) res" where
  "pt_load ops s vaddr paddr st =
     (case elf_file s of
        None \<Rightarrow> Inl KAssertFail
      | Some v \<Rightarrow>
          let page_index = vaddr - vbase s;
              elf_offset = elf_segment_start s + page_index in
          (case segments_before_load s vaddr paddr elf_offset PAGE_SIZE of (paddr', elf_offset', page_size) \<Rightarrow>
           case load_page ops v paddr' page_size elf_offset' (executable s) st of (res, st1) \<Rightarrow>
             if res \<noteq> 0 then Inr (res, st1)
             else Inr (0, st1\<lparr>vms := (vms st1)\<lparr>vms_pagefaultself := vms_pagefaultself (vms st1) + 1,
                                              vms_pagefaultsdisk := vms_pagefaultsdisk (vms st1) + 1\<rparr>\<rparr>)))"

definition pt_insert :: "vaddr option \<Rightarrow> vaddr \<Rightarrow> paddr \<Rightarrow> int" where
  "pt_insert as vaddr paddr = 0"

end
