(* ===== verification/Vm.thy ===== *)
theory Vm
  imports Pt
begin

text \<open>
  The fault handler and the page allocation interface of \<open>kern/vm/vm.c\<close>. A call of
  \<open>sys__exit\<close> does not return: \<open>VmExit\<close>. The spinlocks and interrupt levels are not modelled.
\<close>

definition VM_FAULT_READ :: int where "VM_FAULT_READ = 0"
definition VM_FAULT_WRITE :: int where "VM_FAULT_WRITE = 1"
definition VM_FAULT_READONLY :: int where "VM_FAULT_READONLY = 2"

datatype vm_result = VmExit int | VmRet int

definition getppages ::
  "'f vnode_ops \<Rightarrow> kmalloc_out \<Rightarrow> u32 \<Rightarrow> vaddr \<Rightarrow> 'f kstate \<Rightarrow> (paddr \<times> 'f kstate) res" where
  "getppages ops km np vaddr st =
     (if vm_initialized st then
        if np = 1 then coremap_alloc ops km vaddr st else coremap_kalloc ops np st
      else Inr (ram_stealmem np st))"

definition freeppages :: "paddr \<Rightarrow> u32 \<Rightarrow> 'f kstate \<Rightarrow> 'f kstate res" where
  "freeppages paddr np st =
     (if vm_initialized st then if np = 1 then coremap_free paddr st else Inr st else Inr st)"

text \<open>\<open>swapfile_init\<close> may fail; its result is ignored.\<close>

definition vm_bootstrap ::
  "'f vnode_ops \<Rightarrow> (nat \<times> 'f) cret \<Rightarrow> bool \<Rightarrow> bool \<Rightarrow> (nat \<Rightarrow> coremap_entry) \<Rightarrow> 'f kstate \<Rightarrow> 'f kstate res" where
  "vm_bootstrap ops vfs_open kmalloc_b kmalloc_v raw st =
     rbind (swapfile_init vfs_open kmalloc_b kmalloc_v st) (\<lambda>(result, st1).
     rbind (coremap_init ops raw st1) (\<lambda>st2.
       Inr (st2\<lparr>vm_initialized := True\<rparr>)))"

text \<open>The page fault itself: the frame that holds the page when the handler goes on.\<close>

definition vm_fault_page ::
  "'f vnode_ops \<Rightarrow> kmalloc_out \<Rightarrow> segment \<Rightarrow> vaddr \<Rightarrow> vaddr \<Rightarrow> pt_entry \<Rightarrow> 'f kstate \<Rightarrow> (paddr \<times> 'f kstate) res" where
  "vm_fault_page ops km s a faultaddress entry st =
     (if \<not> pte_valid entry then
        rbind (coremap_alloc ops km faultaddress st) (\<lambda>(paddr, st1).
        let st2 = pt_store a faultaddress
                    \<lparr>pte_paddr = paddr, pte_valid = True, pte_swapped = False\<rparr> st1 in
        if elf_file s \<noteq> None then
          rbind (pt_load ops s faultaddress paddr st2) (\<lambda>(res, st3). Inr (paddr, st3))
        else
          Inr (paddr, st2\<lparr>kmem := bzero (PADDR_TO_KVADDR paddr) PAGE_SIZE (kmem st2),
            vms := (vms st2)\<lparr>vms_pagefaultszeroed := vms_pagefaultszeroed (vms st2) + 1\<rparr>\<rparr>))
      else if pte_swapped entry then
        rbind (coremap_alloc ops km faultaddress st) (\<lambda>(paddr, st1).
        rbind (pt_get (Some a) faultaddress st1) (\<lambda>entry1.
        rbind (swapfile_readpage ops paddr (pte_paddr entry1) st1) (\<lambda>(res, st2).
          Inr (paddr, pt_store a faultaddress
                 (entry1\<lparr>pte_swapped := False, pte_paddr := paddr\<rparr>) st2))))
      else
        Inr (pte_paddr entry, st\<lparr>vms := (vms st)\<lparr>vms_tlbreloads := vms_tlbreloads (vms st) + 1\<rparr>\<rparr>))"

text \<open>The TLB fault is counted and the inner table created when there is none.\<close>

definition vm_fault_table :: "'f vnode_ops \<Rightarrow> vaddr \<Rightarrow> addrspace \<Rightarrow> vaddr \<Rightarrow> 'f kstate \<Rightarrow> (int \<times> 'f kstate) res" where
  "vm_fault_table ops a A faultaddress st =
     (let st1 = st\<lparr>vms := (vms st)\<lparr>vms_tlbfaults := vms_tlbfaults (vms st) + 1\<rparr>\<rparr> in
      if page_table A (OUTER_PT_INDEX faultaddress) = None
      then inner_pt_create ops a faultaddress st1 else Inr (0, st1))"

definition vm_fault ::
  "'f vnode_ops \<Rightarrow> kmalloc_out \<Rightarrow> int \<Rightarrow> vaddr \<Rightarrow> 'f kstate \<Rightarrow> (vm_result \<times> 'f kstate) res" where
  "vm_fault ops km faulttype faultaddress0 st =
     (let faultaddress = faultaddress0 AND PAGE_FRAME in
      if faulttype = VM_FAULT_READONLY then Inr (VmExit 1, st)
      else if faulttype \<noteq> VM_FAULT_READ \<and> faulttype \<noteq> VM_FAULT_WRITE then Inr (VmRet EINVAL, st)
      else case curproc st of
        None \<Rightarrow> Inr (VmRet EFAULT, st)
      | Some None \<Rightarrow> Inr (VmRet EFAULT, st)
      | Some (Some a) \<Rightarrow>
        (case ases st a of
           None \<Rightarrow> Inl UseAfterFree
         | Some A \<Rightarrow>
           (case segments_find_segment (segments A) faultaddress of
              None \<Rightarrow> Inr (VmRet EFAULT, st)
            | Some s \<Rightarrow>
              rbind (vm_fault_table ops a A faultaddress st) (\<lambda>(res, st2).
              if res \<noteq> 0 then Inr (VmRet res, st2)
              else
                rbind (pt_get (Some a) faultaddress st2) (\<lambda>entry.
                rbind (vm_fault_page ops km s a faultaddress entry st2) (\<lambda>(paddr, st3).
                if paddr AND PAGE_FRAME \<noteq> paddr then Inl KAssertFail
                else
                  (case vmtlb_insert faultaddress paddr (writable s) (ktlb st3, vms st3) of (res, t, vs) \<Rightarrow>
                     Inr (VmRet res, st3\<lparr>ktlb := t, vms := vs\<rparr>))))))))"

definition vm_tlbshootdown :: "'f kstate \<Rightarrow> 'f kstate" where
  "vm_tlbshootdown st = st"

text \<open>The checks of \<open>print_vm_stats\<close> in \<open>kern/vm/vmstats.c\<close>: true when a warning is printed.\<close>

definition print_vm_stats :: "vmstats \<Rightarrow> bool \<times> bool \<times> bool" where
  "print_vm_stats s =
     (vms_tlbfaultsfree s + vms_tlbfaultsreplace s \<noteq> vms_tlbfaults s,
      vms_tlbreloads s + vms_pagefaultsdisk s + vms_pagefaultszeroed s \<noteq> vms_tlbfaults s,
      vms_pagefaultself s + vms_pagefaultsswapfile s \<noteq> vms_pagefaultsdisk s)"

definition vm_shutdown :: "'f kstate \<Rightarrow> bool \<times> bool \<times> bool" where
  "vm_shutdown st = print_vm_stats (vms st)"

end
