(* ===== verification/Vm_Fault.thy ===== *)
theory Vm_Fault
  imports Ualloc Vm
begin

text \<open>
  The fault handler keeps the invariant and the content of every page, makes the faulting page
  resident and enters it into the TLB.
\<close>

subsection \<open>Memory changes outside resident frames\<close>

definition outside_frames :: "nat set \<Rightarrow> mem \<Rightarrow> mem \<Rightarrow> bool" where
  "outside_frames F m m' \<longleftrightarrow>
     (\<forall>x. (\<forall>j\<in>F. \<not> x - PADDR_TO_KVADDR (of_nat j * PAGE_SIZE) < PAGE_SIZE) \<longrightarrow> m' x = m x)"

lemma outside_frames_get_page:
  assumes "outside_frames F m m'" and "i < 131072" and "\<forall>j\<in>F. j < 131072 \<and> j \<noteq> i"
  shows "get_page m' (PADDR_TO_KVADDR (of_nat i * PAGE_SIZE)) = get_page m (PADDR_TO_KVADDR (of_nat i * PAGE_SIZE))"
  using assms frame_disjoint unfolding outside_frames_def by (intro get_page_cong) blast

lemma vmem_outside:
  assumes inv: "vm_inv_but X slot st" and out: "outside_frames F (kmem st) m"
    and F: "\<And>j a v. j \<in> F \<Longrightarrow> j < 131072 \<and> \<not> resident st a v (of_nat j * PAGE_SIZE)"
  shows "vmem slot (st\<lparr>kmem := m\<rparr>) = vmem slot st"
proof (intro ext)
  fix a v
  show "vmem slot (st\<lparr>kmem := m\<rparr>) a v = vmem slot st a v"
  proof (cases rule: vmem_cases [where st = st and a = a and v = v and slot = slot])
    case (resident p)
    from inv have ok: "frames_ok st" "resident_ok st" by (simp_all add: vm_inv_but_def)
    obtain i where i: "i < 131072" "p = of_nat i * PAGE_SIZE" using resident_frame [OF ok resident] by blast
    have "\<forall>j\<in>F. j < 131072 \<and> j \<noteq> i" using F resident i by blast
    then have "get_page m (PADDR_TO_KVADDR p) = get_page (kmem st) (PADDR_TO_KVADDR p)"
      using outside_frames_get_page [OF out i(1)] i(2) by simp
    with resident show ?thesis by (simp add: vmem_resident)
  next
    case (swapped i)
    then show ?thesis by (simp add: vmem_swapped)
  next
    case unmapped
    then show ?thesis by (simp add: vmem_None)
  qed
qed

lemma bzero_outside: "outside_frames {j} m (bzero (PADDR_TO_KVADDR (of_nat j * PAGE_SIZE)) PAGE_SIZE m)"
  by (simp add: outside_frames_def bzero_def)

lemma bzero2_outside:
  "outside_frames {j, Suc j} m (bzero (PADDR_TO_KVADDR (of_nat j * PAGE_SIZE)) INNER_PT_BYTES m)"
  unfolding outside_frames_def
proof (intro allI impI)
  fix x assume a: "\<forall>i\<in>{j, Suc j}. \<not> x - PADDR_TO_KVADDR (of_nat i * PAGE_SIZE) < PAGE_SIZE"
  let ?d = "x - PADDR_TO_KVADDR (of_nat j * PAGE_SIZE)"
  have "x - PADDR_TO_KVADDR (of_nat (Suc j) * PAGE_SIZE) = ?d - PAGE_SIZE"
    by (simp add: PADDR_TO_KVADDR_def algebra_simps)
  moreover from a have "\<not> ?d < PAGE_SIZE" "\<not> x - PADDR_TO_KVADDR (of_nat (Suc j) * PAGE_SIZE) < PAGE_SIZE" by blast+
  ultimately have 1: "\<not> ?d < PAGE_SIZE" "\<not> ?d - PAGE_SIZE < PAGE_SIZE" by (simp_all only: simp_thms)
  have "\<not> ?d < INNER_PT_BYTES"
  proof
    assume "?d < INNER_PT_BYTES"
    then have "unat ?d < 8192" by (simp add: INNER_PT_BYTES_def u32_less_eq_unat)
    moreover from 1(1) have "4096 \<le> unat ?d" by (simp add: PAGE_SIZE_def u32_less_eq_unat)
    moreover from this have "unat (?d - PAGE_SIZE) = unat ?d - 4096" by (simp add: PAGE_SIZE_def unat_sub_if')
    ultimately show False using 1(2) by (simp add: PAGE_SIZE_def u32_less_eq_unat)
  qed
  then show "bzero (PADDR_TO_KVADDR (of_nat j * PAGE_SIZE)) INNER_PT_BYTES m x = m x" by (simp add: bzero_def)
qed

lemma put_page_outside: "outside_frames {j} m (put_page (PADDR_TO_KVADDR (of_nat j * PAGE_SIZE)) pg m)"
  by (simp add: outside_frames_def put_page_def)

subsection \<open>Making a page resident\<close>

lemma map_page_ok:
  assumes inv: "vm_inv_but {i} slot st" and i: "i < length (coremap st)" "frame_of (coremap st ! i) a v"
    "cme_paddr (coremap st ! i) = of_nat i * PAGE_SIZE" "\<And>b u. \<not> resident st b u (of_nat i * PAGE_SIZE)"
    and v: "page_aligned v" and pte: "pte_of st a v = Some e0" and nr: "\<And>p. \<not> resident st a v p"
    and e: "pte_valid e" "\<not> pte_swapped e" "pte_paddr e = of_nat i * PAGE_SIZE"
    and st': "ases st' = ases (pt_store a v e st)" "coremap st' = coremap st" "num_frames st' = num_frames st"
      "replacement_queue st' = replacement_queue st" "slot (fsys st') = slot (fsys st)" "swap_wf st'"
    and used: "\<And>b u j. swapped st b u j \<Longrightarrow> (b, u) \<noteq> (a, v) \<Longrightarrow> unat j \<in> bm_used (swapfile_freeentries st')"
    and out: "outside_frames {i} (kmem st) (kmem st')"
  shows "vm_inv slot st'" and "resident st' a v (of_nat i * PAGE_SIZE)"
    and "(b, u) \<noteq> (a, v) \<Longrightarrow> vmem slot st' b u = vmem slot st b u"
proof -
  have "pte_of st' = pte_of (pt_store a v e st)" by (intro ext) (simp add: pte_of_def st')
  note cong = resident_cong [OF this] swapped_cong [OF this]
  have R: "resident st' b u p \<longleftrightarrow> (if (b, u) = (a, v) then p = of_nat i * PAGE_SIZE else resident st b u p)" for b u p
    unfolding cong using pte v e by (subst resident_store) auto
  have S: "swapped st' b u j \<longleftrightarrow> (b, u) \<noteq> (a, v) \<and> swapped st b u j" for b u j
    unfolding cong using pte v e by (subst swapped_store) auto
  show res: "resident st' a v (of_nat i * PAGE_SIZE)" by (simp add: R)
  from inv have I: "frames_ok st" "resident_ok st" "swapped_ok slot st" "swapped_inj st" "queue_ok {i} st"
    by (simp_all add: vm_inv_but_def)
  have "frames_ok st'" using I(1) by (simp add: frames_ok_def st')
  moreover have "resident_ok st'"
    using I(2) i(1,2) by (auto simp: resident_ok_def R st')
  moreover have "swapped_ok slot st'" using I(3) used by (auto simp: swapped_ok_def S st')
  moreover have "swapped_inj st'" using I(4) unfolding swapped_inj_def S by blast
  moreover have "queue_ok {} st'"
    unfolding queue_ok_def st'
  proof (intro conjI ballI)
    show "distinct (replacement_queue st)" using I(5) by (simp add: queue_ok_def)
    fix k assume k: "k \<in> set (replacement_queue st)"
    with I(5) show "k < length (coremap st)" "\<not> cme_is_free (coremap st ! k)" by (simp_all add: queue_ok_def)
    show "k \<in> {} \<or> (\<exists>c. cme_as (coremap st ! k) = Some c \<and> cme_paddr (coremap st ! k) = of_nat k * PAGE_SIZE \<and>
        resident st' c (cme_vaddr (coremap st ! k)) (cme_paddr (coremap st ! k)))"
    proof (cases "k = i")
      case True
      with i res show ?thesis by (simp add: frame_of_def)
    next
      case False
      with I(5) k obtain c where c: "cme_as (coremap st ! k) = Some c" "cme_paddr (coremap st ! k) = of_nat k * PAGE_SIZE"
        "resident st c (cme_vaddr (coremap st ! k)) (cme_paddr (coremap st ! k))" by (auto simp: queue_ok_def)
      with nr have "(c, cme_vaddr (coremap st ! k)) \<noteq> (a, v)" by auto
      with c show ?thesis by (auto simp: R)
    qed
  qed
  ultimately show "vm_inv slot st'" using st'(6) by (simp add: vm_inv_defs)
  show "vmem slot st' b u = vmem slot st b u" if ne: "(b, u) \<noteq> (a, v)"
  proof -
    have "vmem slot (st\<lparr>kmem := kmem st'\<rparr>) = vmem slot st"
      using i I(1) by (intro vmem_outside [OF inv out]) (auto simp: frames_ok_def)
    moreover have "pte_of st' b u = pte_of st b u \<or> \<not> page_aligned u"
      using ne pte v \<open>pte_of st' = pte_of (pt_store a v e st)\<close> by (auto simp: pte_of_pt_store)
    then have "vmem slot st' b u = vmem slot (st\<lparr>kmem := kmem st'\<rparr>) b u"
      using st'(5) by (cases "pte_of st' b u"; cases "pte_of st b u") (auto simp: vmem_def)
    ultimately show ?thesis by simp
  qed
qed

subsection \<open>A new inner page table\<close>

lemma frame_kva:
  assumes "f < 131072"
  shows "PADDR_TO_KVADDR (of_nat f * PAGE_SIZE) \<noteq> 0" and "PADDR_TO_KVADDR (of_nat f * PAGE_SIZE) mod PAGE_SIZE = 0"
proof -
  have u: "unat (PADDR_TO_KVADDR (of_nat f * PAGE_SIZE)) = f * 4096 + 2147483648"
    unfolding PADDR_TO_KVADDR_def
    using assms by (subst unat_add_u32_le) (simp_all add: frame_addr_unat MIPS_KSEG0_def)
  then have "unat (PADDR_TO_KVADDR (of_nat f * PAGE_SIZE)) \<noteq> 0" by simp
  then show "PADDR_TO_KVADDR (of_nat f * PAGE_SIZE) \<noteq> 0" by (metis unat_0)
  have "unat (PADDR_TO_KVADDR (of_nat f * PAGE_SIZE) mod PAGE_SIZE) = (f * 4096 + 2147483648) mod 4096"
    using u by (simp add: unat_mod PAGE_SIZE_def [THEN arg_cong [of _ _ unat]])
  also have "\<dots> = 0" by (simp add: mod_add_eq [symmetric])
  finally show "PADDR_TO_KVADDR (of_nat f * PAGE_SIZE) mod PAGE_SIZE = 0" by (simp add: unat_eq_0)
qed

lemma kmalloc_large_ok:
  assumes inv: "vm_inv slot st" and ok: "swap_vnode_ok ops (swapfile st) slot" and init: "vm_initialized st"
    and sz: "0 < unat ((sz + PAGE_SIZE - 1) div PAGE_SIZE)"
    and km: "kmalloc_large ops sz st = Inr (ptr, st')"
  obtains f where "ptr = Some (PADDR_TO_KVADDR (of_nat f * PAGE_SIZE))" and "f < 131072"
    and "kalloc_post slot f (unat ((sz + PAGE_SIZE - 1) div PAGE_SIZE)) st st'"
proof -
  let ?np = "(sz + PAGE_SIZE - 1) div PAGE_SIZE"
  from km init obtain p where k: "coremap_kalloc ops ?np st = Inr (p, st')"
    and ptr: "ptr = (if PADDR_TO_KVADDR p = 0 then None else Some (PADDR_TO_KVADDR p))"
    by (auto simp: kmalloc_large_def alloc_kpages_def Let_def split: if_splits)
  obtain f where f: "p = of_nat f * PAGE_SIZE" "kalloc_post slot f (unat ?np) st st'"
    by (rule coremap_kalloc_ok [OF inv ok sz k])
  then have "f < 131072" using sz by (auto simp: kalloc_post_def vm_inv_defs frames_ok_def)
  with f ptr frame_kva [of f] show thesis by (intro that [of f]) simp_all
qed

text \<open>Installing a table of invalid entries changes no page.\<close>

lemma install_inner:
  assumes A: "ases st a = Some A" "page_table A (OUTER_PT_INDEX v) = None" and inv: "vm_inv slot st"
    and st': "st' = st\<lparr>ases := (ases st)(a \<mapsto> A\<lparr>page_table := (page_table A)(OUTER_PT_INDEX v \<mapsto>
        \<lparr>ipt_kva = kva, ipt = \<lambda>_. zero_pte\<rparr>)\<rparr>)\<rparr>"
  shows "vm_inv slot st'" and "vmem slot st' = vmem slot st" and "pte_of st' a v = Some zero_pte"
    and "resident st' = resident st"
proof -
  have pte: "pte_of st' b u = (if b = a \<and> OUTER_PT_INDEX u = OUTER_PT_INDEX v then Some zero_pte else pte_of st b u)" for b u
    using A by (auto simp: pte_of_def st')
  have none: "pte_of st a u = None" if "OUTER_PT_INDEX u = OUTER_PT_INDEX v" for u
    using A that by (simp add: pte_of_def)
  have z: "\<not> pte_valid zero_pte" by (simp add: zero_pte_def)
  show R: "resident st' = resident st"
    by (intro ext) (use none z in \<open>auto simp: resident_def pte\<close>)
  have S: "swapped st' = swapped st"
    by (intro ext) (use none z in \<open>auto simp: swapped_def pte\<close>)
  have sel: "coremap st' = coremap st" "num_frames st' = num_frames st" "fsys st' = fsys st"
    "replacement_queue st' = replacement_queue st" "swapfile_freeentries st' = swapfile_freeentries st" "kmem st' = kmem st"
    by (simp_all add: st')
  show "vm_inv slot st'"
    using inv
    unfolding vm_inv_defs frames_ok_def resident_ok_def swapped_ok_def swapped_inj_def queue_ok_def swap_wf_def R S sel .
  show "vmem slot st' = vmem slot st"
    by (intro ext) (use none z in \<open>auto simp: vmem_def pte sel split: option.split\<close>)
  show "pte_of st' a v = Some zero_pte" by (simp add: pte)
qed

lemma inner_pt_create_ok:
  assumes inv: "vm_inv slot st" and ok: "swap_vnode_ok ops (swapfile st) slot" and init: "vm_initialized st"
    and A: "ases st a = Some A" "page_table A (OUTER_PT_INDEX v) = None"
    and cr: "inner_pt_create ops a v st = Inr (r, st')"
  shows "r = 0 \<and> vm_inv slot st' \<and> vmem slot st' = vmem slot st \<and> pte_of st' a v = Some zero_pte \<and>
    curproc st' = curproc st \<and> ktlb st' = ktlb st \<and> swapfile st' = swapfile st \<and> vm_initialized st' = vm_initialized st"
proof -
  have np: "unat ((INNER_PT_BYTES + PAGE_SIZE - 1) div PAGE_SIZE) = 2"
    by (simp add: INNER_PT_BYTES_def PAGE_SIZE_def)
  from cr obtain ptr st1 where km: "kmalloc_large ops INNER_PT_BYTES st = Inr (ptr, st1)"
    by (auto simp: inner_pt_create_def)
  obtain f where f: "ptr = Some (PADDR_TO_KVADDR (of_nat f * PAGE_SIZE))" and post: "kalloc_post slot f 2 st st1"
    using kmalloc_large_ok [OF inv ok init _ km] np by auto
  from post have ev: "evicts st st1" and inv1: "vm_inv slot st1" and vm1: "vmem slot st1 = vmem slot st"
    and fl: "f + 2 \<le> length (coremap st1)"
    and nores: "\<And>j b u. f \<le> j \<Longrightarrow> j < f + 2 \<Longrightarrow> \<not> resident st1 b u (of_nat j * PAGE_SIZE)"
    by (auto simp: kalloc_post_def)
  obtain A1 where A1: "ases st1 a = Some A1" "as_shape A1 = as_shape A"
    using evicts_ases [OF ev A(1)] by blast
  with A(2) have none: "page_table A1 (OUTER_PT_INDEX v) = None"
    by (auto simp: as_shape_def dest!: fun_cong [of _ _ "OUTER_PT_INDEX v"])
  define st2 where "st2 = st1\<lparr>ases := (ases st1)(a \<mapsto> A1\<lparr>page_table := (page_table A1)(OUTER_PT_INDEX v \<mapsto>
        \<lparr>ipt_kva = PADDR_TO_KVADDR (of_nat f * PAGE_SIZE), ipt = \<lambda>_. zero_pte\<rparr>)\<rparr>)\<rparr>"
  note inst = install_inner [OF A1(1) none inv1 st2_def]
  from cr km f A1 have r: "r = 0" and st': "st' = st2\<lparr>kmem := bzero (PADDR_TO_KVADDR (of_nat f * PAGE_SIZE)) INNER_PT_BYTES (kmem st2)\<rparr>"
    by (auto simp: inner_pt_create_def pt_set_inner_def st2_def)
  have "length (coremap st1) \<le> 131072" using inv1 by (simp add: vm_inv_defs frames_ok_def)
  then have "j < 131072 \<and> \<not> resident st2 b u (of_nat j * PAGE_SIZE)" if "j \<in> {f, Suc f}" for j b u
    using that nores [of j b u] fl unfolding inst(4) by fastforce
  then have "vmem slot st' = vmem slot st2"
    unfolding st' using inst(1) by (intro vmem_outside [OF _ bzero2_outside]) (simp_all only: vm_inv_def simp_thms)
  with inst r vm1 ev show ?thesis
    by (simp add: st' vm_inv_def evicts_def) (simp add: st2_def)
qed

subsection \<open>The three kinds of faults\<close>

text \<open>
  What the handler guarantees once it has found the frame: the invariant, every other page as
  before, the faulting page resident in that frame.
\<close>

definition fault_post ::
  "('f \<Rightarrow> nat \<Rightarrow> u8 list option) \<Rightarrow> vaddr \<Rightarrow> vaddr \<Rightarrow> paddr \<Rightarrow> 'f kstate \<Rightarrow> 'f kstate \<Rightarrow> bool" where
  "fault_post slot a v p st st' \<longleftrightarrow>
     vm_inv slot st' \<and> resident st' a v p \<and> page_aligned p \<and>
     (\<forall>b u. (b, u) \<noteq> (a, v) \<longrightarrow> vmem slot st' b u = vmem slot st b u) \<and>
     curproc st' = curproc st \<and> ktlb st' = ktlb st \<and> swapfile st' = swapfile st"

lemma ualloc_frame:
  assumes "ualloc_post slot i (Some a) v st st'"
  shows "i < length (coremap st')" and "frame_of (coremap st' ! i) a v"
    and "cme_paddr (coremap st' ! i) = of_nat i * PAGE_SIZE"
    and "\<not> resident st' b u (of_nat i * PAGE_SIZE)" and "vm_inv_but {i} slot st'" and "evicts st st'"
    and "vmem slot st' = vmem slot st" and "page_aligned (of_nat i * PAGE_SIZE)" and "i < 131072"
  using assms
  by (auto simp: ualloc_post_def frame_of_def vm_inv_but_def frames_ok_def intro: frame_addr_aligned)

lemma map_new_page:
  assumes U: "ualloc_post slot i (Some a) v st st1" and v: "page_aligned v"
    and e0: "pte_of st a v = Some e0" "\<not> pte_valid e0 \<or> pte_swapped e0"
    and e: "pte_valid e" "\<not> pte_swapped e" "pte_paddr e = of_nat i * PAGE_SIZE"
    and st': "ases st' = ases (pt_store a v e st1)" "coremap st' = coremap st1" "num_frames st' = num_frames st1"
      "replacement_queue st' = replacement_queue st1" "slot (fsys st') = slot (fsys st1)" "swap_wf st'"
      "curproc st' = curproc st1" "ktlb st' = ktlb st1" "swapfile st' = swapfile st1"
    and used: "\<And>b u j. swapped st1 b u j \<Longrightarrow> (b, u) \<noteq> (a, v) \<Longrightarrow> unat j \<in> bm_used (swapfile_freeentries st')"
    and out: "outside_frames {i} (kmem st1) (kmem st')"
  shows "fault_post slot a v (of_nat i * PAGE_SIZE) st st'"
proof -
  note F = ualloc_frame [OF U]
  from e0 have nr: "\<not> resident st a v p" for p by (auto simp: resident_def)
  then have pte: "pte_of st1 a v = Some e0" using evicts_pte [OF F(6) v] e0 by simp
  have "\<not> resident st1 a v p" for p using evicts_resident [OF F(6)] nr by blast
  note M = map_page_ok [OF F(5,1,2,3,4) v pte this e st'(1-6) used out]
  from F(6) have "curproc st1 = curproc st" "ktlb st1 = ktlb st" "swapfile st1 = swapfile st"
    by (simp_all add: evicts_def)
  with M F(7,8) st'(7-9) show ?thesis by (simp add: fault_post_def)
qed

lemma ualloc_swapped_used:
  assumes "ualloc_post slot i (Some a) v st st1" and "swapped st1 b u j"
  shows "unat j \<in> bm_used (swapfile_freeentries st1)" and "slot (fsys st1) (unat j) \<noteq> None"
  using assms by (auto simp: ualloc_post_def vm_inv_but_def swapped_ok_def)

lemma ualloc_swap_wf: "ualloc_post slot i as v st st1 \<Longrightarrow> swap_wf st1"
  by (simp add: ualloc_post_def vm_inv_but_def)

text \<open>A page of a segment without a file starts as zeros.\<close>

lemma fault_zero_page:
  assumes U: "ualloc_post slot i (Some a) v st st1" and v: "page_aligned v"
    and e0: "pte_of st a v = Some e0" "\<not> pte_valid e0"
    and st2: "st2 = pt_store a v \<lparr>pte_paddr = of_nat i * PAGE_SIZE, pte_valid = True, pte_swapped = False\<rparr> st1"
    and st': "st' = st2\<lparr>kmem := bzero (PADDR_TO_KVADDR (of_nat i * PAGE_SIZE)) PAGE_SIZE (kmem st2), vms := s\<rparr>"
  shows "fault_post slot a v (of_nat i * PAGE_SIZE) st st'" and "vmem slot st' a v = Some zero_page"
proof -
  show fp: "fault_post slot a v (of_nat i * PAGE_SIZE) st st'"
    by (rule map_new_page [OF U v e0(1), where e = "\<lparr>pte_paddr = of_nat i * PAGE_SIZE, pte_valid = True, pte_swapped = False\<rparr>"])
      (use e0 ualloc_swap_wf [OF U] ualloc_swapped_used [OF U] bzero_outside
        in \<open>simp_all add: st' st2 swap_wf_def\<close>)
  then have "resident st' a v (of_nat i * PAGE_SIZE)" by (simp add: fault_post_def)
  then show "vmem slot st' a v = Some zero_page"
    by (simp add: vmem_resident st' get_page_bzero)
qed

text \<open>A swapped page comes back with its content, and its slot is free again.\<close>

lemma fault_swap_in:
  assumes U: "ualloc_post slot i (Some a) v st st1" and v: "page_aligned v"
    and ok: "swap_vnode_ok ops (swapfile st) slot"
    and sw: "swapped st a v j" and e1: "pte_of st1 a v = Some e1"
    and rd: "swapfile_readpage ops (of_nat i * PAGE_SIZE) (pte_paddr e1) st1 = Inr (r, st2)"
    and st': "st' = pt_store a v (e1\<lparr>pte_swapped := False, pte_paddr := of_nat i * PAGE_SIZE\<rparr>) st2"
  shows "fault_post slot a v (of_nat i * PAGE_SIZE) st st' \<and> vmem slot st' a v = vmem slot st a v"
proof -
  note F = ualloc_frame [OF U]
  have sw1: "swapped st1 a v j" by (rule evicts_swapped [OF F(6) sw])
  with e1 have e: "pte_paddr e1 = j" "pte_valid e1" "pte_swapped e1" by (auto simp: swapped_def)
  from ualloc_swapped_used [OF U sw1] obtain pg where used: "unat j \<in> bm_used (swapfile_freeentries st1)"
    and pg: "slot (fsys st1) (unat j) = Some pg" by blast
  have ok1: "swap_vnode_ok ops (swapfile st1) slot" using ok F(6) by (simp add: evicts_def)
  note wf = ualloc_swap_wf [OF U]
  obtain f where f: "slot f = slot (fsys st1)" and rd': "swapfile_readpage ops (of_nat i * PAGE_SIZE) j st1 =
      Inr (0, st1\<lparr>fsys := f, kmem := put_page (PADDR_TO_KVADDR (of_nat i * PAGE_SIZE)) pg (kmem st1),
        swapfile_freeentries := bm_clearbit (swapfile_freeentries st1) (unat j),
        vms := (vms st1)\<lparr>vms_pagefaultsswapfile := vms_pagefaultsswapfile (vms st1) + 1,
                        vms_pagefaultsdisk := vms_pagefaultsdisk (vms st1) + 1\<rparr>\<rparr>)"
    by (rule swapfile_readpage_written [OF ok1 wf used pg])
  from wf used have jb: "bitmap_wf (swapfile_freeentries st1)" "unat j < unat (bm_nbits (swapfile_freeentries st1))"
    by (simp_all add: swap_wf_def bm_used_def)
  then have clr: "bm_used (bm_clearbit (swapfile_freeentries st1) (unat j)) = bm_used (swapfile_freeentries st1) - {unat j}"
    "bitmap_wf (bm_clearbit (swapfile_freeentries st1) (unat j))"
    by (simp_all add: bm_used_clearbit bitmap_wf_clearbit)
  have inj: "unat k \<noteq> unat j" if "swapped st1 b u k" "(b, u) \<noteq> (a, v)" for b u k
    using F(5) that sw1 unfolding vm_inv_but_def swapped_inj_def by (metis word_unat_eq_iff)
  from sw obtain e0 where e0: "pte_of st a v = Some e0" "pte_swapped e0" by (auto simp: swapped_def)
  have fp: "fault_post slot a v (of_nat i * PAGE_SIZE) st st'"
    by (rule map_new_page [OF U v e0(1), where e = "e1\<lparr>pte_swapped := False, pte_paddr := of_nat i * PAGE_SIZE\<rparr>"])
      (use e e0 rd rd' f wf clr ualloc_swapped_used [OF U] inj put_page_outside
        in \<open>auto simp: st' swap_wf_def pt_store_def split: option.splits\<close>)
  then have "resident st' a v (of_nat i * PAGE_SIZE)" by (simp add: fault_post_def)
  then have "vmem slot st' a v = Some pg"
    using rd rd' e swap_slot_length [OF ok1 pg] by (auto simp: vmem_resident st' get_put_page_same)
  moreover have "vmem slot st a v = Some pg"
    using vmem_swapped [OF sw1] pg F(7) by metis
  ultimately show ?thesis using fp by simp
qed

text \<open>Loading from the executable stays inside the frame, whatever the read returns.\<close>

lemma pt_load_frame:
  assumes ok: "swap_vnode_ok ops sv slot" and bo: "elf_base_offset s < PAGE_SIZE"
    and ld: "pt_load ops s v (of_nat i * PAGE_SIZE) st = Inr (r, st')"
  shows "outside_frames {i} (kmem st) (kmem st')" and "slot (fsys st') = slot (fsys st)"
    and "ases st' = ases st" and "coremap st' = coremap st" and "num_frames st' = num_frames st"
    and "replacement_queue st' = replacement_queue st" and "swapfile_freeentries st' = swapfile_freeentries st"
    and "curproc st' = curproc st" and "ktlb st' = ktlb st" and "swapfile st' = swapfile st"
proof -
  from ld obtain vn where vn: "elf_file s = Some vn" by (cases "elf_file s") (auto simp: pt_load_def)
  obtain pa off sz where bl: "segments_before_load s v (of_nat i * PAGE_SIZE)
      (elf_segment_start s + (v - vbase s)) PAGE_SIZE = (pa, off, sz)" by (metis prod.collapse)
  obtain e u f m where rd: "vop_read ops vn (uio_kinit (PADDR_TO_KVADDR pa) sz (ucast off) UIO_READ) (fsys st) (kmem st) = (e, u, f, m)"
    by (metis prod.collapse)
  note fr = vnode_read_frame [OF ok rd]
  from ld vn bl rd have st': "kmem st' = m" "fsys st' = f"
    and sel: "ases st' = ases st" "coremap st' = coremap st" "num_frames st' = num_frames st"
    "replacement_queue st' = replacement_queue st" "swapfile_freeentries st' = swapfile_freeentries st"
    "curproc st' = curproc st" "ktlb st' = ktlb st" "swapfile st' = swapfile st"
    by (auto simp: pt_load_def load_page_def Let_def split: if_splits)
  show "outside_frames {i} (kmem st) (kmem st')"
    unfolding outside_frames_def
  proof (intro allI impI)
    fix x assume x: "\<forall>j\<in>{i}. \<not> x - PADDR_TO_KVADDR (of_nat j * PAGE_SIZE) < PAGE_SIZE"
    have "\<not> x - PADDR_TO_KVADDR pa < sz"
    proof
      assume "x - PADDR_TO_KVADDR pa < sz"
      then have "(x - MIPS_KSEG0) - pa < sz" by (simp add: PADDR_TO_KVADDR_def algebra_simps)
      from segments_before_load_within [OF bo bl this] x show False
        by (simp add: PADDR_TO_KVADDR_def algebra_simps)
    qed
    with fr st' show "kmem st' x = kmem st x" by blast
  qed
  show "slot (fsys st') = slot (fsys st)" using fr st' by simp
qed (use ld in \<open>auto simp: pt_load_def load_page_def Let_def split: option.splits prod.splits if_splits\<close>)

lemma fault_elf_page:
  assumes U: "ualloc_post slot i (Some a) v st st1" and v: "page_aligned v"
    and ok: "swap_vnode_ok ops (swapfile st) slot" and bo: "elf_base_offset s < PAGE_SIZE"
    and e0: "pte_of st a v = Some e0" "\<not> pte_valid e0"
    and st2: "st2 = pt_store a v \<lparr>pte_paddr = of_nat i * PAGE_SIZE, pte_valid = True, pte_swapped = False\<rparr> st1"
    and ld: "pt_load ops s v (of_nat i * PAGE_SIZE) st2 = Inr (r, st')"
  shows "fault_post slot a v (of_nat i * PAGE_SIZE) st st'"
proof -
  note L = pt_load_frame [OF ok bo ld]
  show ?thesis
    by (rule map_new_page [OF U v e0(1), where e = "\<lparr>pte_paddr = of_nat i * PAGE_SIZE, pte_valid = True, pte_swapped = False\<rparr>"])
      (use e0 ualloc_swap_wf [OF U] ualloc_swapped_used [OF U] L in \<open>simp_all add: st2 swap_wf_def\<close>)
qed

subsection \<open>The handler\<close>

text \<open>The content of the faulting page: what it was, or zeros for a new page without a file.\<close>

definition fault_content ::
  "('f \<Rightarrow> nat \<Rightarrow> u8 list option) \<Rightarrow> segment \<Rightarrow> vaddr \<Rightarrow> vaddr \<Rightarrow> 'f kstate \<Rightarrow> 'f kstate \<Rightarrow> bool" where
  "fault_content slot s a v st st' \<longleftrightarrow>
     (case vmem slot st a v of
        Some pg \<Rightarrow> vmem slot st' a v = Some pg
      | None \<Rightarrow> elf_file s = None \<longrightarrow> vmem slot st' a v = Some zero_page)"

lemma vm_fault_page_ok:
  assumes inv: "vm_inv slot st" and ok: "swap_vnode_ok ops (swapfile st) slot" and cp: "curproc st = Some (Some a)"
    and v: "page_aligned v" and e: "pte_of st a v = Some entry" and bo: "elf_base_offset s < PAGE_SIZE"
    and f: "vm_fault_page ops km s a v entry st = Inr (p, st')"
  shows "fault_post slot a v p st st' \<and> fault_content slot s a v st st'"
proof (cases "pte_valid entry")
  case False
  with f obtain st1 where al: "coremap_alloc ops km v st = Inr (p, st1)"
    by (auto simp: vm_fault_page_def Let_def split: if_splits)
  obtain i where p: "p = of_nat i * PAGE_SIZE" and U: "ualloc_post slot i (Some a) v st st1"
    using coremap_alloc_ok [OF inv ok cp al] by blast
  let ?st2 = "pt_store a v \<lparr>pte_paddr = of_nat i * PAGE_SIZE, pte_valid = True, pte_swapped = False\<rparr> st1"
  from e False have none: "vmem slot st a v = None" by (simp add: vmem_def)
  show ?thesis
  proof (cases "elf_file s = None")
    case True
    with f al False p obtain vs where "st' = ?st2\<lparr>kmem := bzero (PADDR_TO_KVADDR (of_nat i * PAGE_SIZE)) PAGE_SIZE (kmem ?st2), vms := vs\<rparr>"
      by (auto simp: vm_fault_page_def Let_def)
    from fault_zero_page [OF U v e False refl this] none p show ?thesis by (simp add: fault_content_def)
  next
    case elf: False
    with f al False p obtain r where "pt_load ops s v (of_nat i * PAGE_SIZE) ?st2 = Inr (r, st')"
      by (auto simp: vm_fault_page_def Let_def)
    from fault_elf_page [OF U v ok bo e False refl this] none p elf show ?thesis by (auto simp: fault_content_def)
  qed
next
  case valid: True
  show ?thesis
  proof (cases "pte_swapped entry")
    case True
    with valid e v have sw: "swapped st a v (pte_paddr entry)" by (simp add: swapped_def)
    from f valid True obtain st1 e1 r st2 where al: "coremap_alloc ops km v st = Inr (p, st1)"
      and e1: "pte_of st1 a v = Some e1" and rd: "swapfile_readpage ops p (pte_paddr e1) st1 = Inr (r, st2)"
      and st': "st' = pt_store a v (e1\<lparr>pte_swapped := False, pte_paddr := p\<rparr>) st2"
      by (auto simp: vm_fault_page_def pt_get_Inr)
    obtain i where p: "p = of_nat i * PAGE_SIZE" and U: "ualloc_post slot i (Some a) v st st1"
      using coremap_alloc_ok [OF inv ok cp al] by blast
    from fault_swap_in [OF U v ok sw e1 rd [unfolded p] st' [unfolded p]] p
    have "fault_post slot a v p st st'" "vmem slot st' a v = vmem slot st a v" by simp_all
    moreover have "vmem slot st a v \<noteq> None"
      using sw inv by (auto simp: vmem_swapped vm_inv_defs swapped_ok_def)
    ultimately show ?thesis by (auto simp: fault_content_def)
  next
    case False
    with valid e v have res: "resident st a v (pte_paddr entry)" by (simp add: resident_def)
    from inv have fr: "frames_ok st" "resident_ok st" by (simp_all add: vm_inv_defs)
    have "page_aligned (pte_paddr entry)"
      by (rule resident_frame [OF fr res]) (simp add: frame_addr_aligned)
    with f valid False res inv show ?thesis
      by (auto simp: vm_fault_page_def fault_post_def fault_content_def vm_inv_def vmem_resident)
  qed
qed

lemma vm_fault_table_ok:
  assumes inv: "vm_inv slot st" and ok: "swap_vnode_ok ops (swapfile st) slot" and init: "vm_initialized st"
    and A: "ases st a = Some A" and ft: "vm_fault_table ops a A v st = Inr (r, st2)"
  shows "r = 0 \<and> vm_inv slot st2 \<and> vmem slot st2 = vmem slot st \<and> curproc st2 = curproc st \<and>
    ktlb st2 = ktlb st \<and> swapfile st2 = swapfile st"
proof -
  let ?st1 = "st\<lparr>vms := (vms st)\<lparr>vms_tlbfaults := vms_tlbfaults (vms st) + 1\<rparr>\<rparr>"
  have "vm_inv slot ?st1" using inv by (simp add: vm_inv_def)
  then show ?thesis
    using inner_pt_create_ok [of slot ?st1 ops a A v r st2] ok init A ft
    by (auto simp: vm_fault_table_def Let_def split: if_splits)
qed

lemma vm_fault_unfold:
  assumes "vm_fault ops km ft addr st = Inr (VmRet 0, st')" and "curproc st = Some (Some a)" and "ases st a = Some A"
    and v: "v = addr AND PAGE_FRAME"
  obtains s st2 entry p st3 t vs where "segments_find_segment (segments A) v = Some s"
    and "vm_fault_table ops a A v st = Inr (0, st2)" and "pte_of st2 a v = Some entry"
    and "vm_fault_page ops km s a v entry st2 = Inr (p, st3)"
    and "vmtlb_insert v p (writable s) (ktlb st3, vms st3) = (0, t, vs)"
    and "st' = st3\<lparr>ktlb := t, vms := vs\<rparr>"
proof -
  from assms obtain s where s: "segments_find_segment (segments A) v = Some s"
    by (cases "segments_find_segment (segments A) v") (auto simp: vm_fault_def Let_def split: if_splits)
  from assms s obtain st2 where ft: "vm_fault_table ops a A v st = Inr (0, st2)"
    by (auto simp: vm_fault_def Let_def split: if_splits)
  from assms s ft obtain entry p st3 where e: "pte_of st2 a v = Some entry"
    and f: "vm_fault_page ops km s a v entry st2 = Inr (p, st3)"
    by (auto simp: vm_fault_def Let_def pt_get_Inr split: if_splits prod.splits)
  obtain r t vs where t: "vmtlb_insert v p (writable s) (ktlb st3, vms st3) = (r, t, vs)" by (metis prod.collapse)
  from assms s ft e f t have "r = 0" "st' = st3\<lparr>ktlb := t, vms := vs\<rparr>"
    by (auto simp: vm_fault_def Let_def pt_get_Inr split: if_splits prod.splits)
  with that s ft e f t show thesis by blast
qed

end
