(* ===== verification/Vm_Live.thy ===== *)
theory Vm_Live
  imports Vm_Fault
begin

text \<open>
  The handler returns. When the inner page table exists, the swap file is usable, and there is a
  free frame or a page that can be evicted, a read or write fault inside a segment is resolved.
\<close>

definition frame_available :: "'f vnode_ops \<Rightarrow> 'f kstate \<Rightarrow> bool" where
  "frame_available ops st \<longleftrightarrow> free_frames st \<noteq> {} \<or>
     replacement_queue st \<noteq> [] \<and> bm_used (swapfile_freeentries st) \<noteq> {..<unat SWAPFILE_MAX_PAGES} \<and>
     swap_writes_succeed ops (swapfile st)"

lemma pt_load_total:
  assumes "elf_file s = Some vn"
  shows "\<exists>r st'. pt_load ops s v p st = Inr (r, st')"
proof -
  obtain pa off sz where bl: "segments_before_load s v p (elf_segment_start s + (v - vbase s)) PAGE_SIZE = (pa, off, sz)"
    by (metis prod.collapse)
  obtain r st1 where "load_page ops vn pa sz off (executable s) st = (r, st1)" by fastforce
  with assms bl show ?thesis by (cases "r = 0") (simp_all add: pt_load_def Let_def)
qed

lemma swapfile_readpage_total:
  assumes U: "ualloc_post slot i (Some a) v st st1" and ok: "swap_vnode_ok ops (swapfile st) slot"
    and sw: "swapped st1 a v j"
  shows "\<exists>st2. swapfile_readpage ops p j st1 = Inr (0, st2)"
proof -
  from ualloc_swapped_used [OF U sw] obtain pg where "unat j \<in> bm_used (swapfile_freeentries st1)"
    "slot (fsys st1) (unat j) = Some pg" by blast
  moreover have "swap_vnode_ok ops (swapfile st1) slot" using ok ualloc_frame(6) [OF U] by (simp add: evicts_def)
  ultimately show ?thesis using swapfile_readpage_written [OF _ ualloc_swap_wf [OF U]] by metis
qed

lemma vm_fault_page_total:
  assumes inv: "vm_inv slot st" and ok: "swap_vnode_ok ops (swapfile st) slot" and cp: "curproc st = Some (Some a)"
    and v: "page_aligned v" and e: "pte_of st a v = Some entry"
    and room: "frame_available ops st \<or> pte_valid entry \<and> \<not> pte_swapped entry"
  shows "\<exists>p st'. vm_fault_page ops KmBlock s a v entry st = Inr (p, st')"
proof (cases "pte_valid entry \<and> \<not> pte_swapped entry")
  case True
  then show ?thesis by (simp add: vm_fault_page_def)
next
  case False
  with room obtain p st1 where al: "coremap_alloc ops KmBlock v st = Inr (p, st1)"
    using coremap_alloc_total [OF inv ok cp] unfolding frame_available_def by blast
  obtain i where p: "p = of_nat i * PAGE_SIZE" and U: "ualloc_post slot i (Some a) v st st1"
    using coremap_alloc_ok [OF inv ok cp al] by blast
  show ?thesis
  proof (cases "pte_valid entry")
    case True
    with False v e have sw: "swapped st a v (pte_paddr entry)" by (simp add: swapped_def)
    then have sw1: "swapped st1 a v (pte_paddr entry)" by (rule evicts_swapped [OF ualloc_frame(6) [OF U]])
    then obtain e1 where e1: "pte_of st1 a v = Some e1" "pte_paddr e1 = pte_paddr entry" by (auto simp: swapped_def)
    then have g: "pt_get (Some a) v st1 = Inr e1" by (simp add: pt_get_Inr)
    obtain st2 where "swapfile_readpage ops p (pte_paddr e1) st1 = Inr (0, st2)"
      using swapfile_readpage_total [OF U ok sw1] e1 by auto
    with al g True False show ?thesis by (simp add: vm_fault_page_def)
  next
    case new: False
    let ?st2 = "pt_store a v \<lparr>pte_paddr = p, pte_valid = True, pte_swapped = False\<rparr> st1"
    show ?thesis
    proof (cases "elf_file s")
      case None
      with al new show ?thesis by (simp add: vm_fault_page_def Let_def)
    next
      case (Some vn)
      with pt_load_total [OF Some] obtain r st3 where "pt_load ops s v p ?st2 = Inr (r, st3)" by blast
      with al new Some show ?thesis by (simp add: vm_fault_page_def Let_def)
    qed
  qed
qed

lemma vm_fault_resolves:
  assumes inv: "vm_inv slot st" and ok: "swap_vnode_ok ops (swapfile st) slot" and init: "vm_initialized st"
    and cp: "curproc st = Some (Some a)" and A: "ases st a = Some A" and segs: "segs_ok (segments A)"
    and v: "v = addr AND PAGE_FRAME" and seg: "segments_find_segment (segments A) v \<noteq> None"
    and tbl: "page_table A (OUTER_PT_INDEX v) \<noteq> None"
    and ft: "ft = VM_FAULT_READ \<or> ft = VM_FAULT_WRITE" and room: "frame_available ops st"
  shows "\<exists>st'. vm_fault ops KmBlock ft addr st = Inr (VmRet 0, st')"
proof -
  let ?st1 = "st\<lparr>vms := (vms st)\<lparr>vms_tlbfaults := vms_tlbfaults (vms st) + 1\<rparr>\<rparr>"
  from seg obtain s where s: "segments_find_segment (segments A) v = Some s" by blast
  from tbl A obtain e where e: "pte_of st a v = Some e" by (auto simp: pte_of_def)
  have inv1: "vm_inv slot ?st1" using inv by (simp add: vm_inv_def)
  have al: "page_aligned v" by (simp add: v)
  obtain p st3 where f: "vm_fault_page ops KmBlock s a v e ?st1 = Inr (p, st3)"
    using vm_fault_page_total [OF inv1 _ _ al, of ops a e s] ok cp e room
    by (auto simp: frame_available_def free_frames_def)
  have "page_aligned p"
    using vm_fault_page_ok [OF inv1 _ _ al _ segs_ok_find [OF segs s] f] ok cp e by (simp add: fault_post_def)
  moreover obtain t vs where "vmtlb_insert v p (writable s) (ktlb st3, vms st3) = (0, t, vs)"
    using vmtlb_insert_frame by (metis prod.collapse)
  moreover have "pt_get (Some a) v ?st1 = Inr e" using e by (simp add: pt_get_Inr)
  moreover have "vm_fault_table ops a A v st = Inr (0, ?st1)" using tbl by (auto simp: vm_fault_table_def Let_def)
  ultimately show ?thesis
    using cp A s f ft by (auto simp: vm_fault_def v [symmetric] Let_def VM_FAULT_READ_def VM_FAULT_WRITE_def VM_FAULT_READONLY_def)
qed

end
