(* ===== verification/Page_Fs.thy ===== *)
theory Page_Fs
  imports Swapfile
begin

text \<open>
  A swap file kept in a table of pages: a concrete instance of the vnode contract the swap code
  relies on, and the round trip of a page through the swap file.
\<close>

type_synonym page_fs = "nat \<Rightarrow> u8 list option"

definition page_slot :: "page_fs \<Rightarrow> nat \<Rightarrow> u8 list option" where
  "page_slot f i = (case f i of None \<Rightarrow> None | Some pg \<Rightarrow> if length pg = 4096 then Some pg else None)"

text \<open>A read of a whole page that was written delivers it; any other read delivers nothing.\<close>

definition page_read :: "nat \<Rightarrow> uio \<Rightarrow> page_fs \<Rightarrow> mem \<Rightarrow> int \<times> uio \<times> page_fs \<times> mem" where
  "page_read v u f m =
     (case uio_iov u of
        [io] \<Rightarrow>
          (case page_slot f (unat (uio_offset u) div 4096) of
             Some pg \<Rightarrow> if iov_len io = PAGE_SIZE then (0, u\<lparr>uio_resid := 0\<rparr>, f, put_page (iov_base io) pg m)
                        else (0, u, f, m)
           | None \<Rightarrow> (0, u, f, m))
      | _ \<Rightarrow> (EINVAL, u, f, m))"

definition page_write :: "nat \<Rightarrow> uio \<Rightarrow> page_fs \<Rightarrow> mem \<Rightarrow> int \<times> uio \<times> page_fs" where
  "page_write v u f m =
     (case uio_iov u of
        [io] \<Rightarrow> (0, u\<lparr>uio_resid := 0\<rparr>, f(unat (uio_offset u) div 4096 \<mapsto> get_page m (iov_base io)))
      | _ \<Rightarrow> (EINVAL, u, f))"

definition page_ops :: "page_fs vnode_ops" where
  "page_ops = \<lparr>vop_read = page_read, vop_write = page_write, vfs_close = \<lambda>v f. f\<rparr>"

lemma swap_offset:
  assumes "i < SWAPFILE_MAX_PAGES"
  shows "unat (ucast (i * PAGE_SIZE) :: u64) div 4096 = unat i"
proof -
  have i: "unat i < 2304" using assms by (simp add: SWAPFILE_MAX_PAGES_val u32_less_eq_unat)
  have "unat (i * PAGE_SIZE) = unat i * 4096"
    using i by (simp add: PAGE_SIZE_def unat_mult_u32)
  moreover have "unat (ucast (i * PAGE_SIZE) :: u64) = unat (i * PAGE_SIZE)"
    using unat_u32_bound [of "i * PAGE_SIZE"] by (simp add: unsigned_ucast_eq take_bit_nat_eq_self)
  ultimately show ?thesis by simp
qed

lemma page_ops_ok: "swap_vnode_ok page_ops sv page_slot"
  unfolding swap_vnode_ok_def
proof (intro conjI allI impI)
  fix kva i f m u f'
  assume i: "i < SWAPFILE_MAX_PAGES" and w: "vop_write page_ops sv (swap_uio kva i UIO_WRITE) f m = (0, u, f')"
  then have "f' = f(unat i \<mapsto> get_page m kva)"
    by (auto simp: page_ops_def page_write_def uio_kinit_def swap_offset [OF i])
  then show "page_slot f' = (page_slot f)(unat i \<mapsto> get_page m kva)"
    by (auto simp: page_slot_def fun_eq_iff)
next
  fix kva i f m pg
  assume i: "i < SWAPFILE_MAX_PAGES" and pg: "page_slot f (unat i) = Some pg"
  then show "\<exists>u f'. vop_read page_ops sv (swap_uio kva i UIO_READ) f m = (0, u, f', put_page kva pg m)"
    by (simp add: page_ops_def page_read_def uio_kinit_def swap_offset [OF i])
next
  fix v kva len off f m r u f' m'
  assume r: "vop_read page_ops v (uio_kinit kva len off UIO_READ) f m = (r, u, f', m')"
  then show "page_slot f' = page_slot f"
    by (auto simp: page_ops_def page_read_def uio_kinit_def split: option.splits if_splits)
  show "m' x = m x" if "\<not> x - kva < len" for x
    using r that by (auto simp: page_ops_def page_read_def uio_kinit_def put_page_def split: option.splits if_splits)
next
  fix f i pg assume "page_slot f i = Some pg"
  then show "length pg = 4096" by (auto simp: page_slot_def split: option.splits if_splits)
qed

lemma page_ops_writes: "swap_writes_succeed page_ops sv"
  by (simp add: swap_writes_succeed_def page_ops_def page_write_def uio_kinit_def)

subsection \<open>Properties\<close>

text \<open>
  C20: A page written to the swap file and read back later, into any frame and after any change of
  memory, is the page that was written; the read gives back exactly the bitmap of free slots before
  the write, and the pages in the other slots are untouched.
\<close>

theorem swap_roundtrip:
  assumes ok: "swap_vnode_ok ops (swapfile st) slot" and wf: "swap_wf st"
    and w: "swapfile_writepage ops p st = Inr (Ret i, st1)"
  shows "\<exists>st2. swapfile_readpage ops q i (st1\<lparr>kmem := m\<rparr>) = Inr (0, st2) \<and>
    get_page (kmem st2) (PADDR_TO_KVADDR q) = get_page (kmem st) (PADDR_TO_KVADDR p) \<and>
    swapfile_freeentries st2 = swapfile_freeentries st \<and>
    (\<forall>j. j \<noteq> unat i \<longrightarrow> slot (fsys st2) j = slot (fsys st) j)"
proof (rule swapfile_writepage_Ret [OF ok wf w])
  fix f
  let ?b = "swapfile_freeentries st" and ?pg = "get_page (kmem st) (PADDR_TO_KVADDR p)"
  assume i: "unat i \<notin> bm_used ?b" "i < SWAPFILE_MAX_PAGES"
    and f: "slot f = (slot (fsys st))(unat i \<mapsto> ?pg)"
    and st1: "st1 = st\<lparr>swapfile_freeentries := bm_setbit ?b (unat i), fsys := f,
           vms := (vms st)\<lparr>vms_swapfilewrites := vms_swapfilewrites (vms st) + 1\<rparr>\<rparr>"
  let ?st = "st1\<lparr>kmem := m\<rparr>"
  have wfb: "bitmap_wf ?b" and ib: "unat i < unat (bm_nbits ?b)"
    using wf i(2) by (simp_all add: swap_wf_def u32_less_eq_unat)
  have cl: "bm_clearbit (bm_setbit ?b (unat i)) (unat i) = ?b"
    using i(1) ib bitmap_wf_bound [OF wfb ib] by (intro clear_setbit) (simp_all add: bm_used_def)
  have "swap_vnode_ok ops (swapfile ?st) slot" "swap_wf ?st" "unat i \<in> bm_used (swapfile_freeentries ?st)"
    "slot (fsys ?st) (unat i) = Some ?pg"
    using ok wf wfb ib f by (simp_all add: st1 swap_wf_def bitmap_wf_setbit bm_used_setbit)
  then obtain g where "slot g = slot (fsys ?st)" and rd: "swapfile_readpage ops q i ?st =
      Inr (0, ?st\<lparr>fsys := g, kmem := put_page (PADDR_TO_KVADDR q) ?pg (kmem ?st),
        swapfile_freeentries := bm_clearbit (swapfile_freeentries ?st) (unat i),
        vms := (vms ?st)\<lparr>vms_pagefaultsswapfile := vms_pagefaultsswapfile (vms ?st) + 1,
                         vms_pagefaultsdisk := vms_pagefaultsdisk (vms ?st) + 1\<rparr>\<rparr>)"
    by (rule swapfile_readpage_written)
  then show ?thesis
    unfolding rd using f cl by (simp add: st1 get_put_page_same)
qed

end
