(* ===== verification/Vm_Example.thy ===== *)
theory Vm_Example
  imports Vm_Live Page_Fs
begin

text \<open>
  A small kernel state with one address space, on which the invariant holds.
\<close>

subsection \<open>A small machine\<close>

text \<open>
  One process whose address space at kernel address \<open>0x80010000\<close> has its stack segment defined
  and an inner page table for the top of user space; a coremap of eight frames of which the
  kernel holds the first four; an empty swap file.
\<close>

definition stack_seg :: segment where
  "stack_seg = \<lparr>vbase = 0x7FFEE000, vtop = 0x80000000, npages = 0, readable = True, writable = True,
     executable = False, elf_file = None, elf_segment_start = 0, elf_base_offset = 0\<rparr>"

definition text_seg :: segment where
  "text_seg = \<lparr>vbase = 0x400000, vtop = 0x402000, npages = 2, readable = True, writable = False,
     executable = True, elf_file = Some 1, elf_segment_start = 0, elf_base_offset = 0\<rparr>"

definition data_seg :: segment where
  "data_seg = \<lparr>vbase = 0x10000000, vtop = 0x10001000, npages = 1, readable = True, writable = True,
     executable = False, elf_file = Some 1, elf_segment_start = 0x2000, elf_base_offset = 0\<rparr>"

definition as0 :: vaddr where "as0 = 0x80010000"

definition kframe :: coremap_entry where
  "kframe = \<lparr>cme_as = None, cme_vaddr = 0, cme_paddr = 0, cme_is_free = False, cme_alloc_size = 1\<rparr>"

definition addrspace0 :: addrspace where
  "addrspace0 = \<lparr>segments = [text_seg, data_seg, stack_seg],
     page_table = [OUTER_PT_INDEX 0x7FFFF000 \<mapsto> \<lparr>ipt_kva = 0x80012000, ipt = \<lambda>_. zero_pte\<rparr>]\<rparr>"

definition swap0 :: bitmap where
  "swap0 = \<lparr>bm_nbits = SWAPFILE_MAX_PAGES, bm_v = replicate 288 0\<rparr>"

definition kstate0 :: "page_fs kstate" where
  "kstate0 = \<lparr>vms = vmstats_ex, ktlb = tlb_ex,
     coremap = replicate 4 kframe @ replicate 4 (kframe\<lparr>cme_is_free := True\<rparr>), num_frames = 8,
     replacement_queue = [], ases = [as0 \<mapsto> addrspace0], fsys = Map.empty, swapfile = 0,
     swapfile_freeentries = swap0, kmem = \<lambda>_. 0, curproc = Some (Some as0), vm_initialized = True,
     firstpaddr = 0, lastpaddr = 0\<rparr>"

lemma kstate0_unmapped: "\<not> resident kstate0 a v p" "\<not> swapped kstate0 a v i"
  by (auto simp: resident_def swapped_def pte_of_def kstate0_def addrspace0_def zero_pte_def
      split: option.splits if_splits)

lemma swap0_wf: "bitmap_wf swap0" and swap0_used: "bm_used swap0 = {}"
proof -
  have nb: "unat SWAPFILE_MAX_PAGES = 2304" by (simp add: SWAPFILE_MAX_PAGES_val)
  show "bitmap_wf swap0" by (auto simp: bitmap_wf_def swap0_def nb)
  show "bm_used swap0 = {}"
    by (auto simp: bm_used_def bm_bit_def swap0_def nb less_mult_imp_div_less)
qed

lemma kstate0_inv: "vm_inv page_slot kstate0"
  unfolding vm_inv_defs resident_ok_def swapped_ok_def swapped_inj_def
  using swap0_wf
  by (simp add: kstate0_unmapped queue_ok_def frames_ok_def swap_wf_def) (simp add: kstate0_def swap0_def)

lemma kstate0_segs: "segs_ok (segments addrspace0)"
  by (simp add: segs_ok_def addrspace0_def NUM_SEGMENTS_def text_seg_def data_seg_def stack_seg_def PAGE_SIZE_def)

lemma kstate0_room: "frame_available ops kstate0"
proof -
  have "7 \<in> free_frames kstate0" by (simp add: free_frames_def kstate0_def kframe_def nth_append)
  then show ?thesis by (auto simp: frame_available_def)
qed

text \<open>The round trip through the swap file, on the empty swap file.\<close>

theorem swap_roundtrip_witness:
  "\<exists>i st1 st2. swapfile_writepage page_ops 0x4000 kstate0 = Inr (Ret i, st1) \<and>
     swapfile_readpage page_ops 0x6000 i (st1\<lparr>kmem := \<lambda>_. 1\<rparr>) = Inr (0, st2) \<and>
     get_page (kmem st2) (PADDR_TO_KVADDR 0x6000) = get_page (kmem kstate0) (PADDR_TO_KVADDR 0x4000)"
proof -
  have wf: "swap_wf kstate0" using kstate0_inv by (simp add: vm_inv_defs)
  have "bm_used (swapfile_freeentries kstate0) = {}" by (simp add: kstate0_def swap0_used)
  moreover have "{..<unat SWAPFILE_MAX_PAGES} \<noteq> {}" by (simp add: SWAPFILE_MAX_PAGES_val lessThan_empty_iff)
  ultimately obtain i st1 where "swapfile_writepage page_ops 0x4000 kstate0 = Inr (Ret i, st1)"
    using swapfile_writepage_total [OF wf _ page_ops_writes] by metis
  then show ?thesis using swap_roundtrip [OF page_ops_ok wf, of "0x4000" i st1 "0x6000" "\<lambda>_. 1"] by blast
qed

end
