(* ===== verification/Vm_Props.thy ===== *)
theory Vm_Props
  imports Vm_Example
begin

text \<open>
  The properties of the paging system as a whole, each with an application to the small machine
  of \<open>Vm_Example\<close>.
\<close>

lemma kstate0_sel:
  "curproc kstate0 = Some (Some as0)" "ases kstate0 as0 = Some addrspace0" "vm_initialized kstate0"
  "tlb_wf (ktlb kstate0)" "swapfile kstate0 = 0"
  by (simp_all add: kstate0_def tlb_ex_wf)

lemma kstate0_stack:
  "segments_find_segment (segments addrspace0) 0x7FFFF000 = Some stack_seg"
  "page_table addrspace0 (OUTER_PT_INDEX 0x7FFFF000) \<noteq> None"
  by (simp_all add: addrspace0_def segments_find_segment_def NUM_SEGMENTS_def upt_rec text_seg_def
      data_seg_def stack_seg_def)

lemma kstate0_fault: "\<exists>st'. vm_fault page_ops KmBlock VM_FAULT_WRITE 0x7FFFF123 kstate0 = Inr (VmRet 0, st')"
  by (rule vm_fault_resolves [OF kstate0_inv page_ops_ok kstate0_sel(3,1,2) kstate0_segs refl])
    (simp_all add: PAGE_FRAME_def kstate0_stack kstate0_room)

lemma kstate0_vmem: "vmem page_slot kstate0 a v = None"
  by (simp add: vmem_None kstate0_unmapped)

text \<open>
  C12: Paging is transparent. When \<open>vm_fault\<close> resolves a fault, the invariant of the paging system
  still holds, the faulting page is resident, its content is what it was before (in a frame or in
  the swap file) or all zeros if it is a new page of a segment without a file, every other page of
  every address space keeps its content even if it was evicted, and the TLB holds an entry for the
  page with its frame and the segment's write permission.
\<close>

theorem vm_fault_transparent:
  assumes inv: "vm_inv slot st" and ok: "swap_vnode_ok ops (swapfile st) slot" and init: "vm_initialized st"
    and cp: "curproc st = Some (Some a)" and A: "ases st a = Some A" and segs: "segs_ok (segments A)"
    and tw: "tlb_wf (ktlb st)" and v: "v = addr AND PAGE_FRAME"
    and f: "vm_fault ops km ft addr st = Inr (VmRet 0, st')"
  shows "\<exists>s p. segments_find_segment (segments A) v = Some s \<and> vm_inv slot st' \<and> resident st' a v p \<and>
    (case vmem slot st a v of
       Some pg \<Rightarrow> vmem slot st' a v = Some pg
     | None \<Rightarrow> elf_file s = None \<longrightarrow> vmem slot st' a v = Some zero_page) \<and>
    (\<forall>b u. (b, u) \<noteq> (a, v) \<longrightarrow> vmem slot st' b u = vmem slot st b u) \<and>
    (v, tlb_elo p (writable s)) \<in> set (tlb (ktlb st'))"
proof (rule vm_fault_unfold [OF f cp A v])
  fix s st2 entry p st3 t vs
  assume s: "segments_find_segment (segments A) v = Some s" and tb: "vm_fault_table ops a A v st = Inr (0, st2)"
    and e: "pte_of st2 a v = Some entry" and pg: "vm_fault_page ops km s a v entry st2 = Inr (p, st3)"
    and t: "vmtlb_insert v p (writable s) (ktlb st3, vms st3) = (0, t, vs)" and st': "st' = st3\<lparr>ktlb := t, vms := vs\<rparr>"
  have T: "vm_inv slot st2" "vmem slot st2 = vmem slot st" "curproc st2 = curproc st" "ktlb st2 = ktlb st"
      "swapfile st2 = swapfile st"
    using vm_fault_table_ok [OF inv ok init A tb] by simp_all
  then have P: "fault_post slot a v p st2 st3 \<and> fault_content slot s a v st2 st3"
    using ok cp e pg segs_ok_find [OF segs s] v by (intro vm_fault_page_ok) simp_all
  have "(v, tlb_elo p (writable s)) \<in> set (tlb t)"
    using vmtlb_insert_frame [OF t] tlb_slot_bound [of "ktlb st3"] P T(4) tw
    by (simp add: fault_post_def tlb_wf_def set_update_memI)
  moreover have vm: "vmem slot st' = vmem slot st3" by (simp add: st')
  ultimately show ?thesis
    unfolding vm using s P T(2) by (intro exI [of _ s] exI [of _ p]) (simp add: st' fault_post_def fault_content_def vm_inv_def)
qed

theorem vm_fault_transparent_witness:
  "\<exists>st' p. vm_fault page_ops KmBlock VM_FAULT_WRITE 0x7FFFF123 kstate0 = Inr (VmRet 0, st') \<and>
     vmem page_slot st' as0 0x7FFFF000 = Some zero_page \<and>
     (0x7FFFF000, tlb_elo p True) \<in> set (tlb (ktlb st'))"
proof -
  obtain st' where f: "vm_fault page_ops KmBlock VM_FAULT_WRITE 0x7FFFF123 kstate0 = Inr (VmRet 0, st')"
    using kstate0_fault by blast
  have v: "(0x7FFFF000 :: u32) = 0x7FFFF123 AND PAGE_FRAME" by (simp add: PAGE_FRAME_def)
  from vm_fault_transparent [OF kstate0_inv page_ops_ok kstate0_sel(3,1,2) kstate0_segs kstate0_sel(4) v f]
  obtain p where "(0x7FFFF000, tlb_elo p True) \<in> set (tlb (ktlb st'))" "vmem page_slot st' as0 0x7FFFF000 = Some zero_page"
    by (auto simp: kstate0_vmem kstate0_stack stack_seg_def)
  with f show ?thesis by blast
qed





end
