(* ===== verification/Vm_Frames.thy ===== *)
theory Vm_Frames
  imports Vm_Props
begin

text \<open>
  Properties of the frame allocator: eviction, contiguous allocation and release, and the
  bookkeeping of the statistics.
\<close>

subsection \<open>A machine with a resident page\<close>

definition kstate1 :: "page_fs kstate" where
  "kstate1 = kstate0\<lparr>
     coremap := replicate 4 kframe @ [kframe\<lparr>cme_as := Some as0, cme_vaddr := 0x7FFFF000, cme_paddr := 0x4000\<rparr>],
     num_frames := 5, replacement_queue := [4],
     ktlb := tlb_ex\<lparr>tlb := (0x7FFFF000, tlb_elo 0x4000 True) # replicate 63 (0, 0)\<rparr>,
     ases := [as0 \<mapsto> addrspace0\<lparr>page_table := [OUTER_PT_INDEX 0x7FFFF000 \<mapsto>
        \<lparr>ipt_kva = 0x80012000, ipt = (\<lambda>_. zero_pte)(INNER_PT_INDEX 0x7FFFF000 :=
           \<lparr>pte_paddr = 0x4000, pte_valid = True, pte_swapped = False\<rparr>)\<rparr>]\<rparr>]\<rparr>"

lemma kstate1_pte: "pte_of kstate1 a v =
    (if a = as0 \<and> OUTER_PT_INDEX v = OUTER_PT_INDEX 0x7FFFF000
     then Some (if INNER_PT_INDEX v = INNER_PT_INDEX 0x7FFFF000
                then \<lparr>pte_paddr = 0x4000, pte_valid = True, pte_swapped = False\<rparr> else zero_pte) else None)"
  by (simp add: pte_of_def kstate1_def addrspace0_def)

lemma kstate1_resident: "resident kstate1 a v p \<longleftrightarrow> a = as0 \<and> v = 0x7FFFF000 \<and> p = 0x4000"
proof -
  have "page_aligned (0x7FFFF000 :: u32)" by (simp add: PAGE_FRAME_def)
  then show ?thesis
    using page_index_inj [of v "0x7FFFF000"] by (auto simp: resident_def kstate1_pte zero_pte_def)
qed

lemma kstate1_swapped: "\<not> swapped kstate1 a v i"
  by (auto simp: swapped_def kstate1_pte zero_pte_def)

lemma kstate1_frame: "coremap kstate1 ! 4 = kframe\<lparr>cme_as := Some as0, cme_vaddr := 0x7FFFF000, cme_paddr := 0x4000\<rparr>"
  by (simp add: kstate1_def nth_append)

lemma kstate1_sel: "length (coremap kstate1) = 5" "num_frames kstate1 = 5" "replacement_queue kstate1 = [4]"
  "swapfile_freeentries kstate1 = swap0" "swapfile kstate1 = 0"
  "ktlb kstate1 = tlb_ex\<lparr>tlb := (0x7FFFF000, tlb_elo 0x4000 True) # replicate 63 (0, 0)\<rparr>"
  by (simp_all add: kstate1_def kstate0_def)

lemma kstate1_inv: "vm_inv page_slot kstate1"
proof -
  have p: "(0x4000 :: u32) = of_nat 4 * PAGE_SIZE" by (simp add: PAGE_SIZE_def)
  have "resident_ok kstate1"
    unfolding resident_ok_def kstate1_resident kstate1_sel
    using p by (intro allI impI exI [of _ 4]) (simp add: kstate1_frame frame_of_def kframe_def)
  moreover have "queue_ok {} kstate1"
    by (simp add: queue_ok_def kstate1_sel kstate1_resident kstate1_frame kframe_def PAGE_SIZE_def)
  moreover have "swap_wf kstate1" using swap0_wf by (simp add: swap_wf_def kstate1_sel) (simp add: swap0_def)
  ultimately show ?thesis
    by (simp add: vm_inv_defs frames_ok_def kstate1_sel swapped_ok_def swapped_inj_def kstate1_swapped)
qed

lemma kstate1_swap_room: "bm_used (swapfile_freeentries kstate1) \<noteq> {..<unat SWAPFILE_MAX_PAGES}"
  by (simp add: kstate1_sel swap0_used SWAPFILE_MAX_PAGES_val lessThan_empty_iff eq_commute [of "{}"])

lemma kstate1_evict: "\<exists>p st'. coremap_replace page_ops kstate1 = Inr (p, st')"
  by (rule coremap_replace_total [OF kstate1_inv _ kstate1_swap_room page_ops_writes]) (simp add: kstate1_sel)

subsection \<open>Eviction\<close>



text \<open>
  C36: Eviction does not flush the TLB: when the page that \<open>coremap_replace\<close> evicts has a TLB entry
  for its frame, the entry is still valid afterwards although the page is in the swap file and the
  frame is free for another page.
\<close>

theorem coremap_replace_stale_tlb:
  assumes inv: "vm_inv slot st" and ok: "swap_vnode_ok ops (swapfile st) slot"
    and rep: "coremap_replace ops st = Inr (p, st')" and q: "replacement_queue st = v # q"
    and e: "t \<in> tlb_maps (ktlb st) (cme_vaddr (coremap st ! v))" and "tlb_frame t = p"
  shows "t \<in> tlb_maps (ktlb st') (cme_vaddr (coremap st ! v)) \<and> tlb_frame t = of_nat v * PAGE_SIZE \<and>
    v \<in> free_frames st' \<and> (\<exists>a i. cme_as (coremap st ! v) = Some a \<and> swapped st' a (cme_vaddr (coremap st ! v)) i)"
proof -
  from coremap_replace_evict_step [OF inv ok rep] obtain v' a w index where ev: "evicts st st'"
    and p: "p = of_nat v' * PAGE_SIZE" and st: "evict_step slot v' a w index st st'" by blast
  have v: "v' = v" using evict_stepD(3) [OF st] q by simp
  have own: "cme_as (coremap st ! v) = Some a" "cme_vaddr (coremap st ! v) = w"
    using evict_stepD(5) [OF st] v by (simp_all add: frame_of_def)
  have "swapped st' a w index" by (simp add: evict_stepD(2) [OF st])
  moreover have "v \<in> free_frames st'"
    using coremap_replace_ok(4) [OF inv ok rep] q by auto
  ultimately show ?thesis using own e assms(6) p v ev by (auto simp: evicts_def)
qed

theorem coremap_replace_stale_tlb_witness:
  "\<exists>p st' t. coremap_replace page_ops kstate1 = Inr (p, st') \<and> t \<in> tlb_maps (ktlb st') 0x7FFFF000 \<and>
     tlb_frame t = of_nat 4 * PAGE_SIZE \<and> 4 \<in> free_frames st'"
proof -
  obtain p st' where e: "coremap_replace page_ops kstate1 = Inr (p, st')" using kstate1_evict by blast
  have al: "page_aligned (0x4000 :: u32)" by (simp add: PAGE_FRAME_def)
  let ?t = "(0x7FFFF000, tlb_elo 0x4000 True)"
  have t: "?t \<in> tlb_maps (ktlb kstate1) 0x7FFFF000" and fr: "tlb_frame ?t = 0x4000"
    using tlb_elo_bits [OF al] by (simp_all add: tlb_maps_def kstate1_sel tlb_hit_def tlb_frame_def)
  have "p = 0x4000"
    using coremap_replace_ok(4) [OF kstate1_inv page_ops_ok e] by (auto simp: kstate1_sel PAGE_SIZE_def)
  with coremap_replace_stale_tlb [OF kstate1_inv page_ops_ok e kstate1_sel(3), of ?t] t fr e
  show ?thesis by (auto simp: kstate1_frame)
qed

subsection \<open>Kernel pages\<close>


lemma kstate0_free_run: "free_run (coremap kstate0) 5 2"
  unfolding free_run_def
proof (intro conjI allI impI)
  fix j assume "5 \<le> j \<and> j < 5 + (2::nat)"
  then have "j = 5 \<or> j = 6" by linarith
  then show "cme_is_free (coremap kstate0 ! j)" by (auto simp: kstate0_def kframe_def nth_append)
qed (simp add: kstate0_def)

lemma kstate0_kalloc: "\<exists>p st'. coremap_kalloc ops 2 kstate0 = Inr (p, st')"
proof -
  have "\<exists>s. free_run (coremap kstate0) s (unat (2 :: u32))" using kstate0_free_run by auto
  moreover have "0 < unat (2 :: u32)" by simp
  ultimately show ?thesis using coremap_kalloc_first_fit [OF kstate0_inv, where np = 2 and ops = ops] by blast
qed


text \<open>
  C24: While there are enough adjacent free frames, \<open>coremap_kalloc\<close> evicts nothing and takes the
  lowest run of free frames that is long enough, marking exactly the frames of that run.
\<close>

theorem coremap_kalloc_lowest_run:
  assumes "vm_inv slot st" and "0 < unat np" and "\<exists>s. free_run (coremap st) s (unat np)"
  shows "\<exists>f st'. coremap_kalloc ops np st = Inr (of_nat f * PAGE_SIZE, st') \<and>
    free_run (coremap st) f (unat np) \<and> (\<forall>s. free_run (coremap st) s (unat np) \<longrightarrow> f \<le> s) \<and>
    free_frames st' = free_frames st - {f..<f + unat np} \<and> replacement_queue st' = replacement_queue st \<and>
    unat (cme_alloc_size (coremap st' ! f)) = unat np"
proof -
  obtain f l where k: "coremap_kalloc ops np st = Inr (of_nat f * PAGE_SIZE,
      st\<lparr>coremap := kalloc_mark np f l (coremap st)\<rparr>)" and l: "Suc l = f + unat np"
    and run: "free_run (coremap st) f (unat np)" and least: "\<forall>s. free_run (coremap st) s (unat np) \<longrightarrow> f \<le> s"
    by (rule coremap_kalloc_first_fit [OF assms])
  note nth = kalloc_mark_nth [OF run l assms(2)]
  have "free_frames (st\<lparr>coremap := kalloc_mark np f l (coremap st)\<rparr>) = free_frames st - {f..<f + unat np}"
    by (auto simp: free_frames_def nth)
  moreover have "kalloc_mark np f l (coremap st) ! f = kalloc_entry np f f (coremap st ! f)"
    using assms(2) by (simp add: nth)
  ultimately show ?thesis
    using k run least by (intro exI [of _ f] exI conjI) (assumption, simp_all)
qed

theorem coremap_kalloc_lowest_run_witness:
  "\<exists>f st'. coremap_kalloc page_ops 2 kstate0 = Inr (of_nat f * PAGE_SIZE, st') \<and> f \<le> 5 \<and>
     free_frames st' = free_frames kstate0 - {f..<f + 2}"
  using coremap_kalloc_lowest_run [OF kstate0_inv, of 2 page_ops] kstate0_free_run by auto

lemma coremap_kfree_loop_ok:
  "i + n \<le> length cm \<Longrightarrow> \<exists>cm'. coremap_kfree_loop [i..<i + n] cm = Inr cm' \<and> length cm' = length cm \<and>
     (\<forall>j. cm' ! j = (if i \<le> j \<and> j < i + n then (cm ! j)\<lparr>cme_is_free := True\<rparr> else cm ! j))"
proof (induction n arbitrary: i cm)
  case (Suc n)
  let ?cm = "cm[i := (cm ! i)\<lparr>cme_is_free := True\<rparr>]"
  have u: "[i..<i + Suc n] = i # [Suc i..<Suc i + n]" by (simp add: upt_conv_Cons)
  from Suc.IH [of "Suc i" ?cm] Suc.prems obtain cm' where "coremap_kfree_loop [Suc i..<Suc i + n] ?cm = Inr cm'"
    "length cm' = length cm" "\<forall>j. cm' ! j = (if Suc i \<le> j \<and> j < Suc i + n then (?cm ! j)\<lparr>cme_is_free := True\<rparr> else ?cm ! j)"
    by auto
  with Suc.prems show ?case
    unfolding u by (intro exI [of _ cm']) (auto simp: nth_list_update Suc_le_eq)
qed auto

lemma free_kpages_block:
  assumes init: "vm_initialized st" and fr: "frames_ok st" and f: "f < length (coremap st)"
    and n: "f + unat (cme_alloc_size (coremap st ! f)) \<le> length (coremap st)"
  shows "\<exists>cm. free_kpages (PADDR_TO_KVADDR (of_nat f * PAGE_SIZE)) st = Inr (st\<lparr>coremap := cm\<rparr>) \<and>
    length cm = length (coremap st) \<and>
    (\<forall>j. cm ! j = (if f \<le> j \<and> j < f + unat (cme_alloc_size (coremap st ! f))
                    then (coremap st ! j)\<lparr>cme_is_free := True\<rparr> else coremap st ! j))"
proof -
  let ?va = "PADDR_TO_KVADDR (of_nat f * PAGE_SIZE)"
  have len: "length (coremap st) = unat (num_frames st)" "length (coremap st) \<le> 131072"
    using fr by (simp_all add: frames_ok_def)
  with f have "f < 131072" by linarith
  then have idx: "unat (COREMAP_INDEX (?va - MIPS_KSEG0)) = f"
    using frame_addr_unat [of f] by (simp add: COREMAP_INDEX_def PADDR_TO_KVADDR_def unat_div PAGE_SIZE_def)
  then have "COREMAP_INDEX (?va - MIPS_KSEG0) < num_frames st"
    using f len by (simp add: u32_less_eq_unat)
  with coremap_kfree_loop_ok [OF n] init idx show ?thesis
    by (auto simp: free_kpages_def coremap_kfree_def Let_def)
qed

text \<open>
  C25: \<open>free_kpages\<close> undoes \<open>alloc_kpages\<close>: releasing the address that an allocation without eviction
  returned succeeds and makes exactly the frames free that were free before.
\<close>

theorem alloc_free_kpages:
  assumes inv: "vm_inv slot st" and init: "vm_initialized st" and np: "0 < unat np"
    and ex: "\<exists>s. free_run (coremap st) s (unat np)" and al: "alloc_kpages ops np st = Inr (va, st1)"
  shows "\<exists>st2. free_kpages va st1 = Inr st2 \<and> free_frames st2 = free_frames st \<and>
    replacement_queue st2 = replacement_queue st"
proof -
  obtain f l where k: "coremap_kalloc ops np st = Inr (of_nat f * PAGE_SIZE,
      st\<lparr>coremap := kalloc_mark np f l (coremap st)\<rparr>)" and l: "Suc l = f + unat np"
    and run: "free_run (coremap st) f (unat np)"
    by (rule coremap_kalloc_first_fit [OF inv np ex])
  note nth = kalloc_mark_nth [OF run l np]
  from al init k have va: "va = PADDR_TO_KVADDR (of_nat f * PAGE_SIZE)"
    and st1: "st1 = st\<lparr>coremap := kalloc_mark np f l (coremap st)\<rparr>"
    by (simp_all add: alloc_kpages_def)
  have fl: "f + unat np \<le> length (coremap st)" using run by (simp add: free_run_def)
  have sz: "cme_alloc_size (coremap st1 ! f) = np" using np by (simp add: st1 nth)
  have "frames_ok st1" using inv by (simp add: vm_inv_defs frames_ok_def st1 nth(1))
  then obtain cm where "free_kpages va st1 = Inr (st1\<lparr>coremap := cm\<rparr>)" "length cm = length (coremap st1)"
    "\<forall>j. cm ! j = (if f \<le> j \<and> j < f + unat np then (coremap st1 ! j)\<lparr>cme_is_free := True\<rparr> else coremap st1 ! j)"
    using free_kpages_block [of st1 f] init fl np unfolding va sz by (auto simp: st1 nth(1))
  moreover from this have "free_frames (st1\<lparr>coremap := cm\<rparr>) = free_frames st"
    using run by (auto simp: free_frames_def st1 nth free_run_def)
  ultimately show ?thesis by (simp add: st1)
qed

theorem alloc_free_kpages_witness:
  "\<exists>va st1 st2. alloc_kpages page_ops 2 kstate0 = Inr (va, st1) \<and> free_kpages va st1 = Inr st2 \<and>
     free_frames st2 = free_frames kstate0"
proof -
  obtain p st1 where "coremap_kalloc page_ops 2 kstate0 = Inr (p, st1)" using kstate0_kalloc by blast
  then have al: "alloc_kpages page_ops 2 kstate0 = Inr (PADDR_TO_KVADDR p, st1)"
    by (simp add: alloc_kpages_def kstate0_sel)
  have "\<exists>s. free_run (coremap kstate0) s (unat (2 :: u32))" using kstate0_free_run by auto
  with alloc_free_kpages [OF kstate0_inv kstate0_sel(3) _ _ al] al show ?thesis by auto
qed

end
