(* ===== verification/Addrspace.thy ===== *)
theory Addrspace
  imports Pt
begin

text \<open>
  Address spaces: \<open>kern/vm/addrspace.c\<close>. A \<open>struct addrspace\<close> has 4100 bytes (a pointer and 1024
  pointers), so \<open>kmalloc\<close> takes it from \<open>alloc_kpages\<close>; its address is the name of the address space.
  The three segment descriptors are a small heap block: \<open>kmalloc_seg\<close> says whether that
  allocation succeeds and \<open>raw\<close> is its uninitialised content.
\<close>

definition ADDRSPACE_BYTES :: u32 where "ADDRSPACE_BYTES = 4100"

definition proc_getas :: "'f kstate \<Rightarrow> vaddr option" where
  "proc_getas st = (case curproc st of None \<Rightarrow> None | Some as \<Rightarrow> as)"

definition as_create ::
  "'f vnode_ops \<Rightarrow> bool \<Rightarrow> segment list \<Rightarrow> 'f kstate \<Rightarrow> (vaddr option \<times> 'f kstate) res" where
  "as_create ops kmalloc_seg raw st =
     rbind (kmalloc_large ops ADDRSPACE_BYTES st) (\<lambda>(ptr, st1).
       case ptr of
         None \<Rightarrow> Inr (None, st1)
       | Some a \<Rightarrow>
           let st2 = st1\<lparr>kmem := bzero (a + 4) (4 * 1024) (kmem st1)\<rparr> in
           if \<not> kmalloc_seg then
             rbind (kfree_large (a + 4) st2) (\<lambda>st3.
             rbind (kfree_large a st3) (\<lambda>st4. Inr (None, st4)))
           else Inr (Some a, st2\<lparr>ases := (ases st2)(a \<mapsto> \<lparr>segments = raw, page_table = \<lambda>_. None\<rparr>)\<rparr>))"

definition as_copy ::
  "'f vnode_ops \<Rightarrow> bool \<Rightarrow> segment list \<Rightarrow> vaddr \<Rightarrow> 'f kstate \<Rightarrow> (vaddr cret \<times> 'f kstate) res" where
  "as_copy ops kmalloc_seg raw old st =
     rbind (as_create ops kmalloc_seg raw st) (\<lambda>(newas, st1).
       case newas of None \<Rightarrow> Inr (Err ENOMEM, st1) | Some a \<Rightarrow> Inr (Ret a, st1))"

fun as_destroy_tables :: "addrspace \<Rightarrow> nat list \<Rightarrow> 'f kstate \<Rightarrow> 'f kstate res" where
  "as_destroy_tables A [] st = Inr st"
| "as_destroy_tables A (i # is) st =
     (case page_table A (of_nat i) of
        None \<Rightarrow> as_destroy_tables A is st
      | Some t \<Rightarrow> rbind (kfree_large (ipt_kva t) st) (\<lambda>st1. as_destroy_tables A is st1))"

definition as_destroy :: "'f vnode_ops \<Rightarrow> vaddr \<Rightarrow> 'f kstate \<Rightarrow> 'f kstate res" where
  "as_destroy ops a st =
     (case ases st a of
        None \<Rightarrow> Inl UseAfterFree
      | Some A \<Rightarrow>
          rbind (as_destroy_tables A [0..<1024] st) (\<lambda>st1.
          case elf_file (segments A ! 0) of
            None \<Rightarrow> Inl KAssertFail
          | Some v \<Rightarrow>
              let st2 = st1\<lparr>fsys := vfs_close ops v (fsys st1)\<rparr> in
              rbind (kfree_large a st2) (\<lambda>st3.
                Inr (st3\<lparr>ases := (ases st3)(a := None)\<rparr>))))"

definition as_activate :: "'f kstate \<Rightarrow> 'f kstate" where
  "as_activate st =
     (case proc_getas st of
        None \<Rightarrow> st
      | Some a \<Rightarrow> (case vmtlb_reset (ktlb st, vms st) of (t, s) \<Rightarrow> st\<lparr>ktlb := t, vms := s\<rparr>))"

definition as_deactivate :: "'f kstate \<Rightarrow> 'f kstate" where
  "as_deactivate st = st"

text \<open>The descriptor that \<open>as_define_region\<close> writes into \<open>segments[seg_index]\<close>.\<close>

definition region_segment ::
  "vaddr \<Rightarrow> u32 \<Rightarrow> bool \<Rightarrow> bool \<Rightarrow> bool \<Rightarrow> nat option \<Rightarrow> u32 \<Rightarrow> segment" where
  "region_segment vaddr sz r w x v offset =
     (let page_displ = vaddr AND NOT PAGE_FRAME;
          sz1 = sz + page_displ;
          vaddr1 = vaddr AND PAGE_FRAME;
          sz2 = (sz1 + PAGE_SIZE - 1) AND PAGE_FRAME;
          np = sz2 div PAGE_SIZE
      in \<lparr>vbase = vaddr1, vtop = vaddr1 + np * PAGE_SIZE, npages = np, readable = r, writable = w,
          executable = x, elf_file = v, elf_segment_start = offset, elf_base_offset = page_displ\<rparr>)"

definition as_define_region ::
  "addrspace \<Rightarrow> int \<Rightarrow> vaddr \<Rightarrow> u32 \<Rightarrow> bool \<Rightarrow> bool \<Rightarrow> bool \<Rightarrow> nat option \<Rightarrow> u32 \<Rightarrow> (int \<times> addrspace) res" where
  "as_define_region A seg_index vaddr sz r w x v offset =
     (if seg_index < 0 \<or> int (length (segments A)) \<le> seg_index then Inl OutOfBounds
      else Inr (0, A\<lparr>segments := (segments A)[nat seg_index := region_segment vaddr sz r w x v offset]\<rparr>))"

definition as_prepare_load :: "vaddr option \<Rightarrow> int" where
  "as_prepare_load as = 0"

definition as_complete_load :: "vaddr option \<Rightarrow> int" where
  "as_complete_load as = 0"

definition as_define_stack :: "addrspace \<Rightarrow> int \<times> vaddr \<times> addrspace" where
  "as_define_stack A =
     (let i = NUM_SEGMENTS - 1; s = segments A ! i; stackptr = USERSTACK in
      (0, stackptr, A\<lparr>segments := (segments A)[i :=
        s\<lparr>vbase := stackptr - STACK_PAGES * PAGE_SIZE, vtop := stackptr, readable := True, writable := True,
          executable := False, elf_file := None, elf_base_offset := 0\<rparr>]\<rparr>))"

subsection \<open>Regions\<close>

lemma page_offset_unat: "unat (a AND NOT PAGE_FRAME) = unat a mod 4096"
proof -
  have "NOT PAGE_FRAME = (mask 12 :: u32)" by (simp add: PAGE_FRAME_mask)
  then have "a AND NOT PAGE_FRAME = take_bit 12 a" by (simp add: take_bit_eq_mask)
  then show ?thesis by (simp add: take_bit_eq_mod unat_mod)
qed

lemma page_split: "(a AND PAGE_FRAME) + (a AND NOT PAGE_FRAME) = a"
proof -
  have "(a AND PAGE_FRAME) + (a AND NOT PAGE_FRAME) = (a AND PAGE_FRAME) OR (a AND NOT PAGE_FRAME)"
    by (rule disjunctive_add) (auto simp: bit_and_iff bit_not_iff)
  also have "\<dots> = a" by (rule bit_eqI) (auto simp: bit_and_iff bit_or_iff bit_not_iff)
  finally show ?thesis .
qed

lemma page_base_unat: "unat (a AND PAGE_FRAME) = unat a div 4096 * 4096"
proof -
  have "a AND PAGE_FRAME = a - (a AND NOT PAGE_FRAME)" using page_split [of a] by (metis add_diff_cancel)
  moreover have "unat (a AND NOT PAGE_FRAME) \<le> unat a" by (simp add: page_offset_unat)
  ultimately have "unat (a AND PAGE_FRAME) = unat a - unat a mod 4096"
    by (simp add: unat_sub_if' page_offset_unat)
  then show ?thesis by (simp add: minus_mod_eq_div_mult)
qed

lemma region_segment_sizes:
  assumes fit: "unat vaddr + unat sz + 4095 < 4294967296"
    and s_def: "s = region_segment vaddr sz r w x v off"
  shows "unat (vbase s) = unat vaddr div 4096 * 4096"
    and "unat (npages s) = (unat vaddr mod 4096 + unat sz + 4095) div 4096"
    and "unat (vtop s) = unat (vbase s) + unat (npages s) * 4096"
    and "unat (elf_base_offset s) = unat vaddr mod 4096"
proof -
  let ?d = "vaddr AND NOT PAGE_FRAME" and ?n = "(unat vaddr mod 4096 + unat sz + 4095) div 4096"
  have "unat vaddr mod 4096 \<le> unat vaddr" by simp
  then have b: "unat sz + unat vaddr mod 4096 + 4095 < 4294967296" using fit by linarith
  have e: "sz + ?d + PAGE_SIZE - 1 = (sz + ?d) + 4095" by (simp add: PAGE_SIZE_def)
  have "unat (sz + ?d) = unat sz + unat vaddr mod 4096"
    using b by (subst unat_add_u32_le) (simp_all add: page_offset_unat)
  then have u: "unat (sz + ?d + PAGE_SIZE - 1) = unat sz + unat vaddr mod 4096 + 4095"
    unfolding e using b by (subst unat_add_u32_le) simp_all
  show vb: "unat (vbase s) = unat vaddr div 4096 * 4096"
    by (simp add: s_def region_segment_def Let_def page_base_unat)
  have "unat (npages s) = unat ((sz + ?d + PAGE_SIZE - 1) AND PAGE_FRAME) div 4096"
    by (simp add: s_def region_segment_def Let_def unat_div PAGE_SIZE_def)
  also have "\<dots> = (unat sz + unat vaddr mod 4096 + 4095) div 4096" by (simp only: page_base_unat u)
  also have "\<dots> = ?n" by (simp only: add.commute [of "unat sz"])
  finally show n: "unat (npages s) = ?n" .
  have "?n * 4096 \<le> unat vaddr mod 4096 + unat sz + 4095" by simp
  moreover have "unat vaddr div 4096 * 4096 + unat vaddr mod 4096 = unat vaddr" by simp
  ultimately have t: "unat vaddr div 4096 * 4096 + ?n * 4096 < 4294967296" using fit by linarith
  then have "?n * 4096 < 4294967296" by linarith
  then have "unat (npages s * PAGE_SIZE) = ?n * 4096" using n by (simp add: unat_mult_u32 PAGE_SIZE_def)
  moreover have "vtop s = vbase s + npages s * PAGE_SIZE" by (simp add: s_def region_segment_def Let_def)
  ultimately show "unat (vtop s) = unat (vbase s) + unat (npages s) * 4096"
    using t vb n by (simp add: unat_add_u32_le)
  show "unat (elf_base_offset s) = unat vaddr mod 4096"
    by (simp add: s_def region_segment_def Let_def page_offset_unat)
qed

lemma region_segment_offset:
  "elf_base_offset (region_segment vaddr sz r w x v off) < PAGE_SIZE"
  "vbase (region_segment vaddr sz r w x v off) + elf_base_offset (region_segment vaddr sz r w x v off) = vaddr"
  using page_split [of vaddr]
  by (simp_all add: region_segment_def Let_def PAGE_SIZE_def u32_less_eq_unat page_offset_unat)

lemma as_define_region_segs_ok:
  assumes "segs_ok (segments A)" and "as_define_region A i va sz r w x v off = Inr (res, A')"
  shows "segs_ok (segments A')"
proof -
  let ?s = "region_segment va sz r w x v off"
  from assms(2) have A': "segments A' = (segments A)[nat i := ?s]"
    by (auto simp: as_define_region_def split: if_splits)
  have "set (segments A') \<subseteq> insert ?s (set (segments A))" unfolding A' by (rule set_update_subset_insert)
  with assms(1) region_segment_offset(1) A' show ?thesis by (fastforce simp: segs_ok_def)
qed

subsection \<open>Properties\<close>

text \<open>
  C26: \<open>as_define_region\<close> describes exactly the pages a segment needs: the descriptor starts at the
  page boundary below the address, ends at the first page boundary at or above the end of the
  segment, counts the pages between them, and maps every address to its place in the file; an index
  outside the three descriptors is an access outside the array.
\<close>

theorem as_define_region_covers:
  assumes fit: "unat vaddr + unat sz + 4095 < 4294967296" and ok: "segs_ok (segments A)"
  shows "(if 0 \<le> i \<and> i < int NUM_SEGMENTS then
      \<exists>s A'. as_define_region A i vaddr sz r w x v off = Inr (0, A') \<and>
        segments A' = (segments A)[nat i := s] \<and> segs_ok (segments A') \<and> page_table A' = page_table A \<and>
        unat (vbase s) mod 4096 = 0 \<and> unat (vbase s) \<le> unat vaddr \<and> unat vaddr < unat (vbase s) + 4096 \<and>
        unat (vtop s) = unat (vbase s) + unat (npages s) * 4096 \<and>
        unat vaddr + unat sz \<le> unat (vtop s) \<and> unat (vtop s) < unat vaddr + unat sz + 4096 \<and>
        (\<forall>a. seg_file_offset s a = off + (a - vaddr)) \<and>
        (writable s, readable s, executable s, elf_file s) = (w, r, x, v)
    else as_define_region A i vaddr sz r w x v off = Inl OutOfBounds)"
proof (cases "0 \<le> i \<and> i < int NUM_SEGMENTS")
  case True
  let ?s = "region_segment vaddr sz r w x v off"
  let ?A = "A\<lparr>segments := (segments A)[nat i := ?s]\<rparr>"
  note S = region_segment_sizes [OF fit refl, of r w x v off]
  have def: "as_define_region A i vaddr sz r w x v off = Inr (0, ?A)"
    using True ok by (simp add: as_define_region_def segs_ok_def)
  define q m where "q = unat vaddr div 4096" and "m = unat vaddr mod 4096"
  have va: "unat vaddr = q * 4096 + m" "m < 4096" by (simp_all add: q_def m_def)
  define n where "n = (m + unat sz + 4095) div 4096"
  have n: "n * 4096 \<le> m + unat sz + 4095" "m + unat sz + 4095 < n * 4096 + 4096"
    using div_mult_mod_eq [of "m + unat sz + 4095" 4096] mod_less_divisor [of 4096 "m + unat sz + 4095"]
    unfolding n_def by linarith+
  have "unat (vbase ?s) = q * 4096" "unat (npages ?s) = n" "unat (vtop ?s) = q * 4096 + n * 4096"
    using S by (simp_all add: q_def m_def n_def)
  with va n have "unat (vbase ?s) mod 4096 = 0 \<and> unat (vbase ?s) \<le> unat vaddr \<and> unat vaddr < unat (vbase ?s) + 4096 \<and>
      unat (vtop ?s) = unat (vbase ?s) + unat (npages ?s) * 4096 \<and>
      unat vaddr + unat sz \<le> unat (vtop ?s) \<and> unat (vtop ?s) < unat vaddr + unat sz + 4096" by simp
  moreover have "\<forall>a. seg_file_offset ?s a = off + (a - vaddr)"
  proof
    fix a
    have "elf_segment_start ?s = off" by (simp add: region_segment_def Let_def)
    then show "seg_file_offset ?s a = off + (a - vaddr)"
      unfolding seg_file_offset_def region_segment_offset(2) by simp
  qed
  moreover have "(writable ?s, readable ?s, executable ?s, elf_file ?s) = (w, r, x, v)"
    by (simp add: region_segment_def Let_def)
  ultimately show ?thesis
    using def as_define_region_segs_ok [OF ok def] unfolding if_P [OF True]
    by (intro exI [of _ ?s] exI [of _ ?A] conjI) (assumption | blast | simp)+
next
  case False
  then show ?thesis using ok by (auto simp: as_define_region_def segs_ok_def)
qed

definition as_ex :: addrspace where
  "as_ex = \<lparr>segments = [seg_ex, seg_ex, seg_ex], page_table = \<lambda>_. None\<rparr>"

lemma as_ex_segs: "segs_ok (segments as_ex)"
  by (simp add: segs_ok_def as_ex_def seg_ex_def NUM_SEGMENTS_def PAGE_SIZE_def)

theorem as_define_region_covers_witness:
  "\<exists>s A'. as_define_region as_ex 1 0x10000123 0x2000 True True False (Some 1) 0x4000 = Inr (0, A') \<and>
     segments A' = (segments as_ex)[1 := s] \<and> segs_ok (segments A') \<and>
     unat (vtop s) = unat (vbase s) + unat (npages s) * 4096 \<and>
     as_define_region as_ex (-1) 0x10000123 0x2000 True True False (Some 1) 0x4000 = Inl OutOfBounds"
  using as_define_region_covers [OF _ as_ex_segs, where vaddr = "0x10000123" and sz = "0x2000" and i = 1
      and r = True and w = True and x = False and v = "Some 1" and off = "0x4000"]
    as_define_region_covers [OF _ as_ex_segs, where vaddr = "0x10000123" and sz = "0x2000" and i = "-1"
      and r = True and w = True and x = False and v = "Some 1" and off = "0x4000"]
  by (auto simp: NUM_SEGMENTS_def)

subsection \<open>Releasing an address space\<close>

lemma coremap_kfree_loop_as:
  "coremap_kfree_loop is cm = Inr cm' \<Longrightarrow> length cm' = length cm \<and>
     (\<forall>j. cme_as (cm' ! j) = cme_as (cm ! j) \<and> cme_vaddr (cm' ! j) = cme_vaddr (cm ! j))"
proof (induction "is" arbitrary: cm)
  case (Cons i "is")
  let ?cm = "cm[i := (cm ! i)\<lparr>cme_is_free := True\<rparr>]"
  from Cons have "i < length cm" "length cm' = length ?cm \<and>
     (\<forall>j. cme_as (cm' ! j) = cme_as (?cm ! j) \<and> cme_vaddr (cm' ! j) = cme_vaddr (?cm ! j))"
    by (auto split: if_splits)
  then show ?case by (auto simp: nth_list_update)
qed simp

text \<open>What a release of kernel pages leaves alone.\<close>

definition kfree_keeps :: "'f kstate \<Rightarrow> 'f kstate \<Rightarrow> bool" where
  "kfree_keeps st st' \<longleftrightarrow> replacement_queue st' = replacement_queue st \<and>
     swapfile_freeentries st' = swapfile_freeentries st \<and> ases st' = ases st \<and> kmem st' = kmem st \<and>
     length (coremap st') = length (coremap st) \<and> ktlb st' = ktlb st \<and>
     (\<forall>j. cme_as (coremap st' ! j) = cme_as (coremap st ! j) \<and> cme_vaddr (coremap st' ! j) = cme_vaddr (coremap st ! j))"

lemma kfree_keeps_trans: "kfree_keeps st st1 \<Longrightarrow> kfree_keeps st1 st2 \<Longrightarrow> kfree_keeps st st2"
  by (simp add: kfree_keeps_def)

lemma kfree_large_keeps:
  assumes "kfree_large p st = Inr st'"
  shows "kfree_keeps st st'"
proof -
  have "kfree_keeps st st'" if "coremap_kfree q st = Inr st'" for q
    using that coremap_kfree_loop_as
    by (fastforce simp: coremap_kfree_def kfree_keeps_def Let_def split: if_splits)
  then show ?thesis
    using assms by (auto simp: kfree_large_def free_kpages_def kfree_keeps_def split: if_splits)
qed

lemma as_destroy_tables_keeps: "as_destroy_tables A is st = Inr st' \<Longrightarrow> kfree_keeps st st'"
proof (induction A "is" st rule: as_destroy_tables.induct)
  case (2 A i "is" st)
  show ?case
  proof (cases "page_table A (of_nat i)")
    case None
    with 2 show ?thesis by simp
  next
    case (Some t)
    with "2.prems" obtain st1 where "kfree_large (ipt_kva t) st = Inr st1" "as_destroy_tables A is st1 = Inr st'"
      by auto
    with Some "2.IH"(2) [OF Some] kfree_large_keeps kfree_keeps_trans show ?thesis by blast
  qed
qed (simp add: kfree_keeps_def)

lemma as_destroy_keeps:
  assumes "as_destroy ops a st = Inr st'"
  shows "replacement_queue st' = replacement_queue st" and "swapfile_freeentries st' = swapfile_freeentries st"
    and "ases st' a = None" and "ktlb st' = ktlb st" and "length (coremap st') = length (coremap st)"
    and "cme_as (coremap st' ! j) = cme_as (coremap st ! j)" and "cme_vaddr (coremap st' ! j) = cme_vaddr (coremap st ! j)"
proof -
  from assms obtain A where A: "ases st a = Some A" by (auto simp: as_destroy_def split: option.splits)
  with assms obtain st1 where t: "as_destroy_tables A [0..<1024] st = Inr st1" by (auto simp: as_destroy_def)
  with assms A obtain v where v: "elf_file (segments A ! 0) = Some v"
    by (cases "elf_file (segments A ! 0)") (auto simp: as_destroy_def)
  with assms A t obtain st3 where k: "kfree_large a (st1\<lparr>fsys := vfs_close ops v (fsys st1)\<rparr>) = Inr st3"
    and st': "st' = st3\<lparr>ases := (ases st3)(a := None)\<rparr>" by (auto simp: as_destroy_def Let_def)
  from as_destroy_tables_keeps [OF t] kfree_large_keeps [OF k]
  show "replacement_queue st' = replacement_queue st" "swapfile_freeentries st' = swapfile_freeentries st"
    "ases st' a = None" "ktlb st' = ktlb st" "length (coremap st') = length (coremap st)"
    "cme_as (coremap st' ! j) = cme_as (coremap st ! j)" "cme_vaddr (coremap st' ! j) = cme_vaddr (coremap st ! j)"
    by (simp_all add: st' kfree_keeps_def)
qed

end
