(* ===== verification/Loadelf.thy ===== *)
theory Loadelf
  imports Addrspace
begin

text \<open>
  The ELF loader \<open>load_elf\<close> of \<open>kern/syscall/loadelf.c\<close> in the demand-paging configuration: it
  checks the executable header and defines a region per loadable program header; nothing is read
  into the address space. The headers are read with \<open>VOP_READ\<close> into the kernel buffers \<open>ehbuf\<close>
  and \<open>phbuf\<close> (the C locals \<open>eh\<close> and \<open>ph\<close>) and decoded from memory in the big-endian order of the
  machine, with the field offsets of \<open>kern/include/elf.h\<close>.
\<close>

definition be16 :: "mem \<Rightarrow> u32 \<Rightarrow> u16" where
  "be16 m a = push_bit 8 (ucast (m a)) OR ucast (m (a + 1))"

definition be32 :: "mem \<Rightarrow> u32 \<Rightarrow> u32" where
  "be32 m a = push_bit 24 (ucast (m a)) OR push_bit 16 (ucast (m (a + 1))) OR
              push_bit 8 (ucast (m (a + 2))) OR ucast (m (a + 3))"

record elf_ehdr =
  e_ident :: "u8 list"
  e_type :: u16
  e_machine :: u16
  e_version :: u32
  e_entry :: u32
  e_phoff :: u32
  e_phentsize :: u16
  e_phnum :: u16

record elf_phdr =
  p_type :: u32
  p_offset :: u32
  p_vaddr :: u32
  p_filesz :: u32
  p_memsz :: u32
  p_flags :: u32

definition get_ehdr :: "mem \<Rightarrow> u32 \<Rightarrow> elf_ehdr" where
  "get_ehdr m a =
     \<lparr>e_ident = map (\<lambda>i. m (a + of_nat i)) [0..<16], e_type = be16 m (a + 16), e_machine = be16 m (a + 18),
      e_version = be32 m (a + 20), e_entry = be32 m (a + 24), e_phoff = be32 m (a + 28),
      e_phentsize = be16 m (a + 42), e_phnum = be16 m (a + 44)\<rparr>"

definition get_phdr :: "mem \<Rightarrow> u32 \<Rightarrow> elf_phdr" where
  "get_phdr m a =
     \<lparr>p_type = be32 m a, p_offset = be32 m (a + 4), p_vaddr = be32 m (a + 8), p_filesz = be32 m (a + 16),
      p_memsz = be32 m (a + 20), p_flags = be32 m (a + 24)\<rparr>"

definition PT_NULL :: u32 where "PT_NULL = 0"
definition PT_LOAD :: u32 where "PT_LOAD = 1"
definition PT_PHDR :: u32 where "PT_PHDR = 6"
definition PT_MIPS_REGINFO :: u32 where "PT_MIPS_REGINFO = 0x70000000"
definition PF_R :: u32 where "PF_R = 4"
definition PF_W :: u32 where "PF_W = 2"
definition PF_X :: u32 where "PF_X = 1"

definition elf_check :: "elf_ehdr \<Rightarrow> bool" where
  "elf_check eh \<longleftrightarrow>
     \<not> (e_ident eh ! 0 \<noteq> 0x7f \<or> e_ident eh ! 1 \<noteq> 0x45 \<or> e_ident eh ! 2 \<noteq> 0x4c \<or> e_ident eh ! 3 \<noteq> 0x46 \<or>
        e_ident eh ! 4 \<noteq> 1 \<or> e_ident eh ! 5 \<noteq> 2 \<or> e_ident eh ! 6 \<noteq> 1 \<or>
        e_version eh \<noteq> 1 \<or> e_type eh \<noteq> 2 \<or> e_machine eh \<noteq> 8)"

text \<open>A read of a header: the error number, whether the whole header was there, and the state.\<close>

definition read_header ::
  "'f vnode_ops \<Rightarrow> nat \<Rightarrow> u32 \<Rightarrow> u32 \<Rightarrow> u64 \<Rightarrow> 'f kstate \<Rightarrow> int \<times> 'f kstate" where
  "read_header ops v buf len offset st =
     (case vop_read ops v (uio_kinit buf len offset UIO_READ) (fsys st) (kmem st) of (result, ku, f, m) \<Rightarrow>
        let st1 = st\<lparr>fsys := f, kmem := m\<rparr> in
        if result \<noteq> 0 then (result, st1)
        else if uio_resid ku \<noteq> 0 then (ENOEXEC, st1)
        else (0, st1))"

fun load_elf_loop ::
  "'f vnode_ops \<Rightarrow> u32 \<Rightarrow> nat \<Rightarrow> elf_ehdr \<Rightarrow> vaddr option \<Rightarrow> nat list \<Rightarrow> 'f kstate \<Rightarrow> (int \<times> 'f kstate) res" where
  "load_elf_loop ops phbuf v eh as [] st = Inr (0, st)"
| "load_elf_loop ops phbuf v eh as (i # is) st =
     (let offset = e_phoff eh + of_nat i * ucast (e_phentsize eh) in
      case read_header ops v phbuf 32 (ucast offset) st of (result, st1) \<Rightarrow>
        if result \<noteq> 0 then Inr (result, st1)
        else
          let ph = get_phdr (kmem st1) phbuf in
          if p_type ph = PT_NULL \<or> p_type ph = PT_PHDR \<or> p_type ph = PT_MIPS_REGINFO
          then load_elf_loop ops phbuf v eh as is st1
          else if p_type ph \<noteq> PT_LOAD then Inr (ENOEXEC, st1)
          else
            (case as of
               None \<Rightarrow> Inl KAssertFail
             | Some a \<Rightarrow>
               (case ases st1 a of
                  None \<Rightarrow> Inl UseAfterFree
                | Some A \<Rightarrow>
                    rbind (as_define_region A (int i - 1) (p_vaddr ph) (p_memsz ph) (p_flags ph AND PF_R \<noteq> 0)
                             (p_flags ph AND PF_W \<noteq> 0) (p_flags ph AND PF_X \<noteq> 0) (Some v) (p_offset ph))
                      (\<lambda>(res, A'). if res \<noteq> 0 then Inr (res, st1)
                         else load_elf_loop ops phbuf v eh as is (st1\<lparr>ases := (ases st1)(a \<mapsto> A')\<rparr>)))))"

definition load_elf ::
  "'f vnode_ops \<Rightarrow> u32 \<Rightarrow> u32 \<Rightarrow> nat \<Rightarrow> 'f kstate \<Rightarrow> (vaddr cret \<times> 'f kstate) res" where
  "load_elf ops ehbuf phbuf v st =
     (let as = proc_getas st in
      case read_header ops v ehbuf 52 0 st of (result, st1) \<Rightarrow>
        if result \<noteq> 0 then Inr (Err result, st1)
        else
          let eh = get_ehdr (kmem st1) ehbuf in
          if \<not> elf_check eh then Inr (Err ENOEXEC, st1)
          else
            rbind (load_elf_loop ops phbuf v eh as [0..<unat (e_phnum eh)] st1) (\<lambda>(result, st2).
              if result \<noteq> 0 then Inr (Err result, st2)
              else if as_prepare_load as \<noteq> 0 then Inr (Err (as_prepare_load as), st2)
              else if as_complete_load as \<noteq> 0 then Inr (Err (as_complete_load as), st2)
              else Inr (Ret (e_entry eh), st2)))"

subsection \<open>Reading from a file\<close>

text \<open>
  What the loader relies on: \<open>v\<close> is a file with content \<open>bs\<close>, and a read inside it delivers its
  bytes, touching nothing outside the buffer. \<open>file_mem\<close> is the file laid out as memory.
\<close>

definition read_into :: "u32 \<Rightarrow> u32 \<Rightarrow> nat \<Rightarrow> u8 list \<Rightarrow> mem \<Rightarrow> mem" where
  "read_into kva len off bs m = (\<lambda>x. if x - kva < len then bs ! (off + unat (x - kva)) else m x)"

definition reads_file :: "'f vnode_ops \<Rightarrow> nat \<Rightarrow> u8 list \<Rightarrow> bool" where
  "reads_file ops v bs \<longleftrightarrow>
     (\<forall>kva len off f m. unat off + unat len \<le> length bs \<longrightarrow>
        (\<exists>u f'. vop_read ops v (uio_kinit kva len off UIO_READ) f m =
                  (0, u, f', read_into kva len (unat off) bs m) \<and> uio_resid u = 0))"

definition file_mem :: "u8 list \<Rightarrow> mem" where
  "file_mem bs = (\<lambda>a. if unat a < length bs then bs ! unat a else 0)"

lemma read_header_file:
  assumes "reads_file ops v bs" and "unat off + unat len \<le> length bs"
  shows "\<exists>f. read_header ops v buf len off st = (0, st\<lparr>fsys := f, kmem := read_into buf len (unat off) bs (kmem st)\<rparr>)"
proof -
  from assms obtain u f' where "vop_read ops v (uio_kinit buf len off UIO_READ) (fsys st) (kmem st) =
      (0, u, f', read_into buf len (unat off) bs (kmem st))" "uio_resid u = 0"
    unfolding reads_file_def by blast
  then show ?thesis by (auto simp: read_header_def)
qed

lemma read_into_byte:
  assumes "k < len" and "unat off + unat len \<le> length bs" and "unat off + unat len < 4294967296"
  shows "read_into buf len (unat off) bs m (buf + k) = file_mem bs (off + k)"
proof -
  have "unat k < unat len" using assms(1) by (simp add: u32_less_eq_unat)
  then have "unat (off + k) = unat off + unat k" using assms(3) by (intro unat_add_u32_le) linarith
  with \<open>unat k < unat len\<close> assms show ?thesis by (simp add: read_into_def file_mem_def)
qed

lemma get_phdr_file:
  assumes "unat off + 32 \<le> length bs" and "unat off + 32 < 4294967296"
  shows "get_phdr (read_into buf 32 (unat off) bs m) buf = get_phdr (file_mem bs) off"
proof -
  have b: "read_into buf 32 (unat off) bs m (buf + k) = file_mem bs (off + k)" if "k < 32" for k
    using read_into_byte [OF that, of off bs buf m] assms by simp
  from b [of 0] have "read_into buf 32 (unat off) bs m buf = file_mem bs off" by simp
  with b show ?thesis by (simp add: get_phdr_def be32_def add.assoc)
qed

lemma get_ehdr_file:
  assumes "52 \<le> length bs"
  shows "get_ehdr (read_into buf 52 (unat (0::u32)) bs m) buf = get_ehdr (file_mem bs) 0"
proof -
  have b: "read_into buf 52 0 bs m (buf + k) = file_mem bs k" if "k < 52" for k
    using read_into_byte [OF that, of 0 bs buf m] assms by simp
  have "read_into buf 52 0 bs m (buf + of_nat i) = file_mem bs (of_nat i)" if "i < 16" for i
    using that by (intro b) (simp add: u32_less_eq_unat unat_of_nat_u32)
  then have "map (\<lambda>i. read_into buf 52 0 bs m (buf + of_nat i)) [0..<16] = map (\<lambda>i. file_mem bs (0 + of_nat i)) [0..<16]"
    by (simp del: upt_Suc upt_rec_numeral)
  then show ?thesis using b by (simp add: get_ehdr_def be16_def be32_def add.assoc del: upt_rec_numeral)
qed

subsection \<open>The loader as a function of the file\<close>

text \<open>
  The reference: the regions an executable describes, computed from its bytes alone. Program header
  \<open>i\<close> is at \<open>phdr_at\<close>, and a loadable one sets descriptor \<open>i - 1\<close>.
\<close>

definition phdr_at :: "elf_ehdr \<Rightarrow> nat \<Rightarrow> u32" where
  "phdr_at eh i = e_phoff eh + of_nat i * ucast (e_phentsize eh)"

fun elf_regions :: "u8 list \<Rightarrow> nat \<Rightarrow> elf_ehdr \<Rightarrow> nat list \<Rightarrow> segment list \<Rightarrow> segment list cret res" where
  "elf_regions bs v eh [] segs = Inr (Ret segs)"
| "elf_regions bs v eh (i # is) segs =
     (let ph = get_phdr (file_mem bs) (phdr_at eh i) in
      if p_type ph \<in> {PT_NULL, PT_PHDR, PT_MIPS_REGINFO} then elf_regions bs v eh is segs
      else if p_type ph \<noteq> PT_LOAD then Inr (Err ENOEXEC)
      else if i = 0 \<or> length segs < i then Inl OutOfBounds
      else elf_regions bs v eh is (segs[i - 1 := region_segment (p_vaddr ph) (p_memsz ph) (p_flags ph AND PF_R \<noteq> 0)
             (p_flags ph AND PF_W \<noteq> 0) (p_flags ph AND PF_X \<noteq> 0) (Some v) (p_offset ph)]))"

definition phdrs_in_file :: "u8 list \<Rightarrow> elf_ehdr \<Rightarrow> nat list \<Rightarrow> bool" where
  "phdrs_in_file bs eh is \<longleftrightarrow> length bs < 4294967296 \<and> (\<forall>i\<in>set is. unat (phdr_at eh i) + 32 \<le> length bs)"

lemma unat_ucast_u64: "unat (ucast (x :: u32) :: u64) = unat x"
  using unat_u32_bound [of x] by (simp add: unsigned_ucast_eq take_bit_nat_eq_self)

lemma load_elf_loop_step:
  assumes "reads_file ops v bs" and "phdrs_in_file bs eh (i # is)"
  shows "\<exists>f m. read_header ops v phbuf 32 (ucast (phdr_at eh i)) st = (0, st\<lparr>fsys := f, kmem := m\<rparr>) \<and>
    get_phdr m phbuf = get_phdr (file_mem bs) (phdr_at eh i)"
proof -
  from assms(2) have b: "unat (phdr_at eh i) + 32 \<le> length bs" "unat (phdr_at eh i) + 32 < 4294967296"
    by (auto simp: phdrs_in_file_def)
  then obtain f where "read_header ops v phbuf 32 (ucast (phdr_at eh i)) st =
      (0, st\<lparr>fsys := f, kmem := read_into phbuf 32 (unat (phdr_at eh i)) bs (kmem st)\<rparr>)"
    using read_header_file [OF assms(1), of "ucast (phdr_at eh i)" 32 phbuf st] by (auto simp: unat_ucast_u64)
  with get_phdr_file [OF b] show ?thesis by blast
qed

lemma as_define_region_index:
  assumes "length (segments A) = n"
  shows "as_define_region A (int i - 1) va sz r w x v off =
    (if i = 0 \<or> n < i then Inl OutOfBounds
     else Inr (0, A\<lparr>segments := (segments A)[i - 1 := region_segment va sz r w x v off]\<rparr>))"
  using assms by (auto simp: as_define_region_def nat_diff_distrib)

lemma load_elf_loop_spec:
  assumes "reads_file ops v bs" and "phdrs_in_file bs eh is" and "ases st a = Some A"
  shows "case elf_regions bs v eh is (segments A) of
      Inl e \<Rightarrow> load_elf_loop ops phbuf v eh (Some a) is st = Inl e
    | Inr (Err e) \<Rightarrow> e = ENOEXEC \<and> (\<exists>st'. load_elf_loop ops phbuf v eh (Some a) is st = Inr (ENOEXEC, st'))
    | Inr (Ret segs) \<Rightarrow> \<exists>f m. load_elf_loop ops phbuf v eh (Some a) is st =
        Inr (0, st\<lparr>fsys := f, kmem := m, ases := (ases st)(a \<mapsto> A\<lparr>segments := segs\<rparr>)\<rparr>)"
  using assms(2,3)
proof (induction "is" arbitrary: st A)
  case Nil
  then have "ases st = (ases st)(a \<mapsto> A)" by (simp add: fun_upd_idem)
  then have "st = st\<lparr>fsys := fsys st, kmem := kmem st, ases := (ases st)(a \<mapsto> A\<lparr>segments := segments A\<rparr>)\<rparr>" by simp
  then have "\<exists>f m. st = st\<lparr>fsys := f, kmem := m, ases := (ases st)(a \<mapsto> A\<lparr>segments := segments A\<rparr>)\<rparr>" by blast
  then show ?case by simp
next
  case (Cons i "is")
  obtain f m where rd: "read_header ops v phbuf 32 (ucast (phdr_at eh i)) st = (0, st\<lparr>fsys := f, kmem := m\<rparr>)"
    and ph: "get_phdr m phbuf = get_phdr (file_mem bs) (phdr_at eh i)"
    using load_elf_loop_step [OF assms(1) Cons.prems(1)] by blast
  let ?st1 = "st\<lparr>fsys := f, kmem := m\<rparr>" and ?ph = "get_phdr (file_mem bs) (phdr_at eh i)"
  have rest: "phdrs_in_file bs eh is" using Cons.prems(1) by (simp add: phdrs_in_file_def)
  have off: "e_phoff eh + of_nat i * ucast (e_phentsize eh) = phdr_at eh i" by (simp add: phdr_at_def)
  show ?case
  proof (cases "p_type ?ph \<in> {PT_NULL, PT_PHDR, PT_MIPS_REGINFO}")
    case True
    then have "load_elf_loop ops phbuf v eh (Some a) (i # is) st = load_elf_loop ops phbuf v eh (Some a) is ?st1"
      "elf_regions bs v eh (i # is) (segments A) = elf_regions bs v eh is (segments A)"
      using rd ph off by (auto simp: Let_def)
    with Cons.IH [of ?st1 A] rest Cons.prems(2) show ?thesis
      by (auto split: sum.splits cret.splits)
  next
    case noskip: False
    show ?thesis
    proof (cases "p_type ?ph = PT_LOAD \<and> \<not> (i = 0 \<or> length (segments A) < i)")
      case True
      let ?segs = "(segments A)[i - 1 := region_segment (p_vaddr ?ph) (p_memsz ?ph) (p_flags ?ph AND PF_R \<noteq> 0)
             (p_flags ?ph AND PF_W \<noteq> 0) (p_flags ?ph AND PF_X \<noteq> 0) (Some v) (p_offset ?ph)]"
      let ?st2 = "?st1\<lparr>ases := (ases ?st1)(a \<mapsto> A\<lparr>segments := ?segs\<rparr>)\<rparr>"
      have "load_elf_loop ops phbuf v eh (Some a) (i # is) st = load_elf_loop ops phbuf v eh (Some a) is ?st2"
        using rd ph off noskip True Cons.prems(2) by (simp add: Let_def as_define_region_index)
      moreover have "elf_regions bs v eh (i # is) (segments A) = elf_regions bs v eh is ?segs"
        using noskip True by (simp add: Let_def)
      ultimately show ?thesis
        using Cons.IH [of ?st2 "A\<lparr>segments := ?segs\<rparr>"] rest by (auto split: sum.splits cret.splits)
    next
      case False
      with noskip rd ph off Cons.prems(2) show ?thesis
        by (auto simp: Let_def as_define_region_index)
    qed
  qed
qed

lemma load_elf_header:
  assumes "reads_file ops v bs" and "52 \<le> length bs"
  shows "\<exists>f m. read_header ops v ehbuf 52 0 st = (0, st\<lparr>fsys := f, kmem := m\<rparr>) \<and>
    get_ehdr m ehbuf = get_ehdr (file_mem bs) 0"
proof -
  from assms obtain f where "read_header ops v ehbuf 52 0 st =
      (0, st\<lparr>fsys := f, kmem := read_into ehbuf 52 (unat (0 :: u64)) bs (kmem st)\<rparr>)"
    using read_header_file [OF assms(1), of 0 52 ehbuf st] by auto
  with get_ehdr_file [OF assms(2)] show ?thesis by auto
qed

subsection \<open>Properties\<close>

text \<open>
  C16: \<open>load_elf\<close> computes the regions of an executable from its bytes. For a file whose headers can
  be read, a wrong magic number, class, byte order, version, type or machine gives \<open>ENOEXEC\<close> and
  leaves every address space alone; otherwise the segments become those the program headers
  describe, the page table is untouched and the result is the entry point of the header.
\<close>

theorem load_elf_regions:
  assumes rf: "reads_file ops v bs" and len: "52 \<le> length bs" and eh: "eh = get_ehdr (file_mem bs) 0"
    and as: "proc_getas st = Some a" and A: "ases st a = Some A" and phs: "phdrs_in_file bs eh [0..<unat (e_phnum eh)]"
  shows "if \<not> elf_check eh then \<exists>st'. load_elf ops ehbuf phbuf v st = Inr (Err ENOEXEC, st') \<and> ases st' = ases st
    else case elf_regions bs v eh [0..<unat (e_phnum eh)] (segments A) of
        Inl e \<Rightarrow> load_elf ops ehbuf phbuf v st = Inl e
      | Inr (Err e) \<Rightarrow> \<exists>st'. load_elf ops ehbuf phbuf v st = Inr (Err ENOEXEC, st')
      | Inr (Ret segs) \<Rightarrow> \<exists>f m. load_elf ops ehbuf phbuf v st =
          Inr (Ret (e_entry eh), st\<lparr>fsys := f, kmem := m, ases := (ases st)(a \<mapsto> A\<lparr>segments := segs\<rparr>)\<rparr>)"
proof -
  obtain f m where rd: "read_header ops v ehbuf 52 0 st = (0, st\<lparr>fsys := f, kmem := m\<rparr>)"
    and h: "get_ehdr m ehbuf = eh" using load_elf_header [OF rf len] eh by blast
  show ?thesis
  proof (cases "elf_check eh")
    case False
    with rd h show ?thesis by (auto simp: load_elf_def Let_def)
  next
    case True
    have e: "load_elf ops ehbuf phbuf v st =
      rbind (load_elf_loop ops phbuf v eh (Some a) [0..<unat (e_phnum eh)] (st\<lparr>fsys := f, kmem := m\<rparr>)) (\<lambda>(result, st2).
        if result \<noteq> 0 then Inr (Err result, st2) else Inr (Ret (e_entry eh), st2))"
      using True rd h as by (simp add: load_elf_def Let_def as_prepare_load_def as_complete_load_def case_prod_unfold cong: if_cong)
    from load_elf_loop_spec [OF rf phs, of "st\<lparr>fsys := f, kmem := m\<rparr>" a A phbuf] A True
    show ?thesis unfolding e
      by (auto simp del: rbind_eq_Inr split: sum.splits cret.splits) (intro exI, rule refl)
  qed
qed

text \<open>
  C38: An executable whose first program header is loadable sends the loader outside the array of
  segment descriptors, at index -1.
\<close>

theorem load_elf_first_header_loadable:
  assumes rf: "reads_file ops v bs" and len: "52 \<le> length bs" and eh: "eh = get_ehdr (file_mem bs) 0"
    and as: "proc_getas st = Some a" and A: "ases st a = Some A" and phs: "phdrs_in_file bs eh [0..<unat (e_phnum eh)]"
    and ok: "elf_check eh" and n: "0 < unat (e_phnum eh)" and ld: "p_type (get_phdr (file_mem bs) (phdr_at eh 0)) = PT_LOAD"
  shows "load_elf ops ehbuf phbuf v st = Inl OutOfBounds"
proof -
  obtain f m where rd: "read_header ops v ehbuf 52 0 st = (0, st\<lparr>fsys := f, kmem := m\<rparr>)"
    and h: "get_ehdr m ehbuf = eh" using load_elf_header [OF rf len] eh by blast
  have u: "[0..<unat (e_phnum eh)] = 0 # [1..<unat (e_phnum eh)]" using n by (simp add: upt_conv_Cons)
  have "elf_regions bs v eh [0..<unat (e_phnum eh)] (segments A) = Inl OutOfBounds"
    using ld by (simp add: u PT_LOAD_def PT_NULL_def PT_PHDR_def PT_MIPS_REGINFO_def)
  with load_elf_loop_spec [OF rf phs, of "st\<lparr>fsys := f, kmem := m\<rparr>" a A phbuf] A ok rd h as
  show ?thesis by (simp add: load_elf_def Let_def)
qed

end
