(* ===== verification/Addrspace_Props.thy ===== *)
theory Addrspace_Props
  imports Addrspace Vm_Frames
begin

text \<open>Address spaces and the paging state together.\<close>

text \<open>
  C37: Destroying an address space gives back its page tables and its descriptor, and neither its
  frames nor its swap slots: the replacement queue, the owners recorded in the coremap and the
  bitmap of the swap file are unchanged. When the oldest queued frame belonged to it and is still
  allocated, the next eviction follows the pointer to the freed address space.
\<close>

theorem as_destroy_dangling:
  assumes "as_destroy ops a st = Inr st'"
  shows "replacement_queue st' = replacement_queue st \<and> swapfile_freeentries st' = swapfile_freeentries st \<and>
    (\<forall>j. cme_as (coremap st' ! j) = cme_as (coremap st ! j)) \<and> ases st' a = None \<and>
    (\<forall>v q. replacement_queue st = v # q \<and> cme_as (coremap st ! v) = Some a \<and> \<not> cme_is_free (coremap st' ! v) \<longrightarrow>
       coremap_replace ops' st' = Inl UseAfterFree)"
proof -
  note K = as_destroy_keeps [OF assms]
  have "coremap_replace ops' st' = Inl UseAfterFree"
    if "replacement_queue st = v # q" "cme_as (coremap st ! v) = Some a" "\<not> cme_is_free (coremap st' ! v)" for v q
    using that K by (simp add: coremap_replace_def queue_pop_def coremap_victim_nonfree pt_get_def Let_def)
  with K show ?thesis by blast
qed

subsection \<open>A machine whose address space lies in its own frames\<close>

definition as1 :: vaddr where "as1 = 0x80001000"

definition kstate2 :: "page_fs kstate" where
  "kstate2 = kstate0\<lparr>
     coremap := [kframe, kframe\<lparr>cme_alloc_size := 2\<rparr>, kframe, kframe\<lparr>cme_alloc_size := 2\<rparr>, kframe,
       kframe\<lparr>cme_as := Some as1, cme_vaddr := 0x7FFFF000, cme_paddr := 0x5000\<rparr>],
     num_frames := 6, replacement_queue := [5], curproc := Some (Some as1),
     ases := [as1 \<mapsto> \<lparr>segments = [text_seg, data_seg, stack_seg], page_table = [511 \<mapsto>
        \<lparr>ipt_kva = 0x80003000, ipt = (\<lambda>_. zero_pte)(INNER_PT_INDEX 0x7FFFF000 :=
           \<lparr>pte_paddr = 0x5000, pte_valid = True, pte_swapped = False\<rparr>)\<rparr>]\<rparr>]\<rparr>"

lemma as_destroy_tables_skip:
  "\<forall>i\<in>set is. page_table A (of_nat i) = None \<Longrightarrow> as_destroy_tables A (is @ js) st = as_destroy_tables A js st"
  by (induction "is") simp_all

lemma as_destroy_tables_none:
  "\<forall>i\<in>set is. page_table A (of_nat i) = None \<Longrightarrow> as_destroy_tables A is st = Inr st"
  by (induction "is") simp_all

lemma kstate2_tables:
  assumes A: "page_table A = [511 \<mapsto> t]"
  shows "as_destroy_tables A [0..<1024] st = kfree_large (ipt_kva t) st"
proof -
  have other: "page_table A (of_nat i) = None" if "i < 1024" "i \<noteq> 511" for i
  proof -
    have "(of_nat i :: u32) \<noteq> 511"
    proof
      assume "(of_nat i :: u32) = 511"
      then have "unat (of_nat i :: u32) = 511" by simp
      then show False using that by (simp add: unat_of_nat_u32)
    qed
    then show ?thesis by (simp add: A)
  qed
  define n :: nat where "n = 1024"
  have "n = 511 + 513" "511 < n" by (simp_all add: n_def)
  then have e: "[0..<n] = [0..<511] @ 511 # [Suc 511..<n]"
    using upt_add_eq_append [of 0 511 513] upt_conv_Cons [of 511 n] by (simp only: le0 HOL.simp_thms)
  have lo: "\<forall>i\<in>set [0..<511]. page_table A (of_nat i) = None"
    by (rule ballI, rule other) (unfold set_upt atLeastLessThan_iff, linarith+)
  have hi: "\<forall>i\<in>set [Suc 511..<n]. page_table A (of_nat i) = None"
    by (rule ballI, rule other) (unfold set_upt atLeastLessThan_iff n_def, linarith+)
  have "page_table A (of_nat 511) = Some t" by (simp add: A)
  then have "as_destroy_tables A [0..<n] st = kfree_large (ipt_kva t) st"
    unfolding e as_destroy_tables_skip [OF lo]
    by (cases "kfree_large (ipt_kva t) st") (simp_all only: as_destroy_tables.simps option.case as_destroy_tables_none [OF hi] rbind_simps)
  then show ?thesis by (simp only: n_def)
qed

theorem as_destroy_dangling_witness:
  "\<exists>st'. as_destroy page_ops as1 kstate2 = Inr st' \<and> ases st' as1 = None \<and> cme_as (coremap st' ! 5) = Some as1 \<and>
     coremap_replace page_ops st' = Inl UseAfterFree"
proof -
  let ?A = "\<lparr>segments = [text_seg, data_seg, stack_seg], page_table = [511 \<mapsto>
        \<lparr>ipt_kva = 0x80003000, ipt = (\<lambda>_. zero_pte)(INNER_PT_INDEX 0x7FFFF000 :=
           \<lparr>pte_paddr = 0x5000, pte_valid = True, pte_swapped = False\<rparr>)\<rparr>]\<rparr>"
  have A: "ases kstate2 as1 = Some ?A" by (simp add: kstate2_def)
  have fr: "frames_ok kstate2" and init: "vm_initialized kstate2" by (simp_all add: frames_ok_def kstate2_def kstate0_def)
  have kva: "0x80003000 = PADDR_TO_KVADDR (of_nat 3 * PAGE_SIZE)" "as1 = PADDR_TO_KVADDR (of_nat 1 * PAGE_SIZE)"
    by (simp_all add: as1_def PADDR_TO_KVADDR_def PAGE_SIZE_def MIPS_KSEG0_def)
  have large: "kfree_large (PADDR_TO_KVADDR (of_nat f * PAGE_SIZE)) st = free_kpages (PADDR_TO_KVADDR (of_nat f * PAGE_SIZE)) st"
    if "f < 131072" for f and st :: "page_fs kstate"
    using frame_kva [OF that] by (simp add: kfree_large_def)
  have sz: "cme_alloc_size (coremap kstate2 ! 3) = 2" "cme_alloc_size (coremap kstate2 ! 1) = 2" "length (coremap kstate2) = 6"
    "\<not> cme_is_free (coremap kstate2 ! 5)"
    by (simp_all add: kstate2_def kframe_def)
  obtain cm where c1: "free_kpages (PADDR_TO_KVADDR (of_nat 3 * PAGE_SIZE)) kstate2 = Inr (kstate2\<lparr>coremap := cm\<rparr>)"
    "length cm = 6" "\<forall>j. cm ! j = (if 3 \<le> j \<and> j < 5 then (coremap kstate2 ! j)\<lparr>cme_is_free := True\<rparr> else coremap kstate2 ! j)"
    using free_kpages_block [OF init fr, of 3] sz by auto
  let ?st = "kstate2\<lparr>coremap := cm, fsys := vfs_close page_ops 1 (fsys kstate2)\<rparr>"
  have "frames_ok ?st" "vm_initialized ?st" using fr init c1 sz by (simp_all add: frames_ok_def)
  then obtain cm2 where c2: "free_kpages (PADDR_TO_KVADDR (of_nat 1 * PAGE_SIZE)) ?st = Inr (?st\<lparr>coremap := cm2\<rparr>)"
    "\<forall>j. cm2 ! j = (if 1 \<le> j \<and> j < 3 then (cm ! j)\<lparr>cme_is_free := True\<rparr> else cm ! j)"
    using free_kpages_block [of ?st 1] sz c1 by auto
  have "as_destroy page_ops as1 kstate2 = Inr (?st\<lparr>coremap := cm2, ases := (ases kstate2)(as1 := None)\<rparr>)"
    using c1(1) c2(1) large [of 3] large [of 1]
    by (simp add: as_destroy_def A kstate2_tables kva(1) text_seg_def) (simp add: kva(2))
  then obtain st' where d: "as_destroy page_ops as1 kstate2 = Inr st'" and nf: "\<not> cme_is_free (coremap st' ! 5)"
    using c1 c2 sz by auto
  have "cme_as (coremap kstate2 ! 5) = Some as1" "replacement_queue kstate2 = [5]" by (simp_all add: kstate2_def)
  with d nf as_destroy_dangling [OF d, of page_ops] show ?thesis by auto
qed

end
