(* ===== verification/Elf_Props.thy ===== *)
theory Elf_Props
  imports Loadelf Addrspace_Props
begin

text \<open>
  Executables and paging together: what a page of an executable holds once a fault has brought it
  in, and a small executable on which the loader and the fault handler run.
\<close>

subsection \<open>The bytes of a loaded page\<close>

text \<open>The part of the file that the load of page \<open>v\<close> reads exists.\<close>

definition page_in_file :: "u8 list \<Rightarrow> segment \<Rightarrow> vaddr \<Rightarrow> bool" where
  "page_in_file bs s v \<longleftrightarrow>
     (case segments_before_load s v 0 0 0 of (p, off, sz) \<Rightarrow> unat off + unat sz \<le> length bs)"

lemma before_load_frame:
  "(v - vbase s) div PAGE_SIZE < npages s \<Longrightarrow> segments_before_load s v 0 0 0 = (d, off, sz) \<Longrightarrow>
   segments_before_load s v p eo ps = (p + d, off, sz)"
  by (auto simp: segments_before_load_def Let_def split: if_splits)

lemma pt_load_bytes:
  fixes k :: u32
  assumes rf: "reads_file ops vn bs" and vn: "elf_file s = Some vn" and inf: "page_in_file bs s v"
    and al: "unat (v - vbase s) mod 4096 = 0" and np: "(v - vbase s) div PAGE_SIZE < npages s"
    and bo: "elf_base_offset s < PAGE_SIZE" and ld: "pt_load ops s v p st = Inr (r, st')"
    and len: "length bs < 4294967296" and k: "k < PAGE_SIZE" and nk: "\<not> (v = vbase s \<and> k < elf_base_offset s)"
  shows "kmem st' (PADDR_TO_KVADDR p + k) = bs ! unat (seg_file_offset s (v + k))"
proof -
  obtain d off sz where b0: "segments_before_load s v 0 0 0 = (d, off, sz)" by (metis prod.collapse)
  note b = before_load_frame [OF np b0]
  from inf b0 have fit: "unat off + unat sz \<le> length bs" by (simp add: page_in_file_def)
  have "unat (ucast off :: u64) = unat off" by (rule unat_ucast_u64)
  with fit obtain u f where rd: "vop_read ops vn (uio_kinit (PADDR_TO_KVADDR (p + d)) sz (ucast off) UIO_READ) (fsys st) (kmem st) =
      (0, u, f, read_into (PADDR_TO_KVADDR (p + d)) sz (unat off) bs (kmem st))"
    using rf unfolding reads_file_def by metis
  then have m: "kmem st' = read_into (PADDR_TO_KVADDR (p + d)) sz (unat off) bs (kmem st)"
    using ld vn b by (auto simp: pt_load_def load_page_def Let_def)
  from load_file_offset_before_load [OF al np bo k, of p 0 0] b nk
  have o1: "p + k - (p + d) < sz" "off + (p + k - (p + d)) = seg_file_offset s (v + k)"
    by (auto simp: load_file_offset_def split: if_splits)
  have e: "PADDR_TO_KVADDR p + k - PADDR_TO_KVADDR (p + d) = p + k - (p + d)" by (simp add: PADDR_TO_KVADDR_def)
  have "unat off + unat (p + k - (p + d)) < length bs" using fit o1(1) by (simp add: u32_less_eq_unat)
  then have "unat (off + (p + k - (p + d))) = unat off + unat (p + k - (p + d))"
    using len by (simp only: unat_word_ariths(1)) simp
  with o1 show ?thesis unfolding m read_into_def e by simp
qed

subsection \<open>Properties\<close>


subsection \<open>A small executable\<close>

text \<open>
  A header, a \<open>PT_MIPS_REGINFO\<close> program header and a loadable one that maps the file at
  \<open>0x400000\<close>, padded to two pages.
\<close>

definition elf_bytes :: "u8 list" where
  "elf_bytes =
     [0x7F, 0x45, 0x4C, 0x46, 1, 2, 1, 0, 0, 0, 0, 0, 0, 0, 0, 0, 0, 2, 0, 8, 0, 0, 0, 1,
      0, 0x40, 0, 0x74, 0, 0, 0, 0x34, 0, 0, 0, 0, 0, 0, 0, 0, 0, 0x34, 0, 0x20, 0, 2, 0, 0, 0, 0, 0, 0,
      0x70, 0, 0, 0, 0, 0, 0, 0, 0, 0, 0, 0, 0, 0, 0, 0, 0, 0, 0, 0, 0, 0, 0, 0, 0, 0, 0, 0, 0, 0, 0, 0,
      0, 0, 0, 1, 0, 0, 0, 0, 0, 0x40, 0, 0, 0, 0x40, 0, 0, 0, 0, 0x20, 0, 0, 0, 0x20, 0, 0, 0, 0, 5, 0, 0, 0x10, 0]"

definition elf_image :: "u8 list" where
  "elf_image = elf_bytes @ replicate 8076 0"

text \<open>The operations of \<open>page_ops\<close>, and vnode 1 a file with the bytes \<open>bs\<close>.\<close>

definition file_read :: "u8 list \<Rightarrow> uio \<Rightarrow> page_fs \<Rightarrow> mem \<Rightarrow> int \<times> uio \<times> page_fs \<times> mem" where
  "file_read bs u f m =
     (case uio_iov u of
        [io] \<Rightarrow> if unat (uio_offset u) + unat (iov_len io) \<le> length bs
                then (0, u\<lparr>uio_resid := 0\<rparr>, f, read_into (iov_base io) (iov_len io) (unat (uio_offset u)) bs m)
                else (EINVAL, u, f, m)
      | _ \<Rightarrow> (EINVAL, u, f, m))"

definition elf_ops :: "u8 list \<Rightarrow> page_fs vnode_ops" where
  "elf_ops bs = page_ops\<lparr>vop_read := \<lambda>v. if v = 1 then file_read bs else page_read v\<rparr>"

lemma elf_ops_reads: "reads_file (elf_ops bs) 1 bs"
  by (simp add: reads_file_def elf_ops_def file_read_def uio_kinit_def)

lemma elf_ops_ok: "swap_vnode_ok (elf_ops bs) 0 page_slot"
  unfolding swap_vnode_ok_def
proof (intro conjI allI impI)
  fix kva i f m u f'
  assume "i < SWAPFILE_MAX_PAGES" "vop_write (elf_ops bs) 0 (swap_uio kva i UIO_WRITE) f m = (0, u, f')"
  then show "page_slot f' = (page_slot f)(unat i \<mapsto> get_page m kva)"
    by (intro swap_write [OF page_ops_ok]) (simp_all add: elf_ops_def)
next
  fix kva i f m pg
  assume "i < SWAPFILE_MAX_PAGES" "page_slot f (unat i) = Some pg"
  then show "\<exists>u f'. vop_read (elf_ops bs) 0 (swap_uio kva i UIO_READ) f m = (0, u, f', put_page kva pg m)"
    using page_ops_ok [of 0] unfolding swap_vnode_ok_def by (simp add: elf_ops_def page_ops_def)
next
  fix v kva len off f m r u f' m'
  assume r: "vop_read (elf_ops bs) v (uio_kinit kva len off UIO_READ) f m = (r, u, f', m')"
  have "page_slot f' = page_slot f \<and> (\<forall>x. \<not> x - kva < len \<longrightarrow> m' x = m x)"
  proof (cases "v = 1")
    case True
    with r show ?thesis by (auto simp: elf_ops_def file_read_def uio_kinit_def read_into_def split: if_splits)
  next
    case False
    with r have "vop_read page_ops v (uio_kinit kva len off UIO_READ) f m = (r, u, f', m')"
      by (simp add: elf_ops_def page_ops_def)
    with vnode_read_frame [OF page_ops_ok] show ?thesis by blast
  qed
  then show "page_slot f' = page_slot f" "\<And>x. \<not> x - kva < len \<Longrightarrow> m' x = m x" by blast+
next
  fix f i pg assume "page_slot f i = Some pg"
  then show "length pg = 4096" by (auto simp: page_slot_def split: option.splits if_splits)
qed

lemma length_elf_bytes: "length elf_bytes = 116"
  by (simp add: elf_bytes_def)

lemma length_elf: "length elf_image = 8192"
  by (simp add: elf_image_def length_elf_bytes)

lemma elf_image_mem: "unat x < 116 \<Longrightarrow> file_mem elf_image x = elf_bytes ! unat x"
  by (simp add: file_mem_def length_elf) (simp add: elf_image_def nth_append length_elf_bytes)

definition elf_eh :: elf_ehdr where "elf_eh = get_ehdr (file_mem elf_image) 0"

lemma elf_eh_fields:
  "elf_check elf_eh" "e_phnum elf_eh = 2" "e_phoff elf_eh = 52" "e_phentsize elf_eh = 32" "e_entry elf_eh = 0x400074"
  by (simp_all add: elf_eh_def elf_check_def get_ehdr_def be16_def be32_def elf_image_mem upt_rec, simp_all add: elf_bytes_def)

lemma elf_ph_fields:
  "p_type (get_phdr (file_mem elf_image) 52) = PT_MIPS_REGINFO"
  "p_type (get_phdr (file_mem elf_image) 84) = PT_LOAD"
  "p_vaddr (get_phdr (file_mem elf_image) 84) = 0x400000" "p_memsz (get_phdr (file_mem elf_image) 84) = 0x2000"
  "p_flags (get_phdr (file_mem elf_image) 84) = 5" "p_offset (get_phdr (file_mem elf_image) 84) = 0"
  by (simp_all add: get_phdr_def be32_def elf_image_mem PT_MIPS_REGINFO_def PT_LOAD_def, simp_all add: elf_bytes_def)

lemma elf_phdrs: "phdrs_in_file elf_image elf_eh [0..<unat (e_phnum elf_eh)]"
  by (simp add: phdrs_in_file_def length_elf elf_eh_fields upt_rec phdr_at_def)

lemma elf_regions_ex:
  "elf_regions elf_image 1 elf_eh [0..<unat (e_phnum elf_eh)] [x, y, z] =
     Inr (Ret [region_segment 0x400000 0x2000 True False True (Some 1) 0, y, z])"
  by (simp add: elf_eh_fields upt_rec phdr_at_def elf_ph_fields Let_def)
    (simp add: PT_LOAD_def PT_NULL_def PT_PHDR_def PT_MIPS_REGINFO_def PF_R_def PF_W_def PF_X_def)

theorem load_elf_regions_witness:
  "\<exists>f m. load_elf (elf_ops elf_image) 0x80002000 0x80002100 1 kstate0 =
     Inr (Ret 0x400074, kstate0\<lparr>fsys := f, kmem := m, ases := [as0 \<mapsto> addrspace0\<lparr>segments :=
       [region_segment 0x400000 0x2000 True False True (Some 1) 0, data_seg, stack_seg]\<rparr>]\<rparr>)"
proof -
  have g: "proc_getas kstate0 = Some as0" by (simp add: proc_getas_def kstate0_sel)
  have sg: "segments addrspace0 = [text_seg, data_seg, stack_seg]" by (simp add: addrspace0_def)
  have as: "(ases kstate0)(as0 \<mapsto> X) = [as0 \<mapsto> X]" for X by (simp add: kstate0_def)
  have "52 \<le> length elf_image" by (simp add: length_elf)
  from load_elf_regions [OF elf_ops_reads this elf_eh_def g kstate0_sel(2) elf_phdrs, of "0x80002000" "0x80002100"]
  show ?thesis unfolding sg elf_regions_ex as elf_eh_fields(5)
    by (simp only: elf_eh_fields(1) HOL.simp_thms if_False sum.case cret.case)
qed

text \<open>The same file with the loadable header in front.\<close>

definition elf_first :: "u8 list" where
  "elf_first = take 52 elf_bytes @ drop 84 elf_bytes @ replicate 8108 0"

lemma elf_first_mem: "unat x < 84 \<Longrightarrow> file_mem elf_first x = elf_bytes ! (if unat x < 52 then unat x else unat x + 32)"
  by (auto simp: file_mem_def elf_first_def nth_append length_elf_bytes add.commute)

theorem load_elf_first_header_loadable_witness:
  "load_elf (elf_ops elf_first) 0x80002000 0x80002100 1 kstate0 = Inl OutOfBounds"
proof -
  define eh where "eh = get_ehdr (file_mem elf_first) 0"
  have len: "length elf_first = 8192" by (simp add: elf_first_def length_elf_bytes)
  have eh: "elf_check eh" "e_phnum eh = 2" "e_phoff eh = 52" "e_phentsize eh = 32"
    by (simp_all add: eh_def elf_check_def get_ehdr_def be16_def be32_def elf_first_mem upt_rec, simp_all add: elf_bytes_def)
  have ph: "p_type (get_phdr (file_mem elf_first) (phdr_at eh 0)) = PT_LOAD"
    by (simp add: phdr_at_def eh get_phdr_def be32_def elf_first_mem PT_LOAD_def) (simp add: elf_bytes_def)
  have "proc_getas kstate0 = Some as0" by (simp add: proc_getas_def kstate0_sel)
  from load_elf_first_header_loadable [OF elf_ops_reads _ eh_def this kstate0_sel(2) _ eh(1) _ ph]
  show ?thesis by (simp add: len phdrs_in_file_def eh(2-4) phdr_at_def upt_rec)
qed

subsection \<open>A fault on its first page\<close>

definition kstate3 :: "page_fs kstate" where
  "kstate3 = kstate0\<lparr>ases := [as0 \<mapsto> addrspace0\<lparr>page_table :=
     [OUTER_PT_INDEX 0x400000 \<mapsto> \<lparr>ipt_kva = 0x80012000, ipt = \<lambda>_. zero_pte\<rparr>]\<rparr>]\<rparr>"

lemma kstate3_unmapped: "\<not> resident kstate3 a v p" "\<not> swapped kstate3 a v i"
  by (auto simp: resident_def swapped_def pte_of_def kstate3_def zero_pte_def split: option.splits if_splits)

lemma kstate3_inv: "vm_inv page_slot kstate3"
  unfolding vm_inv_defs resident_ok_def swapped_ok_def swapped_inj_def
  using swap0_wf
  by (simp add: kstate3_unmapped queue_ok_def frames_ok_def swap_wf_def) (simp add: kstate3_def kstate0_def swap0_def)


end
