(* ===== verification/Threadlist.thy ===== *)
theory Threadlist
  imports Prelude
begin

text \<open>
  The thread lists of \<open>kern/thread/threadlist.c\<close>: doubly linked lists between two bookends. The nodes
  are in a store, because a node is part of the list or of the thread that contains it and is shared
  by its two neighbours: \<open>Tl_head l\<close> and \<open>Tl_tail l\<close> are the bookends of list \<open>l\<close>, \<open>T_listnode t\<close> is
  the node inside thread \<open>t\<close>. Reading through a null pointer is the fault \<open>NullDeref\<close>.
  \<open>DEBUGASSERT\<close> is compiled to nothing.
\<close>

type_synonym tid = nat

datatype 'l tlptr = Tl_head 'l | Tl_tail 'l | T_listnode tid

record 'l threadlistnode =
  tln_prev :: "'l tlptr option"
  tln_next :: "'l tlptr option"
  tln_self :: "tid option"

record 'l tlstore =
  tl_node :: "'l tlptr \<Rightarrow> 'l threadlistnode"
  tl_count :: "'l \<Rightarrow> u32"

definition set_prev :: "'l tlptr \<Rightarrow> 'l tlptr option \<Rightarrow> 'l tlstore \<Rightarrow> 'l tlstore" where
  "set_prev n p s = s\<lparr>tl_node := (tl_node s)(n := (tl_node s n)\<lparr>tln_prev := p\<rparr>)\<rparr>"

definition set_next :: "'l tlptr \<Rightarrow> 'l tlptr option \<Rightarrow> 'l tlstore \<Rightarrow> 'l tlstore" where
  "set_next n p s = s\<lparr>tl_node := (tl_node s)(n := (tl_node s n)\<lparr>tln_next := p\<rparr>)\<rparr>"

definition set_self :: "'l tlptr \<Rightarrow> tid option \<Rightarrow> 'l tlstore \<Rightarrow> 'l tlstore" where
  "set_self n t s = s\<lparr>tl_node := (tl_node s)(n := (tl_node s n)\<lparr>tln_self := t\<rparr>)\<rparr>"

abbreviation prev_of :: "'l tlstore \<Rightarrow> 'l tlptr \<Rightarrow> 'l tlptr option" where
  "prev_of s n \<equiv> tln_prev (tl_node s n)"

abbreviation next_of :: "'l tlstore \<Rightarrow> 'l tlptr \<Rightarrow> 'l tlptr option" where
  "next_of s n \<equiv> tln_next (tl_node s n)"

abbreviation self_of :: "'l tlstore \<Rightarrow> 'l tlptr \<Rightarrow> tid option" where
  "self_of s n \<equiv> tln_self (tl_node s n)"

fun deref :: "'a option \<Rightarrow> 'a res" where
  "deref None = Inl NullDeref"
| "deref (Some p) = Inr p"

subsection \<open>Operations\<close>

definition threadlistnode_init :: "tid \<Rightarrow> 'l tlstore \<Rightarrow> 'l tlstore" where
  "threadlistnode_init t s =
     (let tln = T_listnode t in set_self tln (Some t) (set_prev tln None (set_next tln None s)))"

definition threadlistnode_cleanup :: "tid \<Rightarrow> 'l tlstore \<Rightarrow> unit res" where
  "threadlistnode_cleanup t s =
     (let tln = T_listnode t in
      if next_of s tln \<noteq> None then Inl KAssertFail
      else if prev_of s tln \<noteq> None then Inl KAssertFail
      else if self_of s tln = None then Inl KAssertFail
      else Inr ())"

definition threadlist_init :: "'l \<Rightarrow> 'l tlstore \<Rightarrow> 'l tlstore" where
  "threadlist_init l s =
     (let s1 = set_next (Tl_head l) (Some (Tl_tail l)) s;
          s2 = set_prev (Tl_head l) None s1;
          s3 = set_next (Tl_tail l) None s2;
          s4 = set_prev (Tl_tail l) (Some (Tl_head l)) s3;
          s5 = set_self (Tl_head l) None s4;
          s6 = set_self (Tl_tail l) None s5 in
      s6\<lparr>tl_count := (tl_count s6)(l := 0)\<rparr>)"

definition threadlist_isempty :: "'l \<Rightarrow> 'l tlstore \<Rightarrow> bool" where
  "threadlist_isempty l s \<longleftrightarrow> tl_count s l = 0"

definition threadlist_cleanup :: "'l \<Rightarrow> 'l tlstore \<Rightarrow> unit res" where
  "threadlist_cleanup l s =
     (if \<not> threadlist_isempty l s then Inl KAssertFail
      else if tl_count s l \<noteq> 0 then Inl KAssertFail
      else Inr ())"

definition threadlist_insertafternode :: "'l tlptr \<Rightarrow> tid \<Rightarrow> 'l tlstore \<Rightarrow> 'l tlstore res" where
  "threadlist_insertafternode onlist t s =
     (let addee = T_listnode t;
          s1 = set_prev addee (Some onlist) s;
          s2 = set_next addee (next_of s1 onlist) s1 in
      rbind (deref (prev_of s2 addee)) (\<lambda>p.
      let s3 = set_next p (Some addee) s2 in
      rbind (deref (next_of s3 addee)) (\<lambda>n.
      Inr (set_prev n (Some addee) s3))))"

definition threadlist_insertbeforenode :: "tid \<Rightarrow> 'l tlptr \<Rightarrow> 'l tlstore \<Rightarrow> 'l tlstore res" where
  "threadlist_insertbeforenode t onlist s =
     (let addee = T_listnode t;
          s1 = set_prev addee (prev_of s onlist) s;
          s2 = set_next addee (Some onlist) s1 in
      rbind (deref (prev_of s2 addee)) (\<lambda>p.
      let s3 = set_next p (Some addee) s2 in
      rbind (deref (next_of s3 addee)) (\<lambda>n.
      Inr (set_prev n (Some addee) s3))))"

definition threadlist_removenode :: "'l tlptr \<Rightarrow> 'l tlstore \<Rightarrow> 'l tlstore res" where
  "threadlist_removenode tln s =
     rbind (deref (prev_of s tln)) (\<lambda>p.
     let s1 = set_next p (next_of s tln) s in
     rbind (deref (next_of s1 tln)) (\<lambda>n.
     let s2 = set_prev n (prev_of s1 tln) s1;
         s3 = set_prev tln None s2 in
     Inr (set_next tln None s3)))"

definition tl_count_inc :: "'l \<Rightarrow> 'l tlstore \<Rightarrow> 'l tlstore" where
  "tl_count_inc l s = s\<lparr>tl_count := (tl_count s)(l := tl_count s l + 1)\<rparr>"

definition tl_count_dec :: "'l \<Rightarrow> 'l tlstore \<Rightarrow> 'l tlstore" where
  "tl_count_dec l s = s\<lparr>tl_count := (tl_count s)(l := tl_count s l - 1)\<rparr>"

definition threadlist_addhead :: "'l \<Rightarrow> tid \<Rightarrow> 'l tlstore \<Rightarrow> 'l tlstore res" where
  "threadlist_addhead l t s =
     rbind (threadlist_insertafternode (Tl_head l) t s) (\<lambda>s1. Inr (tl_count_inc l s1))"

definition threadlist_addtail :: "'l \<Rightarrow> tid \<Rightarrow> 'l tlstore \<Rightarrow> 'l tlstore res" where
  "threadlist_addtail l t s =
     rbind (threadlist_insertbeforenode t (Tl_tail l) s) (\<lambda>s1. Inr (tl_count_inc l s1))"

definition threadlist_remhead :: "'l \<Rightarrow> 'l tlstore \<Rightarrow> (tid option \<times> 'l tlstore) res" where
  "threadlist_remhead l s =
     rbind (deref (next_of s (Tl_head l))) (\<lambda>tln.
       if next_of s tln = None then Inr (None, s)
       else rbind (threadlist_removenode tln s) (\<lambda>s1.
         let s2 = tl_count_dec l s1 in Inr (self_of s2 tln, s2)))"

definition threadlist_remtail :: "'l \<Rightarrow> 'l tlstore \<Rightarrow> (tid option \<times> 'l tlstore) res" where
  "threadlist_remtail l s =
     rbind (deref (prev_of s (Tl_tail l))) (\<lambda>tln.
       if prev_of s tln = None then Inr (None, s)
       else rbind (threadlist_removenode tln s) (\<lambda>s1.
         let s2 = tl_count_dec l s1 in Inr (self_of s2 tln, s2)))"

definition threadlist_insertafter :: "'l \<Rightarrow> tid \<Rightarrow> tid \<Rightarrow> 'l tlstore \<Rightarrow> 'l tlstore res" where
  "threadlist_insertafter l onlist addee s =
     rbind (threadlist_insertafternode (T_listnode onlist) addee s) (\<lambda>s1. Inr (tl_count_inc l s1))"

definition threadlist_insertbefore :: "'l \<Rightarrow> tid \<Rightarrow> tid \<Rightarrow> 'l tlstore \<Rightarrow> 'l tlstore res" where
  "threadlist_insertbefore l addee onlist s =
     rbind (threadlist_insertbeforenode addee (T_listnode onlist) s) (\<lambda>s1. Inr (tl_count_inc l s1))"

definition threadlist_remove :: "'l \<Rightarrow> tid \<Rightarrow> 'l tlstore \<Rightarrow> 'l tlstore res" where
  "threadlist_remove l t s =
     rbind (threadlist_removenode (T_listnode t) s) (\<lambda>s1. Inr (tl_count_dec l s1))"

subsection \<open>Lists in the store\<close>

fun linked :: "'l tlstore \<Rightarrow> 'l tlptr list \<Rightarrow> bool" where
  "linked s [] \<longleftrightarrow> True"
| "linked s [n] \<longleftrightarrow> True"
| "linked s (a # b # ns) \<longleftrightarrow> next_of s a = Some b \<and> prev_of s b = Some a \<and> linked s (b # ns)"

definition tl_nodes :: "'l \<Rightarrow> tid list \<Rightarrow> 'l tlptr list" where
  "tl_nodes l xs = Tl_head l # map T_listnode xs @ [Tl_tail l]"

text \<open>List \<open>l\<close> holds the threads \<open>xs\<close> in this order.\<close>

definition tl_rep :: "'l tlstore \<Rightarrow> 'l \<Rightarrow> tid list \<Rightarrow> bool" where
  "tl_rep s l xs \<longleftrightarrow>
     linked s (tl_nodes l xs) \<and> distinct xs \<and> prev_of s (Tl_head l) = None \<and> next_of s (Tl_tail l) = None \<and>
     self_of s (Tl_head l) = None \<and> self_of s (Tl_tail l) = None \<and>
     (\<forall>x\<in>set xs. self_of s (T_listnode x) = Some x) \<and> tl_count s l = of_nat (length xs)"

text \<open>A thread that is on no list.\<close>

definition detached :: "'l tlstore \<Rightarrow> tid \<Rightarrow> bool" where
  "detached s t \<longleftrightarrow> prev_of s (T_listnode t) = None \<and> next_of s (T_listnode t) = None \<and>
     self_of s (T_listnode t) = Some t"

lemma linked_append:
  "linked s (xs @ a # ys) \<longleftrightarrow> linked s (xs @ [a]) \<and> linked s (a # ys)"
  by (induction s xs rule: linked.induct) simp_all

lemma linked_cong:
  "(\<And>n. n \<in> set (butlast ns) \<Longrightarrow> next_of s' n = next_of s n) \<Longrightarrow>
   (\<And>n. n \<in> set (tl ns) \<Longrightarrow> prev_of s' n = prev_of s n) \<Longrightarrow> linked s' ns = linked s ns"
  by (induction s ns rule: linked.induct) (auto split: if_splits)

text \<open>The effect of putting node \<open>n\<close> between \<open>a\<close> and \<open>b\<close>, and of taking it out.\<close>

definition spliced :: "'l tlptr \<Rightarrow> 'l tlptr \<Rightarrow> 'l tlptr \<Rightarrow> 'l tlstore \<Rightarrow> 'l tlstore \<Rightarrow> bool" where
  "spliced a n b s s' \<longleftrightarrow>
     (\<forall>m. next_of s' m = (if m = a then Some n else if m = n then Some b else next_of s m)) \<and>
     (\<forall>m. prev_of s' m = (if m = b then Some n else if m = n then Some a else prev_of s m)) \<and>
     (\<forall>m. self_of s' m = self_of s m) \<and> tl_count s' = tl_count s"

definition unspliced :: "'l tlptr \<Rightarrow> 'l tlptr \<Rightarrow> 'l tlptr \<Rightarrow> 'l tlstore \<Rightarrow> 'l tlstore \<Rightarrow> bool" where
  "unspliced a n b s s' \<longleftrightarrow>
     (\<forall>m. next_of s' m = (if m = n then None else if m = a then Some b else next_of s m)) \<and>
     (\<forall>m. prev_of s' m = (if m = n then None else if m = b then Some a else prev_of s m)) \<and>
     (\<forall>m. self_of s' m = self_of s m) \<and> tl_count s' = tl_count s"

lemmas tl_store_defs = set_prev_def set_next_def set_self_def

lemma insertafternode_spliced:
  assumes "next_of s a = Some b" "T_listnode t \<noteq> a" "T_listnode t \<noteq> b" "a \<noteq> b"
  shows "\<exists>s'. threadlist_insertafternode a t s = Inr s' \<and> spliced a (T_listnode t) b s s'"
  using assms by (simp add: threadlist_insertafternode_def tl_store_defs spliced_def Let_def)

lemma insertbeforenode_spliced:
  assumes "prev_of s b = Some a" "T_listnode t \<noteq> a" "T_listnode t \<noteq> b" "a \<noteq> b"
  shows "\<exists>s'. threadlist_insertbeforenode t b s = Inr s' \<and> spliced a (T_listnode t) b s s'"
  using assms by (simp add: threadlist_insertbeforenode_def tl_store_defs spliced_def Let_def)

lemma removenode_unspliced:
  assumes "prev_of s n = Some a" "next_of s n = Some b" "n \<noteq> a" "n \<noteq> b" "a \<noteq> b"
  shows "\<exists>s'. threadlist_removenode n s = Inr s' \<and> unspliced a n b s s'"
  using assms by (simp add: threadlist_removenode_def tl_store_defs unspliced_def Let_def)

lemma tl_setD: "m \<in> set (tl ns) \<Longrightarrow> m \<in> set ns"
  by (cases ns) auto

lemma spliced_linked:
  assumes sp: "spliced a n b s s'" and l: "linked s (xs @ a # b # ys)" and d: "distinct (xs @ a # n # b # ys)"
  shows "linked s' (xs @ a # n # b # ys)"
proof -
  have nx: "next_of s' m = next_of s m" if "m \<noteq> a" "m \<noteq> n" for m using sp that by (simp add: spliced_def)
  have pv: "prev_of s' m = prev_of s m" if "m \<noteq> b" "m \<noteq> n" for m using sp that by (simp add: spliced_def)
  from l have l1: "linked s (xs @ [a])" and l2: "linked s (b # ys)"
    using linked_append [of s xs a "b # ys"] by simp_all
  have "linked s' (xs @ [a]) = linked s (xs @ [a])"
    by (rule linked_cong; (rule nx | rule pv)) (use d in \<open>auto dest: tl_setD\<close>)
  moreover have "linked s' (b # ys) = linked s (b # ys)"
    by (rule linked_cong; (rule nx | rule pv)) (use d in \<open>auto dest: in_set_butlastD split: if_splits\<close>)
  moreover have "linked s' (a # n # b # ys) = linked s' (b # ys)"
    using sp d by (auto simp: spliced_def)
  ultimately show ?thesis
    using l1 l2 linked_append [of s' xs a "n # b # ys"] by simp
qed

lemma unspliced_linked:
  assumes sp: "unspliced a n b s s'" and l: "linked s (xs @ a # n # b # ys)" and d: "distinct (xs @ a # n # b # ys)"
  shows "linked s' (xs @ a # b # ys)"
proof -
  have nx: "next_of s' m = next_of s m" if "m \<noteq> a" "m \<noteq> n" for m using sp that by (simp add: unspliced_def)
  have pv: "prev_of s' m = prev_of s m" if "m \<noteq> b" "m \<noteq> n" for m using sp that by (simp add: unspliced_def)
  from l have l1: "linked s (xs @ [a])" and l2: "linked s (b # ys)"
    using linked_append [of s xs a "n # b # ys"] by simp_all
  have "linked s' (xs @ [a]) = linked s (xs @ [a])"
    by (rule linked_cong; (rule nx | rule pv)) (use d in \<open>auto dest: tl_setD\<close>)
  moreover have "linked s' (b # ys) = linked s (b # ys)"
    by (rule linked_cong; (rule nx | rule pv)) (use d in \<open>auto dest: in_set_butlastD split: if_splits\<close>)
  moreover have "linked s' (a # b # ys) = linked s' (b # ys)"
    using sp d by (auto simp: unspliced_def)
  ultimately show ?thesis
    using l1 l2 linked_append [of s' xs a "b # ys"] by simp
qed

subsection \<open>One list\<close>

text \<open>The node in front of the insertion point behind \<open>xs\<close>, and the node behind the one before \<open>ys\<close>.\<close>

definition tl_before :: "'l \<Rightarrow> tid list \<Rightarrow> 'l tlptr" where
  "tl_before l xs = (if xs = [] then Tl_head l else T_listnode (last xs))"

definition tl_after :: "'l \<Rightarrow> tid list \<Rightarrow> 'l tlptr" where
  "tl_after l ys = (if ys = [] then Tl_tail l else T_listnode (hd ys))"

lemma tl_before_cases: "tl_before l xs = Tl_head l \<or> (\<exists>x\<in>set xs. tl_before l xs = T_listnode x)"
  by (simp add: tl_before_def)

lemma tl_after_cases: "tl_after l ys = Tl_tail l \<or> (\<exists>y\<in>set ys. tl_after l ys = T_listnode y)"
  by (simp add: tl_after_def)

lemma tl_nodes_split:
  "\<exists>P R. tl_nodes l (xs @ ys) = P @ tl_before l xs # tl_after l ys # R \<and>
     tl_nodes l (xs @ t # ys) = P @ tl_before l xs # T_listnode t # tl_after l ys # R"
proof -
  let ?P = "if xs = [] then [] else Tl_head l # map T_listnode (butlast xs)"
  let ?R = "if ys = [] then [] else map T_listnode (tl ys) @ [Tl_tail l]"
  have a: "Tl_head l # map T_listnode xs = ?P @ [tl_before l xs]"
    by (cases xs rule: rev_cases) (simp_all add: tl_before_def)
  have b: "map T_listnode ys @ [Tl_tail l] = tl_after l ys # ?R"
    by (cases ys) (simp_all add: tl_after_def)
  have "tl_nodes l (xs @ ys) = (Tl_head l # map T_listnode xs) @ (map T_listnode ys @ [Tl_tail l])"
    "tl_nodes l (xs @ t # ys) = (Tl_head l # map T_listnode xs) @ T_listnode t # (map T_listnode ys @ [Tl_tail l])"
    by (simp_all add: tl_nodes_def)
  then have "tl_nodes l (xs @ ys) = ?P @ tl_before l xs # tl_after l ys # ?R"
    "tl_nodes l (xs @ t # ys) = ?P @ tl_before l xs # T_listnode t # tl_after l ys # ?R"
    unfolding a b by simp_all
  then show ?thesis by blast
qed

lemma tl_nodes_distinct: "distinct (tl_nodes l xs) \<longleftrightarrow> distinct xs"
  by (auto simp: tl_nodes_def distinct_map inj_on_def)

lemma tl_nodes_set: "set (tl_nodes l xs) = {Tl_head l, Tl_tail l} \<union> T_listnode ` set xs"
  by (auto simp: tl_nodes_def)

lemma tl_rep_ends:
  assumes "tl_rep s l (xs @ ys)"
  shows "next_of s (tl_before l xs) = Some (tl_after l ys)" and "prev_of s (tl_after l ys) = Some (tl_before l xs)"
proof -
  obtain P R where n: "tl_nodes l (xs @ ys) = P @ tl_before l xs # tl_after l ys # R" using tl_nodes_split [of l xs ys] by blast
  have "linked s (P @ tl_before l xs # tl_after l ys # R)" using assms unfolding tl_rep_def n by simp
  then show "next_of s (tl_before l xs) = Some (tl_after l ys)" "prev_of s (tl_after l ys) = Some (tl_before l xs)"
    using linked_append [of s P "tl_before l xs" "tl_after l ys # R"] by simp_all
qed

lemma tl_rep_member:
  assumes "tl_rep s l (us @ x # vs)"
  shows "next_of s (T_listnode x) = Some (tl_after l vs)" and "prev_of s (T_listnode x) = Some (tl_before l us)"
  using tl_rep_ends(1) [of s l "us @ [x]" vs] tl_rep_ends(2) [of s l us "x # vs"] assms
  by (simp_all add: tl_before_def tl_after_def)

lemma detached_notin: "tl_rep s l xs \<Longrightarrow> detached s t \<Longrightarrow> t \<notin> set xs"
  using tl_rep_member(1) by (fastforce simp: detached_def dest: split_list)

lemma tl_rep_linked:
  assumes "linked s' (tl_nodes l ys)" and "distinct ys" and "tl_node s = tl_node s'"
    and "prev_of s' (Tl_head l) = None" "next_of s' (Tl_tail l) = None" "self_of s' (Tl_head l) = None"
    "self_of s' (Tl_tail l) = None" "\<forall>x\<in>set ys. self_of s' (T_listnode x) = Some x" "tl_count s l = of_nat (length ys)"
  shows "tl_rep s l ys"
  using assms linked_cong [of "tl_nodes l ys" s s'] by (simp add: tl_rep_def)

lemma spliced_rep:
  assumes r: "tl_rep s l (xs @ ys)" and t: "detached s t" and sp: "spliced (tl_before l xs) (T_listnode t) (tl_after l ys) s s'"
  shows "tl_rep (tl_count_inc l s') l (xs @ t # ys)"
proof -
  obtain P R where n: "tl_nodes l (xs @ ys) = P @ tl_before l xs # tl_after l ys # R"
    "tl_nodes l (xs @ t # ys) = P @ tl_before l xs # T_listnode t # tl_after l ys # R"
    using tl_nodes_split [of l xs ys t] by blast
  have d: "distinct (xs @ t # ys)" using r detached_notin [OF r t] by (auto simp: tl_rep_def)
  then have dn: "distinct (P @ tl_before l xs # T_listnode t # tl_after l ys # R)" by (simp only: tl_nodes_distinct flip: n(2))
  have "linked s (P @ tl_before l xs # tl_after l ys # R)" using r n(1) by (simp add: tl_rep_def)
  then have lk: "linked s' (tl_nodes l (xs @ t # ys))" unfolding n(2) by (rule spliced_linked [OF sp _ dn])
  have "tl_count s' l = of_nat (length (xs @ ys))" using r sp by (simp add: tl_rep_def spliced_def)
  then show ?thesis
    using r t sp
    by (intro tl_rep_linked [OF lk d])
      (auto simp: tl_count_inc_def tl_rep_def spliced_def detached_def tl_before_def tl_after_def)
qed

lemma unspliced_rep:
  assumes r: "tl_rep s l (xs @ t # ys)" and sp: "unspliced (tl_before l xs) (T_listnode t) (tl_after l ys) s s'"
  shows "tl_rep (tl_count_dec l s') l (xs @ ys)" and "detached (tl_count_dec l s') t"
proof -
  obtain P R where n: "tl_nodes l (xs @ ys) = P @ tl_before l xs # tl_after l ys # R"
    "tl_nodes l (xs @ t # ys) = P @ tl_before l xs # T_listnode t # tl_after l ys # R"
    using tl_nodes_split [of l xs ys t] by blast
  have d: "distinct (xs @ t # ys)" using r by (simp add: tl_rep_def)
  then have dn: "distinct (P @ tl_before l xs # T_listnode t # tl_after l ys # R)" by (simp only: tl_nodes_distinct flip: n(2))
  have "linked s (P @ tl_before l xs # T_listnode t # tl_after l ys # R)" using r n(2) by (simp add: tl_rep_def)
  then have lk: "linked s' (tl_nodes l (xs @ ys))" unfolding n(1) by (rule unspliced_linked [OF sp _ dn])
  have "tl_count s' l = of_nat (length (xs @ t # ys))" using r sp by (simp add: tl_rep_def unspliced_def)
  then show "tl_rep (tl_count_dec l s') l (xs @ ys)"
    using r d sp
    by (intro tl_rep_linked [OF lk])
      (auto simp: tl_count_dec_def tl_rep_def unspliced_def tl_before_def tl_after_def)
  show "detached (tl_count_dec l s') t"
    using r sp by (simp add: detached_def tl_count_dec_def unspliced_def tl_rep_def)
qed

subsection \<open>All lists\<close>

text \<open>
  The abstract state: \<open>Q l\<close> is the content of list \<open>l\<close> when it has been initialised. No thread is
  on two lists.
\<close>

definition tl_heap :: "'l tlstore \<Rightarrow> ('l \<rightharpoonup> tid list) \<Rightarrow> bool" where
  "tl_heap s Q \<longleftrightarrow> (\<forall>l xs. Q l = Some xs \<longrightarrow> tl_rep s l xs) \<and>
     (\<forall>l l' xs ys. Q l = Some xs \<longrightarrow> Q l' = Some ys \<longrightarrow> l \<noteq> l' \<longrightarrow> set xs \<inter> set ys = {})"

lemma tl_heap_rep: "tl_heap s Q \<Longrightarrow> Q l = Some xs \<Longrightarrow> tl_rep s l xs"
  by (simp add: tl_heap_def)

lemma tl_heap_disjoint:
  "tl_heap s Q \<Longrightarrow> Q l = Some xs \<Longrightarrow> Q l' = Some ys \<Longrightarrow> l' \<noteq> l \<Longrightarrow> set xs \<inter> set ys = {}"
  unfolding tl_heap_def by metis

lemma tl_rep_frame:
  assumes "tl_rep s l xs" and "tl_count s' l = tl_count s l"
    and "\<And>m. m \<in> set (tl_nodes l xs) \<Longrightarrow> next_of s' m = next_of s m \<and> prev_of s' m = prev_of s m \<and> self_of s' m = self_of s m"
  shows "tl_rep s' l xs"
proof -
  have "linked s' (tl_nodes l xs) = linked s (tl_nodes l xs)"
    by (rule linked_cong) (use assms(3) in \<open>auto dest: in_set_butlastD tl_setD\<close>)
  then show ?thesis using assms(1,2) assms(3) by (simp add: tl_rep_def tl_nodes_set)
qed

lemma tl_heap_upd:
  assumes H: "tl_heap s Q" and "tl_rep s' l zs" and d: "\<forall>l' ys. l' \<noteq> l \<longrightarrow> Q l' = Some ys \<longrightarrow> set zs \<inter> set ys = {}"
    and fr: "\<And>l' ys. l' \<noteq> l \<Longrightarrow> Q l' = Some ys \<Longrightarrow> tl_rep s' l' ys"
  shows "tl_heap s' (Q(l \<mapsto> zs))"
  unfolding tl_heap_def
proof (intro conjI allI impI)
  fix l' xs assume "(Q(l \<mapsto> zs)) l' = Some xs"
  then show "tl_rep s' l' xs" using assms by (auto split: if_splits)
next
  fix l1 l2 xs ys assume "(Q(l \<mapsto> zs)) l1 = Some xs" "(Q(l \<mapsto> zs)) l2 = Some ys" "l1 \<noteq> l2"
  then show "set xs \<inter> set ys = {}"
    using tl_heap_disjoint [OF H, of l1 xs l2 ys] d by (fastforce split: if_splits)
qed

lemma tl_ends_other:
  assumes H: "tl_heap s Q" and l: "Q l = Some (xs @ ys)" and l': "l' \<noteq> l" "Q l' = Some zs"
    and m: "m \<in> set (tl_nodes l' zs)"
  shows "m \<noteq> tl_before l xs" and "m \<noteq> tl_after l ys"
proof -
  have "set (xs @ ys) \<inter> set zs = {}" using tl_heap_disjoint [OF H l l'(2,1)] .
  with m l' show "m \<noteq> tl_before l xs" "m \<noteq> tl_after l ys"
    using tl_before_cases [of l xs] tl_after_cases [of l ys] by (auto simp: tl_nodes_set)
qed

lemma tl_ends_detached:
  assumes "tl_heap s Q" and "Q l = Some (xs @ ys)" and "detached s t"
  shows "T_listnode t \<noteq> tl_before l xs" and "T_listnode t \<noteq> tl_after l ys"
proof -
  have "t \<notin> set (xs @ ys)" by (rule detached_notin [OF tl_heap_rep [OF assms(1,2)] assms(3)])
  then show "T_listnode t \<noteq> tl_before l xs" "T_listnode t \<noteq> tl_after l ys"
    using tl_before_cases [of l xs] tl_after_cases [of l ys] by auto
qed

lemma tl_ends_neq: "distinct (xs @ ys) \<Longrightarrow> tl_before l xs \<noteq> tl_after l ys"
  using tl_before_cases [of l xs] tl_after_cases [of l ys] by auto

lemma heap_insert:
  assumes H: "tl_heap s Q" and l: "Q l = Some (xs @ ys)" and t: "detached s t"
    and sp: "spliced (tl_before l xs) (T_listnode t) (tl_after l ys) s s'"
  shows "tl_heap (tl_count_inc l s') (Q(l \<mapsto> xs @ t # ys))" and "t' \<noteq> t \<Longrightarrow> detached s t' \<Longrightarrow> detached (tl_count_inc l s') t'"
proof -
  have r: "tl_rep s l (xs @ ys)" by (rule tl_heap_rep [OF H l])
  have tn: "t \<notin> set zs" if "Q l' = Some zs" for l' zs
    by (rule detached_notin [OF tl_heap_rep [OF H that] t])
  show "tl_heap (tl_count_inc l s') (Q(l \<mapsto> xs @ t # ys))"
  proof (rule tl_heap_upd [OF H spliced_rep [OF r t sp]])
    show "\<forall>l' ys'. l' \<noteq> l \<longrightarrow> Q l' = Some ys' \<longrightarrow> set (xs @ t # ys) \<inter> set ys' = {}"
      using tl_heap_disjoint [OF H l] tn by fastforce
  next
    fix l' zs assume l': "l' \<noteq> l" "Q l' = Some zs"
    have "tl_rep s l' zs" by (rule tl_heap_rep [OF H l'(2)])
    then show "tl_rep (tl_count_inc l s') l' zs"
    proof (rule tl_rep_frame)
      show "tl_count (tl_count_inc l s') l' = tl_count s l'" using sp l' by (simp add: tl_count_inc_def spliced_def)
    next
      fix m assume m: "m \<in> set (tl_nodes l' zs)"
      have "m \<noteq> T_listnode t" using tn l' m by (auto simp: tl_nodes_set)
      with tl_ends_other [OF H l l' m] sp
      show "next_of (tl_count_inc l s') m = next_of s m \<and> prev_of (tl_count_inc l s') m = prev_of s m \<and>
          self_of (tl_count_inc l s') m = self_of s m"
        by (simp add: tl_count_inc_def spliced_def)
    qed
  qed
  show "detached (tl_count_inc l s') t'" if "t' \<noteq> t" "detached s t'"
    using that sp tl_ends_detached [OF H l that(2)] by (simp add: detached_def tl_count_inc_def spliced_def)
qed

lemma heap_remove:
  assumes H: "tl_heap s Q" and l: "Q l = Some (xs @ t # ys)"
    and sp: "unspliced (tl_before l xs) (T_listnode t) (tl_after l ys) s s'"
  shows "tl_heap (tl_count_dec l s') (Q(l \<mapsto> xs @ ys))" and "detached (tl_count_dec l s') t"
    and "detached s t' \<Longrightarrow> detached (tl_count_dec l s') t'"
proof -
  have r: "tl_rep s l (xs @ t # ys)" by (rule tl_heap_rep [OF H l])
  show "detached (tl_count_dec l s') t" by (rule unspliced_rep(2) [OF r sp])
  show "tl_heap (tl_count_dec l s') (Q(l \<mapsto> xs @ ys))"
  proof (rule tl_heap_upd [OF H unspliced_rep(1) [OF r sp]])
    show "\<forall>l' ys'. l' \<noteq> l \<longrightarrow> Q l' = Some ys' \<longrightarrow> set (xs @ ys) \<inter> set ys' = {}"
      using tl_heap_disjoint [OF H l] by fastforce
  next
    fix l' zs assume l': "l' \<noteq> l" "Q l' = Some zs"
    have "tl_rep s l' zs" by (rule tl_heap_rep [OF H l'(2)])
    then show "tl_rep (tl_count_dec l s') l' zs"
    proof (rule tl_rep_frame)
      show "tl_count (tl_count_dec l s') l' = tl_count s l'" using sp l' by (simp add: tl_count_dec_def unspliced_def)
    next
      fix m assume m: "m \<in> set (tl_nodes l' zs)"
      have "set (xs @ t # ys) \<inter> set zs = {}" using tl_heap_disjoint [OF H l l'(2,1)] .
      then have "m \<noteq> T_listnode t" "m \<noteq> tl_before l xs" "m \<noteq> tl_after l ys"
        using m l' tl_before_cases [of l xs] tl_after_cases [of l ys] by (auto simp: tl_nodes_set)
      with sp show "next_of (tl_count_dec l s') m = next_of s m \<and> prev_of (tl_count_dec l s') m = prev_of s m \<and>
          self_of (tl_count_dec l s') m = self_of s m"
        by (simp add: tl_count_dec_def unspliced_def)
    qed
  qed
  show "detached (tl_count_dec l s') t'" if d: "detached s t'"
  proof -
    have "t' \<notin> set (xs @ t # ys)" by (rule detached_notin [OF r d])
    then have "T_listnode t' \<noteq> tl_before l xs" "T_listnode t' \<noteq> tl_after l ys" "t' \<noteq> t"
      using tl_before_cases [of l xs] tl_after_cases [of l ys] by auto
    then show ?thesis using sp d by (simp add: detached_def tl_count_dec_def unspliced_def)
  qed
qed

subsection \<open>The operations on the abstract state\<close>

lemma threadlist_insertafter_gen:
  assumes H: "tl_heap s Q" and l: "Q l = Some (xs @ ys)" and t: "detached s t"
  shows "\<exists>s'. threadlist_insertafternode (tl_before l xs) t s = Inr s' \<and> tl_heap (tl_count_inc l s') (Q(l \<mapsto> xs @ t # ys)) \<and>
      (\<forall>t'. t' \<noteq> t \<longrightarrow> detached s t' \<longrightarrow> detached (tl_count_inc l s') t')"
    and "\<exists>s'. threadlist_insertbeforenode t (tl_after l ys) s = Inr s' \<and> tl_heap (tl_count_inc l s') (Q(l \<mapsto> xs @ t # ys)) \<and>
      (\<forall>t'. t' \<noteq> t \<longrightarrow> detached s t' \<longrightarrow> detached (tl_count_inc l s') t')"
proof -
  have r: "tl_rep s l (xs @ ys)" by (rule tl_heap_rep [OF H l])
  note nx = tl_rep_ends [OF r] and ne = tl_ends_detached [OF H l t]
  have ab: "tl_before l xs \<noteq> tl_after l ys" using r by (intro tl_ends_neq) (simp add: tl_rep_def)
  show "\<exists>s'. threadlist_insertafternode (tl_before l xs) t s = Inr s' \<and> tl_heap (tl_count_inc l s') (Q(l \<mapsto> xs @ t # ys)) \<and>
      (\<forall>t'. t' \<noteq> t \<longrightarrow> detached s t' \<longrightarrow> detached (tl_count_inc l s') t')"
    using insertafternode_spliced [OF nx(1) ne ab] heap_insert [OF H l t] by blast
  show "\<exists>s'. threadlist_insertbeforenode t (tl_after l ys) s = Inr s' \<and> tl_heap (tl_count_inc l s') (Q(l \<mapsto> xs @ t # ys)) \<and>
      (\<forall>t'. t' \<noteq> t \<longrightarrow> detached s t' \<longrightarrow> detached (tl_count_inc l s') t')"
    using insertbeforenode_spliced [OF nx(2) ne ab] heap_insert [OF H l t] by blast
qed

lemma threadlist_remove_gen:
  assumes H: "tl_heap s Q" and l: "Q l = Some (xs @ t # ys)"
  shows "\<exists>s'. threadlist_removenode (T_listnode t) s = Inr s' \<and> tl_heap (tl_count_dec l s') (Q(l \<mapsto> xs @ ys)) \<and>
      detached (tl_count_dec l s') t \<and> self_of s' (T_listnode t) = Some t \<and>
      (\<forall>t'. detached s t' \<longrightarrow> detached (tl_count_dec l s') t')"
proof -
  have r: "tl_rep s l (xs @ t # ys)" by (rule tl_heap_rep [OF H l])
  then have d: "distinct (xs @ t # ys)" and self: "self_of s (T_listnode t) = Some t" by (simp_all add: tl_rep_def)
  then have ne: "T_listnode t \<noteq> tl_before l xs" "T_listnode t \<noteq> tl_after l ys" "tl_before l xs \<noteq> tl_after l ys"
    using tl_before_cases [of l xs] tl_after_cases [of l ys] by auto
  obtain s' where s': "threadlist_removenode (T_listnode t) s = Inr s'"
    "unspliced (tl_before l xs) (T_listnode t) (tl_after l ys) s s'"
    using removenode_unspliced [OF tl_rep_member(2,1) [OF r] ne] by blast
  then have "self_of s' (T_listnode t) = Some t" using self by (simp add: unspliced_def)
  with s' heap_remove [OF H l s'(2)] show ?thesis by blast
qed

lemma threadlist_addhead_ok:
  assumes "tl_heap s Q" and "Q l = Some xs" and "detached s t"
  shows "\<exists>s'. threadlist_addhead l t s = Inr s' \<and> tl_heap s' (Q(l \<mapsto> t # xs)) \<and>
    (\<forall>t'. t' \<noteq> t \<longrightarrow> detached s t' \<longrightarrow> detached s' t')"
  using threadlist_insertafter_gen(1) [of s Q l "[]" xs t] assms
  by (auto simp: threadlist_addhead_def tl_before_def)

lemma threadlist_addtail_ok:
  assumes "tl_heap s Q" and "Q l = Some xs" and "detached s t"
  shows "\<exists>s'. threadlist_addtail l t s = Inr s' \<and> tl_heap s' (Q(l \<mapsto> xs @ [t])) \<and>
    (\<forall>t'. t' \<noteq> t \<longrightarrow> detached s t' \<longrightarrow> detached s' t')"
  using threadlist_insertafter_gen(2) [of s Q l xs "[]" t] assms
  by (auto simp: threadlist_addtail_def tl_after_def)

lemma threadlist_insertafter_ok:
  assumes "tl_heap s Q" and "Q l = Some (xs @ u # ys)" and "detached s t"
  shows "\<exists>s'. threadlist_insertafter l u t s = Inr s' \<and> tl_heap s' (Q(l \<mapsto> xs @ u # t # ys))"
  using threadlist_insertafter_gen(1) [of s Q l "xs @ [u]" ys t] assms
  by (auto simp: threadlist_insertafter_def tl_before_def)

lemma threadlist_insertbefore_ok:
  assumes "tl_heap s Q" and "Q l = Some (xs @ u # ys)" and "detached s t"
  shows "\<exists>s'. threadlist_insertbefore l t u s = Inr s' \<and> tl_heap s' (Q(l \<mapsto> xs @ t # u # ys))"
  using threadlist_insertafter_gen(2) [of s Q l xs "u # ys" t] assms
  by (auto simp: threadlist_insertbefore_def tl_after_def)

lemma threadlist_remove_ok:
  assumes "tl_heap s Q" and "Q l = Some (xs @ t # ys)"
  shows "\<exists>s'. threadlist_remove l t s = Inr s' \<and> tl_heap s' (Q(l \<mapsto> xs @ ys)) \<and> detached s' t"
  using threadlist_remove_gen [OF assms] by (auto simp: threadlist_remove_def)

lemma threadlist_remhead_ok:
  assumes H: "tl_heap s Q" and l: "Q l = Some xs"
  shows "case xs of [] \<Rightarrow> threadlist_remhead l s = Inr (None, s)
    | t # ys \<Rightarrow> \<exists>s'. threadlist_remhead l s = Inr (Some t, s') \<and> tl_heap s' (Q(l \<mapsto> ys)) \<and> detached s' t \<and>
        (\<forall>t'. detached s t' \<longrightarrow> detached s' t')"
proof (cases xs)
  case Nil
  have r: "tl_rep s l ([] @ [])" using tl_heap_rep [OF H l] Nil by simp
  with Nil tl_rep_ends(1) [OF r] show ?thesis
    by (simp add: threadlist_remhead_def tl_before_def tl_after_def tl_rep_def)
next
  case (Cons t ys)
  with l have l': "Q l = Some ([] @ t # ys)" by simp
  have r: "tl_rep s l ([] @ t # ys)" by (rule tl_heap_rep [OF H l'])
  from tl_rep_ends(1) [OF r] have "next_of s (Tl_head l) = Some (T_listnode t)"
    by (simp add: tl_before_def tl_after_def)
  moreover have "next_of s (T_listnode t) \<noteq> None" using tl_rep_member(1) [OF r] by simp
  ultimately show ?thesis
    using threadlist_remove_gen [OF H l'] Cons
    by (auto simp: threadlist_remhead_def Let_def tl_count_dec_def)
qed

lemma threadlist_remtail_ok:
  assumes H: "tl_heap s Q" and l: "Q l = Some xs"
  shows "if xs = [] then threadlist_remtail l s = Inr (None, s)
    else \<exists>s'. threadlist_remtail l s = Inr (Some (last xs), s') \<and> tl_heap s' (Q(l \<mapsto> butlast xs)) \<and> detached s' (last xs) \<and>
        (\<forall>t'. detached s t' \<longrightarrow> detached s' t')"
proof (cases xs rule: rev_cases)
  case Nil
  have r: "tl_rep s l ([] @ [])" using tl_heap_rep [OF H l] Nil by simp
  with Nil tl_rep_ends(2) [OF r] show ?thesis
    by (simp add: threadlist_remtail_def tl_before_def tl_after_def tl_rep_def)
next
  case (snoc ys t)
  with l have l': "Q l = Some (ys @ t # [])" by simp
  have r: "tl_rep s l (ys @ t # [])" by (rule tl_heap_rep [OF H l'])
  from tl_rep_ends(2) [of s l "ys @ [t]" "[]"] r have "prev_of s (Tl_tail l) = Some (T_listnode t)"
    by (simp add: tl_before_def tl_after_def)
  moreover have "prev_of s (T_listnode t) \<noteq> None" using tl_rep_member(2) [OF r] by simp
  ultimately show ?thesis
    using threadlist_remove_gen [OF H l'] snoc
    by (auto simp: threadlist_remtail_def Let_def tl_count_dec_def)
qed

lemma threadlist_init_ok:
  assumes H: "tl_heap s Q"
  shows "tl_heap (threadlist_init l s) (Q(l \<mapsto> []))" and "detached s t \<Longrightarrow> detached (threadlist_init l s) t"
proof -
  show "tl_heap (threadlist_init l s) (Q(l \<mapsto> []))"
  proof (rule tl_heap_upd [OF H])
    show "tl_rep (threadlist_init l s) l []"
      by (simp add: tl_rep_def tl_nodes_def threadlist_init_def Let_def tl_store_defs)
  next
    fix l' ys assume l': "l' \<noteq> l" "Q l' = Some ys"
    show "tl_rep (threadlist_init l s) l' ys"
      by (rule tl_rep_frame [OF tl_heap_rep [OF H l'(2)]])
        (use l' in \<open>auto simp: threadlist_init_def Let_def tl_store_defs tl_nodes_set\<close>)
  qed simp
  show "detached s t \<Longrightarrow> detached (threadlist_init l s) t"
    by (simp add: detached_def threadlist_init_def Let_def tl_store_defs)
qed

lemma threadlist_isempty_ok:
  assumes "tl_heap s Q" and "Q l = Some xs" and "length xs < 4294967296"
  shows "threadlist_isempty l s \<longleftrightarrow> xs = []"
proof -
  have "tl_count s l = of_nat (length xs)" using tl_heap_rep [OF assms(1,2)] by (simp add: tl_rep_def)
  then have "unat (tl_count s l) = length xs" using assms(3) by (simp add: unat_of_nat_u32)
  then show ?thesis by (auto simp: threadlist_isempty_def word_unat_eq_iff)
qed

subsection \<open>The interface of a heap of queues\<close>

text \<open>
  What the scheduler and the wait channels rely on: \<open>inv s Q\<close> relates the store to the contents of
  the queues and \<open>off s t\<close> says that \<open>t\<close> is on none of them.
\<close>

locale queue_heap =
  fixes inv :: "'s \<Rightarrow> ('l \<rightharpoonup> tid list) \<Rightarrow> bool" and off :: "'s \<Rightarrow> tid \<Rightarrow> bool"
    and addtail :: "'l \<Rightarrow> tid \<Rightarrow> 's \<Rightarrow> 's res" and remhead :: "'l \<Rightarrow> 's \<Rightarrow> (tid option \<times> 's) res"
  assumes addtail: "inv s Q \<Longrightarrow> Q l = Some xs \<Longrightarrow> off s t \<Longrightarrow>
      \<exists>s'. addtail l t s = Inr s' \<and> inv s' (Q(l \<mapsto> xs @ [t])) \<and> (\<forall>t'. t' \<noteq> t \<longrightarrow> off s t' \<longrightarrow> off s' t')"
    and remhead: "inv s Q \<Longrightarrow> Q l = Some (t # ys) \<Longrightarrow>
      \<exists>s'. remhead l s = Inr (Some t, s') \<and> inv s' (Q(l \<mapsto> ys)) \<and> off s' t \<and> (\<forall>t'. off s t' \<longrightarrow> off s' t')"
    and remhead_empty: "inv s Q \<Longrightarrow> Q l = Some [] \<Longrightarrow> remhead l s = Inr (None, s)"
begin

lemma addtails:
  assumes "inv s Q" and "Q l = Some xs" and "distinct ts" and "\<forall>t\<in>set ts. off s t"
  shows "\<exists>s'. rfold (addtail l) ts s = Inr s' \<and> inv s' (Q(l \<mapsto> xs @ ts)) \<and> (\<forall>t'. t' \<notin> set ts \<longrightarrow> off s t' \<longrightarrow> off s' t')"
  using assms
proof (induction ts arbitrary: s Q xs)
  case Nil
  then show ?case by (simp add: fun_upd_idem)
next
  case (Cons t ts)
  obtain s1 where s1: "addtail l t s = Inr s1" "inv s1 (Q(l \<mapsto> xs @ [t]))" "\<forall>t'. t' \<noteq> t \<longrightarrow> off s t' \<longrightarrow> off s1 t'"
    using addtail [OF Cons.prems(1,2), of t] Cons.prems(4) by (auto simp del: fun_upd_apply)
  have "\<forall>t'\<in>set ts. off s1 t'" using Cons.prems(3,4) s1(3) by auto
  then obtain s2 where "rfold (addtail l) ts s1 = Inr s2" "inv s2 (Q(l \<mapsto> (xs @ [t]) @ ts))" "\<forall>t'. t' \<notin> set ts \<longrightarrow> off s1 t' \<longrightarrow> off s2 t'"
    using Cons.IH [OF s1(2), of "xs @ [t]"] Cons.prems(3) by (auto simp del: fun_upd_apply simp: fun_upd_same)
  with s1 show ?case by (auto simp del: fun_upd_apply)
qed

lemma remheads:
  assumes "inv s Q" and "Q l = Some (ts @ ys)"
  shows "\<exists>s'. rtimes (length ts) (remhead l) s = Inr (map Some ts, s') \<and> inv s' (Q(l \<mapsto> ys)) \<and>
    (\<forall>t\<in>set ts. off s' t) \<and> (\<forall>t. off s t \<longrightarrow> off s' t)"
  using assms
proof (induction ts arbitrary: s Q)
  case Nil
  then show ?case by (simp add: fun_upd_idem)
next
  case (Cons t ts)
  obtain s1 where s1: "remhead l s = Inr (Some t, s1)" "inv s1 (Q(l \<mapsto> ts @ ys))" "off s1 t" "\<forall>t'. off s t' \<longrightarrow> off s1 t'"
    using remhead [of s Q l t "ts @ ys"] Cons.prems by (auto simp del: fun_upd_apply)
  obtain s2 where "rtimes (length ts) (remhead l) s1 = Inr (map Some ts, s2)" "inv s2 (Q(l \<mapsto> ys))"
    "\<forall>t\<in>set ts. off s2 t" "\<forall>t. off s1 t \<longrightarrow> off s2 t"
    using Cons.IH [OF s1(2)] by (auto simp del: fun_upd_apply simp: fun_upd_same)
  with s1 show ?case by (auto simp del: fun_upd_apply)
qed

lemma fifo:
  assumes "inv s Q" and "Q l = Some []" and "distinct ts" and "\<forall>t\<in>set ts. off s t"
  shows "\<exists>s1 s2. rfold (addtail l) ts s = Inr s1 \<and> rtimes (length ts) (remhead l) s1 = Inr (map Some ts, s2) \<and>
    inv s2 Q \<and> remhead l s2 = Inr (None, s2)"
proof -
  obtain s1 where s1: "rfold (addtail l) ts s = Inr s1" "inv s1 (Q(l \<mapsto> ts))" using addtails [OF assms] by (auto simp del: fun_upd_apply)
  obtain s2 where s2: "rtimes (length ts) (remhead l) s1 = Inr (map Some ts, s2)" "inv s2 ((Q(l \<mapsto> ts))(l \<mapsto> []))"
    using remheads [OF s1(2), of l ts "[]"] by (auto simp del: fun_upd_apply simp: fun_upd_same)
  have "(Q(l \<mapsto> ts))(l \<mapsto> []) = Q" using assms(2) by auto
  with s1 s2 remhead_empty [of s2 Q l] assms(2) show ?thesis by auto
qed

end

interpretation tlq: queue_heap tl_heap detached threadlist_addtail threadlist_remhead
proof unfold_locales
  fix s :: "'a tlstore" and Q l xs t assume "tl_heap s Q" "Q l = Some xs" "detached s t"
  then show "\<exists>s'. threadlist_addtail l t s = Inr s' \<and> tl_heap s' (Q(l \<mapsto> xs @ [t])) \<and> (\<forall>t'. t' \<noteq> t \<longrightarrow> detached s t' \<longrightarrow> detached s' t')"
    by (rule threadlist_addtail_ok)
next
  fix s :: "'a tlstore" and Q l t ys assume "tl_heap s Q" "Q l = Some (t # ys)"
  then show "\<exists>s'. threadlist_remhead l s = Inr (Some t, s') \<and> tl_heap s' (Q(l \<mapsto> ys)) \<and> detached s' t \<and> (\<forall>t'. detached s t' \<longrightarrow> detached s' t')"
    using threadlist_remhead_ok [of s Q l "t # ys"] by simp
next
  fix s :: "'a tlstore" and Q l assume "tl_heap s Q" "Q l = Some []"
  then show "threadlist_remhead l s = Inr (None, s)" using threadlist_remhead_ok [of s Q l "[]"] by simp
qed

subsection \<open>Iteration\<close>

text \<open>
  \<open>THREADLIST_FORALL\<close>: the threads the loop body sees, in order. The loop follows the links and
  might not end on a broken list, so it is a partial function.
\<close>

partial_function (option) threadlist_forall_loop :: "'l tlstore \<Rightarrow> tid option \<Rightarrow> tid list res option" where
  "threadlist_forall_loop s itervar =
     (case itervar of
        None \<Rightarrow> Some (Inr [])
      | Some t \<Rightarrow>
          (case next_of s (T_listnode t) of
             None \<Rightarrow> Some (Inl NullDeref)
           | Some n \<Rightarrow>
               Option.bind (threadlist_forall_loop s (self_of s n)) (\<lambda>r.
                 Some (rbind r (\<lambda>ts. Inr (t # ts))))))"

definition threadlist_forall :: "'l \<Rightarrow> 'l tlstore \<Rightarrow> tid list res option" where
  "threadlist_forall l s =
     (case next_of s (Tl_head l) of
        None \<Rightarrow> Some (Inl NullDeref)
      | Some n \<Rightarrow> threadlist_forall_loop s (self_of s n))"

lemma self_of_after:
  "tl_rep s l (us @ ys) \<Longrightarrow> self_of s (tl_after l ys) = (if ys = [] then None else Some (hd ys))"
  by (auto simp: tl_rep_def tl_after_def)

lemma threadlist_forall_loop_rep:
  "tl_rep s l (us @ ys) \<Longrightarrow> threadlist_forall_loop s (self_of s (tl_after l ys)) = Some (Inr ys)"
proof (induction ys arbitrary: us)
  case Nil
  then show ?case by (simp add: self_of_after threadlist_forall_loop.simps)
next
  case (Cons y ys)
  have r: "tl_rep s l ((us @ [y]) @ ys)" using Cons.prems by simp
  have "threadlist_forall_loop s (self_of s (tl_after l ys)) = Some (Inr ys)" by (rule Cons.IH [OF r])
  then show ?case
    using Cons.prems tl_rep_member(1) [OF Cons.prems] by (simp add: self_of_after threadlist_forall_loop.simps [of s "Some y"])
qed

subsection \<open>Properties\<close>

text \<open>
  C17: The list operations implement lists. In a store whose lists hold the contents \<open>Q\<close>, with no
  thread on two lists, adding and removing at either end, inserting next to a member and removing
  a member return normally and change the content of the one list as the list operations do, leaving
  all others as they are; a removed thread can be inserted again.
\<close>

theorem threadlist_refines:
  assumes H: "tl_heap s Q" and l: "Q l = Some xs"
  shows "(detached s t \<longrightarrow>
      (\<exists>s'. threadlist_addhead l t s = Inr s' \<and> tl_heap s' (Q(l \<mapsto> t # xs))) \<and>
      (\<exists>s'. threadlist_addtail l t s = Inr s' \<and> tl_heap s' (Q(l \<mapsto> xs @ [t]))) \<and>
      (\<forall>us u vs. xs = us @ u # vs \<longrightarrow>
         (\<exists>s'. threadlist_insertafter l u t s = Inr s' \<and> tl_heap s' (Q(l \<mapsto> us @ u # t # vs))) \<and>
         (\<exists>s'. threadlist_insertbefore l t u s = Inr s' \<and> tl_heap s' (Q(l \<mapsto> us @ t # u # vs))))) \<and>
    (xs = [] \<longrightarrow> threadlist_remhead l s = Inr (None, s) \<and> threadlist_remtail l s = Inr (None, s)) \<and>
    (xs \<noteq> [] \<longrightarrow>
      (\<exists>s'. threadlist_remhead l s = Inr (Some (hd xs), s') \<and> tl_heap s' (Q(l \<mapsto> tl xs)) \<and> detached s' (hd xs)) \<and>
      (\<exists>s'. threadlist_remtail l s = Inr (Some (last xs), s') \<and> tl_heap s' (Q(l \<mapsto> butlast xs)) \<and> detached s' (last xs))) \<and>
    (\<forall>us u vs. xs = us @ u # vs \<longrightarrow>
      (\<exists>s'. threadlist_remove l u s = Inr s' \<and> tl_heap s' (Q(l \<mapsto> us @ vs)) \<and> detached s' u))"
proof (intro conjI impI allI)
  assume t: "detached s t"
  show "\<exists>s'. threadlist_addhead l t s = Inr s' \<and> tl_heap s' (Q(l \<mapsto> t # xs))"
    "\<exists>s'. threadlist_addtail l t s = Inr s' \<and> tl_heap s' (Q(l \<mapsto> xs @ [t]))"
    using threadlist_addhead_ok [OF H l t] threadlist_addtail_ok [OF H l t] by blast+
  fix us u vs assume "xs = us @ u # vs"
  with l have l': "Q l = Some (us @ u # vs)" by simp
  show "\<exists>s'. threadlist_insertafter l u t s = Inr s' \<and> tl_heap s' (Q(l \<mapsto> us @ u # t # vs))"
    by (rule threadlist_insertafter_ok [OF H l' t])
  show "\<exists>s'. threadlist_insertbefore l t u s = Inr s' \<and> tl_heap s' (Q(l \<mapsto> us @ t # u # vs))"
    by (rule threadlist_insertbefore_ok [OF H l' t])
next
  assume "xs = []"
  then show "threadlist_remhead l s = Inr (None, s)" "threadlist_remtail l s = Inr (None, s)"
    using threadlist_remhead_ok [OF H l] threadlist_remtail_ok [OF H l] by simp_all
next
  assume "xs \<noteq> []"
  then show "\<exists>s'. threadlist_remhead l s = Inr (Some (hd xs), s') \<and> tl_heap s' (Q(l \<mapsto> tl xs)) \<and> detached s' (hd xs)"
    "\<exists>s'. threadlist_remtail l s = Inr (Some (last xs), s') \<and> tl_heap s' (Q(l \<mapsto> butlast xs)) \<and> detached s' (last xs)"
    using threadlist_remhead_ok [OF H l] threadlist_remtail_ok [OF H l] by (auto split: list.splits)
next
  fix us u vs assume "xs = us @ u # vs"
  with l threadlist_remove_ok [OF H, of l us u vs]
  show "\<exists>s'. threadlist_remove l u s = Inr s' \<and> tl_heap s' (Q(l \<mapsto> us @ vs)) \<and> detached s' u" by simp
qed

text \<open>A store with an empty list 0 and two threads on no list.\<close>

definition tlstore_ex :: "nat tlstore" where
  "tlstore_ex = threadlist_init 0 (threadlistnode_init 1 (threadlistnode_init 2
     \<lparr>tl_node = \<lambda>_. \<lparr>tln_prev = None, tln_next = None, tln_self = None\<rparr>, tl_count = \<lambda>_. 7\<rparr>))"

lemma tlstore_ex_heap: "tl_heap tlstore_ex [0 \<mapsto> []]" and tlstore_ex_off: "detached tlstore_ex 1" "detached tlstore_ex 2"
proof -
  show "tl_heap tlstore_ex [0 \<mapsto> []]"
    unfolding tlstore_ex_def by (rule threadlist_init_ok(1)) (simp add: tl_heap_def)
  show "detached tlstore_ex 1" "detached tlstore_ex 2"
    by (simp_all add: tlstore_ex_def detached_def threadlist_init_def threadlistnode_init_def Let_def tl_store_defs)
qed

theorem threadlist_refines_witness:
  "\<exists>s1. threadlist_addtail 0 1 tlstore_ex = Inr s1 \<and> (\<exists>s2. threadlist_remtail 0 s1 = Inr (Some 1, s2) \<and> tl_heap s2 [0 \<mapsto> []])"
proof -
  obtain s1 where s1: "threadlist_addtail 0 1 tlstore_ex = Inr s1" "tl_heap s1 ([0 \<mapsto> []](0 \<mapsto> [1]))"
    using threadlist_refines [OF tlstore_ex_heap, of 0 "[]" 1] tlstore_ex_off by auto
  obtain s2 where "threadlist_remtail 0 s1 = Inr (Some 1, s2)" "tl_heap s2 ([0 \<mapsto> []](0 \<mapsto> [1], 0 \<mapsto> []))"
    using threadlist_refines [OF s1(2), of 0 "[1]" 2] by auto
  with s1 show ?thesis by auto
qed

text \<open>
  Threads leave a queue in the order they entered it, and the queue is empty again afterwards.
\<close>

theorem threadlist_fifo:
  assumes "tl_heap s Q" and "Q l = Some []" and "distinct ts" and "\<forall>t\<in>set ts. detached s t"
  shows "\<exists>s1 s2. rfold (threadlist_addtail l) ts s = Inr s1 \<and>
    rtimes (length ts) (threadlist_remhead l) s1 = Inr (map Some ts, s2) \<and>
    tl_heap s2 Q \<and> threadlist_remhead l s2 = Inr (None, s2)"
  by (rule tlq.fifo [OF assms])

theorem threadlist_fifo_witness:
  "\<exists>s1 s2. rfold (threadlist_addtail 0) [2, 1] tlstore_ex = Inr s1 \<and>
    rtimes 2 (threadlist_remhead 0) s1 = Inr ([Some 2, Some 1], s2)"
  using threadlist_fifo [OF tlstore_ex_heap, of 0 "[2, 1]"] tlstore_ex_off
  by (auto simp del: rfold.simps rtimes.simps simp: numeral_eq_Suc)

text \<open>
  C35: Iteration over a list ends and visits its threads once each, in order.
\<close>

theorem threadlist_forall_ends:
  assumes "tl_heap s Q" and "Q l = Some xs"
  shows "threadlist_forall l s = Some (Inr xs)"
proof -
  have r: "tl_rep s l ([] @ xs)" using tl_heap_rep [OF assms] by simp
  have "next_of s (Tl_head l) = Some (tl_after l xs)" using tl_rep_ends(1) [OF r] by (simp add: tl_before_def)
  then show ?thesis using threadlist_forall_loop_rep [OF r] by (simp add: threadlist_forall_def)
qed

theorem threadlist_forall_ends_witness:
  "\<exists>s1. threadlist_addtail 0 2 tlstore_ex = Inr s1 \<and> threadlist_forall 0 s1 = Some (Inr [2])"
proof -
  obtain s1 where s1: "threadlist_addtail 0 2 tlstore_ex = Inr s1" "tl_heap s1 ([0 \<mapsto> []](0 \<mapsto> [2]))"
    using threadlist_addtail_ok [OF tlstore_ex_heap, of 0 "[]" 2] tlstore_ex_off by auto
  with threadlist_forall_ends [OF s1(2), of 0 "[2]"] show ?thesis by auto
qed

end
