(* ===== verification/Spinlock.thy ===== *)
theory Spinlock
  imports Prelude
begin

text \<open>
  The spinlock protocol of \<open>kern/thread/spinlock.c\<close> with its interleavings: any number of CPUs
  run \<open>spinlock_acquire\<close> and \<open>spinlock_release\<close> on one lock, and one step of one CPU is one access
  to the lock. The test-and-set is a single step, as \<open>spinlock_data_testandset\<close> is on the machine.
\<close>

record spinlock =
  splk_lock :: u32
  splk_holder :: "nat option"

definition spinlock_init :: spinlock where
  "spinlock_init = \<lparr>splk_lock = 0, splk_holder = None\<rparr>"

definition spinlock_cleanup :: "spinlock \<Rightarrow> unit res" where
  "spinlock_cleanup splk =
     (if splk_holder splk \<noteq> None then Inl KAssertFail
      else if splk_lock splk \<noteq> 0 then Inl KAssertFail
      else Inr ())"

definition spinlock_do_i_hold :: "spinlock \<Rightarrow> nat \<Rightarrow> bool" where
  "spinlock_do_i_hold splk mycpu \<longleftrightarrow> splk_holder splk = Some mycpu"

text \<open>
  Where a CPU is: outside; about to read the word; about to do the test-and-set; about to write
  \<open>splk_holder\<close>; in the critical section; about to clear the word; stopped by \<open>panic\<close> or \<open>KASSERT\<close>.
\<close>

datatype spin_pc = Out | Test | Testandset | Sethold | Crit | Clear | Dead kfault

record spin_state =
  the_lock :: spinlock
  pc :: "nat \<Rightarrow> spin_pc"

definition spinlock_testandset :: "spinlock \<Rightarrow> u32 \<times> spinlock" where
  "spinlock_testandset l = (splk_lock l, l\<lparr>splk_lock := 1\<rparr>)"

text \<open>One step of CPU \<open>c\<close>; a CPU outside calls \<open>spinlock_acquire\<close>, one inside \<open>spinlock_release\<close>.\<close>

definition spin_step :: "nat \<Rightarrow> spin_state \<Rightarrow> spin_state" where
  "spin_step c s =
     (let l = the_lock s; goto = (\<lambda>p s. s\<lparr>pc := (pc s)(c := p)\<rparr>) in
      case pc s c of
        Out \<Rightarrow> if splk_holder l = Some c then goto (Dead PanicCall) s else goto Test s
      | Test \<Rightarrow> if splk_lock l \<noteq> 0 then s else goto Testandset s
      | Testandset \<Rightarrow>
          (case spinlock_testandset l of (old, l') \<Rightarrow>
             if old \<noteq> 0 then goto Test (s\<lparr>the_lock := l'\<rparr>) else goto Sethold (s\<lparr>the_lock := l'\<rparr>))
      | Sethold \<Rightarrow> goto Crit (s\<lparr>the_lock := l\<lparr>splk_holder := Some c\<rparr>\<rparr>)
      | Crit \<Rightarrow> if splk_holder l \<noteq> Some c then goto (Dead KAssertFail) s
                else goto Clear (s\<lparr>the_lock := l\<lparr>splk_holder := None\<rparr>\<rparr>)
      | Clear \<Rightarrow> goto Out (s\<lparr>the_lock := l\<lparr>splk_lock := 0\<rparr>\<rparr>)
      | Dead e \<Rightarrow> s)"

definition spin_init :: spin_state where
  "spin_init = \<lparr>the_lock = spinlock_init, pc = \<lambda>_. Out\<rparr>"

inductive spin_reach :: "spin_state \<Rightarrow> bool" where
  spin_start: "spin_reach spin_init"
| spin_next: "spin_reach s \<Longrightarrow> spin_reach (spin_step c s)"

text \<open>The CPU that owns the lock word.\<close>

definition owns :: "spin_state \<Rightarrow> nat \<Rightarrow> bool" where
  "owns s c \<longleftrightarrow> pc s c \<in> {Sethold, Crit, Clear}"

definition spin_inv :: "spin_state \<Rightarrow> bool" where
  "spin_inv s \<longleftrightarrow>
     (splk_lock (the_lock s) \<noteq> 0 \<longleftrightarrow> (\<exists>c. owns s c)) \<and>
     (\<forall>c d. owns s c \<longrightarrow> owns s d \<longrightarrow> c = d) \<and>
     (\<forall>c. splk_holder (the_lock s) = Some c \<longleftrightarrow> pc s c = Crit) \<and>
     (\<forall>c e. pc s c \<noteq> Dead e)"

lemma spin_init_inv: "spin_inv spin_init"
  by (simp add: spin_inv_def spin_init_def spinlock_init_def owns_def)

lemma spin_step_inv:
  assumes I: "spin_inv s"
  shows "spin_inv (spin_step c s)"
proof -
  have w: "splk_lock (the_lock s) \<noteq> 0 \<longleftrightarrow> (\<exists>c. owns s c)" and u: "\<And>c d. owns s c \<Longrightarrow> owns s d \<Longrightarrow> c = d"
    and h: "\<And>c. splk_holder (the_lock s) = Some c \<longleftrightarrow> pc s c = Crit" and nd: "\<And>c e. pc s c \<noteq> Dead e"
    using I unfolding spin_inv_def by blast+
  have hn: "splk_holder (the_lock s) = None" if "\<And>d. pc s d \<noteq> Crit" using h that by (metis option.exhaust)
  show ?thesis
  proof (cases "pc s c")
    case Out
    then have "splk_holder (the_lock s) \<noteq> Some c" using h by simp
    then have e: "spin_step c s = s\<lparr>pc := (pc s)(c := Test)\<rparr>" using Out by (simp add: spin_step_def Let_def)
    have own: "owns (s\<lparr>pc := (pc s)(c := Test)\<rparr>) d = owns s d" for d using Out by (simp add: owns_def)
    show ?thesis unfolding e using Out w u h nd by (auto simp: spin_inv_def own split: if_splits)
  next
    case Test
    show ?thesis
    proof (cases "splk_lock (the_lock s) = 0")
      case True
      then have e: "spin_step c s = s\<lparr>pc := (pc s)(c := Testandset)\<rparr>" using Test by (simp add: spin_step_def Let_def)
      have own: "owns (s\<lparr>pc := (pc s)(c := Testandset)\<rparr>) d = owns s d" for d using Test by (simp add: owns_def)
      show ?thesis unfolding e using Test w u h nd by (auto simp: spin_inv_def own split: if_splits)
    next
      case False
      then show ?thesis using Test I by (simp add: spin_step_def Let_def)
    qed
  next
    case Testandset
    show ?thesis
    proof (cases "splk_lock (the_lock s) = 0")
      case True
      then have e: "spin_step c s = s\<lparr>the_lock := (the_lock s)\<lparr>splk_lock := 1\<rparr>, pc := (pc s)(c := Sethold)\<rparr>"
        using Testandset by (simp add: spin_step_def Let_def spinlock_testandset_def)
      from True w have "\<not> owns s d" for d by simp
      then show ?thesis unfolding e using Testandset h nd by (auto simp: spin_inv_def owns_def split: if_splits)
    next
      case False
      then have e: "spin_step c s = s\<lparr>the_lock := (the_lock s)\<lparr>splk_lock := 1\<rparr>, pc := (pc s)(c := Test)\<rparr>"
        using Testandset by (simp add: spin_step_def Let_def spinlock_testandset_def)
      have own: "owns (s\<lparr>the_lock := l, pc := (pc s)(c := Test)\<rparr>) d = owns s d" for l d
        using Testandset by (simp add: owns_def)
      show ?thesis unfolding e using False Testandset w u h nd by (auto simp: spin_inv_def own split: if_splits)
    qed
  next
    case Sethold
    then have e: "spin_step c s = s\<lparr>the_lock := (the_lock s)\<lparr>splk_holder := Some c\<rparr>, pc := (pc s)(c := Crit)\<rparr>"
      by (simp add: spin_step_def Let_def)
    have own: "owns (s\<lparr>the_lock := l, pc := (pc s)(c := Crit)\<rparr>) d = owns s d" for l d
      using Sethold by (simp add: owns_def)
    have "pc s d \<noteq> Crit" for d using Sethold u [of c d] by (auto simp: owns_def)
    then show ?thesis unfolding e using Sethold w u nd by (auto simp: spin_inv_def own split: if_splits)
  next
    case Crit
    then have "splk_holder (the_lock s) = Some c" using h by simp
    then have e: "spin_step c s = s\<lparr>the_lock := (the_lock s)\<lparr>splk_holder := None\<rparr>, pc := (pc s)(c := Clear)\<rparr>"
      using Crit by (simp add: spin_step_def Let_def)
    have own: "owns (s\<lparr>the_lock := l, pc := (pc s)(c := Clear)\<rparr>) d = owns s d" for l d
      using Crit by (simp add: owns_def)
    have nc: "pc s d \<noteq> Crit" if "d \<noteq> c" for d using that Crit u [of c d] by (auto simp: owns_def)
    show ?thesis unfolding e spin_inv_def own using w u nd nc by simp
  next
    case Clear
    then have e: "spin_step c s = s\<lparr>the_lock := (the_lock s)\<lparr>splk_lock := 0\<rparr>, pc := (pc s)(c := Out)\<rparr>"
      by (simp add: spin_step_def Let_def)
    have o: "\<not> owns s d" if "d \<noteq> c" for d using that Clear u [of c d] by (auto simp: owns_def)
    then have "\<not> owns (s\<lparr>the_lock := l, pc := (pc s)(c := Out)\<rparr>) d" for l d by (auto simp: owns_def)
    then show ?thesis unfolding e using Clear h nd by (auto simp: spin_inv_def split: if_splits)
  next
    case (Dead e)
    then show ?thesis using nd by simp
  qed
qed

lemma spin_reach_inv: "spin_reach s \<Longrightarrow> spin_inv s"
  by (induction rule: spin_reach.induct) (simp_all add: spin_init_inv spin_step_inv)

subsection \<open>Properties\<close>

text \<open>
  C19: Mutual exclusion. In every interleaving, at most one CPU is inside the lock, the recorded holder
  is the CPU in the critical section, the lock word is set while some CPU is inside, and neither the
  assertion of \<open>spinlock_release\<close> nor the deadlock check of \<open>spinlock_acquire\<close> fires.
\<close>

theorem spinlock_mutex:
  assumes "spin_reach s"
  shows "(\<forall>c d. pc s c = Crit \<longrightarrow> pc s d \<in> {Sethold, Crit, Clear} \<longrightarrow> c = d) \<and>
    (\<forall>c. splk_holder (the_lock s) = Some c \<longleftrightarrow> pc s c = Crit) \<and>
    (\<forall>c. pc s c = Crit \<longrightarrow> splk_lock (the_lock s) \<noteq> 0) \<and> (\<forall>c e. pc s c \<noteq> Dead e)"
  using spin_reach_inv [OF assms] unfolding spin_inv_def owns_def by auto

theorem spinlock_mutex_witness:
  "splk_holder (the_lock (spin_step 3 (spin_step 3 (spin_step 3 (spin_step 3 spin_init))))) = Some 3"
proof -
  let ?s = "spin_step 3 (spin_step 3 (spin_step 3 (spin_step 3 spin_init)))"
  have "spin_reach ?s" by (intro spin_next spin_start)
  moreover have "pc ?s 3 = Crit"
    by (simp add: spin_step_def spin_init_def spinlock_init_def spinlock_testandset_def Let_def)
  ultimately show ?thesis using spinlock_mutex [of ?s] by blast
qed

end
