(* ===== verification/Thread.thy ===== *)
theory Thread
  imports Threadlist Spinlock
begin

text \<open>
  The thread system of \<open>kern/thread/thread.c\<close> with the spinlocks and interrupt levels it uses
  (\<open>spinlock.c\<close>, \<open>spl.c\<close>) and the thread counts of \<open>kern/proc/proc.c\<close>. An operation is a function
  of the CPU that runs it and of the state, and runs to its end before another CPU moves: a lock
  another CPU holds when it is acquired would never be released, the fault \<open>Spins\<close>.
  Pointers to threads, CPUs, wait channels and processes are numbers; \<open>wc_name\<close> is defined on the wait
  channels that exist. \<open>CURCPU_EXISTS\<close> is true once
  \<open>cpu_create\<close> has made the boot CPU.

  A thread that is not running has a context: a new thread starts in \<open>thread_startup\<close>, one that was
  switched out resumes inside \<open>thread_switch\<close> with the interrupt level it saved in \<open>spl\<close>.
  The registers in the switch frame, \<open>t_machdep\<close> and the address space that \<open>as_activate\<close> loads into
  the MMU have no part in the list and state handling and are left out.
\<close>

subsection \<open>State\<close>

datatype listid = Runqueue nat | Zombies nat | Wchan nat | Stacklist

datatype lockid = Runqueue_lock nat | Ipi_lock nat | P_lock nat | Wc_lock nat

datatype threadstate = S_RUN | S_READY | S_SLEEP | S_ZOMBIE

datatype tcontext = Startup | Switched int

record thread =
  t_wchan_name :: "string option"
  t_state :: threadstate
  t_stack :: "u32 list option"
  t_context :: tcontext
  t_cpu :: "nat option"
  t_proc :: "nat option"
  t_in_interrupt :: bool
  t_curspl :: int
  t_iplhigh_count :: int

record cpu =
  c_curthread :: "tid option"
  c_hardclocks :: u32
  c_spinlocks :: u32
  c_isidle :: bool
  c_ipi_pending :: u32
  c_shootdown :: "int list"
  c_irq :: bool

record ksys =
  threads :: "tid \<rightharpoonup> thread"
  cpus :: "nat \<Rightarrow> cpu"
  numcpus :: nat
  tlists :: "listid tlstore"
  spinlocks :: "lockid \<Rightarrow> spinlock"
  p_numthreads :: "nat \<Rightarrow> u32"
  wc_name :: "nat \<rightharpoonup> string"

definition upd_thread :: "tid \<Rightarrow> (thread \<Rightarrow> thread) \<Rightarrow> ksys \<Rightarrow> ksys res" where
  "upd_thread t f st =
     (case threads st t of
        None \<Rightarrow> Inl UseAfterFree
      | Some th \<Rightarrow> Inr (st\<lparr>threads := (threads st)(t \<mapsto> f th)\<rparr>))"

definition get_thread :: "tid option \<Rightarrow> ksys \<Rightarrow> thread res" where
  "get_thread p st =
     (case p of
        None \<Rightarrow> Inl NullDeref
      | Some t \<Rightarrow> (case threads st t of None \<Rightarrow> Inl UseAfterFree | Some th \<Rightarrow> Inr th))"

definition upd_cpu :: "nat \<Rightarrow> (cpu \<Rightarrow> cpu) \<Rightarrow> ksys \<Rightarrow> ksys" where
  "upd_cpu c f st = st\<lparr>cpus := (cpus st)(c := f (cpus st c))\<rparr>"

definition curthread :: "nat \<Rightarrow> ksys \<Rightarrow> tid option" where
  "curthread c st = c_curthread (cpus st c)"

text \<open>A list operation inside the state.\<close>

definition on_lists :: "(listid tlstore \<Rightarrow> listid tlstore res) \<Rightarrow> ksys \<Rightarrow> ksys res" where
  "on_lists f st = rbind (f (tlists st)) (\<lambda>tls. Inr (st\<lparr>tlists := tls\<rparr>))"

subsection \<open>Interrupt levels\<close>

definition IPL_NONE :: int where "IPL_NONE = 0"
definition IPL_HIGH :: int where "IPL_HIGH = 1"

definition splraise :: "nat \<Rightarrow> int \<Rightarrow> int \<Rightarrow> ksys \<Rightarrow> ksys res" where
  "splraise c oldspl newspl st =
     (if oldspl \<noteq> IPL_NONE then Inl KAssertFail
      else if newspl \<noteq> IPL_HIGH then Inl KAssertFail
      else rbind (get_thread (curthread c st) st) (\<lambda>cur.
        let st1 = (if t_iplhigh_count cur = 0 then upd_cpu c (\<lambda>cp. cp\<lparr>c_irq := False\<rparr>) st else st) in
        upd_thread (the (curthread c st)) (\<lambda>th. th\<lparr>t_iplhigh_count := t_iplhigh_count th + 1\<rparr>) st1))"

definition spllower :: "nat \<Rightarrow> int \<Rightarrow> int \<Rightarrow> ksys \<Rightarrow> ksys res" where
  "spllower c oldspl newspl st =
     (if oldspl \<noteq> IPL_HIGH then Inl KAssertFail
      else if newspl \<noteq> IPL_NONE then Inl KAssertFail
      else rbind (get_thread (curthread c st) st) (\<lambda>cur.
        rbind (upd_thread (the (curthread c st)) (\<lambda>th. th\<lparr>t_iplhigh_count := t_iplhigh_count th - 1\<rparr>) st) (\<lambda>st1.
          Inr (if t_iplhigh_count cur - 1 = 0 then upd_cpu c (\<lambda>cp. cp\<lparr>c_irq := True\<rparr>) st1 else st1))))"

definition splx :: "nat \<Rightarrow> int \<Rightarrow> ksys \<Rightarrow> (int \<times> ksys) res" where
  "splx c spl st =
     rbind (get_thread (curthread c st) st) (\<lambda>cur.
       let t = the (curthread c st) in
       if t_curspl cur < spl then
         rbind (splraise c (t_curspl cur) spl st) (\<lambda>st1.
         rbind (upd_thread t (\<lambda>th. th\<lparr>t_curspl := spl\<rparr>) st1) (\<lambda>st2. Inr (t_curspl cur, st2)))
       else if spl < t_curspl cur then
         rbind (upd_thread t (\<lambda>th. th\<lparr>t_curspl := spl\<rparr>) st) (\<lambda>st1.
         rbind (spllower c (t_curspl cur) spl st1) (\<lambda>st2. Inr (t_curspl cur, st2)))
       else Inr (spl, st))"

definition spl0 :: "nat \<Rightarrow> ksys \<Rightarrow> (int \<times> ksys) res" where
  "spl0 c st = splx c IPL_NONE st"

definition splhigh :: "nat \<Rightarrow> ksys \<Rightarrow> (int \<times> ksys) res" where
  "splhigh c st = splx c IPL_HIGH st"

subsection \<open>Spinlocks\<close>

definition spinlock_acquire :: "nat \<Rightarrow> lockid \<Rightarrow> ksys \<Rightarrow> ksys res" where
  "spinlock_acquire c lk st =
     rbind (splraise c IPL_NONE IPL_HIGH st) (\<lambda>st1.
       if splk_holder (spinlocks st1 lk) = Some c then Inl PanicCall
       else
         let st2 = upd_cpu c (\<lambda>cp. cp\<lparr>c_spinlocks := c_spinlocks cp + 1\<rparr>) st1 in
         if splk_lock (spinlocks st2 lk) \<noteq> 0 then Inl Spins
         else Inr (st2\<lparr>spinlocks := (spinlocks st2)(lk := \<lparr>splk_lock = 1, splk_holder = Some c\<rparr>)\<rparr>))"

definition spinlock_release :: "nat \<Rightarrow> lockid \<Rightarrow> ksys \<Rightarrow> ksys res" where
  "spinlock_release c lk st =
     (if splk_holder (spinlocks st lk) \<noteq> Some c then Inl KAssertFail
      else if c_spinlocks (cpus st c) = 0 then Inl KAssertFail
      else
        let st1 = upd_cpu c (\<lambda>cp. cp\<lparr>c_spinlocks := c_spinlocks cp - 1\<rparr>) st;
            st2 = st1\<lparr>spinlocks := (spinlocks st1)(lk := \<lparr>splk_lock = 0, splk_holder = None\<rparr>)\<rparr> in
        spllower c IPL_HIGH IPL_NONE st2)"

subsection \<open>Interprocessor interrupts\<close>

definition IPI_PANIC :: nat where "IPI_PANIC = 0"
definition IPI_OFFLINE :: nat where "IPI_OFFLINE = 1"
definition IPI_UNIDLE :: nat where "IPI_UNIDLE = 2"
definition IPI_TLBSHOOTDOWN :: nat where "IPI_TLBSHOOTDOWN = 3"
definition TLBSHOOTDOWN_MAX :: nat where "TLBSHOOTDOWN_MAX = 16"

definition ipi_post :: "nat \<Rightarrow> nat \<Rightarrow> ksys \<Rightarrow> ksys" where
  "ipi_post target code =
     upd_cpu target (\<lambda>cp. cp\<lparr>c_ipi_pending := c_ipi_pending cp OR push_bit code 1\<rparr>)"

definition ipi_send :: "nat \<Rightarrow> nat \<Rightarrow> nat \<Rightarrow> ksys \<Rightarrow> ksys res" where
  "ipi_send c target code st =
     (if \<not> code < 32 then Inl KAssertFail
      else rbind (spinlock_acquire c (Ipi_lock target) st) (\<lambda>st1.
        spinlock_release c (Ipi_lock target) (ipi_post target code st1)))"

definition ipi_broadcast :: "nat \<Rightarrow> nat \<Rightarrow> ksys \<Rightarrow> ksys res" where
  "ipi_broadcast c code st =
     rfold (\<lambda>i st. if i \<noteq> c then ipi_send c i code st else Inr st) [0..<numcpus st] st"

definition ipi_tlbshootdown :: "nat \<Rightarrow> nat \<Rightarrow> int \<Rightarrow> ksys \<Rightarrow> ksys res" where
  "ipi_tlbshootdown c target mapping st =
     rbind (spinlock_acquire c (Ipi_lock target) st) (\<lambda>st1.
       if length (c_shootdown (cpus st1 target)) = TLBSHOOTDOWN_MAX then Inl PanicCall
       else spinlock_release c (Ipi_lock target)
         (ipi_post target IPI_TLBSHOOTDOWN
            (upd_cpu target (\<lambda>cp. cp\<lparr>c_shootdown := c_shootdown cp @ [mapping]\<rparr>) st1)))"

text \<open>
  The handler either halts the CPU for good (the interrupt asked for it) or goes on. Every
  \<open>vm_tlbshootdown\<close> request is handed to the VM system, which does nothing for it.
\<close>

datatype ipi_result = Halted ksys | Continued ksys

definition interprocessor_interrupt :: "nat \<Rightarrow> ksys \<Rightarrow> ipi_result res" where
  "interprocessor_interrupt c st =
     rbind (spinlock_acquire c (Ipi_lock c) st) (\<lambda>st1.
       let bits = c_ipi_pending (cpus st1 c) in
       if bit bits IPI_PANIC then
         rbind (spinlock_release c (Ipi_lock c) st1) (\<lambda>st2. Inr (Halted st2))
       else if bit bits IPI_OFFLINE then
         rbind (spinlock_release c (Ipi_lock c) st1) (\<lambda>st2.
         rbind (spinlock_acquire c (Runqueue_lock c) st2) (\<lambda>st3.
         rbind (spinlock_release c (Runqueue_lock c) st3) (\<lambda>st4. Inr (Halted st4))))
       else
         let st2 = (if bit bits IPI_TLBSHOOTDOWN then upd_cpu c (\<lambda>cp. cp\<lparr>c_shootdown := []\<rparr>) st1 else st1);
             st3 = upd_cpu c (\<lambda>cp. cp\<lparr>c_ipi_pending := 0\<rparr>) st2 in
         rbind (spinlock_release c (Ipi_lock c) st3) (\<lambda>st4. Inr (Continued st4)))"

subsection \<open>Processes\<close>

definition proc_addthread :: "nat \<Rightarrow> nat \<Rightarrow> tid \<Rightarrow> ksys \<Rightarrow> (int \<times> ksys) res" where
  "proc_addthread c p t st =
     rbind (get_thread (Some t) st) (\<lambda>th.
       if t_proc th \<noteq> None then Inl KAssertFail
       else
         rbind (spinlock_acquire c (P_lock p) st) (\<lambda>st1.
         let st2 = st1\<lparr>p_numthreads := (p_numthreads st1)(p := p_numthreads st1 p + 1)\<rparr> in
         rbind (spinlock_release c (P_lock p) st2) (\<lambda>st3.
         rbind (splhigh c st3) (\<lambda>(spl, st4).
         rbind (upd_thread t (\<lambda>th. th\<lparr>t_proc := Some p\<rparr>) st4) (\<lambda>st5.
         rbind (splx c spl st5) (\<lambda>(r, st6). Inr (0, st6)))))))"

definition proc_remthread :: "nat \<Rightarrow> tid \<Rightarrow> ksys \<Rightarrow> ksys res" where
  "proc_remthread c t st =
     rbind (get_thread (Some t) st) (\<lambda>th.
       case t_proc th of
         None \<Rightarrow> Inl KAssertFail
       | Some p \<Rightarrow>
           rbind (spinlock_acquire c (P_lock p) st) (\<lambda>st1.
           if p_numthreads st1 p = 0 then Inl KAssertFail
           else
             let st2 = st1\<lparr>p_numthreads := (p_numthreads st1)(p := p_numthreads st1 p - 1)\<rparr> in
             rbind (spinlock_release c (P_lock p) st2) (\<lambda>st3.
             rbind (splhigh c st3) (\<lambda>(spl, st4).
             rbind (upd_thread t (\<lambda>th. th\<lparr>t_proc := None\<rparr>) st4) (\<lambda>st5.
             rbind (splx c spl st5) (\<lambda>(r, st6). Inr st6))))))"

subsection \<open>Creating and destroying threads\<close>

definition THREAD_STACK_MAGIC :: u32 where "THREAD_STACK_MAGIC = 0xbaadf00d"

definition thread_checkstack_init :: "thread \<Rightarrow> thread" where
  "thread_checkstack_init th = th\<lparr>t_stack := Some (replicate 4 THREAD_STACK_MAGIC)\<rparr>"

definition thread_checkstack :: "thread \<Rightarrow> unit res" where
  "thread_checkstack th =
     (case t_stack th of
        None \<Rightarrow> Inr ()
      | Some ws \<Rightarrow> if ws = replicate 4 THREAD_STACK_MAGIC then Inr () else Inl KAssertFail)"

definition new_thread :: thread where
  "new_thread = \<lparr>t_wchan_name = Some ''NEW'', t_state = S_READY, t_stack = None, t_context = Startup,
     t_cpu = None, t_proc = None, t_in_interrupt = False, t_curspl = IPL_HIGH, t_iplhigh_count = 1\<rparr>"

text \<open>The outcomes of \<open>kmalloc\<close> and \<open>kstrdup\<close> are arguments.\<close>

definition thread_create :: "tid option \<Rightarrow> bool \<Rightarrow> ksys \<Rightarrow> tid option \<times> ksys" where
  "thread_create alloc strdup st =
     (case alloc of
        None \<Rightarrow> (None, st)
      | Some t \<Rightarrow>
          if \<not> strdup then (None, st)
          else (Some t, st\<lparr>threads := (threads st)(t \<mapsto> new_thread), tlists := threadlistnode_init t (tlists st)\<rparr>))"

definition thread_destroy :: "nat \<Rightarrow> tid \<Rightarrow> ksys \<Rightarrow> ksys res" where
  "thread_destroy c t st =
     (if curthread c st = Some t then Inl KAssertFail
      else rbind (get_thread (Some t) st) (\<lambda>th.
        if t_state th = S_RUN then Inl KAssertFail
        else if t_proc th \<noteq> None then Inl KAssertFail
        else rbind (threadlistnode_cleanup t (tlists st)) (\<lambda>_.
          Inr (st\<lparr>threads := (threads st)(t := None)\<rparr>))))"

text \<open>The loop over the zombie list; \<open>None\<close> would be a loop that does not end.\<close>

partial_function (option) exorcise :: "nat \<Rightarrow> ksys \<Rightarrow> ksys res option" where
  "exorcise c st =
     (case threadlist_remhead (Zombies c) (tlists st) of
        Inl e \<Rightarrow> Some (Inl e)
      | Inr (z, tls) \<Rightarrow>
          (let st1 = st\<lparr>tlists := tls\<rparr> in
           case z of
             None \<Rightarrow> Some (Inr st1)
           | Some z \<Rightarrow>
               if curthread c st1 = Some z then Some (Inl KAssertFail)
               else
                 (case rbind (get_thread (Some z) st1) (\<lambda>th.
                         if t_state th \<noteq> S_ZOMBIE then Inl KAssertFail else thread_destroy c z st1) of
                    Inl e \<Rightarrow> Some (Inl e)
                  | Inr st2 \<Rightarrow> exorcise c st2)))"

definition thread_make_runnable :: "nat \<Rightarrow> tid \<Rightarrow> bool \<Rightarrow> ksys \<Rightarrow> ksys res" where
  "thread_make_runnable c target already_have_lock st =
     rbind (get_thread (Some target) st) (\<lambda>th.
     rbind (deref (t_cpu th)) (\<lambda>tc.
     rbind (if already_have_lock
            then if spinlock_do_i_hold (spinlocks st (Runqueue_lock tc)) c then Inr st else Inl KAssertFail
            else spinlock_acquire c (Runqueue_lock tc) st) (\<lambda>st1.
     rbind (upd_thread target (\<lambda>th. th\<lparr>t_state := S_READY\<rparr>) st1) (\<lambda>st2.
     rbind (on_lists (threadlist_addtail (Runqueue tc) target) st2) (\<lambda>st3.
     rbind (if c_isidle (cpus st3 tc) \<and> tc \<noteq> c then ipi_send c tc IPI_UNIDLE st3 else Inr st3) (\<lambda>st4.
     if already_have_lock then Inr st4 else spinlock_release c (Runqueue_lock tc) st4))))))"

definition thread_fork ::
  "nat \<Rightarrow> tid option \<Rightarrow> bool \<Rightarrow> bool \<Rightarrow> nat option \<Rightarrow> ksys \<Rightarrow> (int \<times> ksys) res" where
  "thread_fork c alloc strdup stack proc st =
     (case thread_create alloc strdup st of
        (None, st1) \<Rightarrow> Inr (ENOMEM, st1)
      | (Some t, st1) \<Rightarrow>
          if \<not> stack then rbind (thread_destroy c t st1) (\<lambda>st2. Inr (ENOMEM, st2))
          else
            rbind (upd_thread t thread_checkstack_init st1) (\<lambda>st2.
            rbind (get_thread (curthread c st2) st2) (\<lambda>cur.
            rbind (upd_thread t (\<lambda>th. th\<lparr>t_cpu := t_cpu cur\<rparr>) st2) (\<lambda>st3.
            rbind (deref (if proc = None then t_proc cur else proc)) (\<lambda>p.
            rbind (proc_addthread c p t st3) (\<lambda>(result, st4).
            if result \<noteq> 0 then rbind (thread_destroy c t st4) (\<lambda>st5. Inr (result, st5))
            else
              rbind (upd_thread t (\<lambda>th. th\<lparr>t_iplhigh_count := t_iplhigh_count th + 1\<rparr>) st4) (\<lambda>st5.
              rbind (upd_thread t (\<lambda>th. th\<lparr>t_context := Startup\<rparr>) st5) (\<lambda>st6.
              rbind (thread_make_runnable c t False st6) (\<lambda>st7. Inr (0, st7))))))))))"

subsection \<open>Switching\<close>

text \<open>
  \<open>thread_switch\<close> in three parts. The first queues the current thread and marks the CPU idle; its
  result is false when the function returned early. The second is one round of the loop that looks
  for the next thread; when there is none the CPU stays idle until another round. The third runs in
  the context of the next thread: the tail of \<open>thread_switch\<close> or the head of \<open>thread_startup\<close>.
\<close>

definition thread_queue_cur :: "nat \<Rightarrow> threadstate \<Rightarrow> nat option \<Rightarrow> lockid option \<Rightarrow> tid \<Rightarrow> ksys \<Rightarrow> ksys res" where
  "thread_queue_cur c newstate wc lk cur st =
     (case newstate of
        S_RUN \<Rightarrow> Inl PanicCall
      | S_READY \<Rightarrow> thread_make_runnable c cur True st
      | S_SLEEP \<Rightarrow>
          rbind (deref wc) (\<lambda>w.
          if wc_name st w = None then Inl UseAfterFree else
          rbind (upd_thread cur (\<lambda>th. th\<lparr>t_wchan_name := wc_name st w\<rparr>) st) (\<lambda>st1.
          rbind (on_lists (threadlist_addtail (Wchan w) cur) st1) (\<lambda>st2.
          rbind (deref lk) (\<lambda>l. spinlock_release c l st2))))
      | S_ZOMBIE \<Rightarrow>
          rbind (upd_thread cur (\<lambda>th. th\<lparr>t_wchan_name := Some ''ZOMBIE''\<rparr>) st) (\<lambda>st1.
          on_lists (threadlist_addtail (Zombies c) cur) st1))"

definition thread_switch_out ::
  "nat \<Rightarrow> threadstate \<Rightarrow> nat option \<Rightarrow> lockid option \<Rightarrow> ksys \<Rightarrow> (bool \<times> ksys) res" where
  "thread_switch_out c newstate wc lk st =
     rbind (splhigh c st) (\<lambda>(spl, st1).
     if c_isidle (cpus st1 c) then rbind (splx c spl st1) (\<lambda>(r, st2). Inr (False, st2))
     else
       rbind (get_thread (curthread c st1) st1) (\<lambda>th.
       rbind (thread_checkstack th) (\<lambda>_.
       rbind (spinlock_acquire c (Runqueue_lock c) st1) (\<lambda>st2.
       if newstate = S_READY \<and> threadlist_isempty (Runqueue c) (tlists st2) then
         rbind (spinlock_release c (Runqueue_lock c) st2) (\<lambda>st3.
         rbind (splx c spl st3) (\<lambda>(r, st4). Inr (False, st4)))
       else
         let cur = the (curthread c st2) in
         rbind (thread_queue_cur c newstate wc lk cur st2) (\<lambda>st3.
         rbind (upd_thread cur (\<lambda>th. th\<lparr>t_state := newstate, t_context := Switched spl\<rparr>) st3) (\<lambda>st4.
         Inr (True, upd_cpu c (\<lambda>cp. cp\<lparr>c_isidle := True\<rparr>) st4)))))))"

definition thread_switch_in :: "nat \<Rightarrow> tid \<Rightarrow> ksys \<Rightarrow> ksys res option" where
  "thread_switch_in c next st =
     (let st1 = upd_cpu c (\<lambda>cp. cp\<lparr>c_isidle := False, c_curthread := Some next\<rparr>) st in
      case rbind (get_thread (Some next) st1) (\<lambda>th.
           rbind (upd_thread next (\<lambda>th. th\<lparr>t_wchan_name := None, t_state := S_RUN\<rparr>) st1) (\<lambda>st2.
           rbind (spinlock_release c (Runqueue_lock c) st2) (\<lambda>st3. Inr (t_context th, st3)))) of
        Inl e \<Rightarrow> Some (Inl e)
      | Inr (ctx, st3) \<Rightarrow>
          Option.bind (exorcise c st3) (\<lambda>r. Some (rbind r (\<lambda>st4.
            rbind (case ctx of Startup \<Rightarrow> spl0 c st4 | Switched spl \<Rightarrow> splx c spl st4) (\<lambda>(r, st5). Inr st5)))))"

text \<open>The run queue lock is held at the start of a round, and again at its end when the CPU stays idle.\<close>

definition thread_switch_round :: "nat \<Rightarrow> ksys \<Rightarrow> ksys res option" where
  "thread_switch_round c st =
     (case threadlist_remhead (Runqueue c) (tlists st) of
        Inl e \<Rightarrow> Some (Inl e)
      | Inr (None, tls) \<Rightarrow> Some (spinlock_release c (Runqueue_lock c) (st\<lparr>tlists := tls\<rparr>))
      | Inr (Some next, tls) \<Rightarrow> thread_switch_in c next (st\<lparr>tlists := tls\<rparr>))"

text \<open>Waking up from \<open>cpu_idle\<close>: the lock is taken again and the loop goes round.\<close>

definition cpu_unidle :: "nat \<Rightarrow> ksys \<Rightarrow> ksys res option" where
  "cpu_unidle c st =
     (case spinlock_acquire c (Runqueue_lock c) st of
        Inl e \<Rightarrow> Some (Inl e)
      | Inr st1 \<Rightarrow> thread_switch_round c st1)"

definition thread_switch ::
  "nat \<Rightarrow> threadstate \<Rightarrow> nat option \<Rightarrow> lockid option \<Rightarrow> ksys \<Rightarrow> ksys res option" where
  "thread_switch c newstate wc lk st =
     (case thread_switch_out c newstate wc lk st of
        Inl e \<Rightarrow> Some (Inl e)
      | Inr (False, st1) \<Rightarrow> Some (Inr st1)
      | Inr (True, st1) \<Rightarrow> thread_switch_round c st1)"

definition thread_yield :: "nat \<Rightarrow> ksys \<Rightarrow> ksys res option" where
  "thread_yield c st = thread_switch c S_READY None None st"

text \<open>
  \<open>thread_exit\<close> does not come back: \<open>thread_switch\<close> continues in another thread. If it did return,
  early, \<open>panic\<close> would be called.
\<close>

definition thread_exit :: "nat \<Rightarrow> ksys \<Rightarrow> ksys res option" where
  "thread_exit c st =
     (case rbind (deref (curthread c st)) (\<lambda>cur.
           rbind (proc_remthread c cur st) (\<lambda>st1.
           rbind (get_thread (Some cur) st1) (\<lambda>th.
           if t_proc th \<noteq> None then Inl KAssertFail
           else rbind (thread_checkstack th) (\<lambda>_. rbind (splhigh c st1) (\<lambda>(spl, st2). Inr st2))))) of
        Inl e \<Rightarrow> Some (Inl e)
      | Inr st2 \<Rightarrow>
          (case thread_switch_out c S_ZOMBIE None None st2 of
             Inl e \<Rightarrow> Some (Inl e)
           | Inr (False, st3) \<Rightarrow> Some (Inl PanicCall)
           | Inr (True, st3) \<Rightarrow> thread_switch_round c st3))"

subsection \<open>Wait channels\<close>

definition wchan_create :: "nat option \<Rightarrow> string \<Rightarrow> ksys \<Rightarrow> nat option \<times> ksys" where
  "wchan_create alloc name st =
     (case alloc of
        None \<Rightarrow> (None, st)
      | Some w \<Rightarrow> (Some w, st\<lparr>tlists := threadlist_init (Wchan w) (tlists st), wc_name := (wc_name st)(w \<mapsto> name)\<rparr>))"

definition wchan_destroy :: "nat \<Rightarrow> ksys \<Rightarrow> ksys res" where
  "wchan_destroy w st =
     rbind (threadlist_cleanup (Wchan w) (tlists st)) (\<lambda>_. Inr (st\<lparr>wc_name := (wc_name st)(w := None)\<rparr>))"

text \<open>
  Going to sleep. The \<open>spinlock_acquire\<close> that follows \<open>thread_switch\<close> is the first thing the thread
  does once it has been resumed: \<open>wchan_resume\<close>.
\<close>

definition wchan_sleep :: "nat \<Rightarrow> nat \<Rightarrow> lockid \<Rightarrow> ksys \<Rightarrow> ksys res option" where
  "wchan_sleep c w lk st =
     (case get_thread (curthread c st) st of
        Inl e \<Rightarrow> Some (Inl e)
      | Inr cur \<Rightarrow>
          if t_in_interrupt cur then Some (Inl KAssertFail)
          else if \<not> spinlock_do_i_hold (spinlocks st lk) c then Some (Inl KAssertFail)
          else if c_spinlocks (cpus st c) \<noteq> 1 then Some (Inl KAssertFail)
          else thread_switch c S_SLEEP (Some w) (Some lk) st)"

definition wchan_resume :: "nat \<Rightarrow> lockid \<Rightarrow> ksys \<Rightarrow> ksys res" where
  "wchan_resume c lk st = spinlock_acquire c lk st"

definition wchan_wakeone :: "nat \<Rightarrow> nat \<Rightarrow> lockid \<Rightarrow> ksys \<Rightarrow> ksys res" where
  "wchan_wakeone c w lk st =
     (if \<not> spinlock_do_i_hold (spinlocks st lk) c then Inl KAssertFail
      else rbind (threadlist_remhead (Wchan w) (tlists st)) (\<lambda>(target, tls).
        let st1 = st\<lparr>tlists := tls\<rparr> in
        case target of None \<Rightarrow> Inr st1 | Some t \<Rightarrow> thread_make_runnable c t False st1))"

partial_function (option) wakeall_move :: "nat \<Rightarrow> ksys \<Rightarrow> ksys res option" where
  "wakeall_move w st =
     (case rbind (threadlist_remhead (Wchan w) (tlists st)) (\<lambda>(target, tls).
             let st1 = st\<lparr>tlists := tls\<rparr> in
             case target of
               None \<Rightarrow> Inr (False, st1)
             | Some t \<Rightarrow> rbind (on_lists (threadlist_addtail Stacklist t) st1) (\<lambda>st2. Inr (True, st2))) of
        Inl e \<Rightarrow> Some (Inl e)
      | Inr (again, st2) \<Rightarrow> if again then wakeall_move w st2 else Some (Inr st2))"

partial_function (option) wakeall_run :: "nat \<Rightarrow> ksys \<Rightarrow> ksys res option" where
  "wakeall_run c st =
     (case rbind (threadlist_remhead Stacklist (tlists st)) (\<lambda>(target, tls).
             let st1 = st\<lparr>tlists := tls\<rparr> in
             case target of
               None \<Rightarrow> Inr (False, st1)
             | Some t \<Rightarrow> rbind (thread_make_runnable c t False st1) (\<lambda>st2. Inr (True, st2))) of
        Inl e \<Rightarrow> Some (Inl e)
      | Inr (again, st2) \<Rightarrow> if again then wakeall_run c st2 else Some (Inr st2))"

definition wchan_wakeall :: "nat \<Rightarrow> nat \<Rightarrow> lockid \<Rightarrow> ksys \<Rightarrow> ksys res option" where
  "wchan_wakeall c w lk st =
     (if \<not> spinlock_do_i_hold (spinlocks st lk) c then Some (Inl KAssertFail)
      else
        Option.bind (wakeall_move w (st\<lparr>tlists := threadlist_init Stacklist (tlists st)\<rparr>)) (\<lambda>r.
        case r of
          Inl e \<Rightarrow> Some (Inl e)
        | Inr st1 \<Rightarrow>
            Option.bind (wakeall_run c st1) (\<lambda>r. Some (rbind r (\<lambda>st2.
              rbind (threadlist_cleanup Stacklist (tlists st2)) (\<lambda>_. Inr st2))))))"

definition wchan_isempty :: "nat \<Rightarrow> nat \<Rightarrow> lockid \<Rightarrow> ksys \<Rightarrow> bool res" where
  "wchan_isempty c w lk st =
     (if \<not> spinlock_do_i_hold (spinlocks st lk) c then Inl KAssertFail
      else Inr (threadlist_isempty (Wchan w) (tlists st)))"

subsection \<open>Migration\<close>

definition runqueue_count :: "nat \<Rightarrow> nat \<Rightarrow> ksys \<Rightarrow> (u32 \<times> ksys) res" where
  "runqueue_count c i st =
     rbind (spinlock_acquire c (Runqueue_lock i) st) (\<lambda>st1.
     rbind (spinlock_release c (Runqueue_lock i) st1) (\<lambda>st2. Inr (tl_count (tlists st1) (Runqueue i), st2)))"

fun count_threads :: "nat \<Rightarrow> nat list \<Rightarrow> u32 \<Rightarrow> u32 \<Rightarrow> ksys \<Rightarrow> ((u32 \<times> u32) \<times> ksys) res" where
  "count_threads c [] total_count my_count st = Inr ((total_count, my_count), st)"
| "count_threads c (i # is) total_count my_count st =
     rbind (runqueue_count c i st) (\<lambda>(n, st1).
       count_threads c is (total_count + n) (if i = c then n else my_count) st1)"

definition take_victim :: "nat \<Rightarrow> ksys \<Rightarrow> ksys res" where
  "take_victim c st =
     rbind (threadlist_remtail (Runqueue c) (tlists st)) (\<lambda>(t, tls).
     rbind (deref t) (\<lambda>t. on_lists (threadlist_addhead Stacklist t) (st\<lparr>tlists := tls\<rparr>)))"

text \<open>The inner loop for CPU \<open>i\<close>: every round gives away one of the \<open>to_send\<close> threads.\<close>

fun send_victims :: "nat \<Rightarrow> nat \<Rightarrow> u32 \<Rightarrow> nat \<Rightarrow> ksys \<Rightarrow> (nat \<times> ksys) res" where
  "send_victims c i one_share 0 st = Inr (0, st)"
| "send_victims c i one_share (Suc to_send) st =
     (if \<not> tl_count (tlists st) (Runqueue i) < one_share then Inr (Suc to_send, st)
      else rbind (threadlist_remhead Stacklist (tlists st)) (\<lambda>(t, tls).
        let st1 = st\<lparr>tlists := tls\<rparr> in
        if t = curthread c st1 then
          rbind (deref t) (\<lambda>t. rbind (on_lists (threadlist_addtail Stacklist t) st1) (\<lambda>st2.
            send_victims c i one_share to_send st2))
        else
          rbind (deref t) (\<lambda>t.
          rbind (upd_thread t (\<lambda>th. th\<lparr>t_cpu := Some i\<rparr>) st1) (\<lambda>st2.
          rbind (on_lists (threadlist_addtail (Runqueue i) t) st2) (\<lambda>st3.
          rbind (if c_isidle (cpus st3 i) then ipi_send c i IPI_UNIDLE st3 else Inr st3) (\<lambda>st4.
            send_victims c i one_share to_send st4))))))"

fun migrate_loop :: "nat \<Rightarrow> u32 \<Rightarrow> nat list \<Rightarrow> nat \<Rightarrow> ksys \<Rightarrow> ksys res" where
  "migrate_loop c one_share [] to_send st = Inr st"
| "migrate_loop c one_share (i # is) to_send st =
     (if to_send = 0 then Inr st
      else if i = c then migrate_loop c one_share is to_send st
      else
        rbind (spinlock_acquire c (Runqueue_lock i) st) (\<lambda>st1.
        rbind (send_victims c i one_share to_send st1) (\<lambda>(to_send', st2).
        rbind (spinlock_release c (Runqueue_lock i) st2) (\<lambda>st3.
          migrate_loop c one_share is to_send' st3))))"

partial_function (option) return_victims :: "nat \<Rightarrow> ksys \<Rightarrow> ksys res option" where
  "return_victims c st =
     (case rbind (threadlist_remhead Stacklist (tlists st)) (\<lambda>(t, tls).
             let st1 = st\<lparr>tlists := tls\<rparr> in
             case t of
               None \<Rightarrow> Inr (False, st1)
             | Some t \<Rightarrow> rbind (on_lists (threadlist_addtail (Runqueue c) t) st1) (\<lambda>st2. Inr (True, st2))) of
        Inl e \<Rightarrow> Some (Inl e)
      | Inr (again, st2) \<Rightarrow> if again then return_victims c st2 else Some (Inr st2))"

definition divroundup32 :: "u32 \<Rightarrow> u32 \<Rightarrow> u32" where
  "divroundup32 a b = (a + b - 1) div b"

definition thread_consider_migration :: "nat \<Rightarrow> ksys \<Rightarrow> ksys res option" where
  "thread_consider_migration c st =
     (case count_threads c [0..<numcpus st] 0 0 st of
        Inl e \<Rightarrow> Some (Inl e)
      | Inr ((total_count, my_count), st1) \<Rightarrow>
          (let one_share = divroundup32 total_count (of_nat (numcpus st1)) in
           if my_count < one_share then Some (Inr st1)
           else
             let to_send = unat (my_count - one_share);
                 st2 = st1\<lparr>tlists := threadlist_init Stacklist (tlists st1)\<rparr> in
             case rbind (spinlock_acquire c (Runqueue_lock c) st2) (\<lambda>st3.
                  rbind (rfold (\<lambda>_. take_victim c) [0..<to_send] st3) (\<lambda>st4.
                  rbind (spinlock_release c (Runqueue_lock c) st4) (\<lambda>st5.
                    migrate_loop c one_share [0..<numcpus st5] to_send st5))) of
               Inl e \<Rightarrow> Some (Inl e)
             | Inr st6 \<Rightarrow>
                 Option.bind
                   (if threadlist_isempty Stacklist (tlists st6) then Some (Inr st6)
                    else case spinlock_acquire c (Runqueue_lock c) st6 of
                      Inl e \<Rightarrow> Some (Inl e)
                    | Inr st7 \<Rightarrow> Option.bind (return_victims c st7) (\<lambda>r. Some (rbind r (spinlock_release c (Runqueue_lock c)))))
                   (\<lambda>r. Some (rbind r (\<lambda>st8.
                      if \<not> threadlist_isempty Stacklist (tlists st8) then Inl KAssertFail
                      else rbind (threadlist_cleanup Stacklist (tlists st8)) (\<lambda>_. Inr st8))))))"

subsection \<open>Starting and stopping\<close>

text \<open>
  \<open>cpu_create\<close> for the next software number; \<open>c\<close> is the CPU that runs it, which for the boot CPU is
  the new one itself. The arguments say whether the allocations and \<open>cpuarray_add\<close> succeed. \<open>kproc\<close> is
  process 0. \<open>INIT_CURCPU\<close> makes the boot thread's CPU the current one: it is CPU 0 from then on.
\<close>

definition KPROC :: nat where "KPROC = 0"

definition cpu_create :: "nat \<Rightarrow> bool \<Rightarrow> bool \<Rightarrow> tid option \<Rightarrow> bool \<Rightarrow> bool \<Rightarrow> ksys \<Rightarrow> (nat \<times> ksys) res" where
  "cpu_create c kalloc added alloc strdup stack st =
     (if \<not> kalloc then Inl PanicCall
      else if \<not> added then Inl PanicCall
      else
        let n = numcpus st;
            st1 = st\<lparr>cpus := (cpus st)(n := \<lparr>c_curthread = None, c_hardclocks = 0, c_spinlocks = 0, c_isidle = False, c_ipi_pending = 0,
                       c_shootdown = [], c_irq = c_irq (cpus st n)\<rparr>),
                     tlists := threadlist_init (Runqueue n) (threadlist_init (Zombies n) (tlists st)),
                     spinlocks := (spinlocks st)(Runqueue_lock n := spinlock_init, Ipi_lock n := spinlock_init),
                     numcpus := n + 1\<rparr> in
        case thread_create alloc strdup st1 of
          (None, st2) \<Rightarrow> Inl PanicCall
        | (Some t, st2) \<Rightarrow>
            let st3 = upd_cpu n (\<lambda>cp. cp\<lparr>c_curthread := Some t\<rparr>) st2 in
            rbind (upd_thread t (\<lambda>th. th\<lparr>t_cpu := Some n\<rparr>) st3) (\<lambda>st4.
            rbind (if n = 0 then Inr st4 else if \<not> stack then Inl PanicCall else upd_thread t thread_checkstack_init st4) (\<lambda>st5.
            rbind (proc_addthread (if n = 0 then 0 else c) KPROC t st5) (\<lambda>(result, st6).
            if result \<noteq> 0 then Inl PanicCall else Inr (n, st6)))))"

text \<open>\<open>CURCPU_EXISTS\<close> is that the boot CPU has been made.\<close>

definition thread_bootstrap :: "bool \<Rightarrow> bool \<Rightarrow> tid option \<Rightarrow> bool \<Rightarrow> bool \<Rightarrow> ksys \<Rightarrow> ksys res" where
  "thread_bootstrap kalloc added alloc strdup stack st =
     (let st0 = st\<lparr>numcpus := 0\<rparr> in
      if numcpus st \<noteq> 0 then Inl KAssertFail
      else rbind (cpu_create 0 kalloc added alloc strdup stack st0) (\<lambda>(n, st1).
        if numcpus st1 = 0 then Inl KAssertFail
        else rbind (get_thread (curthread 0 st1) st1) (\<lambda>cur.
          if t_proc cur = None then Inl KAssertFail
          else if t_proc cur \<noteq> Some KPROC then Inl KAssertFail
          else Inr st1)))"

definition thread_panic :: "nat \<Rightarrow> ksys \<Rightarrow> ksys res" where
  "thread_panic c st =
     rbind (ipi_broadcast c IPI_PANIC st) (\<lambda>st1.
       let tls = tlists st1;
           tls1 = tls\<lparr>tl_count := (tl_count tls)(Runqueue c := 0)\<rparr>;
           tls2 = set_next (Tl_head (Runqueue c)) (Some (Tl_tail (Runqueue c))) tls1;
           tls3 = set_prev (Tl_tail (Runqueue c)) (Some (Tl_head (Runqueue c))) tls2 in
       Inr (st1\<lparr>tlists := tls3\<rparr>))"

definition thread_shutdown :: "nat \<Rightarrow> ksys \<Rightarrow> ksys res" where
  "thread_shutdown c st = ipi_broadcast c IPI_OFFLINE st"

end
