(* ===== verification/Thread_Locks.thy ===== *)
theory Thread_Locks
  imports Thread
begin

text \<open>
  What taking and releasing spinlocks, changing the interrupt level and sending interprocessor
  interrupts leave alone, and when they return.
\<close>

definition th_same :: "thread \<Rightarrow> thread \<Rightarrow> bool" where
  "th_same th th' \<longleftrightarrow> t_state th' = t_state th \<and> t_cpu th' = t_cpu th \<and> t_proc th' = t_proc th \<and>
     t_stack th' = t_stack th \<and> t_in_interrupt th' = t_in_interrupt th \<and> t_context th' = t_context th \<and>
     (t_curspl th \<in> {0, 1} \<longrightarrow> t_curspl th' \<in> {0, 1})"

text \<open>The two states differ at most in locks, interrupt levels and pending interrupts.\<close>

definition quiet :: "ksys \<Rightarrow> ksys \<Rightarrow> bool" where
  "quiet st st' \<longleftrightarrow> tlists st' = tlists st \<and> numcpus st' = numcpus st \<and> p_numthreads st' = p_numthreads st \<and>
     wc_name st' = wc_name st \<and> (\<forall>t. rel_option th_same (threads st t) (threads st' t)) \<and>
     (\<forall>i. c_curthread (cpus st' i) = c_curthread (cpus st i) \<and> c_isidle (cpus st' i) = c_isidle (cpus st i))"

lemma th_same_refl [simp]: "th_same th th"
  by (simp add: th_same_def)

lemma th_same_trans: "th_same a b \<Longrightarrow> th_same b c \<Longrightarrow> th_same a c"
  by (auto simp: th_same_def)

lemma rel_th_same_refl [simp]: "rel_option th_same x x"
  by (cases x) simp_all

lemma quiet_refl [simp]: "quiet st st"
  by (simp add: quiet_def)

lemma quiet_trans:
  assumes "quiet a b" and "quiet b c"
  shows "quiet a c"
proof -
  have "rel_option th_same (threads a t) (threads c t)" for t
    using assms th_same_trans unfolding quiet_def
    by (cases "threads a t"; cases "threads b t"; cases "threads c t") (metis option.rel_inject(2) option.rel_distinct option.rel_sel)+
  with assms show ?thesis by (simp add: quiet_def)
qed

lemma quiet_thread:
  "quiet st st' \<Longrightarrow> threads st t = Some th \<Longrightarrow> \<exists>th'. threads st' t = Some th' \<and> th_same th th'"
  unfolding quiet_def by (metis option_rel_Some1)

lemma quiet_thread_back:
  "quiet st st' \<Longrightarrow> threads st' t = Some th' \<Longrightarrow> \<exists>th. threads st t = Some th \<and> th_same th th'"
  unfolding quiet_def by (metis option_rel_Some2)

lemma quiet_sel:
  "quiet st st' \<Longrightarrow> tlists st' = tlists st" "quiet st st' \<Longrightarrow> numcpus st' = numcpus st"
  "quiet st st' \<Longrightarrow> p_numthreads st' = p_numthreads st" "quiet st st' \<Longrightarrow> wc_name st' = wc_name st"
  "quiet st st' \<Longrightarrow> curthread i st' = curthread i st" "quiet st st' \<Longrightarrow> c_isidle (cpus st' i) = c_isidle (cpus st i)"
  by (simp_all add: quiet_def curthread_def)

text \<open>CPU \<open>c\<close> holds the locks \<open>L\<close>, and no other CPU holds any.\<close>

definition locks :: "ksys \<Rightarrow> nat \<Rightarrow> lockid set \<Rightarrow> bool" where
  "locks st c L \<longleftrightarrow> finite L \<and> card L < 4294967295 \<and>
     (\<forall>lk. spinlocks st lk = (if lk \<in> L then \<lparr>splk_lock = 1, splk_holder = Some c\<rparr> else \<lparr>splk_lock = 0, splk_holder = None\<rparr>)) \<and>
     (\<forall>i. c_spinlocks (cpus st i) = (if i = c then of_nat (card L) else 0))"

text \<open>The current thread of CPU \<open>c\<close> exists and its interrupt level is one of the two.\<close>

definition has_cur :: "nat \<Rightarrow> ksys \<Rightarrow> bool" where
  "has_cur c st \<longleftrightarrow> (\<exists>t th. curthread c st = Some t \<and> threads st t = Some th \<and> t_curspl th \<in> {0, 1})"

lemma quiet_has_cur: "quiet st st' \<Longrightarrow> has_cur c st \<Longrightarrow> has_cur c st'"
  by (auto simp: has_cur_def quiet_sel th_same_def dest: quiet_thread)

lemma quiet_upd_cur:
  assumes "threads st t = Some th" and "th_same th (f th)"
    and "\<forall>i. c_curthread (g i) = c_curthread (cpus st i) \<and> c_isidle (g i) = c_isidle (cpus st i)"
  shows "quiet st (st\<lparr>threads := (threads st)(t \<mapsto> f th), cpus := g, spinlocks := l\<rparr>)"
  using assms by (simp add: quiet_def)

lemma upd_thread_Some: "threads st t = Some th \<Longrightarrow> upd_thread t f st = Inr (st\<lparr>threads := (threads st)(t \<mapsto> f th)\<rparr>)"
  by (simp add: upd_thread_def)

lemma get_thread_Some [simp]: "threads st t = Some th \<Longrightarrow> get_thread (Some t) st = Inr th"
  by (simp add: get_thread_def)

lemma upd_cpu_sel [simp]:
  "threads (upd_cpu c f st) = threads st" "spinlocks (upd_cpu c f st) = spinlocks st" "tlists (upd_cpu c f st) = tlists st"
  "numcpus (upd_cpu c f st) = numcpus st" "p_numthreads (upd_cpu c f st) = p_numthreads st" "wc_name (upd_cpu c f st) = wc_name st"
  "cpus (upd_cpu c f st) = (cpus st)(c := f (cpus st c))"
  by (simp_all add: upd_cpu_def)

lemma splraise_ok:
  assumes "has_cur c st"
  shows "\<exists>st'. splraise c IPL_NONE IPL_HIGH st = Inr st' \<and> quiet st st' \<and> spinlocks st' = spinlocks st \<and>
    (\<forall>i. c_spinlocks (cpus st' i) = c_spinlocks (cpus st i))"
proof -
  from assms obtain t th where t: "curthread c st = Some t" "threads st t = Some th" by (auto simp: has_cur_def)
  let ?st1 = "if t_iplhigh_count th = 0 then upd_cpu c (\<lambda>cp. cp\<lparr>c_irq := False\<rparr>) st else st"
  have "quiet st (st\<lparr>threads := (threads st)(t \<mapsto> th\<lparr>t_iplhigh_count := t_iplhigh_count th + 1\<rparr>), cpus := cpus ?st1, spinlocks := spinlocks st\<rparr>)"
    using t by (intro quiet_upd_cur [where f = "\<lambda>th. th\<lparr>t_iplhigh_count := t_iplhigh_count th + 1\<rparr>"]) (simp_all add: th_same_def)
  moreover have "splraise c IPL_NONE IPL_HIGH st =
      Inr (st\<lparr>threads := (threads st)(t \<mapsto> th\<lparr>t_iplhigh_count := t_iplhigh_count th + 1\<rparr>), cpus := cpus ?st1, spinlocks := spinlocks st\<rparr>)"
    using t by (simp add: splraise_def upd_thread_def upd_cpu_def Let_def)
  ultimately show ?thesis by simp
qed

lemma spllower_ok:
  assumes "has_cur c st"
  shows "\<exists>st'. spllower c IPL_HIGH IPL_NONE st = Inr st' \<and> quiet st st' \<and> spinlocks st' = spinlocks st \<and>
    (\<forall>i. c_spinlocks (cpus st' i) = c_spinlocks (cpus st i))"
proof -
  from assms obtain t th where t: "curthread c st = Some t" "threads st t = Some th" by (auto simp: has_cur_def)
  let ?st1 = "if t_iplhigh_count th - 1 = 0 then upd_cpu c (\<lambda>cp. cp\<lparr>c_irq := True\<rparr>) st else st"
  have "quiet st (st\<lparr>threads := (threads st)(t \<mapsto> th\<lparr>t_iplhigh_count := t_iplhigh_count th - 1\<rparr>), cpus := cpus ?st1, spinlocks := spinlocks st\<rparr>)"
    using t by (intro quiet_upd_cur [where f = "\<lambda>th. th\<lparr>t_iplhigh_count := t_iplhigh_count th - 1\<rparr>"]) (simp_all add: th_same_def)
  moreover have "spllower c IPL_HIGH IPL_NONE st =
      Inr (st\<lparr>threads := (threads st)(t \<mapsto> th\<lparr>t_iplhigh_count := t_iplhigh_count th - 1\<rparr>), cpus := cpus ?st1, spinlocks := spinlocks st\<rparr>)"
    using t by (simp add: spllower_def upd_thread_def upd_cpu_def Let_def)
  ultimately show ?thesis by simp
qed

lemma locks_cong:
  "locks st c L \<Longrightarrow> spinlocks st' = spinlocks st \<Longrightarrow> \<forall>i. c_spinlocks (cpus st' i) = c_spinlocks (cpus st i) \<Longrightarrow> locks st' c L"
  by (simp add: locks_def)

lemma quiet_cpu:
  "(\<And>cp. c_curthread (f cp) = c_curthread cp) \<Longrightarrow> (\<And>cp. c_isidle (f cp) = c_isidle cp) \<Longrightarrow> quiet st (upd_cpu c f st\<lparr>spinlocks := l\<rparr>)"
  by (simp add: quiet_def)

lemma spinlock_acquire_ok:
  assumes l: "locks st c L" and lk: "lk \<notin> L" and cur: "has_cur c st" and n: "card L < 100"
  shows "\<exists>st'. spinlock_acquire c lk st = Inr st' \<and> quiet st st' \<and> locks st' c (insert lk L)"
proof -
  obtain st1 where s1: "splraise c IPL_NONE IPL_HIGH st = Inr st1" "quiet st st1" "spinlocks st1 = spinlocks st"
    "\<forall>i. c_spinlocks (cpus st1 i) = c_spinlocks (cpus st i)"
    using splraise_ok [OF cur] by blast
  let ?st2 = "upd_cpu c (\<lambda>cp. cp\<lparr>c_spinlocks := c_spinlocks cp + 1\<rparr>) st1"
  let ?st' = "?st2\<lparr>spinlocks := (spinlocks ?st2)(lk := \<lparr>splk_lock = 1, splk_holder = Some c\<rparr>)\<rparr>"
  have "spinlock_acquire c lk st = Inr ?st'"
    using s1 l lk by (simp add: spinlock_acquire_def locks_def Let_def)
  moreover have "quiet st ?st'" by (rule quiet_trans [OF s1(2) quiet_cpu]) simp_all
  moreover have "locks ?st' c (insert lk L)" using l lk s1(3,4) n by (simp add: locks_def)
  ultimately show ?thesis by blast
qed

lemma spinlock_release_ok:
  assumes l: "locks st c L" and lk: "lk \<in> L" and cur: "has_cur c st" and n: "card L < 100"
  shows "\<exists>st'. spinlock_release c lk st = Inr st' \<and> quiet st st' \<and> locks st' c (L - {lk})"
proof -
  let ?st1 = "upd_cpu c (\<lambda>cp. cp\<lparr>c_spinlocks := c_spinlocks cp - 1\<rparr>) st"
  let ?st2 = "?st1\<lparr>spinlocks := (spinlocks ?st1)(lk := \<lparr>splk_lock = 0, splk_holder = None\<rparr>)\<rparr>"
  have q: "quiet st ?st2" by (rule quiet_cpu) simp_all
  have fin: "finite L" using l by (simp add: locks_def)
  have cd: "card L = Suc (card (L - {lk}))" by (rule card.remove [OF fin lk])
  have cs: "c_spinlocks (cpus st c) = of_nat (card L)" using l by (simp add: locks_def)
  have "unat (of_nat (card L) :: u32) = card L" using n by (simp add: unat_of_nat_u32)
  then have nz: "c_spinlocks (cpus st c) \<noteq> 0" using cs cd by auto
  obtain st' where s': "spllower c IPL_HIGH IPL_NONE ?st2 = Inr st'" "quiet ?st2 st'" "spinlocks st' = spinlocks ?st2"
    "\<forall>i. c_spinlocks (cpus st' i) = c_spinlocks (cpus ?st2 i)"
    using spllower_ok [OF quiet_has_cur [OF q cur]] by blast
  have "splk_holder (spinlocks st lk) = Some c" using l lk by (simp add: locks_def)
  then have "spinlock_release c lk st = Inr st'" using nz s'(1) by (simp add: spinlock_release_def Let_def)
  moreover have "quiet st st'" by (rule quiet_trans [OF q s'(2)])
  moreover have "locks st' c (L - {lk})" using l s'(3,4) fin cs cd by (simp add: locks_def)
  ultimately show ?thesis by blast
qed

lemma splx_ok:
  assumes l: "locks st c L" and cur: "has_cur c st" and spl: "spl \<in> {0, 1}"
  shows "\<exists>r st'. splx c spl st = Inr (r, st') \<and> r \<in> {0, 1} \<and> quiet st st' \<and> locks st' c L"
proof -
  from cur obtain t th where t: "curthread c st = Some t" "threads st t = Some th" and s: "t_curspl th \<in> {0, 1}"
    by (auto simp: has_cur_def)
  have q: "quiet u (u\<lparr>threads := (threads u)(t \<mapsto> h\<lparr>t_curspl := spl\<rparr>)\<rparr>)" if "threads u t = Some h" for u h
    using quiet_upd_cur [of u t h "\<lambda>th. th\<lparr>t_curspl := spl\<rparr>" "cpus u" "spinlocks u"] that spl by (simp add: th_same_def)
  consider "t_curspl th = spl" | "t_curspl th = 0" "spl = 1" | "t_curspl th = 1" "spl = 0" using s spl by auto
  then show ?thesis
  proof cases
    case 1
    with t l spl show ?thesis by (simp add: splx_def Let_def)
  next
    case 2
    obtain st1 where s1: "splraise c IPL_NONE IPL_HIGH st = Inr st1" "quiet st st1" "spinlocks st1 = spinlocks st"
      "\<forall>i. c_spinlocks (cpus st1 i) = c_spinlocks (cpus st i)"
      using splraise_ok [OF cur] by blast
    obtain th1 where th1: "threads st1 t = Some th1" using quiet_thread [OF s1(2) t(2)] by blast
    let ?st2 = "st1\<lparr>threads := (threads st1)(t \<mapsto> th1\<lparr>t_curspl := spl\<rparr>)\<rparr>"
    have "splx c spl st = Inr (0, ?st2)"
      using t 2 s1(1) th1 by (simp add: splx_def Let_def IPL_NONE_def IPL_HIGH_def upd_thread_def)
    moreover have "locks ?st2 c L" using locks_cong [OF l] s1 by simp
    moreover have "quiet st ?st2" by (rule quiet_trans [OF s1(2) q [OF th1]])
    ultimately show ?thesis by blast
  next
    case 3
    let ?st1 = "st\<lparr>threads := (threads st)(t \<mapsto> th\<lparr>t_curspl := spl\<rparr>)\<rparr>"
    have q1: "quiet st ?st1" by (rule q [OF t(2)])
    obtain st2 where s2: "spllower c IPL_HIGH IPL_NONE ?st1 = Inr st2" "quiet ?st1 st2" "spinlocks st2 = spinlocks ?st1"
      "\<forall>i. c_spinlocks (cpus st2 i) = c_spinlocks (cpus ?st1 i)"
      using spllower_ok [OF quiet_has_cur [OF q1 cur]] by blast
    have "splx c spl st = Inr (1, st2)"
      using t 3 s2(1) by (simp add: splx_def Let_def IPL_NONE_def IPL_HIGH_def upd_thread_def)
    moreover have "locks st2 c L" using locks_cong [OF l] s2 by simp
    moreover have "quiet st st2" by (rule quiet_trans [OF q1 s2(2)])
    ultimately show ?thesis by blast
  qed
qed

lemma ipi_send_ok:
  assumes l: "locks st c L" and lk: "Ipi_lock target \<notin> L" and cur: "has_cur c st" and n: "card L < 90" and code: "code < 32"
  shows "\<exists>st'. ipi_send c target code st = Inr st' \<and> quiet st st' \<and> locks st' c L"
proof -
  obtain st1 where s1: "spinlock_acquire c (Ipi_lock target) st = Inr st1" "quiet st st1" "locks st1 c (insert (Ipi_lock target) L)"
    using spinlock_acquire_ok [OF l lk cur] n by auto
  let ?st2 = "ipi_post target code st1"
  have q2: "quiet st1 ?st2"
    by (simp add: ipi_post_def quiet_def)
  have l2: "locks ?st2 c (insert (Ipi_lock target) L)"
    by (rule locks_cong [OF s1(3)]) (simp_all add: ipi_post_def)
  have "finite L" using l by (simp add: locks_def)
  then have n2: "card (insert (Ipi_lock target) L) < 100" using n by (simp add: card_insert_if)
  obtain st3 where "spinlock_release c (Ipi_lock target) ?st2 = Inr st3" "quiet ?st2 st3" "locks st3 c (insert (Ipi_lock target) L - {Ipi_lock target})"
    using spinlock_release_ok [OF l2 insertI1 quiet_has_cur [OF q2 quiet_has_cur [OF s1(2) cur]] n2] by blast
  moreover have "insert (Ipi_lock target) L - {Ipi_lock target} = L" using lk by auto
  ultimately show ?thesis
    using s1 code quiet_trans [OF s1(2) quiet_trans [OF q2]] by (auto simp: ipi_send_def)
qed

end
