(* ===== verification/Thread_Inv.thy ===== *)
theory Thread_Inv
  imports Thread_Locks
begin

text \<open>
  The invariant of the thread system: every thread is in exactly one place and its state agrees with
  the place. \<open>X\<close> is the set of threads on their way from one place to another.
\<close>

fun on_list :: "listid \<Rightarrow> thread \<Rightarrow> bool" where
  "on_list (Runqueue i) th \<longleftrightarrow> t_state th = S_READY \<and> t_proc th \<noteq> None \<and> t_cpu th = Some i"
| "on_list (Zombies i) th \<longleftrightarrow> t_state th = S_ZOMBIE \<and> t_proc th = None \<and> t_cpu th = Some i"
| "on_list (Wchan w) th \<longleftrightarrow> t_state th = S_SLEEP \<and> t_proc th \<noteq> None"
| "on_list Stacklist th \<longleftrightarrow> t_proc th \<noteq> None"

definition thread_ok :: "thread \<Rightarrow> bool" where
  "thread_ok th \<longleftrightarrow> t_curspl th \<in> {0, 1} \<and> (\<forall>s. t_context th = Switched s \<longrightarrow> s \<in> {0, 1}) \<and> \<not> t_in_interrupt th \<and>
     (t_stack th = None \<or> t_stack th = Some (replicate 4 THREAD_STACK_MAGIC))"

definition in_proc :: "ksys \<Rightarrow> nat \<Rightarrow> tid set" where
  "in_proc st p = {t. \<exists>th. threads st t = Some th \<and> t_proc th = Some p}"

definition running :: "ksys \<Rightarrow> nat \<Rightarrow> tid \<Rightarrow> bool" where
  "running st i t \<longleftrightarrow> i < numcpus st \<and> curthread i st = Some t \<and> \<not> c_isidle (cpus st i)"

definition placed :: "ksys \<Rightarrow> (listid \<rightharpoonup> tid list) \<Rightarrow> tid \<Rightarrow> bool" where
  "placed st Q t \<longleftrightarrow> (\<exists>l xs. Q l = Some xs \<and> t \<in> set xs) \<or> (\<exists>i. running st i t)"

definition srel_lists :: "tid set \<Rightarrow> ksys \<Rightarrow> (listid \<rightharpoonup> tid list) \<Rightarrow> bool" where
  "srel_lists X st Q \<longleftrightarrow> tl_heap (tlists st) Q \<and>
     (\<forall>i<numcpus st. Q (Runqueue i) \<noteq> None \<and> Q (Zombies i) \<noteq> None) \<and>
     (\<forall>w. wc_name st w \<noteq> None \<longrightarrow> Q (Wchan w) \<noteq> None) \<and>
     (\<forall>l xs t. Q l = Some xs \<longrightarrow> t \<in> set xs \<longrightarrow> (\<exists>th. threads st t = Some th \<and> (t \<notin> X \<longrightarrow> on_list l th)))"

definition srel_threads :: "tid set \<Rightarrow> ksys \<Rightarrow> (listid \<rightharpoonup> tid list) \<Rightarrow> bool" where
  "srel_threads X st Q \<longleftrightarrow> dom (threads st) \<subseteq> {1..<4294967296} \<and>
     (\<forall>t th. threads st t = Some th \<longrightarrow> thread_ok th) \<and>
     (\<forall>t th. threads st t = Some th \<longrightarrow> t \<notin> X \<longrightarrow> (\<exists>i<numcpus st. t_cpu th = Some i) \<and> placed st Q t) \<and>
     (\<forall>p. p_numthreads st p = of_nat (card (in_proc st p)))"

definition srel_cpus :: "tid set \<Rightarrow> ksys \<Rightarrow> bool" where
  "srel_cpus X st \<longleftrightarrow>
     (\<forall>i<numcpus st. \<exists>t th. curthread i st = Some t \<and> threads st t = Some th \<and> t_cpu th = Some i) \<and>
     (\<forall>i t. running st i t \<longrightarrow> t \<notin> X \<longrightarrow> detached (tlists st) t \<and>
        (\<exists>th. threads st t = Some th \<and> t_proc th \<noteq> None \<and> t_state th \<in> {S_RUN, S_READY}))"

definition srel :: "tid set \<Rightarrow> ksys \<Rightarrow> (listid \<rightharpoonup> tid list) \<Rightarrow> bool" where
  "srel X st Q \<longleftrightarrow> srel_lists X st Q \<and> srel_threads X st Q \<and> srel_cpus X st"

lemmas srel_defs = srel_def srel_lists_def srel_threads_def srel_cpus_def

lemma srel_heap: "srel X st Q \<Longrightarrow> tl_heap (tlists st) Q"
  by (simp add: srel_defs)

lemma srel_ok: "srel X st Q \<Longrightarrow> threads st t = Some th \<Longrightarrow> thread_ok th"
  by (simp add: srel_defs)

lemma srel_listed: "srel X st Q \<Longrightarrow> Q l = Some xs \<Longrightarrow> t \<in> set xs \<Longrightarrow> \<exists>th. threads st t = Some th \<and> (t \<notin> X \<longrightarrow> on_list l th)"
  by (simp add: srel_defs)

lemma srel_place:
  "srel X st Q \<Longrightarrow> threads st t = Some th \<Longrightarrow> t \<notin> X \<Longrightarrow> (\<exists>i<numcpus st. t_cpu th = Some i) \<and> placed st Q t"
  by (simp add: srel_defs)

lemma srel_run:
  "srel X st Q \<Longrightarrow> running st i t \<Longrightarrow> t \<notin> X \<Longrightarrow> detached (tlists st) t \<and>
     (\<exists>th. threads st t = Some th \<and> t_proc th \<noteq> None \<and> t_state th \<in> {S_RUN, S_READY})"
  unfolding srel_def srel_cpus_def by blast

lemma srel_queue:
  assumes "srel X st Q" and "i < numcpus st"
  obtains xs where "Q (Runqueue i) = Some xs"
  using assms by (auto simp: srel_defs)

lemma srel_zombies:
  assumes "srel X st Q" and "i < numcpus st"
  obtains xs where "Q (Zombies i) = Some xs"
  using assms by (auto simp: srel_defs)

lemma srel_cur:
  assumes "srel X st Q" and "c < numcpus st"
  obtains t th where "curthread c st = Some t" "threads st t = Some th" "t_cpu th = Some c" "thread_ok th"
proof -
  from assms obtain t th where "curthread c st = Some t" "threads st t = Some th" "t_cpu th = Some c"
    unfolding srel_def srel_cpus_def by blast
  with srel_ok [OF assms(1)] that show thesis by blast
qed

lemma srel_has_cur: "srel X st Q \<Longrightarrow> c < numcpus st \<Longrightarrow> has_cur c st"
  by (erule (1) srel_cur) (auto simp: has_cur_def thread_ok_def)

lemma srel_cur_unique:
  assumes "srel X st Q" and "i < numcpus st" and "j < numcpus st" and "curthread i st = curthread j st"
  shows "i = j"
  using srel_cur [OF assms(1,2)] srel_cur [OF assms(1,3)] assms(4) by (metis option.inject)

lemma srel_length:
  assumes "srel X st Q" and "Q l = Some xs"
  shows "length xs < 4294967296"
proof -
  have "distinct xs" using tl_heap_rep [OF srel_heap [OF assms(1)] assms(2)] by (simp add: tl_rep_def)
  moreover have "set xs \<subseteq> {1..<4294967296}"
    using srel_listed [OF assms] assms(1) unfolding srel_def srel_threads_def by blast
  then have "card (set xs) \<le> card {1..<4294967296 :: nat}" by (intro card_mono) simp_all
  ultimately show ?thesis by (simp add: distinct_card)
qed

lemma srel_isempty:
  assumes "srel X st Q" and "Q l = Some xs"
  shows "threadlist_isempty l (tlists st) \<longleftrightarrow> xs = []"
  by (rule threadlist_isempty_ok [OF srel_heap [OF assms(1)] assms(2) srel_length [OF assms]])

text \<open>Locks, interrupt levels and interprocessor interrupts do not matter.\<close>

lemma on_list_same: "th_same th th' \<Longrightarrow> on_list l th' = on_list l th"
  by (cases l) (simp_all add: th_same_def)

lemma thread_ok_same: "th_same th th' \<Longrightarrow> thread_ok th \<Longrightarrow> thread_ok th'"
  by (auto simp: th_same_def thread_ok_def)

lemma quiet_in_proc: "quiet st st' \<Longrightarrow> in_proc st' p = in_proc st p"
  unfolding in_proc_def by (auto simp: th_same_def dest: quiet_thread quiet_thread_back)

lemma quiet_running: "quiet st st' \<Longrightarrow> running st' i t = running st i t"
  by (simp add: running_def quiet_sel)

lemma quiet_srel:
  assumes q: "quiet st st'" and r: "srel X st Q"
  shows "srel X st' Q"
proof -
  note sel = quiet_sel [OF q] and run = quiet_running [OF q]
  have "srel_lists X st' Q"
    unfolding srel_lists_def sel
  proof (intro conjI allI impI)
    fix l xs t assume "Q l = Some xs" "t \<in> set xs"
    then obtain th where th: "threads st t = Some th" "t \<notin> X \<longrightarrow> on_list l th" using srel_listed [OF r] by blast
    obtain th' where "threads st' t = Some th'" "th_same th th'" using quiet_thread [OF q th(1)] by blast
    with th(2) show "\<exists>th. threads st' t = Some th \<and> (t \<notin> X \<longrightarrow> on_list l th)" by (simp add: on_list_same)
  qed (use r in \<open>simp_all add: srel_defs\<close>)
  moreover have "srel_threads X st' Q"
  proof -
    have d: "dom (threads st') = dom (threads st)"
      using quiet_thread [OF q] quiet_thread_back [OF q] by blast
    have pl: "placed st' Q t = placed st Q t" for t by (simp add: placed_def run)
    have T: "\<And>t th. threads st t = Some th \<Longrightarrow> t \<notin> X \<Longrightarrow> (\<exists>i<numcpus st. t_cpu th = Some i) \<and> placed st Q t"
      using r by (simp add: srel_defs)
    show ?thesis
      unfolding srel_threads_def sel d pl quiet_in_proc [OF q]
    proof (intro conjI allI impI)
      fix t th' assume "threads st' t = Some th'"
      then obtain th where th: "threads st t = Some th" "th_same th th'" using quiet_thread_back [OF q] by blast
      show "thread_ok th'" by (rule thread_ok_same [OF th(2) srel_ok [OF r th(1)]])
      assume "t \<notin> X"
      with T [OF th(1)] show "\<exists>i<numcpus st. t_cpu th' = Some i" "placed st Q t" using th(2) by (simp_all add: th_same_def)
    qed (use r in \<open>simp_all add: srel_defs\<close>)
  qed
  moreover have "srel_cpus X st'"
    unfolding srel_cpus_def sel run
  proof (intro conjI allI impI)
    fix i assume "i < numcpus st"
    then obtain t th where t: "curthread i st = Some t" "threads st t = Some th" "t_cpu th = Some i" by (rule srel_cur [OF r])
    obtain th' where "threads st' t = Some th'" "th_same th th'" using quiet_thread [OF q t(2)] by blast
    with t show "\<exists>t th. curthread i st = Some t \<and> threads st' t = Some th \<and> t_cpu th = Some i" by (auto simp: th_same_def)
  next
    fix i t assume a: "running st i t" "t \<notin> X"
    with r obtain th where th: "threads st t = Some th" "t_proc th \<noteq> None" "t_state th \<in> {S_RUN, S_READY}" and "detached (tlists st) t"
      unfolding srel_def srel_cpus_def by blast
    then show "detached (tlists st) t" by simp
    obtain th' where "threads st' t = Some th'" "th_same th th'" using quiet_thread [OF q th(1)] by blast
    with th show "\<exists>th. threads st' t = Some th \<and> t_proc th \<noteq> None \<and> t_state th \<in> {S_RUN, S_READY}"
      by (auto simp: th_same_def)
  qed
  ultimately show ?thesis by (simp add: srel_def)
qed

subsection \<open>Elementary changes of the state\<close>

lemma running_upd [simp]:
  "running (st\<lparr>threads := ts\<rparr>) i t = running st i t" "running (st\<lparr>tlists := tls\<rparr>) i t = running st i t"
  "running (st\<lparr>p_numthreads := n\<rparr>) i t = running st i t"
  by (simp_all add: running_def curthread_def)

lemma placed_upd [simp]:
  "placed (st\<lparr>threads := ts\<rparr>) Q t = placed st Q t" "placed (st\<lparr>tlists := tls\<rparr>) Q t = placed st Q t"
  "placed (st\<lparr>p_numthreads := n\<rparr>) Q t = placed st Q t"
  by (simp_all add: placed_def)

lemma curthread_upd [simp]:
  "curthread i (st\<lparr>threads := ts\<rparr>) = curthread i st" "curthread i (st\<lparr>tlists := tls\<rparr>) = curthread i st"
  "curthread i (st\<lparr>p_numthreads := n\<rparr>) = curthread i st"
  by (simp_all add: curthread_def)

lemma in_proc_upd [simp]: "in_proc (st\<lparr>tlists := tls\<rparr>) p = in_proc st p" "in_proc (st\<lparr>p_numthreads := n\<rparr>) p = in_proc st p"
  by (simp_all add: in_proc_def)

lemma in_proc_same:
  "threads st t = Some th \<Longrightarrow> t_proc th' = t_proc th \<Longrightarrow> in_proc (st\<lparr>threads := (threads st)(t \<mapsto> th')\<rparr>) p = in_proc st p"
  by (auto simp: in_proc_def)

lemma srel_upd_thread:
  assumes r: "srel X st Q" and t: "t \<in> X" "threads st t = Some th" and ok: "thread_ok th'" and p: "t_proc th' = t_proc th"
    and c: "\<And>i. i < numcpus st \<Longrightarrow> curthread i st = Some t \<Longrightarrow> t_cpu th' = t_cpu th"
  shows "srel X (st\<lparr>threads := (threads st)(t \<mapsto> th')\<rparr>) Q"
proof -
  have "srel_lists X (st\<lparr>threads := (threads st)(t \<mapsto> th')\<rparr>) Q"
    using r t(1) by (simp add: srel_def srel_lists_def)
  moreover have "srel_threads X (st\<lparr>threads := (threads st)(t \<mapsto> th')\<rparr>) Q"
    using r t ok in_proc_same [OF t(2) p] unfolding srel_def srel_threads_def by (auto split: if_splits)
  moreover have "srel_cpus X (st\<lparr>threads := (threads st)(t \<mapsto> th')\<rparr>)"
    unfolding srel_cpus_def
  proof (intro conjI allI impI)
    fix i assume "i < numcpus (st\<lparr>threads := (threads st)(t \<mapsto> th')\<rparr>)"
    then have i: "i < numcpus st" by simp
    obtain u uh where u: "curthread i st = Some u" "threads st u = Some uh" "t_cpu uh = Some i" by (rule srel_cur [OF r i])
    with c [OF i] t show "\<exists>u uh. curthread i (st\<lparr>threads := (threads st)(t \<mapsto> th')\<rparr>) = Some u \<and>
        threads (st\<lparr>threads := (threads st)(t \<mapsto> th')\<rparr>) u = Some uh \<and> t_cpu uh = Some i"
      by (cases "u = t") auto
  next
    fix i u assume "running (st\<lparr>threads := (threads st)(t \<mapsto> th')\<rparr>) i u" "u \<notin> X"
    with r t show "detached (tlists (st\<lparr>threads := (threads st)(t \<mapsto> th')\<rparr>)) u"
      "\<exists>th. threads (st\<lparr>threads := (threads st)(t \<mapsto> th')\<rparr>) u = Some th \<and> t_proc th \<noteq> None \<and> t_state th \<in> {S_RUN, S_READY}"
      by (auto simp: srel_def srel_cpus_def)
  qed
  ultimately show ?thesis by (simp add: srel_def)
qed

lemma srel_relist:
  assumes r: "srel X st Q" and h: "tl_heap tls Q'" and X: "X \<subseteq> X'" and d: "\<And>l. Q l \<noteq> None \<Longrightarrow> Q' l \<noteq> None"
    and o: "\<And>l xs t. Q' l = Some xs \<Longrightarrow> t \<in> set xs \<Longrightarrow> t \<notin> X' \<Longrightarrow> \<exists>ys. Q l = Some ys \<and> t \<in> set ys"
    and e: "\<And>l xs t. Q' l = Some xs \<Longrightarrow> t \<in> set xs \<Longrightarrow> threads st t \<noteq> None"
    and n: "\<And>l xs t. Q l = Some xs \<Longrightarrow> t \<in> set xs \<Longrightarrow> t \<notin> X' \<Longrightarrow> \<exists>l xs. Q' l = Some xs \<and> t \<in> set xs"
    and f: "\<And>t. t \<notin> X' \<Longrightarrow> detached (tlists st) t \<Longrightarrow> detached tls t"
  shows "srel X' (st\<lparr>tlists := tls\<rparr>) Q'"
proof -
  have "srel_lists X' (st\<lparr>tlists := tls\<rparr>) Q'"
    unfolding srel_lists_def
  proof (intro conjI allI impI)
    fix l xs t assume l: "Q' l = Some xs" "t \<in> set xs"
    from e [OF l] obtain th where th: "threads st t = Some th" by blast
    moreover have "on_list l th" if t: "t \<notin> X'"
      using o [OF l t] srel_listed [OF r] X t th by fastforce
    ultimately show "\<exists>th. threads (st\<lparr>tlists := tls\<rparr>) t = Some th \<and> (t \<notin> X' \<longrightarrow> on_list l th)" by simp
  qed (use r h d in \<open>simp_all add: srel_defs\<close>)
  moreover have "srel_threads X' (st\<lparr>tlists := tls\<rparr>) Q'"
    unfolding srel_threads_def
  proof (intro conjI allI impI)
    fix t th assume t: "threads (st\<lparr>tlists := tls\<rparr>) t = Some th" "t \<notin> X'"
    have p: "(\<exists>i<numcpus st. t_cpu th = Some i) \<and> placed st Q t" using srel_place [OF r, of t th] t X by auto
    then show "\<exists>i<numcpus (st\<lparr>tlists := tls\<rparr>). t_cpu th = Some i" by simp
    from p n t(2) show "placed (st\<lparr>tlists := tls\<rparr>) Q' t" unfolding placed_upd unfolding placed_def by metis
  qed (use r in \<open>simp_all add: srel_defs\<close>)
  moreover have "srel_cpus X' (st\<lparr>tlists := tls\<rparr>)"
    using r X f unfolding srel_def srel_cpus_def by (simp, blast)
  ultimately show ?thesis by (simp add: srel_def)
qed

lemma srel_settle:
  assumes r: "srel (insert t X) st Q" and t: "threads st t = Some th" "\<exists>i<numcpus st. t_cpu th = Some i" "placed st Q t"
    and l: "\<And>l xs. Q l = Some xs \<Longrightarrow> t \<in> set xs \<Longrightarrow> on_list l th"
    and c: "\<And>i. running st i t \<Longrightarrow> detached (tlists st) t \<and> t_proc th \<noteq> None \<and> t_state th \<in> {S_RUN, S_READY}"
  shows "srel X st Q"
proof -
  have "srel_lists X st Q" using r t(1) l unfolding srel_def srel_lists_def by (metis insert_iff option.inject)
  moreover have "srel_threads X st Q" using r t unfolding srel_def srel_threads_def by (metis insert_iff option.inject)
  moreover have "srel_cpus X st" using r t(1) c unfolding srel_def srel_cpus_def by (metis insert_iff option.inject)
  ultimately show ?thesis by (simp add: srel_def)
qed

subsection \<open>List operations\<close>

lemma srel_addtail:
  assumes r: "srel X st Q" and t: "t \<in> X" "threads st t \<noteq> None" "detached (tlists st) t" and l: "Q l = Some xs"
  shows "\<exists>tls. on_lists (threadlist_addtail l t) st = Inr (st\<lparr>tlists := tls\<rparr>) \<and>
    srel X (st\<lparr>tlists := tls\<rparr>) (Q(l \<mapsto> xs @ [t])) \<and> (\<forall>u. u \<noteq> t \<longrightarrow> detached (tlists st) u \<longrightarrow> detached tls u)"
proof -
  obtain tls where tls: "threadlist_addtail l t (tlists st) = Inr tls" "tl_heap tls (Q(l \<mapsto> xs @ [t]))"
    "\<forall>u. u \<noteq> t \<longrightarrow> detached (tlists st) u \<longrightarrow> detached tls u"
    using threadlist_addtail_ok [OF srel_heap [OF r] l t(3)] by blast
  have "srel X (st\<lparr>tlists := tls\<rparr>) (Q(l \<mapsto> xs @ [t]))"
  proof (rule srel_relist [OF r tls(2)])
    fix l' ys u assume "(Q(l \<mapsto> xs @ [t])) l' = Some ys" "u \<in> set ys" "u \<notin> X"
    then show "\<exists>ys. Q l' = Some ys \<and> u \<in> set ys" using l t(1) by (auto split: if_splits)
  next
    fix l' ys u assume "(Q(l \<mapsto> xs @ [t])) l' = Some ys" "u \<in> set ys"
    then show "threads st u \<noteq> None" using l t(2) srel_listed [OF r] by (fastforce split: if_splits)
  next
    fix l' ys u assume "Q l' = Some ys" "u \<in> set ys" "u \<notin> X"
    then show "\<exists>l'' zs. (Q(l \<mapsto> xs @ [t])) l'' = Some zs \<and> u \<in> set zs"
      using l by (intro exI [of _ l'], cases "l' = l") auto
  qed (use tls(3) t(1) in auto)
  with tls show ?thesis by (auto simp: on_lists_def)
qed

lemma srel_addhead:
  assumes r: "srel X st Q" and t: "t \<in> X" "threads st t \<noteq> None" "detached (tlists st) t" and l: "Q l = Some xs"
  shows "\<exists>tls. on_lists (threadlist_addhead l t) st = Inr (st\<lparr>tlists := tls\<rparr>) \<and>
    srel X (st\<lparr>tlists := tls\<rparr>) (Q(l \<mapsto> t # xs))"
proof -
  obtain tls where tls: "threadlist_addhead l t (tlists st) = Inr tls" "tl_heap tls (Q(l \<mapsto> t # xs))"
    "\<forall>u. u \<noteq> t \<longrightarrow> detached (tlists st) u \<longrightarrow> detached tls u"
    using threadlist_addhead_ok [OF srel_heap [OF r] l t(3)] by blast
  have "srel X (st\<lparr>tlists := tls\<rparr>) (Q(l \<mapsto> t # xs))"
  proof (rule srel_relist [OF r tls(2)])
    fix l' ys u assume "(Q(l \<mapsto> t # xs)) l' = Some ys" "u \<in> set ys" "u \<notin> X"
    then show "\<exists>ys. Q l' = Some ys \<and> u \<in> set ys" using l t(1) by (auto split: if_splits)
  next
    fix l' ys u assume "(Q(l \<mapsto> t # xs)) l' = Some ys" "u \<in> set ys"
    then show "threads st u \<noteq> None" using l t(2) srel_listed [OF r] by (fastforce split: if_splits)
  next
    fix l' ys u assume "Q l' = Some ys" "u \<in> set ys" "u \<notin> X"
    then show "\<exists>l'' zs. (Q(l \<mapsto> t # xs)) l'' = Some zs \<and> u \<in> set zs"
      using l by (intro exI [of _ l'], cases "l' = l") auto
  qed (use tls(3) t(1) in auto)
  with tls show ?thesis by (auto simp: on_lists_def)
qed

lemma srel_take:
  assumes r: "srel X st Q" and l: "Q l = Some (us @ t # vs)" and h: "tl_heap tls (Q(l \<mapsto> us @ vs))"
    and d: "\<forall>u. detached (tlists st) u \<longrightarrow> detached tls u"
  shows "srel (insert t X) (st\<lparr>tlists := tls\<rparr>) (Q(l \<mapsto> us @ vs))"
proof (rule srel_relist [OF r h])
  fix l' ys u assume "(Q(l \<mapsto> us @ vs)) l' = Some ys" "u \<in> set ys" "u \<notin> insert t X"
  then show "\<exists>ys. Q l' = Some ys \<and> u \<in> set ys" using l by (auto split: if_splits)
next
  fix l' ys u assume "(Q(l \<mapsto> us @ vs)) l' = Some ys" "u \<in> set ys"
  then show "threads st u \<noteq> None" using l srel_listed [OF r] by (fastforce split: if_splits)
next
  fix l' ys u assume "Q l' = Some ys" "u \<in> set ys" "u \<notin> insert t X"
  then show "\<exists>l'' zs. (Q(l \<mapsto> us @ vs)) l'' = Some zs \<and> u \<in> set zs"
    using l by (intro exI [of _ l'], cases "l' = l") auto
qed (use d in auto)

lemma srel_remhead:
  assumes r: "srel X st Q" and l: "Q l = Some (t # xs)"
  shows "\<exists>tls. threadlist_remhead l (tlists st) = Inr (Some t, tls) \<and>
    srel (insert t X) (st\<lparr>tlists := tls\<rparr>) (Q(l \<mapsto> xs)) \<and> detached tls t \<and> (\<forall>u. detached (tlists st) u \<longrightarrow> detached tls u)"
  using threadlist_remhead_ok [OF srel_heap [OF r] l] srel_take [OF r, of l "[]" t xs] l by auto

lemma srel_remhead_empty: "srel X st Q \<Longrightarrow> Q l = Some [] \<Longrightarrow> threadlist_remhead l (tlists st) = Inr (None, tlists st)"
  using threadlist_remhead_ok [OF srel_heap] by fastforce

lemma srel_remtail:
  assumes r: "srel X st Q" and l: "Q l = Some (xs @ [t])"
  shows "\<exists>tls. threadlist_remtail l (tlists st) = Inr (Some t, tls) \<and>
    srel (insert t X) (st\<lparr>tlists := tls\<rparr>) (Q(l \<mapsto> xs)) \<and> detached tls t"
  using threadlist_remtail_ok [OF srel_heap [OF r] l] srel_take [OF r, of l xs t "[]"] l by auto

lemma srel_init:
  assumes r: "srel X st Q" and l: "Q l \<in> {None, Some []}"
  shows "srel X (st\<lparr>tlists := threadlist_init l (tlists st)\<rparr>) (Q(l \<mapsto> []))"
proof (rule srel_relist [OF r threadlist_init_ok(1) [OF srel_heap [OF r]]])
  fix l' ys u assume "(Q(l \<mapsto> [])) l' = Some ys" "u \<in> set ys"
  then show "threads st u \<noteq> None" using srel_listed [OF r] by (fastforce split: if_splits)
next
  fix l' ys u assume a: "Q l' = Some ys" "u \<in> set ys"
  then have "l' \<noteq> l" using l by auto
  with a show "\<exists>l'' zs. (Q(l \<mapsto> [])) l'' = Some zs \<and> u \<in> set zs" by (intro exI [of _ l']) auto
qed (use threadlist_init_ok(2) [OF srel_heap [OF r]] in \<open>auto split: if_splits\<close>)

subsection \<open>CPUs\<close>

lemma srel_idle:
  assumes r: "srel X st Q" and c: "c < numcpus st" "curthread c st = Some t" and l: "Q l = Some xs" "t \<in> set xs"
  shows "srel X (upd_cpu c (\<lambda>cp. cp\<lparr>c_isidle := True\<rparr>) st) Q"
proof -
  let ?st = "upd_cpu c (\<lambda>cp. cp\<lparr>c_isidle := True\<rparr>) st"
  have cur: "curthread i ?st = curthread i st" for i by (simp add: curthread_def)
  have run: "running ?st i u \<longleftrightarrow> running st i u \<and> i \<noteq> c" for i u
    by (auto simp: running_def cur)
  have pl: "placed ?st Q u" if "placed st Q u" for u
    using that l c unfolding placed_def run by (metis option.inject running_def)
  have "srel_lists X ?st Q" using r by (simp add: srel_def srel_lists_def)
  moreover have "srel_threads X ?st Q"
    using r pl unfolding srel_def srel_threads_def in_proc_def by auto
  moreover have "srel_cpus X ?st" using r unfolding srel_def srel_cpus_def run cur by auto
  ultimately show ?thesis by (simp add: srel_def)
qed

lemma srel_unidle:
  assumes r: "srel X st Q" and c: "c < numcpus st" "c_isidle (cpus st c)" and t: "t \<in> X" "threads st t = Some th" "t_cpu th = Some c"
  shows "srel X (upd_cpu c (\<lambda>cp. cp\<lparr>c_isidle := False, c_curthread := Some t\<rparr>) st) Q"
proof -
  let ?st = "upd_cpu c (\<lambda>cp. cp\<lparr>c_isidle := False, c_curthread := Some t\<rparr>) st"
  have cur: "curthread i ?st = (if i = c then Some t else curthread i st)" for i by (simp add: curthread_def)
  have run: "running ?st i u \<longleftrightarrow> running st i u \<or> i = c \<and> u = t" for i u
    using c by (auto simp: running_def cur)
  have pl: "placed ?st Q u" if "placed st Q u" for u
    using that unfolding placed_def run by blast
  have "srel_lists X ?st Q" using r by (simp add: srel_def srel_lists_def)
  moreover have "srel_threads X ?st Q"
    using r pl unfolding srel_def srel_threads_def in_proc_def by auto
  moreover have "srel_cpus X ?st"
    using r t unfolding srel_def srel_cpus_def run cur by auto
  ultimately show ?thesis by (simp add: srel_def)
qed

subsection \<open>Threads and processes\<close>

lemma finite_in_proc: "srel X st Q \<Longrightarrow> finite (in_proc st p)" and card_in_proc: "srel X st Q \<Longrightarrow> card (in_proc st p) < 4294967296"
proof -
  assume "srel X st Q"
  then have sub: "in_proc st p \<subseteq> {1..<4294967296}" by (auto simp: srel_defs in_proc_def)
  show "finite (in_proc st p)" by (rule finite_subset [OF sub]) simp
  have "card (in_proc st p) \<le> card {1..<4294967296 :: nat}" by (rule card_mono [OF _ sub]) simp
  then show "card (in_proc st p) < 4294967296" by simp
qed

lemma srel_join:
  assumes r: "srel X st Q" and t: "t \<in> X" "threads st t = Some th" "t_proc th = None"
  shows "srel X (st\<lparr>threads := (threads st)(t \<mapsto> th\<lparr>t_proc := Some p\<rparr>),
    p_numthreads := (p_numthreads st)(p := p_numthreads st p + 1)\<rparr>) Q"
proof -
  let ?st = "st\<lparr>threads := (threads st)(t \<mapsto> th\<lparr>t_proc := Some p\<rparr>), p_numthreads := (p_numthreads st)(p := p_numthreads st p + 1)\<rparr>"
  have ip: "in_proc ?st q = (if q = p then insert t (in_proc st p) else in_proc st q)" for q
    using t by (auto simp: in_proc_def split: if_splits)
  have "t \<notin> in_proc st p" using t by (simp add: in_proc_def)
  then have cd: "card (insert t (in_proc st p)) = Suc (card (in_proc st p))" using finite_in_proc [OF r] by simp
  have "srel_lists X ?st Q" using r t(1) by (simp add: srel_def srel_lists_def)
  moreover have "srel_threads X ?st Q"
  proof -
    have "thread_ok (th\<lparr>t_proc := Some p\<rparr>)" using srel_ok [OF r t(2)] by (simp add: thread_ok_def)
    moreover have "p_numthreads ?st q = of_nat (card (in_proc ?st q))" for q
      using r unfolding ip by (simp add: cd srel_defs)
    ultimately show ?thesis using r t unfolding srel_def srel_threads_def by (auto split: if_splits)
  qed
  moreover have "srel_cpus X ?st"
    using r t unfolding srel_def srel_cpus_def by (simp, metis option.inject)
  ultimately show ?thesis by (simp add: srel_def)
qed

lemma srel_leave:
  assumes r: "srel X st Q" and t: "t \<in> X" "threads st t = Some th" "t_proc th = Some p"
  shows "srel X (st\<lparr>threads := (threads st)(t \<mapsto> th\<lparr>t_proc := None\<rparr>),
    p_numthreads := (p_numthreads st)(p := p_numthreads st p - 1)\<rparr>) Q" and "p_numthreads st p \<noteq> 0"
proof -
  let ?st = "st\<lparr>threads := (threads st)(t \<mapsto> th\<lparr>t_proc := None\<rparr>), p_numthreads := (p_numthreads st)(p := p_numthreads st p - 1)\<rparr>"
  have ip: "in_proc ?st q = (if q = p then in_proc st p - {t} else in_proc st q)" for q
    using t by (auto simp: in_proc_def split: if_splits)
  have tp: "t \<in> in_proc st p" using t by (simp add: in_proc_def)
  note cd = card.remove [OF finite_in_proc [OF r] tp]
  have pn: "p_numthreads st p = of_nat (card (in_proc st p))" using r by (simp add: srel_defs)
  have "unat (of_nat (card (in_proc st p)) :: u32) = card (in_proc st p)" using card_in_proc [OF r] by (simp add: unat_of_nat_u32)
  then show "p_numthreads st p \<noteq> 0" using pn cd by auto
  have "srel_lists X ?st Q" using r t(1) by (simp add: srel_def srel_lists_def)
  moreover have "srel_threads X ?st Q"
  proof -
    have "thread_ok (th\<lparr>t_proc := None\<rparr>)" using srel_ok [OF r t(2)] by (simp add: thread_ok_def)
    moreover have "p_numthreads ?st q = of_nat (card (in_proc ?st q))" for q
      using r cd pn unfolding ip by (simp add: srel_defs)
    ultimately show ?thesis using r t unfolding srel_def srel_threads_def by (auto split: if_splits)
  qed
  moreover have "srel_cpus X ?st"
    using r t unfolding srel_def srel_cpus_def by (simp, metis option.inject)
  ultimately show "srel X ?st Q" by (simp add: srel_def)
qed

lemma srel_free:
  assumes r: "srel (insert t X) st Q" and t: "threads st t = Some th" "t_proc th = None" "detached (tlists st) t"
    and nc: "\<And>i. i < numcpus st \<Longrightarrow> curthread i st \<noteq> Some t"
  shows "srel X (st\<lparr>threads := (threads st)(t := None)\<rparr>) Q"
proof -
  let ?st = "st\<lparr>threads := (threads st)(t := None)\<rparr>"
  have nl: "t \<notin> set xs" if "Q l = Some xs" for l xs
    using detached_notin [OF tl_heap_rep [OF srel_heap [OF r] that] t(3)] .
  have ip: "in_proc ?st p = in_proc st p" for p using t by (auto simp: in_proc_def)
  have nr: "\<not> running st i t" for i using nc by (auto simp: running_def)
  have "srel_lists X ?st Q"
    unfolding srel_lists_def
  proof (intro conjI allI impI)
    fix l xs u assume l: "Q l = Some xs" "u \<in> set xs"
    then have "u \<noteq> t" using nl by blast
    with srel_listed [OF r l] show "\<exists>th. threads ?st u = Some th \<and> (u \<notin> X \<longrightarrow> on_list l th)" by auto
  qed (use r in \<open>simp_all add: srel_defs\<close>)
  moreover have "srel_threads X ?st Q"
    using r unfolding srel_def srel_threads_def ip by (auto split: if_splits)
  moreover have "srel_cpus X ?st"
    unfolding srel_cpus_def
  proof (intro conjI allI impI)
    fix i assume "i < numcpus ?st"
    then have i: "i < numcpus st" by simp
    then obtain u uh where "curthread i st = Some u" "threads st u = Some uh" "t_cpu uh = Some i" by (rule srel_cur [OF r])
    with nc [OF i] show "\<exists>u uh. curthread i ?st = Some u \<and> threads ?st u = Some uh \<and> t_cpu uh = Some i" by auto
  next
    fix i u assume u: "running ?st i u" "u \<notin> X"
    then have "u \<noteq> t" using nr by auto
    with u srel_run [OF r, of i u] show "detached (tlists ?st) u"
      "\<exists>th. threads ?st u = Some th \<and> t_proc th \<noteq> None \<and> t_state th \<in> {S_RUN, S_READY}" by auto
  qed
  ultimately show ?thesis by (simp add: srel_def)
qed

lemma threadlistnode_init_ok:
  assumes h: "tl_heap s Q" and n: "\<And>l xs. Q l = Some xs \<Longrightarrow> t \<notin> set xs"
  shows "tl_heap (threadlistnode_init t s) Q" and "detached (threadlistnode_init t s) t"
    and "u \<noteq> t \<Longrightarrow> detached s u \<Longrightarrow> detached (threadlistnode_init t s) u"
proof -
  have "tl_rep (threadlistnode_init t s) l xs" if l: "Q l = Some xs" for l xs
    by (rule tl_rep_frame [OF tl_heap_rep [OF h l]])
      (use n [OF l] in \<open>auto simp: threadlistnode_init_def tl_store_defs Let_def tl_nodes_set\<close>)
  then show "tl_heap (threadlistnode_init t s) Q" using h unfolding tl_heap_def by blast
  show "detached (threadlistnode_init t s) t" by (simp add: detached_def threadlistnode_init_def tl_store_defs Let_def)
  show "u \<noteq> t \<Longrightarrow> detached s u \<Longrightarrow> detached (threadlistnode_init t s) u"
    by (simp add: detached_def threadlistnode_init_def tl_store_defs Let_def)
qed

lemma srel_new:
  assumes r: "srel X st Q" and t: "threads st t = None" "t \<in> {1..<4294967296}"
  shows "srel (insert t X) (st\<lparr>threads := (threads st)(t \<mapsto> new_thread), tlists := threadlistnode_init t (tlists st)\<rparr>) Q"
    and "detached (threadlistnode_init t (tlists st)) t"
proof -
  let ?st = "st\<lparr>threads := (threads st)(t \<mapsto> new_thread), tlists := threadlistnode_init t (tlists st)\<rparr>"
  have nl: "t \<notin> set xs" if "Q l = Some xs" for l xs using srel_listed [OF r that] t by fastforce
  note I = threadlistnode_init_ok [OF srel_heap [OF r] nl]
  show "detached (threadlistnode_init t (tlists st)) t" by (rule I(2))
  have ip: "in_proc ?st p = in_proc st p" for p using t by (auto simp: in_proc_def new_thread_def)
  have "srel_lists (insert t X) ?st Q"
    unfolding srel_lists_def
  proof (intro conjI allI impI)
    fix l xs u assume l: "Q l = Some xs" "u \<in> set xs"
    then have "u \<noteq> t" using nl by blast
    with srel_listed [OF r l] show "\<exists>th. threads ?st u = Some th \<and> (u \<notin> insert t X \<longrightarrow> on_list l th)" by auto
  qed (use r I(1) in \<open>simp_all add: srel_defs\<close>)
  moreover have "srel_threads (insert t X) ?st Q"
  proof -
    have "thread_ok new_thread" by (simp add: thread_ok_def new_thread_def IPL_HIGH_def)
    then show ?thesis using r t unfolding srel_def srel_threads_def ip by (auto split: if_splits)
  qed
  moreover have "srel_cpus (insert t X) ?st"
    unfolding srel_cpus_def
  proof (intro conjI allI impI)
    fix i assume "i < numcpus ?st"
    then have i: "i < numcpus st" by simp
    then obtain u uh where "curthread i st = Some u" "threads st u = Some uh" "t_cpu uh = Some i" by (rule srel_cur [OF r])
    with t show "\<exists>u uh. curthread i ?st = Some u \<and> threads ?st u = Some uh \<and> t_cpu uh = Some i" by auto
  next
    fix i u assume u: "running ?st i u" "u \<notin> insert t X"
    with srel_run [OF r, of i u] I(3) show "detached (tlists ?st) u"
      "\<exists>th. threads ?st u = Some th \<and> t_proc th \<noteq> None \<and> t_state th \<in> {S_RUN, S_READY}" by auto
  qed
  ultimately show "srel (insert t X) ?st Q" by (simp add: srel_def)
qed

end
