(* ===== verification/Thread_Ops.thy ===== *)
theory Thread_Ops
  imports Thread_Inv
begin

text \<open>
  Every operation of the thread system returns on a state that satisfies the invariant and
  establishes it again.
\<close>

definition same_cpus :: "ksys \<Rightarrow> ksys \<Rightarrow> bool" where
  "same_cpus st st' \<longleftrightarrow> numcpus st' = numcpus st \<and> wc_name st' = wc_name st \<and>
     (\<forall>i. curthread i st' = curthread i st \<and> c_isidle (cpus st' i) = c_isidle (cpus st i))"

lemma same_cpus_refl [simp]: "same_cpus st st"
  by (simp add: same_cpus_def)

lemma same_cpus_trans: "same_cpus a b \<Longrightarrow> same_cpus b c \<Longrightarrow> same_cpus a c"
  by (simp add: same_cpus_def)

lemma quiet_same_cpus: "quiet st st' \<Longrightarrow> same_cpus st st'"
  by (simp add: same_cpus_def quiet_sel)

lemma same_cpus_upd [simp]:
  "same_cpus st (st\<lparr>threads := ts\<rparr>)" "same_cpus st (st\<lparr>tlists := tls\<rparr>)" "same_cpus st (st\<lparr>p_numthreads := n\<rparr>)"
  by (simp_all add: same_cpus_def)

lemma same_cpus_running: "same_cpus st st' \<Longrightarrow> running st' i t = running st i t"
  by (simp add: same_cpus_def running_def)

lemma quiet_cong_p: "quiet st st' \<Longrightarrow> quiet (st\<lparr>p_numthreads := n\<rparr>) (st'\<lparr>p_numthreads := n\<rparr>)"
  by (simp add: quiet_def)

lemma quiet_cong_thread:
  "quiet st st' \<Longrightarrow> threads st t = Some th \<Longrightarrow> threads st' t = Some th' \<Longrightarrow> th_same (f th) (f th') \<Longrightarrow>
   quiet (st\<lparr>threads := (threads st)(t \<mapsto> f th)\<rparr>) (st'\<lparr>threads := (threads st')(t \<mapsto> f th')\<rparr>)"
  by (simp add: quiet_def)

lemma locks_upd [simp]:
  "locks (st\<lparr>threads := ts\<rparr>) c L = locks st c L" "locks (st\<lparr>tlists := tls\<rparr>) c L = locks st c L"
  "locks (st\<lparr>p_numthreads := n\<rparr>) c L = locks st c L"
  by (simp_all add: locks_def)

text \<open>A lock taken and released again.\<close>

lemma locks_insert_remove: "lk \<notin> L \<Longrightarrow> insert lk L - {lk} = L"
  by auto

lemma locks_card_insert: "locks st c L \<Longrightarrow> card L < 50 \<Longrightarrow> card (insert lk L) < 100"
  by (simp add: locks_def card_insert_if)

subsection \<open>Making a thread runnable\<close>

lemma make_runnable_core:
  assumes r: "srel (insert t X) st Q" and c: "c < numcpus st" and th: "threads st t = Some th" "t_cpu th = Some tc" "tc < numcpus st"
    and d: "detached (tlists st) t" and q: "Q (Runqueue tc) = Some xs" and l: "locks st c L" "card L < 40"
    and lk: "if have then Runqueue_lock tc \<in> L else Runqueue_lock tc \<notin> L" "Ipi_lock tc \<notin> L"
  shows "\<exists>st' th'. thread_make_runnable c t have st = Inr st' \<and> srel (insert t X) st' (Q(Runqueue tc \<mapsto> xs @ [t])) \<and>
    locks st' c L \<and> same_cpus st st' \<and> threads st' t = Some th' \<and> th_same (th\<lparr>t_state := S_READY\<rparr>) th' \<and>
    (\<forall>u. u \<noteq> t \<longrightarrow> detached (tlists st) u \<longrightarrow> detached (tlists st') u)"
proof -
  define L1 where "L1 = (if have then L else insert (Runqueue_lock tc) L)"
  have cur: "has_cur c st" by (rule srel_has_cur [OF r c])
  have c1: "card L1 < 90" using l locks_card_insert [OF l(1)] unfolding L1_def by (simp add: locks_def card_insert_if)
  obtain st1 where s1: "(if have then if spinlock_do_i_hold (spinlocks st (Runqueue_lock tc)) c then Inr st else Inl KAssertFail
            else spinlock_acquire c (Runqueue_lock tc) st) = Inr st1" "quiet st st1" "locks st1 c L1"
  proof (cases "have")
    case True
    then have "spinlock_do_i_hold (spinlocks st (Runqueue_lock tc)) c"
      using l lk by (simp add: spinlock_do_i_hold_def locks_def)
    with True l that [of st] show ?thesis by (simp add: L1_def)
  next
    case False
    with spinlock_acquire_ok [OF l(1) _ cur, of "Runqueue_lock tc"] lk l that show ?thesis by (auto simp: L1_def)
  qed
  obtain th1 where th1: "threads st1 t = Some th1" "th_same th th1" using quiet_thread [OF s1(2) th(1)] by blast
  let ?th2 = "th1\<lparr>t_state := S_READY\<rparr>"
  let ?st2 = "st1\<lparr>threads := (threads st1)(t \<mapsto> ?th2)\<rparr>"
  have r1: "srel (insert t X) st1 Q" by (rule quiet_srel [OF s1(2) r])
  have r2: "srel (insert t X) ?st2 Q"
    by (rule srel_upd_thread [OF r1 insertI1 th1(1)]) (use srel_ok [OF r1 th1(1)] in \<open>simp_all add: thread_ok_def\<close>)
  have d2: "detached (tlists ?st2) t" using d quiet_sel(1) [OF s1(2)] by simp
  obtain tls where tls: "on_lists (threadlist_addtail (Runqueue tc) t) ?st2 = Inr (?st2\<lparr>tlists := tls\<rparr>)"
    "srel (insert t X) (?st2\<lparr>tlists := tls\<rparr>) (Q(Runqueue tc \<mapsto> xs @ [t]))"
    "\<forall>u. u \<noteq> t \<longrightarrow> detached (tlists ?st2) u \<longrightarrow> detached tls u"
    using srel_addtail [OF r2 insertI1 _ d2 q] by auto
  let ?st3 = "?st2\<lparr>tlists := tls\<rparr>"
  have c3: "c < numcpus ?st3" using c quiet_sel(2) [OF s1(2)] by simp
  have l3: "locks ?st3 c L1" using s1(3) by simp
  have ipi: "Ipi_lock tc \<notin> L1" using lk by (simp add: L1_def)
  obtain st4 where s4: "(if c_isidle (cpus ?st3 tc) \<and> tc \<noteq> c then ipi_send c tc IPI_UNIDLE ?st3 else Inr ?st3) = Inr st4"
    "quiet ?st3 st4" "locks st4 c L1"
    using ipi_send_ok [OF l3 ipi srel_has_cur [OF tls(2) c3] c1, of IPI_UNIDLE] l3
    by (cases "c_isidle (cpus ?st3 tc) \<and> tc \<noteq> c") (auto simp: IPI_UNIDLE_def)
  have cur4: "has_cur c st4" by (rule quiet_has_cur [OF s4(2) srel_has_cur [OF tls(2) c3]])
  obtain st5 where s5: "(if have then Inr st4 else spinlock_release c (Runqueue_lock tc) st4) = Inr st5" "quiet st4 st5" "locks st5 c L"
  proof (cases "have")
    case True
    with s4 that [of st4] show ?thesis by (simp add: L1_def)
  next
    case False
    then have "Runqueue_lock tc \<in> L1" "L1 - {Runqueue_lock tc} = L" using lk by (auto simp: L1_def)
    with spinlock_release_ok [OF s4(3) _ cur4, of "Runqueue_lock tc"] c1 False that show ?thesis by auto
  qed
  have q35: "quiet ?st3 st5" by (rule quiet_trans [OF s4(2) s5(2)])
  have "threads ?st3 t = Some ?th2" by simp
  from quiet_thread [OF q35 this] obtain th' where th': "threads st5 t = Some th'" "th_same ?th2 th'" by blast
  have "thread_make_runnable c t have st = Inr st5"
    using th s1(1) th1(1) tls(1) s4(1) s5(1) by (simp add: thread_make_runnable_def upd_thread_def)
  moreover have "srel (insert t X) st5 (Q(Runqueue tc \<mapsto> xs @ [t]))" by (rule quiet_srel [OF q35 tls(2)])
  moreover have "same_cpus st st5"
    using quiet_same_cpus [OF s1(2)] quiet_same_cpus [OF q35] by (simp add: same_cpus_def)
  moreover have "th_same (th\<lparr>t_state := S_READY\<rparr>) th'"
    by (rule th_same_trans [OF _ th'(2)]) (use th1(2) in \<open>auto simp: th_same_def\<close>)
  moreover have "\<forall>u. u \<noteq> t \<longrightarrow> detached (tlists st) u \<longrightarrow> detached (tlists st5) u"
    using tls(3) quiet_sel(1) [OF s1(2)] quiet_sel(1) [OF q35] by simp
  ultimately show ?thesis using s5(3) th'(1) by blast
qed

text \<open>A thread that is on no list and does not run becomes ready.\<close>

lemma make_runnable_ok:
  assumes r: "srel (insert t X) st Q" and c: "c < numcpus st" and th: "threads st t = Some th" "t_cpu th = Some tc" "tc < numcpus st"
    and d: "detached (tlists st) t" and q: "Q (Runqueue tc) = Some xs" and l: "locks st c L" "card L < 40"
    and lk: "Runqueue_lock tc \<notin> L" "Ipi_lock tc \<notin> L" and pr: "t_proc th \<noteq> None" and nr: "\<And>i. \<not> running st i t"
  shows "\<exists>st'. thread_make_runnable c t False st = Inr st' \<and> srel X st' (Q(Runqueue tc \<mapsto> xs @ [t])) \<and>
    locks st' c L \<and> same_cpus st st' \<and> (\<forall>u. u \<noteq> t \<longrightarrow> detached (tlists st) u \<longrightarrow> detached (tlists st') u)"
proof -
  obtain st' th' where m: "thread_make_runnable c t False st = Inr st'" "srel (insert t X) st' (Q(Runqueue tc \<mapsto> xs @ [t]))"
    "locks st' c L" "same_cpus st st'" "threads st' t = Some th'" "th_same (th\<lparr>t_state := S_READY\<rparr>) th'"
    "\<forall>u. u \<noteq> t \<longrightarrow> detached (tlists st) u \<longrightarrow> detached (tlists st') u"
    using make_runnable_core [OF r c th d q l, of False] lk by auto
  have on: "t_state th' = S_READY" "t_cpu th' = Some tc" "t_proc th' \<noteq> None" using m(6) th(2) pr by (simp_all add: th_same_def)
  have nl: "t \<notin> set ys" if "Q l' = Some ys" for l' ys
    by (rule detached_notin [OF tl_heap_rep [OF srel_heap [OF r] that] d])
  have "srel X st' (Q(Runqueue tc \<mapsto> xs @ [t]))"
  proof (rule srel_settle [OF m(2,5)])
    show "\<exists>i<numcpus st'. t_cpu th' = Some i" using on th(3) m(4) by (simp add: same_cpus_def)
    show "placed st' (Q(Runqueue tc \<mapsto> xs @ [t])) t" unfolding placed_def by (intro disjI1 exI [of _ "Runqueue tc"]) simp
  next
    fix l' ys assume "(Q(Runqueue tc \<mapsto> xs @ [t])) l' = Some ys" "t \<in> set ys"
    then show "on_list l' th'" using nl on by (auto split: if_splits)
  next
    fix i assume "running st' i t"
    then show "detached (tlists st') t \<and> t_proc th' \<noteq> None \<and> t_state th' \<in> {S_RUN, S_READY}"
      using nr same_cpus_running [OF m(4)] by blast
  qed
  with m show ?thesis by blast
qed

subsection \<open>Processes\<close>

lemma ksys_upd_swap: "st\<lparr>p_numthreads := n, threads := ts\<rparr> = (st :: ksys)\<lparr>threads := ts, p_numthreads := n\<rparr>"
  by simp

lemma proc_update:
  assumes q: "quiet (st\<lparr>p_numthreads := n\<rparr>) st3" and l: "locks st3 c L" and cur: "has_cur c st3" and th: "threads st t = Some th"
    and f: "\<And>a b. th_same a b \<Longrightarrow> th_same (f a) (f b)" and spl: "\<And>a. t_curspl (f a) = t_curspl a"
  shows "\<exists>st6. rbind (splhigh c st3) (\<lambda>(spl, st4). rbind (upd_thread t f st4) (\<lambda>st5.
      rbind (splx c spl st5) (\<lambda>(r, st6). Inr st6))) = Inr st6 \<and>
    quiet (st\<lparr>threads := (threads st)(t \<mapsto> f th), p_numthreads := n\<rparr>) st6 \<and> locks st6 c L"
proof -
  obtain spl st4 where s4: "splhigh c st3 = Inr (spl, st4)" "spl \<in> {0, 1}" "quiet st3 st4" "locks st4 c L"
    using splx_ok [OF l cur, of IPL_HIGH] by (auto simp: splhigh_def IPL_HIGH_def)
  have q4: "quiet (st\<lparr>p_numthreads := n\<rparr>) st4" by (rule quiet_trans [OF q s4(3)])
  obtain th4 where th4: "threads st4 t = Some th4" "th_same th th4" using quiet_thread [OF q4, of t th] th by auto
  let ?st5 = "st4\<lparr>threads := (threads st4)(t \<mapsto> f th4)\<rparr>"
  have "quiet (st\<lparr>p_numthreads := n\<rparr>\<lparr>threads := (threads (st\<lparr>p_numthreads := n\<rparr>))(t \<mapsto> f th)\<rparr>) ?st5"
    using quiet_cong_thread [OF q4 _ th4(1), of th f] th f [OF th4(2)] by simp
  then have q5: "quiet (st\<lparr>threads := (threads st)(t \<mapsto> f th), p_numthreads := n\<rparr>) ?st5" by (simp add: ksys_upd_swap)
  have "has_cur c st4" by (rule quiet_has_cur [OF s4(3) cur])
  then have cur5: "has_cur c ?st5" using th4 spl [of th4] by (auto simp: has_cur_def)
  obtain r st6 where s6: "splx c spl ?st5 = Inr (r, st6)" "quiet ?st5 st6" "locks st6 c L"
    using splx_ok [OF _ cur5 s4(2), of L] s4(4) by auto
  have "rbind (splhigh c st3) (\<lambda>(spl, st4). rbind (upd_thread t f st4) (\<lambda>st5.
      rbind (splx c spl st5) (\<lambda>(r, st6). Inr st6))) = Inr st6"
    using s4(1) s6(1) th4 by (simp add: upd_thread_def)
  with quiet_trans [OF q5 s6(2)] s6(3) show ?thesis by blast
qed

lemma proc_count:
  assumes l: "locks st c L" "card L < 40" and lk: "P_lock p \<notin> L" and cur: "has_cur c st"
  shows "\<exists>st1 st3. spinlock_acquire c (P_lock p) st = Inr st1 \<and> quiet st st1 \<and>
    spinlock_release c (P_lock p) (st1\<lparr>p_numthreads := n\<rparr>) = Inr st3 \<and> quiet (st\<lparr>p_numthreads := n\<rparr>) st3 \<and> locks st3 c L"
proof -
  obtain st1 where s1: "spinlock_acquire c (P_lock p) st = Inr st1" "quiet st st1" "locks st1 c (insert (P_lock p) L)"
    using spinlock_acquire_ok [OF l(1) lk cur] l(2) by auto
  let ?st2 = "st1\<lparr>p_numthreads := n\<rparr>"
  have q2: "quiet (st\<lparr>p_numthreads := n\<rparr>) ?st2" by (rule quiet_cong_p [OF s1(2)])
  have cur2: "has_cur c ?st2" using quiet_has_cur [OF s1(2) cur] by (simp add: has_cur_def)
  have l2: "locks ?st2 c (insert (P_lock p) L)" using s1(3) by simp
  have "card (insert (P_lock p) L) < 100" by (rule locks_card_insert [OF l(1)]) (use l(2) in simp)
  from spinlock_release_ok [OF l2 insertI1 cur2 this]
  obtain st3 where "spinlock_release c (P_lock p) ?st2 = Inr st3" "quiet ?st2 st3" "locks st3 c L"
    unfolding locks_insert_remove [OF lk] by blast
  with s1 quiet_trans [OF q2] show ?thesis by blast
qed

lemma proc_addthread_ok:
  assumes r: "srel X st Q" and c: "c < numcpus st" and t: "t \<in> X" "threads st t = Some th" "t_proc th = None"
    and l: "locks st c L" "card L < 40" "P_lock p \<notin> L"
  shows "\<exists>st' th'. proc_addthread c p t st = Inr (0, st') \<and> srel X st' Q \<and> locks st' c L \<and> same_cpus st st' \<and>
    tlists st' = tlists st \<and> threads st' t = Some th' \<and> th_same (th\<lparr>t_proc := Some p\<rparr>) th'"
proof -
  let ?n = "(p_numthreads st)(p := p_numthreads st p + 1)"
  obtain st1 st3 where s: "spinlock_acquire c (P_lock p) st = Inr st1" "quiet st st1"
    "spinlock_release c (P_lock p) (st1\<lparr>p_numthreads := ?n\<rparr>) = Inr st3" "quiet (st\<lparr>p_numthreads := ?n\<rparr>) st3" "locks st3 c L"
    using proc_count [OF l srel_has_cur [OF r c], of ?n] by blast
  have "has_cur c (st\<lparr>p_numthreads := ?n\<rparr>)" using srel_has_cur [OF r c] by (simp add: has_cur_def)
  note cur3 = quiet_has_cur [OF s(4) this]
  obtain st6 where s6: "rbind (splhigh c st3) (\<lambda>(spl, st4). rbind (upd_thread t (\<lambda>th. th\<lparr>t_proc := Some p\<rparr>) st4) (\<lambda>st5.
      rbind (splx c spl st5) (\<lambda>(r, st6). Inr st6))) = Inr st6"
    "quiet (st\<lparr>threads := (threads st)(t \<mapsto> th\<lparr>t_proc := Some p\<rparr>), p_numthreads := ?n\<rparr>) st6" "locks st6 c L"
    using proc_update [OF s(4,5) cur3 t(2), of "\<lambda>th. th\<lparr>t_proc := Some p\<rparr>"] by (auto simp: th_same_def)
  from s6(1) have "proc_addthread c p t st = Inr (0, st6)"
    using t s(1,3) quiet_sel(3) [OF s(2)] by (auto simp: proc_addthread_def)
  moreover have "srel X st6 Q" by (rule quiet_srel [OF s6(2) srel_join [OF r t]])
  moreover have "same_cpus st st6" using quiet_same_cpus [OF s6(2)] by (simp add: same_cpus_def)
  moreover have "tlists st6 = tlists st" using quiet_sel(1) [OF s6(2)] by simp
  moreover have "\<exists>th'. threads st6 t = Some th' \<and> th_same (th\<lparr>t_proc := Some p\<rparr>) th'"
    using quiet_thread [OF s6(2), of t "th\<lparr>t_proc := Some p\<rparr>"] by simp
  ultimately show ?thesis using s6(3) by blast
qed

lemma proc_remthread_ok:
  assumes r: "srel X st Q" and c: "c < numcpus st" and t: "t \<in> X" "threads st t = Some th" "t_proc th = Some p"
    and l: "locks st c L" "card L < 40" "P_lock p \<notin> L"
  shows "\<exists>st' th'. proc_remthread c t st = Inr st' \<and> srel X st' Q \<and> locks st' c L \<and> same_cpus st st' \<and>
    tlists st' = tlists st \<and> threads st' t = Some th' \<and> th_same (th\<lparr>t_proc := None\<rparr>) th'"
proof -
  let ?n = "(p_numthreads st)(p := p_numthreads st p - 1)"
  obtain st1 st3 where s: "spinlock_acquire c (P_lock p) st = Inr st1" "quiet st st1"
    "spinlock_release c (P_lock p) (st1\<lparr>p_numthreads := ?n\<rparr>) = Inr st3" "quiet (st\<lparr>p_numthreads := ?n\<rparr>) st3" "locks st3 c L"
    using proc_count [OF l srel_has_cur [OF r c], of ?n] by blast
  have "has_cur c (st\<lparr>p_numthreads := ?n\<rparr>)" using srel_has_cur [OF r c] by (simp add: has_cur_def)
  note cur3 = quiet_has_cur [OF s(4) this]
  obtain st6 where s6: "rbind (splhigh c st3) (\<lambda>(spl, st4). rbind (upd_thread t (\<lambda>th. th\<lparr>t_proc := None\<rparr>) st4) (\<lambda>st5.
      rbind (splx c spl st5) (\<lambda>(r, st6). Inr st6))) = Inr st6"
    "quiet (st\<lparr>threads := (threads st)(t \<mapsto> th\<lparr>t_proc := None\<rparr>), p_numthreads := ?n\<rparr>) st6" "locks st6 c L"
    using proc_update [OF s(4,5) cur3 t(2), of "\<lambda>th. th\<lparr>t_proc := None\<rparr>"] by (auto simp: th_same_def)
  note leave = srel_leave [OF r t]
  from s6(1) have "proc_remthread c t st = Inr st6"
    using t s(1,3) quiet_sel(3) [OF s(2)] leave(2) by (simp add: proc_remthread_def)
  moreover have "srel X st6 Q" by (rule quiet_srel [OF s6(2) leave(1)])
  moreover have "same_cpus st st6" using quiet_same_cpus [OF s6(2)] by (simp add: same_cpus_def)
  moreover have "tlists st6 = tlists st" using quiet_sel(1) [OF s6(2)] by simp
  moreover have "\<exists>th'. threads st6 t = Some th' \<and> th_same (th\<lparr>t_proc := None\<rparr>) th'"
    using quiet_thread [OF s6(2), of t "th\<lparr>t_proc := None\<rparr>"] by simp
  ultimately show ?thesis using s6(3) by blast
qed

subsection \<open>Forking\<close>

lemma thread_destroy_ok:
  assumes r: "srel (insert t X) st Q" and t: "threads st t = Some th" "t_proc th = None" "t_state th \<noteq> S_RUN" "detached (tlists st) t"
    and nc: "\<And>i. i < numcpus st \<Longrightarrow> curthread i st \<noteq> Some t" and c: "c < numcpus st"
  shows "thread_destroy c t st = Inr (st\<lparr>threads := (threads st)(t := None)\<rparr>)" and "srel X (st\<lparr>threads := (threads st)(t := None)\<rparr>) Q"
proof -
  show "thread_destroy c t st = Inr (st\<lparr>threads := (threads st)(t := None)\<rparr>)"
    using t nc [OF c] by (simp add: thread_destroy_def threadlistnode_cleanup_def detached_def Let_def)
  show "srel X (st\<lparr>threads := (threads st)(t := None)\<rparr>) Q" by (rule srel_free [OF r t(1,2,4) nc])
qed

lemma srel_running:
  assumes r: "srel X st Q" and run: "running st c t" and t: "t \<notin> X"
  obtains th where "threads st t = Some th" "t_cpu th = Some c" "t_proc th \<noteq> None" "detached (tlists st) t" "thread_ok th" "c < numcpus st"
proof -
  have c: "c < numcpus st" "curthread c st = Some t" using run by (simp_all add: running_def)
  obtain u uh where u: "curthread c st = Some u" "threads st u = Some uh" "t_cpu uh = Some c" "thread_ok uh" by (rule srel_cur [OF r c(1)])
  with c have "u = t" by simp
  with u c srel_run [OF r run t] that show thesis by fastforce
qed

lemma thread_fork_ok:
  assumes r: "srel {} st Q" and c: "c < numcpus st" and l: "locks st c {}" and run: "running st c cur"
    and q: "Q (Runqueue c) = Some xs" and alloc: "\<And>t. alloc = Some t \<Longrightarrow> threads st t = None \<and> t \<in> {1..<4294967296}"
  shows "\<exists>e st' Q'. thread_fork c alloc strdup stack proc st = Inr (e, st') \<and> srel {} st' Q' \<and> locks st' c {} \<and> same_cpus st st' \<and>
    (if alloc \<noteq> None \<and> strdup \<and> stack then e = 0 \<and> Q' = Q(Runqueue c \<mapsto> xs @ [the alloc]) else e = ENOMEM \<and> Q' = Q)"
proof (cases "alloc \<noteq> None \<and> strdup")
  case False
  then have "thread_fork c alloc strdup stack proc st = Inr (ENOMEM, st)"
    by (cases alloc) (simp_all add: thread_fork_def thread_create_def)
  with False r l show ?thesis by auto
next
  case True
  then obtain t where t: "alloc = Some t" "strdup" by auto
  note fresh = alloc [OF t(1)]
  let ?st1 = "st\<lparr>threads := (threads st)(t \<mapsto> new_thread), tlists := threadlistnode_init t (tlists st)\<rparr>"
  have cr: "thread_create alloc strdup st = (Some t, ?st1)" using t by (simp add: thread_create_def)
  have r1: "srel {t} ?st1 Q" and d1: "detached (tlists ?st1) t" using srel_new [OF r, of t] fresh by simp_all
  obtain ch where ch: "threads st cur = Some ch" "t_proc ch \<noteq> None" "t_cpu ch = Some c"
    by (rule srel_running [OF r run]) simp_all
  have ct: "cur \<noteq> t" using ch(1) fresh by auto
  have nc: "curthread i st \<noteq> Some t" if i: "i < numcpus st" for i
  proof -
    obtain u uh where "curthread i st = Some u" "threads st u = Some uh" by (rule srel_cur [OF r i])
    then show ?thesis using fresh by auto
  qed
  show ?thesis
  proof (cases stack)
    case False
    have nc1: "curthread i ?st1 \<noteq> Some t" if "i < numcpus ?st1" for i using nc that by (simp add: curthread_def)
    have "thread_destroy c t ?st1 = Inr (?st1\<lparr>threads := (threads ?st1)(t := None)\<rparr>)" "srel {} (?st1\<lparr>threads := (threads ?st1)(t := None)\<rparr>) Q"
      using thread_destroy_ok [OF r1 _ _ _ d1 nc1, of new_thread c] c by (simp_all add: new_thread_def)
    moreover have "thread_fork c alloc strdup stack proc st = rbind (thread_destroy c t ?st1) (\<lambda>st2. Inr (ENOMEM, st2))"
      using False cr by (simp add: thread_fork_def)
    moreover have "locks (?st1\<lparr>threads := (threads ?st1)(t := None)\<rparr>) c {}" using l by (simp add: locks_def)
    moreover have "same_cpus st (?st1\<lparr>threads := (threads ?st1)(t := None)\<rparr>)" by (simp add: same_cpus_def curthread_def)
    ultimately show ?thesis using False by auto
  next
    case stack: True
    let ?nt = "(thread_checkstack_init new_thread)\<lparr>t_cpu := Some c\<rparr>"
    let ?st3 = "?st1\<lparr>threads := (threads ?st1)(t \<mapsto> ?nt)\<rparr>"
    have nt: "thread_ok ?nt" "t_proc ?nt = None"
      by (simp_all add: thread_ok_def thread_checkstack_init_def new_thread_def IPL_HIGH_def)
    have r3: "srel {t} ?st3 Q"
      by (rule srel_upd_thread [OF r1, of t new_thread]) (use nt nc in \<open>auto simp: curthread_def new_thread_def\<close>)
    obtain p where p: "(if proc = None then t_proc ch else proc) = Some p" using ch(2) by (cases proc) auto
    have l3: "locks ?st3 c {}" using l by (simp add: locks_def)
    obtain st4 th4 where s4: "proc_addthread c p t ?st3 = Inr (0, st4)" "srel {t} st4 Q" "locks st4 c {}" "same_cpus ?st3 st4"
      "tlists st4 = tlists ?st3" "threads st4 t = Some th4" "th_same (?nt\<lparr>t_proc := Some p\<rparr>) th4"
      using proc_addthread_ok [OF r3, of c t ?nt "{}" p] c nt l3 by auto
    let ?th6 = "th4\<lparr>t_iplhigh_count := t_iplhigh_count th4 + 1, t_context := Startup\<rparr>"
    let ?st6 = "st4\<lparr>threads := (threads st4)(t \<mapsto> ?th6)\<rparr>"
    have r6: "srel {t} ?st6 Q"
      by (rule srel_upd_thread [OF s4(2) _ s4(6)]) (use srel_ok [OF s4(2,6)] in \<open>auto simp: thread_ok_def\<close>)
    have n6: "numcpus ?st6 = numcpus st" using s4(4) by (simp add: same_cpus_def)
    have nr: "\<not> running ?st6 i t" for i
      using nc [of i] s4(4) n6 by (auto simp: running_def same_cpus_def curthread_def)
    have cpu6: "t_cpu ?th6 = Some c" "t_proc ?th6 \<noteq> None" using s4(7) by (simp_all add: th_same_def)
    obtain st7 where s7: "thread_make_runnable c t False ?st6 = Inr st7" "srel {} st7 (Q(Runqueue c \<mapsto> xs @ [t]))"
      "locks st7 c {}" "same_cpus ?st6 st7"
      using make_runnable_ok [OF r6 _ _ cpu6(1) _ _ q, of c "{}"] c n6 nr s4(3,5) d1 cpu6(2) by auto
    have g: "get_thread (curthread c ?st1) ?st1 = Inr ch"
      using run ch(1) ct by (simp add: running_def curthread_def get_thread_def)
    have "thread_fork c alloc strdup stack proc st = Inr (0, st7)"
      using cr stack p s4(1,6) s7(1) ch(3) run ch(1) ct
      by (simp add: thread_fork_def upd_thread_def running_def get_thread_def curthread_def)
    moreover have "same_cpus st st7"
      using s4(4) s7(4) by (simp add: same_cpus_def curthread_def)
    ultimately show ?thesis using s7 t stack by auto
  qed
qed

end
