(* ===== verification/Thread_Switch.thy ===== *)
theory Thread_Switch
  imports Thread_Ops
begin

text \<open>The context switch keeps the invariant of the thread system.\<close>

subsection \<open>Zombies\<close>

lemma exorcise_step:
  assumes "threadlist_remhead (Zombies c) (tlists st) = Inr (Some z, tls)" and "curthread c st \<noteq> Some z"
    and "threads st z = Some th" and "t_state th = S_ZOMBIE" and "thread_destroy c z (st\<lparr>tlists := tls\<rparr>) = Inr st2"
  shows "exorcise c st = exorcise c st2"
  using assms by (subst exorcise.simps) (simp add: Let_def)

lemma exorcise_end:
  assumes "threadlist_remhead (Zombies c) (tlists st) = Inr (None, tls)"
  shows "exorcise c st = Some (Inr (st\<lparr>tlists := tls\<rparr>))"
  using assms by (subst exorcise.simps) (simp add: Let_def)

lemma exorcise_ok:
  assumes "srel X st Q" and "c < numcpus st" and "Q (Zombies c) = Some zs" and "set zs \<inter> X = {}" and "curthread c st \<notin> Some ` set zs"
  shows "\<exists>tls ts. exorcise c st = Some (Inr (st\<lparr>tlists := tls, threads := ts\<rparr>)) \<and>
    srel X (st\<lparr>tlists := tls, threads := ts\<rparr>) (Q(Zombies c \<mapsto> [])) \<and>
    (\<forall>u. u \<notin> set zs \<longrightarrow> ts u = threads st u) \<and> (\<forall>u. detached (tlists st) u \<longrightarrow> detached tls u)"
  using assms
proof (induction zs arbitrary: st Q)
  case Nil
  have "exorcise c st = Some (Inr (st\<lparr>tlists := tlists st\<rparr>))"
    by (rule exorcise_end [OF srel_remhead_empty [OF Nil(1,3)]])
  then have "exorcise c st = Some (Inr (st\<lparr>tlists := tlists st, threads := threads st\<rparr>))" by simp
  moreover have "Q(Zombies c \<mapsto> []) = Q" using Nil(3) by auto
  ultimately show ?case using Nil(1) by (intro exI [of _ "tlists st"] exI [of _ "threads st"]) simp
next
  case (Cons z zs)
  obtain tls where tls: "threadlist_remhead (Zombies c) (tlists st) = Inr (Some z, tls)"
    "srel (insert z X) (st\<lparr>tlists := tls\<rparr>) (Q(Zombies c \<mapsto> zs))" "detached tls z" "\<forall>u. detached (tlists st) u \<longrightarrow> detached tls u"
    using srel_remhead [OF Cons.prems(1,3)] by blast
  let ?st1 = "st\<lparr>tlists := tls\<rparr>"
  obtain th where th: "threads st z = Some th" "t_state th = S_ZOMBIE" "t_proc th = None" "t_cpu th = Some c"
    using srel_listed [OF Cons.prems(1,3), of z] Cons.prems(4) by auto
  have nc: "curthread i ?st1 \<noteq> Some z" if i: "i < numcpus ?st1" for i
  proof (cases "i = c")
    case True
    then show ?thesis using Cons.prems(5) by auto
  next
    case False
    obtain u uh where "curthread i st = Some u" "threads st u = Some uh" "t_cpu uh = Some i"
      by (rule srel_cur [OF Cons.prems(1), of i]) (use i in simp)
    then show ?thesis using False th by auto
  qed
  let ?st2 = "?st1\<lparr>threads := (threads ?st1)(z := None)\<rparr>"
  have de: "thread_destroy c z ?st1 = Inr ?st2" and r2: "srel X ?st2 (Q(Zombies c \<mapsto> zs))"
    using thread_destroy_ok [OF tls(2) _ th(3) _ _ nc, of c] th(1,2) tls(3) Cons.prems(2) by simp_all
  have ex: "exorcise c st = exorcise c ?st2"
    using nc [of c] Cons.prems(2) by (intro exorcise_step [OF tls(1) _ th(1,2) de]) simp
  have "\<exists>tls' ts. exorcise c ?st2 = Some (Inr (?st2\<lparr>tlists := tls', threads := ts\<rparr>)) \<and>
      srel X (?st2\<lparr>tlists := tls', threads := ts\<rparr>) ((Q(Zombies c \<mapsto> zs))(Zombies c \<mapsto> [])) \<and>
      (\<forall>u. u \<notin> set zs \<longrightarrow> ts u = threads ?st2 u) \<and> (\<forall>u. detached (tlists ?st2) u \<longrightarrow> detached tls' u)"
    by (rule Cons.IH [OF r2]) (use Cons.prems(2,4,5) in auto)
  then obtain tls' ts where t: "exorcise c ?st2 = Some (Inr (?st2\<lparr>tlists := tls', threads := ts\<rparr>))"
    "srel X (?st2\<lparr>tlists := tls', threads := ts\<rparr>) (Q(Zombies c \<mapsto> []))"
    "\<forall>u. u \<notin> set zs \<longrightarrow> ts u = threads ?st2 u" "\<forall>u. detached (tlists ?st2) u \<longrightarrow> detached tls' u"
    unfolding fun_upd_upd by blast
  then show ?case unfolding ex using tls(4)
    by (intro exI [of _ tls'] exI [of _ ts]) (simp del: fun_upd_apply add: fun_upd_other)
qed

subsection \<open>Switching in\<close>

lemma srel_unlisted:
  assumes "srel X st Q" and "detached (tlists st) t" and "Q l = Some xs"
  shows "t \<notin> set xs"
  by (rule detached_notin [OF tl_heap_rep [OF srel_heap [OF assms(1)] assms(3)] assms(2)])

lemma switch_in_ok:
  assumes r: "srel {next} st Q" and c: "c < numcpus st" "c_isidle (cpus st c)"
    and th: "threads st next = Some th" "t_cpu th = Some c" "t_proc th \<noteq> None" "detached (tlists st) next"
    and z: "Q (Zombies c) = Some zs" and l: "locks st c {Runqueue_lock c}"
  shows "\<exists>st'. thread_switch_in c next st = Some (Inr st') \<and> srel {} st' (Q(Zombies c \<mapsto> [])) \<and> locks st' c {} \<and>
    running st' c next \<and> numcpus st' = numcpus st"
proof -
  let ?st1 = "upd_cpu c (\<lambda>cp. cp\<lparr>c_isidle := False, c_curthread := Some next\<rparr>) st"
  let ?th2 = "th\<lparr>t_wchan_name := None, t_state := S_RUN\<rparr>"
  let ?st2 = "?st1\<lparr>threads := (threads ?st1)(next \<mapsto> ?th2)\<rparr>"
  have r1: "srel {next} ?st1 Q" by (rule srel_unidle [OF r c _ th(1,2)]) simp
  have cur1: "curthread c ?st1 = Some next" by (simp add: curthread_def)
  have ok: "thread_ok ?th2" using srel_ok [OF r th(1)] by (simp add: thread_ok_def)
  have r2: "srel {next} ?st2 Q"
    by (rule srel_upd_thread [OF r1 _ _ ok, where th = th]) (use th in simp_all)
  have run2: "running ?st2 i next \<longleftrightarrow> i = c" for i
  proof
    assume "running ?st2 i next"
    then have "i < numcpus ?st2" "curthread i ?st2 = curthread c ?st2" using cur1 by (simp_all add: running_def)
    then show "i = c" using srel_cur_unique [OF r2, of i c] c by simp
  qed (use c cur1 in \<open>simp add: running_def\<close>)
  have r2': "srel {} ?st2 Q"
  proof (rule srel_settle [OF r2])
    show "threads ?st2 next = Some ?th2" by simp
    show "\<exists>i<numcpus ?st2. t_cpu ?th2 = Some i" using th c by simp
    show "placed ?st2 Q next" unfolding placed_def using run2 by blast
    show "on_list l' ?th2" if "Q l' = Some xs" "next \<in> set xs" for l' xs
      using srel_unlisted [OF r th(4) that(1)] that(2) by simp
  qed (use th in simp)
  have l2: "locks ?st2 c {Runqueue_lock c}" by (rule locks_cong [OF l]) simp_all
  have c2: "c < numcpus ?st2" using c by simp
  obtain st3 where s3: "spinlock_release c (Runqueue_lock c) ?st2 = Inr st3" "quiet ?st2 st3" "locks st3 c {}"
    using spinlock_release_ok [OF l2 _ srel_has_cur [OF r2' c2], of "Runqueue_lock c"] by auto
  have r3: "srel {} st3 Q" by (rule quiet_srel [OF s3(2) r2'])
  have c3: "c < numcpus st3" using c quiet_sel(2) [OF s3(2)] by simp
  have cur3: "curthread c st3 = Some next" using quiet_sel(5) [OF s3(2)] cur1 by simp
  have nz: "next \<notin> set zs" by (rule srel_unlisted [OF r th(4) z])
  obtain tls ts where s4: "exorcise c st3 = Some (Inr (st3\<lparr>tlists := tls, threads := ts\<rparr>))"
    "srel {} (st3\<lparr>tlists := tls, threads := ts\<rparr>) (Q(Zombies c \<mapsto> []))"
    using exorcise_ok [OF r3 c3 z] cur3 nz by auto
  let ?st4 = "st3\<lparr>tlists := tls, threads := ts\<rparr>"
  have c4: "c < numcpus ?st4" using c3 by simp
  define spl where "spl = (case t_context th of Startup \<Rightarrow> 0 | Switched s \<Rightarrow> s)"
  have spl: "spl \<in> {0, 1}" using srel_ok [OF r th(1)] by (auto simp: spl_def thread_ok_def split: tcontext.splits)
  have l4: "locks ?st4 c {}" using s3(3) by simp
  obtain rr st5 where s5: "splx c spl ?st4 = Inr (rr, st5)" "quiet ?st4 st5" "locks st5 c {}"
    using splx_ok [OF l4 srel_has_cur [OF s4(2) c4] spl] by blast
  have "thread_switch_in c next st = Some (Inr st5)"
  proof (cases "t_context th")
    case Startup
    then show ?thesis
      using th(1) s3(1) s4(1) s5(1) by (simp add: thread_switch_in_def upd_thread_def Let_def spl0_def spl_def IPL_NONE_def)
  next
    case (Switched s)
    then show ?thesis
      using th(1) s3(1) s4(1) s5(1) by (simp add: thread_switch_in_def upd_thread_def Let_def spl_def)
  qed
  moreover have "srel {} st5 (Q(Zombies c \<mapsto> []))" by (rule quiet_srel [OF s5(2) s4(2)])
  moreover have "running st5 c next"
    using quiet_running [OF s5(2), of c "next"] quiet_running [OF s3(2), of c "next"] run2 [of c] by simp
  moreover have "numcpus st5 = numcpus st" using quiet_sel(2) [OF s5(2)] quiet_sel(2) [OF s3(2)] by simp
  ultimately show ?thesis using s5(3) by blast
qed

text \<open>One round of the loop that looks for work on an idle CPU.\<close>

lemma switch_round_ok:
  assumes r: "srel {} st Q" and c: "c < numcpus st" "c_isidle (cpus st c)" and q: "Q (Runqueue c) = Some xs" and z: "Q (Zombies c) = Some zs"
    and l: "locks st c {Runqueue_lock c}"
  shows "case xs of
      [] \<Rightarrow> \<exists>st'. thread_switch_round c st = Some (Inr st') \<and> srel {} st' Q \<and> locks st' c {} \<and> same_cpus st st'
    | next # ys \<Rightarrow> \<exists>st'. thread_switch_round c st = Some (Inr st') \<and> srel {} st' (Q(Runqueue c \<mapsto> ys, Zombies c \<mapsto> [])) \<and>
        locks st' c {} \<and> running st' c next \<and> numcpus st' = numcpus st"
proof (cases xs)
  case Nil
  with q have "threadlist_remhead (Runqueue c) (tlists st) = Inr (None, tlists st)" using srel_remhead_empty [OF r] by simp
  moreover obtain st' where "spinlock_release c (Runqueue_lock c) st = Inr st'" "quiet st st'" "locks st' c {}"
    using spinlock_release_ok [OF l _ srel_has_cur [OF r c(1)], of "Runqueue_lock c"] by auto
  ultimately show ?thesis
    using Nil quiet_srel [OF _ r] quiet_same_cpus by (auto simp: thread_switch_round_def)
next
  case (Cons "next" ys)
  obtain tls where tls: "threadlist_remhead (Runqueue c) (tlists st) = Inr (Some next, tls)"
    "srel {next} (st\<lparr>tlists := tls\<rparr>) (Q(Runqueue c \<mapsto> ys))" "detached tls next"
    using srel_remhead [OF r, of "Runqueue c" "next" ys] q Cons by auto
  obtain th where th: "threads st next = Some th" "t_cpu th = Some c" "t_proc th \<noteq> None"
    using srel_listed [OF r q, of "next"] Cons by auto
  have "\<exists>st'. thread_switch_in c next (st\<lparr>tlists := tls\<rparr>) = Some (Inr st') \<and> srel {} st' (Q(Runqueue c \<mapsto> ys, Zombies c \<mapsto> [])) \<and>
      locks st' c {} \<and> running st' c next \<and> numcpus st' = numcpus (st\<lparr>tlists := tls\<rparr>)"
    by (rule switch_in_ok [OF tls(2)]) (use c th tls(3) z l in simp_all)
  then show ?thesis using Cons tls(1) by (simp add: thread_switch_round_def)
qed

subsection \<open>Switching out\<close>

text \<open>Where a thread goes when it stops running, and what it must bring with it.\<close>

fun dest_list :: "nat \<Rightarrow> nat option \<Rightarrow> threadstate \<Rightarrow> listid" where
  "dest_list c wc S_SLEEP = Wchan (the wc)"
| "dest_list c wc S_ZOMBIE = Zombies c"
| "dest_list c wc _ = Runqueue c"

definition dest_ok :: "threadstate \<Rightarrow> nat option \<Rightarrow> lockid option \<Rightarrow> lockid set \<Rightarrow> thread \<Rightarrow> bool" where
  "dest_ok newstate wc lk L th \<longleftrightarrow>
     (case newstate of
        S_RUN \<Rightarrow> False
      | S_READY \<Rightarrow> L = {} \<and> t_proc th \<noteq> None
      | S_SLEEP \<Rightarrow> wc \<noteq> None \<and> (\<exists>w. lk = Some (Wc_lock w) \<and> L = {Wc_lock w}) \<and> t_proc th \<noteq> None
      | S_ZOMBIE \<Rightarrow> L = {} \<and> t_proc th = None)"

lemma th_sameD: "th_same a b \<Longrightarrow> t_cpu b = t_cpu a \<and> t_proc b = t_proc a"
  by (simp add: th_same_def)

lemma queue_cur_ok:
  assumes r: "srel {cur} st Q" and c: "c < numcpus st" "curthread c st = Some cur"
    and th: "threads st cur = Some th" "t_cpu th = Some c" "detached (tlists st) cur"
    and d: "dest_ok newstate wc lk L th" and q: "Q (dest_list c wc newstate) = Some ys" and l: "locks st c (insert (Runqueue_lock c) L)"
    and wn: "newstate = S_SLEEP \<longrightarrow> wc_name st (the wc) \<noteq> None"
  shows "\<exists>st' th'. thread_queue_cur c newstate wc lk cur st = Inr st' \<and> srel {cur} st' (Q(dest_list c wc newstate \<mapsto> ys @ [cur])) \<and>
    locks st' c {Runqueue_lock c} \<and> same_cpus st st' \<and> threads st' cur = Some th' \<and> t_cpu th' = Some c \<and> t_proc th' = t_proc th"
proof (cases newstate)
  case S_RUN
  with d show ?thesis by (simp add: dest_ok_def)
next
  case S_READY
  with d have L: "L = {}" by (simp add: dest_ok_def)
  show ?thesis
    using make_runnable_core [OF r c(1) th(1,2) c(1) th(3), of ys "insert (Runqueue_lock c) L" True] S_READY q l L th(2)
    by (auto simp: thread_queue_cur_def dest!: th_sameD)
next
  case S_ZOMBIE
  with d have L: "L = {}" by (simp add: dest_ok_def)
  let ?th1 = "th\<lparr>t_wchan_name := Some ''ZOMBIE''\<rparr>"
  let ?st1 = "st\<lparr>threads := (threads st)(cur \<mapsto> ?th1)\<rparr>"
  have r1: "srel {cur} ?st1 Q"
    by (rule srel_upd_thread [OF r _ th(1)]) (use srel_ok [OF r th(1)] in \<open>simp_all add: thread_ok_def\<close>)
  obtain tls where "on_lists (threadlist_addtail (Zombies c) cur) ?st1 = Inr (?st1\<lparr>tlists := tls\<rparr>)"
    "srel {cur} (?st1\<lparr>tlists := tls\<rparr>) (Q(Zombies c \<mapsto> ys @ [cur]))"
    using srel_addtail [OF r1, of cur "Zombies c" ys] th(3) q S_ZOMBIE by auto
  moreover have "thread_queue_cur c newstate wc lk cur st = on_lists (threadlist_addtail (Zombies c) cur) ?st1"
    using S_ZOMBIE th(1) by (simp add: thread_queue_cur_def upd_thread_def)
  moreover have "same_cpus st (?st1\<lparr>tlists := tls\<rparr>)" for tls by (simp add: same_cpus_def)
  ultimately show ?thesis using S_ZOMBIE l L th by simp
next
  case S_SLEEP
  with d obtain w u where w: "wc = Some w" "lk = Some (Wc_lock u)" "L = {Wc_lock u}" by (auto simp: dest_ok_def)
  let ?th1 = "th\<lparr>t_wchan_name := wc_name st w\<rparr>"
  let ?st1 = "st\<lparr>threads := (threads st)(cur \<mapsto> ?th1)\<rparr>"
  have r1: "srel {cur} ?st1 Q"
    by (rule srel_upd_thread [OF r _ th(1)]) (use srel_ok [OF r th(1)] in \<open>simp_all add: thread_ok_def\<close>)
  obtain tls where tls: "on_lists (threadlist_addtail (Wchan w) cur) ?st1 = Inr (?st1\<lparr>tlists := tls\<rparr>)"
    "srel {cur} (?st1\<lparr>tlists := tls\<rparr>) (Q(Wchan w \<mapsto> ys @ [cur]))"
    using srel_addtail [OF r1, of cur "Wchan w" ys] th(3) q S_SLEEP w by auto
  let ?st2 = "?st1\<lparr>tlists := tls\<rparr>"
  have l2: "locks ?st2 c {Runqueue_lock c, Wc_lock u}" using l w by simp
  have cur2: "has_cur c ?st2" by (rule srel_has_cur [OF tls(2)]) (use c in simp)
  obtain st3 where s3: "spinlock_release c (Wc_lock u) ?st2 = Inr st3" "quiet ?st2 st3" "locks st3 c {Runqueue_lock c}"
  proof -
    have "{Runqueue_lock c, Wc_lock u} - {Wc_lock u} = {Runqueue_lock c}" by auto
    with spinlock_release_ok [OF l2 _ cur2, of "Wc_lock u"] that show ?thesis by auto
  qed
  have "threads ?st2 cur = Some ?th1" by simp
  from quiet_thread [OF s3(2) this] obtain th' where th': "threads st3 cur = Some th'" "th_same ?th1 th'" by blast
  have "thread_queue_cur c newstate wc lk cur st = Inr st3"
    using S_SLEEP th(1) w wn tls(1) s3(1) by (simp add: thread_queue_cur_def upd_thread_def)
  moreover have "srel {cur} st3 (Q(Wchan w \<mapsto> ys @ [cur]))" by (rule quiet_srel [OF s3(2) tls(2)])
  moreover have "same_cpus st st3" using quiet_same_cpus [OF s3(2)] by (simp add: same_cpus_def)
  ultimately show ?thesis using s3(3) th' S_SLEEP w th(2) by (auto dest!: th_sameD)
qed

lemma switch_finish:
  assumes r: "srel {cur} st (Q(l \<mapsto> ys @ [cur]))" and c: "c < numcpus st" "curthread c st = Some cur"
    and th: "threads st cur = Some th" "t_cpu th = Some c" and spl: "spl \<in> {0, 1}"
    and nl: "\<And>l xs. Q l = Some xs \<Longrightarrow> cur \<notin> set xs" and on: "on_list l (th\<lparr>t_state := newstate, t_context := Switched spl\<rparr>)"
  shows "srel {} (upd_cpu c (\<lambda>cp. cp\<lparr>c_isidle := True\<rparr>)
    (st\<lparr>threads := (threads st)(cur \<mapsto> th\<lparr>t_state := newstate, t_context := Switched spl\<rparr>)\<rparr>)) (Q(l \<mapsto> ys @ [cur]))"
proof -
  let ?th = "th\<lparr>t_state := newstate, t_context := Switched spl\<rparr>"
  let ?st1 = "st\<lparr>threads := (threads st)(cur \<mapsto> ?th)\<rparr>"
  let ?st2 = "upd_cpu c (\<lambda>cp. cp\<lparr>c_isidle := True\<rparr>) ?st1"
  have r1: "srel {cur} ?st1 (Q(l \<mapsto> ys @ [cur]))"
    by (rule srel_upd_thread [OF r _ th(1)]) (use srel_ok [OF r th(1)] spl in \<open>simp_all add: thread_ok_def\<close>)
  have r2: "srel {cur} ?st2 (Q(l \<mapsto> ys @ [cur]))"
    by (rule srel_idle [OF r1, of c cur l "ys @ [cur]"]) (use c in simp_all)
  show ?thesis
  proof (rule srel_settle [OF r2])
    show "threads ?st2 cur = Some ?th" by simp
    show "\<exists>i<numcpus ?st2. t_cpu ?th = Some i" using th c by simp
    show "placed ?st2 (Q(l \<mapsto> ys @ [cur])) cur" unfolding placed_def by (intro disjI1 exI [of _ l]) simp
  next
    fix l' xs assume "(Q(l \<mapsto> ys @ [cur])) l' = Some xs" "cur \<in> set xs"
    then show "on_list l' ?th" using nl on by (auto split: if_splits)
  next
    fix i assume "running ?st2 i cur"
    then have i: "i < numcpus st" "curthread i ?st2 = Some cur" "\<not> c_isidle (cpus ?st2 i)" by (simp_all add: running_def)
    then have "i \<noteq> c" by auto
    with i have "curthread i st = Some cur" by (simp add: curthread_def)
    with srel_cur_unique [OF r i(1) c(1)] c(2) \<open>i \<noteq> c\<close> have False by simp
    then show "detached (tlists ?st2) cur \<and> t_proc ?th \<noteq> None \<and> t_state ?th \<in> {S_RUN, S_READY}" ..
  qed
qed

lemma checkstack_ok: "thread_ok th \<Longrightarrow> thread_checkstack th = Inr ()"
  by (auto simp: thread_ok_def thread_checkstack_def)

lemma switch_out_ok:
  assumes r: "srel X st Q" and X: "X \<subseteq> {cur}" and run: "running st c cur"
    and th: "threads st cur = Some th" "t_cpu th = Some c" "detached (tlists st) cur"
    and d: "dest_ok newstate wc lk L th" and q: "Q (dest_list c wc newstate) = Some ys" and l: "locks st c L"
    and rq: "newstate = S_READY \<longrightarrow> ys \<noteq> []" and wn: "newstate = S_SLEEP \<longrightarrow> wc_name st (the wc) \<noteq> None"
  shows "\<exists>st'. thread_switch_out c newstate wc lk st = Inr (True, st') \<and> srel {} st' (Q(dest_list c wc newstate \<mapsto> ys @ [cur])) \<and>
    locks st' c {Runqueue_lock c} \<and> c_isidle (cpus st' c) \<and> numcpus st' = numcpus st"
proof -
  have c: "c < numcpus st" "curthread c st = Some cur" "\<not> c_isidle (cpus st c)" using run by (simp_all add: running_def)
  have r0: "srel {cur} st Q"
    using srel_relist [OF r srel_heap [OF r] X] srel_listed [OF r] by fastforce
  have Lc: "card L < 40" "Runqueue_lock c \<notin> L" using d by (auto simp: dest_ok_def split: threadstate.splits)
  obtain spl st1 where s1: "splhigh c st = Inr (spl, st1)" "spl \<in> {0, 1}" "quiet st st1" "locks st1 c L"
    using splx_ok [OF l srel_has_cur [OF r c(1)], of IPL_HIGH] by (auto simp: splhigh_def IPL_HIGH_def)
  have cur1: "has_cur c st1" by (rule quiet_has_cur [OF s1(3) srel_has_cur [OF r c(1)]])
  obtain st2 where s2: "spinlock_acquire c (Runqueue_lock c) st1 = Inr st2" "quiet st1 st2" "locks st2 c (insert (Runqueue_lock c) L)"
    using spinlock_acquire_ok [OF s1(4) Lc(2) cur1] Lc(1) by auto
  have q02: "quiet st st2" by (rule quiet_trans [OF s1(3) s2(2)])
  obtain th1 where th1: "threads st1 cur = Some th1" "th_same th th1" using quiet_thread [OF s1(3) th(1)] by blast
  obtain th2 where th2: "threads st2 cur = Some th2" "th_same th th2" using quiet_thread [OF q02 th(1)] by blast
  have r2: "srel {cur} st2 Q" by (rule quiet_srel [OF q02 r0])
  have c2: "c < numcpus st2" "curthread c st2 = Some cur" using c quiet_sel [OF q02] by simp_all
  have d2: "dest_ok newstate wc lk L th2" using d th2(2) by (auto simp: dest_ok_def th_same_def split: threadstate.splits)
  have det2: "detached (tlists st2) cur" using th(3) quiet_sel(1) [OF q02] by simp
  have cp2: "t_cpu th2 = Some c" using th2(2) th(2) by (simp add: th_same_def)
  obtain st3 th3 where s3: "thread_queue_cur c newstate wc lk cur st2 = Inr st3" "srel {cur} st3 (Q(dest_list c wc newstate \<mapsto> ys @ [cur]))"
    "locks st3 c {Runqueue_lock c}" "same_cpus st2 st3" "threads st3 cur = Some th3" "t_cpu th3 = Some c" "t_proc th3 = t_proc th2"
    using queue_cur_ok [OF r2 c2 th2(1) cp2 det2 d2 q s2(3)] wn quiet_sel(4) [OF q02] by auto
  let ?th4 = "th3\<lparr>t_state := newstate, t_context := Switched spl\<rparr>"
  let ?st4 = "upd_cpu c (\<lambda>cp. cp\<lparr>c_isidle := True\<rparr>) (st3\<lparr>threads := (threads st3)(cur \<mapsto> ?th4)\<rparr>)"
  have c3: "c < numcpus st3" "curthread c st3 = Some cur" using s3(4) c2 by (simp_all add: same_cpus_def)
  have on: "on_list (dest_list c wc newstate) ?th4"
    using d2 s3(6,7) by (cases newstate) (auto simp: dest_ok_def)
  have r4: "srel {} ?st4 (Q(dest_list c wc newstate \<mapsto> ys @ [cur]))"
    by (rule switch_finish [OF s3(2) c3 s3(5,6) s1(2) srel_unlisted [OF r2 det2] on])
  have ne: "\<not> (newstate = S_READY \<and> threadlist_isempty (Runqueue c) (tlists st2))"
    using rq srel_isempty [OF r2, of "Runqueue c" ys] q by auto
  have idle1: "\<not> c_isidle (cpus st1 c)" "curthread c st1 = Some cur" using c quiet_sel [OF s1(3)] by simp_all
  have "thread_switch_out c newstate wc lk st = Inr (True, ?st4)"
    using s1(1) idle1 th1(1) checkstack_ok [OF thread_ok_same [OF th1(2) srel_ok [OF r th(1)]]] s2(1) ne s3(1,5) c2(2)
    by (auto simp: thread_switch_out_def upd_thread_def Let_def)
  moreover have "locks ?st4 c {Runqueue_lock c}" by (rule locks_cong [OF s3(3)]) simp_all
  moreover have "numcpus ?st4 = numcpus st" using s3(4) quiet_sel(2) [OF q02] by (simp add: same_cpus_def)
  ultimately show ?thesis using r4 by (intro exI [of _ ?st4]) simp
qed

end
