(* ===== verification/Thread_Wake.thy ===== *)
theory Thread_Wake
  imports Thread_Switch
begin

text \<open>Yielding, sleeping, exiting, waking and creating wait channels keep the invariant.\<close>

text \<open>The invariant between operations: nothing is on its way and no lock is held.\<close>

definition sched :: "ksys \<Rightarrow> bool" where
  "sched st \<longleftrightarrow> (\<exists>Q. srel {} st Q \<and> Q Stacklist \<in> {None, Some []}) \<and> locks st 0 {}"

lemma locks_empty: "locks st c {} \<longleftrightarrow> locks st d {}"
  by (simp add: locks_def) metis

lemma schedI: "srel {} st Q \<Longrightarrow> Q Stacklist \<in> {None, Some []} \<Longrightarrow> locks st c {} \<Longrightarrow> sched st"
  unfolding sched_def using locks_empty by blast

lemma schedE:
  assumes "sched st"
  obtains Q where "srel {} st Q" "Q Stacklist \<in> {None, Some []}" "locks st c {}"
  using assms locks_empty unfolding sched_def by blast

subsection \<open>Switching\<close>

lemma dest_list_other: "dest_list c wc newstate \<noteq> Stacklist"
  by (cases newstate) simp_all

lemma round_sched:
  assumes r: "srel {} st Q" and c: "c < numcpus st" "c_isidle (cpus st c)" and l: "locks st c {Runqueue_lock c}"
    and s: "Q Stacklist \<in> {None, Some []}"
  shows "\<exists>st'. thread_switch_round c st = Some (Inr st') \<and> sched st' \<and> numcpus st' = numcpus st"
proof -
  obtain xs where q: "Q (Runqueue c) = Some xs" by (rule srel_queue [OF r c(1)])
  obtain zs where z: "Q (Zombies c) = Some zs" by (rule srel_zombies [OF r c(1)])
  show ?thesis
  proof (cases xs)
    case Nil
    with switch_round_ok [OF r c q z l] obtain st' where "thread_switch_round c st = Some (Inr st')" "srel {} st' Q" "locks st' c {}" "same_cpus st st'"
      by auto
    with schedI [where Q = Q and c = c] s show ?thesis by (auto simp: same_cpus_def)
  next
    case (Cons n ys)
    with switch_round_ok [OF r c q z l] obtain st' where "thread_switch_round c st = Some (Inr st')"
      "srel {} st' (Q(Runqueue c \<mapsto> ys, Zombies c \<mapsto> []))" "locks st' c {}" "numcpus st' = numcpus st"
      by (auto simp del: fun_upd_apply)
    moreover have "(Q(Runqueue c \<mapsto> ys, Zombies c \<mapsto> [])) Stacklist \<in> {None, Some []}" using s by simp
    ultimately show ?thesis using schedI by blast
  qed
qed

lemma switch_sched:
  assumes r: "srel X st Q" "X \<subseteq> {cur}" and run: "running st c cur" and th: "threads st cur = Some th" "t_cpu th = Some c" "detached (tlists st) cur"
    and d: "dest_ok newstate wc lk L th" and l: "locks st c L" and s: "Q Stacklist \<in> {None, Some []}"
    and q: "Q (dest_list c wc newstate) = Some ys" "newstate = S_READY \<longrightarrow> ys \<noteq> []"
    and wn: "newstate = S_SLEEP \<longrightarrow> wc_name st (the wc) \<noteq> None"
  shows "\<exists>st1 st'. thread_switch_out c newstate wc lk st = Inr (True, st1) \<and> thread_switch_round c st1 = Some (Inr st') \<and>
    sched st' \<and> numcpus st' = numcpus st"
proof -
  obtain st1 where s1: "thread_switch_out c newstate wc lk st = Inr (True, st1)" "srel {} st1 (Q(dest_list c wc newstate \<mapsto> ys @ [cur]))"
    "locks st1 c {Runqueue_lock c}" "c_isidle (cpus st1 c)" "numcpus st1 = numcpus st"
    using switch_out_ok [OF r run th d q(1) l q(2) wn] by blast
  have "c < numcpus st1" using run s1(5) by (simp add: running_def)
  moreover have "(Q(dest_list c wc newstate \<mapsto> ys @ [cur])) Stacklist \<in> {None, Some []}" using s dest_list_other [of c wc newstate] by simp
  ultimately obtain st' where "thread_switch_round c st1 = Some (Inr st')" "sched st'" "numcpus st' = numcpus st1"
    using round_sched [OF s1(2) _ s1(4,3)] by blast
  with s1 show ?thesis by metis
qed

lemma yield_sched:
  assumes "sched st" and run: "running st c cur"
  shows "\<exists>st'. thread_yield c st = Some (Inr st') \<and> sched st' \<and> numcpus st' = numcpus st"
proof -
  from assms(1) obtain Q where r: "srel {} st Q" and s: "Q Stacklist \<in> {None, Some []}" and l: "locks st c {}" by (rule schedE)
  obtain th where th: "threads st cur = Some th" "t_cpu th = Some c" "t_proc th \<noteq> None" "detached (tlists st) cur" "thread_ok th" "c < numcpus st"
    by (rule srel_running [OF r run]) simp_all
  obtain xs where q: "Q (Runqueue c) = Some xs" by (rule srel_queue [OF r th(6)])
  show ?thesis
  proof (cases "xs = []")
    case False
    have "\<exists>st1 st'. thread_switch_out c S_READY None None st = Inr (True, st1) \<and> thread_switch_round c st1 = Some (Inr st') \<and>
        sched st' \<and> numcpus st' = numcpus st"
      by (rule switch_sched [OF r _ run th(1,2,4) _ l s, where ys = xs]) (use th q False in \<open>simp_all add: dest_ok_def\<close>)
    then show ?thesis by (auto simp: thread_yield_def thread_switch_def)
  next
    case True
    have c: "curthread c st = Some cur" "\<not> c_isidle (cpus st c)" using run by (simp_all add: running_def)
    obtain spl st1 where s1: "splhigh c st = Inr (spl, st1)" "spl \<in> {0, 1}" "quiet st st1" "locks st1 c {}"
      using splx_ok [OF l srel_has_cur [OF r th(6)], of IPL_HIGH] by (auto simp: splhigh_def IPL_HIGH_def)
    have cur1: "has_cur c st1" by (rule quiet_has_cur [OF s1(3) srel_has_cur [OF r th(6)]])
    obtain st2 where s2: "spinlock_acquire c (Runqueue_lock c) st1 = Inr st2" "quiet st1 st2" "locks st2 c {Runqueue_lock c}"
      using spinlock_acquire_ok [OF s1(4) _ cur1, of "Runqueue_lock c"] by auto
    have cur2: "has_cur c st2" by (rule quiet_has_cur [OF s2(2) cur1])
    obtain st3 where s3: "spinlock_release c (Runqueue_lock c) st2 = Inr st3" "quiet st2 st3" "locks st3 c {}"
      using spinlock_release_ok [OF s2(3) _ cur2, of "Runqueue_lock c"] by auto
    obtain rr st4 where s4: "splx c spl st3 = Inr (rr, st4)" "quiet st3 st4" "locks st4 c {}"
      using splx_ok [OF s3(3) quiet_has_cur [OF s3(2) cur2] s1(2)] by blast
    have q2: "quiet st st2" by (rule quiet_trans [OF s1(3) s2(2)])
    have q4: "quiet st st4" by (rule quiet_trans [OF q2 quiet_trans [OF s3(2) s4(2)]])
    have e: "threadlist_isempty (Runqueue c) (tlists st2)"
      using srel_isempty [OF quiet_srel [OF q2 r] q] True by simp
    obtain th1 where th1: "threads st1 cur = Some th1" "th_same th th1" using quiet_thread [OF s1(3) th(1)] by blast
    have idle1: "\<not> c_isidle (cpus st1 c)" "curthread c st1 = Some cur" using c quiet_sel [OF s1(3)] by simp_all
    have "thread_switch_out c S_READY None None st = Inr (False, st4)"
      using s1(1) idle1 th1(1) checkstack_ok [OF thread_ok_same [OF th1(2) th(5)]] s2(1) e s3(1) s4(1)
      by (simp add: thread_switch_out_def)
    moreover have "sched st4" by (rule schedI [OF quiet_srel [OF q4 r] s s4(3)])
    ultimately show ?thesis using quiet_sel(2) [OF q4] by (auto simp: thread_yield_def thread_switch_def)
  qed
qed

text \<open>Taking the lock of a wait channel and going to sleep on it.\<close>

definition sleep_op :: "nat \<Rightarrow> nat \<Rightarrow> ksys \<Rightarrow> ksys res option" where
  "sleep_op c w st =
     (case spinlock_acquire c (Wc_lock w) st of
        Inl e \<Rightarrow> Some (Inl e)
      | Inr st1 \<Rightarrow> wchan_sleep c w (Wc_lock w) st1)"

lemma sleep_sched:
  assumes "sched st" and run: "running st c cur" and w: "wc_name st w \<noteq> None"
  shows "\<exists>st'. sleep_op c w st = Some (Inr st') \<and> sched st' \<and> numcpus st' = numcpus st"
proof -
  from assms(1) obtain Q where r: "srel {} st Q" and s: "Q Stacklist \<in> {None, Some []}" and l: "locks st c {}" by (rule schedE)
  have c: "c < numcpus st" using run by (simp add: running_def)
  obtain st1 where s1: "spinlock_acquire c (Wc_lock w) st = Inr st1" "quiet st st1" "locks st1 c {Wc_lock w}"
    using spinlock_acquire_ok [OF l _ srel_has_cur [OF r c], of "Wc_lock w"] by auto
  have r1: "srel {} st1 Q" by (rule quiet_srel [OF s1(2) r])
  have run1: "running st1 c cur" using run quiet_running [OF s1(2)] by simp
  obtain th where th: "threads st1 cur = Some th" "t_cpu th = Some c" "t_proc th \<noteq> None" "detached (tlists st1) cur" "thread_ok th"
    by (rule srel_running [OF r1 run1]) simp_all
  have w1: "wc_name st1 w \<noteq> None" using w quiet_sel(4) [OF s1(2)] by simp
  then obtain ys where q: "Q (Wchan w) = Some ys" using r1 unfolding srel_def srel_lists_def by blast
  have "\<exists>st2 st'. thread_switch_out c S_SLEEP (Some w) (Some (Wc_lock w)) st1 = Inr (True, st2) \<and>
      thread_switch_round c st2 = Some (Inr st') \<and> sched st' \<and> numcpus st' = numcpus st1"
    by (rule switch_sched [OF r1 _ run1 th(1,2,4) _ s1(3) s, where ys = ys]) (use th q w1 in \<open>simp_all add: dest_ok_def\<close>)
  then obtain st2 st' where s2: "thread_switch_out c S_SLEEP (Some w) (Some (Wc_lock w)) st1 = Inr (True, st2)"
    "thread_switch_round c st2 = Some (Inr st')" "sched st'" "numcpus st' = numcpus st1" by blast
  have "spinlock_do_i_hold (spinlocks st1 (Wc_lock w)) c" "c_spinlocks (cpus st1 c) = 1"
    using s1(3) by (simp_all add: locks_def spinlock_do_i_hold_def)
  moreover have "get_thread (curthread c st1) st1 = Inr th" "\<not> t_in_interrupt th"
    using run1 th by (simp_all add: running_def thread_ok_def)
  ultimately show ?thesis
    using s1(1) s2 quiet_sel(2) [OF s1(2)] by (simp add: sleep_op_def wchan_sleep_def thread_switch_def)
qed

lemma exit_sched:
  assumes "sched st" and run: "running st c cur"
  shows "\<exists>st'. thread_exit c st = Some (Inr st') \<and> sched st' \<and> numcpus st' = numcpus st"
proof -
  from assms(1) obtain Q where r: "srel {} st Q" and s: "Q Stacklist \<in> {None, Some []}" and l: "locks st c {}" by (rule schedE)
  obtain th where th: "threads st cur = Some th" "t_cpu th = Some c" "t_proc th \<noteq> None" "detached (tlists st) cur" "c < numcpus st"
    by (rule srel_running [OF r run]) simp_all
  then obtain p where p: "t_proc th = Some p" by blast
  have r0: "srel {cur} st Q"
    using srel_relist [OF r srel_heap [OF r], of "{cur}"] srel_listed [OF r] by fastforce
  obtain st1 th1 where s1: "proc_remthread c cur st = Inr st1" "srel {cur} st1 Q" "locks st1 c {}" "same_cpus st st1"
    "tlists st1 = tlists st" "threads st1 cur = Some th1" "th_same (th\<lparr>t_proc := None\<rparr>) th1"
    using proc_remthread_ok [OF r0 th(5) _ th(1) p l] by auto
  have c1: "c < numcpus st1" using th(5) s1(4) by (simp add: same_cpus_def)
  obtain spl st2 where s2: "splhigh c st1 = Inr (spl, st2)" "quiet st1 st2" "locks st2 c {}"
    using splx_ok [OF s1(3) srel_has_cur [OF s1(2) c1], of IPL_HIGH] by (auto simp: splhigh_def IPL_HIGH_def)
  have r2: "srel {cur} st2 Q" by (rule quiet_srel [OF s2(2) s1(2)])
  have run2: "running st2 c cur" using run same_cpus_running [OF s1(4)] quiet_running [OF s2(2)] by simp
  obtain th2 where th2: "threads st2 cur = Some th2" "th_same th1 th2" using quiet_thread [OF s2(2) s1(6)] by blast
  have f2: "t_cpu th2 = Some c" "t_proc th2 = None" "t_proc th1 = None" using th2(2) s1(7) th(2) by (simp_all add: th_same_def)
  have d2: "detached (tlists st2) cur" using th(4) s1(5) quiet_sel(1) [OF s2(2)] by simp
  have c2: "c < numcpus st2" using c1 quiet_sel(2) [OF s2(2)] by simp
  obtain zs where z: "Q (Zombies c) = Some zs" by (rule srel_zombies [OF r2 c2])
  have "\<exists>st3 st'. thread_switch_out c S_ZOMBIE None None st2 = Inr (True, st3) \<and> thread_switch_round c st3 = Some (Inr st') \<and>
      sched st' \<and> numcpus st' = numcpus st2"
    by (rule switch_sched [OF r2 _ run2 th2(1) f2(1) d2 _ s2(3) s, where ys = zs]) (use f2 z in \<open>simp_all add: dest_ok_def\<close>)
  moreover have "numcpus st2 = numcpus st" using s1(4) quiet_sel(2) [OF s2(2)] by (simp add: same_cpus_def)
  moreover have "curthread c st = Some cur" using run by (simp add: running_def)
  ultimately show ?thesis
    using s1(1,6) f2(3) checkstack_ok [OF srel_ok [OF s1(2,6)]] s2(1) by (auto simp: thread_exit_def)
qed

lemma unidle_sched:
  assumes "sched st" and c: "c < numcpus st" "c_isidle (cpus st c)"
  shows "\<exists>st'. cpu_unidle c st = Some (Inr st') \<and> sched st' \<and> numcpus st' = numcpus st"
proof -
  from assms(1) obtain Q where r: "srel {} st Q" and s: "Q Stacklist \<in> {None, Some []}" and l: "locks st c {}" by (rule schedE)
  obtain st1 where s1: "spinlock_acquire c (Runqueue_lock c) st = Inr st1" "quiet st st1" "locks st1 c {Runqueue_lock c}"
    using spinlock_acquire_ok [OF l _ srel_has_cur [OF r c(1)], of "Runqueue_lock c"] by auto
  have "c < numcpus st1" "c_isidle (cpus st1 c)" using c quiet_sel [OF s1(2)] by simp_all
  from round_sched [OF quiet_srel [OF s1(2) r] this s1(3) s] quiet_sel(2) [OF s1(2)] s1(1)
  show ?thesis by (simp add: cpu_unidle_def)
qed

lemma fork_sched:
  assumes "sched st" and run: "running st c cur" and alloc: "\<And>t. alloc = Some t \<Longrightarrow> threads st t = None \<and> t \<in> {1..<4294967296}"
  shows "\<exists>e st'. thread_fork c alloc strdup stack proc st = Inr (e, st') \<and> sched st' \<and> numcpus st' = numcpus st"
proof -
  from assms(1) obtain Q where r: "srel {} st Q" and s: "Q Stacklist \<in> {None, Some []}" and l: "locks st c {}" by (rule schedE)
  have c: "c < numcpus st" using run by (simp add: running_def)
  obtain xs where q: "Q (Runqueue c) = Some xs" by (rule srel_queue [OF r c])
  obtain e st' Q' where f: "thread_fork c alloc strdup stack proc st = Inr (e, st')" "srel {} st' Q'" "locks st' c {}" "same_cpus st st'"
    "if alloc \<noteq> None \<and> strdup \<and> stack then e = 0 \<and> Q' = Q(Runqueue c \<mapsto> xs @ [the alloc]) else e = ENOMEM \<and> Q' = Q"
    using thread_fork_ok [OF r c l run q alloc] by blast
  have "Q' Stacklist \<in> {None, Some []}" using f(5) s by (auto split: if_splits)
  then have "sched st'" by (rule schedI [OF f(2) _ f(3)])
  with f show ?thesis by (auto simp: same_cpus_def)
qed

subsection \<open>Waking\<close>

lemma listed_not_running:
  assumes "srel {} st Q" and "Q l = Some xs" and "t \<in> set xs"
  shows "\<not> running st i t"
  using srel_run [OF assms(1), of i t] srel_unlisted [OF assms(1) _ assms(2), of t] assms(3) by auto

text \<open>A thread taken off a list becomes ready.\<close>

lemma take_runnable:
  assumes r: "srel {} st Q" and l: "Q l = Some (t # ws)" "l \<noteq> Runqueue i" and c: "c < numcpus st"
    and lk: "locks st c L" "card L < 40" "\<And>i. Runqueue_lock i \<notin> L" "\<And>i. Ipi_lock i \<notin> L"
    and nl: "\<And>i. l \<noteq> Runqueue i" "\<And>i. l \<noteq> Zombies i"
  shows "\<exists>tls st' tc xs. threadlist_remhead l (tlists st) = Inr (Some t, tls) \<and>
    thread_make_runnable c t False (st\<lparr>tlists := tls\<rparr>) = Inr st' \<and> Q (Runqueue tc) = Some xs \<and>
    srel {} st' (Q(l \<mapsto> ws, Runqueue tc \<mapsto> xs @ [t])) \<and> locks st' c L \<and> same_cpus st st'"
proof -
  obtain tls where tls: "threadlist_remhead l (tlists st) = Inr (Some t, tls)" "srel {t} (st\<lparr>tlists := tls\<rparr>) (Q(l \<mapsto> ws))" "detached tls t"
    using srel_remhead [OF r l(1)] by blast
  obtain th where th: "threads st t = Some th" "t_proc th \<noteq> None"
    using srel_listed [OF r l(1), of t] nl by (cases l) auto
  obtain tc where tc: "tc < numcpus st" "t_cpu th = Some tc" using srel_place [OF r th(1)] by auto
  obtain xs where q: "Q (Runqueue tc) = Some xs" by (rule srel_queue [OF r tc(1)])
  have nr: "\<not> running (st\<lparr>tlists := tls\<rparr>) i t" for i using listed_not_running [OF r l(1)] by simp
  have "\<exists>st'. thread_make_runnable c t False (st\<lparr>tlists := tls\<rparr>) = Inr st' \<and> srel {} st' ((Q(l \<mapsto> ws))(Runqueue tc \<mapsto> xs @ [t])) \<and>
      locks st' c L \<and> same_cpus (st\<lparr>tlists := tls\<rparr>) st' \<and> (\<forall>u. u \<noteq> t \<longrightarrow> detached (tlists (st\<lparr>tlists := tls\<rparr>)) u \<longrightarrow> detached (tlists st') u)"
    by (rule make_runnable_ok [OF tls(2) _ _ tc(2) _ _ _ _ lk(2-4) th(2) nr]) (use c th tc tls(3) q nl lk(1) in auto)
  then show ?thesis using tls(1) q by (auto simp: same_cpus_def simp del: fun_upd_apply)
qed

definition wakeone_op :: "nat \<Rightarrow> nat \<Rightarrow> ksys \<Rightarrow> ksys res" where
  "wakeone_op c w st =
     rbind (spinlock_acquire c (Wc_lock w) st) (\<lambda>st1.
     rbind (wchan_wakeone c w (Wc_lock w) st1) (\<lambda>st2. spinlock_release c (Wc_lock w) st2))"

lemma wchan_release:
  assumes r: "srel {} st Q" and s: "Q Stacklist \<in> {None, Some []}" and l: "locks st c {Wc_lock w}" and c: "c < numcpus st"
  shows "\<exists>st'. spinlock_release c (Wc_lock w) st = Inr st' \<and> sched st' \<and> same_cpus st st'"
proof -
  obtain st' where s': "spinlock_release c (Wc_lock w) st = Inr st'" "quiet st st'" "locks st' c {}"
    using spinlock_release_ok [OF l _ srel_has_cur [OF r c], of "Wc_lock w"] by auto
  then show ?thesis using schedI [OF quiet_srel [OF s'(2) r] s s'(3)] quiet_same_cpus [OF s'(2)] by blast
qed

lemma wakeone_sched:
  assumes "sched st" and c: "c < numcpus st" and w: "wc_name st w \<noteq> None"
  shows "\<exists>st'. wakeone_op c w st = Inr st' \<and> sched st' \<and> numcpus st' = numcpus st"
proof -
  from assms(1) obtain Q where r: "srel {} st Q" and s: "Q Stacklist \<in> {None, Some []}" and l: "locks st c {}" by (rule schedE)
  obtain st1 where s1: "spinlock_acquire c (Wc_lock w) st = Inr st1" "quiet st st1" "locks st1 c {Wc_lock w}"
    using spinlock_acquire_ok [OF l _ srel_has_cur [OF r c], of "Wc_lock w"] by auto
  have r1: "srel {} st1 Q" by (rule quiet_srel [OF s1(2) r])
  have w1: "wc_name st1 w \<noteq> None" using w quiet_sel(4) [OF s1(2)] by simp
  then obtain ws where q: "Q (Wchan w) = Some ws" using r1 unfolding srel_def srel_lists_def by blast
  have c1: "c < numcpus st1" using c quiet_sel(2) [OF s1(2)] by simp
  have h: "spinlock_do_i_hold (spinlocks st1 (Wc_lock w)) c" using s1(3) by (simp add: locks_def spinlock_do_i_hold_def)
  have "\<exists>st2 Q2. wchan_wakeone c w (Wc_lock w) st1 = Inr st2 \<and> srel {} st2 Q2 \<and> Q2 Stacklist \<in> {None, Some []} \<and>
      locks st2 c {Wc_lock w} \<and> same_cpus st1 st2"
  proof (cases ws)
    case Nil
    with srel_remhead_empty [OF r1] q have "wchan_wakeone c w (Wc_lock w) st1 = Inr st1" using h by (simp add: wchan_wakeone_def)
    with r1 s s1(3) show ?thesis by auto
  next
    case (Cons t ts)
    with q have q': "Q (Wchan w) = Some (t # ts)" by simp
    obtain tls st2 tc xs where t: "threadlist_remhead (Wchan w) (tlists st1) = Inr (Some t, tls)"
      "thread_make_runnable c t False (st1\<lparr>tlists := tls\<rparr>) = Inr st2"
      "srel {} st2 (Q(Wchan w \<mapsto> ts, Runqueue tc \<mapsto> xs @ [t]))" "locks st2 c {Wc_lock w}" "same_cpus st1 st2"
      using take_runnable [OF r1 q' _ c1 s1(3)] by (auto simp del: fun_upd_apply)
    moreover have "(Q(Wchan w \<mapsto> ts, Runqueue tc \<mapsto> xs @ [t])) Stacklist \<in> {None, Some []}" using s by simp
    ultimately show ?thesis using h by (fastforce simp: wchan_wakeone_def simp del: fun_upd_apply)
  qed
  then obtain st2 Q2 where s2: "wchan_wakeone c w (Wc_lock w) st1 = Inr st2" "srel {} st2 Q2" "Q2 Stacklist \<in> {None, Some []}"
      "locks st2 c {Wc_lock w}" "same_cpus st1 st2" by blast
  have "c < numcpus st2" using c1 s2(5) by (simp add: same_cpus_def)
  then obtain st3 where "spinlock_release c (Wc_lock w) st2 = Inr st3" "sched st3" "same_cpus st2 st3"
    using wchan_release [OF s2(2,3,4)] by blast
  then show ?thesis using s1(1) s2 quiet_sel(2) [OF s1(2)] by (auto simp: wakeone_op_def same_cpus_def)
qed

lemma wakeall_move_ok:
  assumes "srel {} st Q" and "Q (Wchan w) = Some ws" and "Q Stacklist = Some vs"
  shows "\<exists>tls. wakeall_move w st = Some (Inr (st\<lparr>tlists := tls\<rparr>)) \<and>
    srel {} (st\<lparr>tlists := tls\<rparr>) (Q(Wchan w \<mapsto> [], Stacklist \<mapsto> vs @ ws))"
  using assms
proof (induction ws arbitrary: st Q vs)
  case Nil
  have "wakeall_move w st = Some (Inr (st\<lparr>tlists := tlists st\<rparr>))"
    by (subst wakeall_move.simps) (simp add: srel_remhead_empty [OF Nil(1,2)])
  moreover have "Q(Wchan w \<mapsto> [], Stacklist \<mapsto> vs @ []) = Q" using Nil(2,3) by auto
  ultimately show ?case using Nil(1) by (intro exI [of _ "tlists st"]) (simp del: fun_upd_apply)
next
  case (Cons t ws)
  obtain tls where tls: "threadlist_remhead (Wchan w) (tlists st) = Inr (Some t, tls)"
    "srel {t} (st\<lparr>tlists := tls\<rparr>) (Q(Wchan w \<mapsto> ws))" "detached tls t"
    using srel_remhead [OF Cons.prems(1,2)] by blast
  let ?st1 = "st\<lparr>tlists := tls\<rparr>"
  obtain th where th: "threads st t = Some th" "t_proc th \<noteq> None"
    using srel_listed [OF Cons.prems(1,2), of t] by auto
  have q1: "(Q(Wchan w \<mapsto> ws)) Stacklist = Some vs" using Cons.prems(3) by simp
  obtain tls2 where t2: "on_lists (threadlist_addtail Stacklist t) ?st1 = Inr (?st1\<lparr>tlists := tls2\<rparr>)"
    "srel {t} (?st1\<lparr>tlists := tls2\<rparr>) ((Q(Wchan w \<mapsto> ws))(Stacklist \<mapsto> vs @ [t]))"
    using srel_addtail [OF tls(2) _ _ _ q1, of t] th tls(3) by (auto simp del: fun_upd_apply)
  let ?st2 = "?st1\<lparr>tlists := tls2\<rparr>" and ?Q2 = "(Q(Wchan w \<mapsto> ws))(Stacklist \<mapsto> vs @ [t])"
  have r2: "srel {} ?st2 ?Q2"
  proof (rule srel_settle [OF t2(2)])
    show "threads ?st2 t = Some th" using th by simp
    show "\<exists>i<numcpus ?st2. t_cpu th = Some i" using srel_place [OF Cons.prems(1) th(1)] by simp
    show "placed ?st2 ?Q2 t" unfolding placed_def by (intro disjI1 exI [of _ Stacklist]) simp
  next
    fix l xs assume l: "?Q2 l = Some xs" "t \<in> set xs"
    show "on_list l th"
    proof (cases "l = Stacklist")
      case False
      then have "(Q(Wchan w \<mapsto> ws)) l = Some xs" using l by simp
      from srel_unlisted [OF tls(2) _ this, of t] tls(3) l show ?thesis by simp
    qed (use th in simp)
  next
    fix i assume "running ?st2 i t"
    then show "detached (tlists ?st2) t \<and> t_proc th \<noteq> None \<and> t_state th \<in> {S_RUN, S_READY}"
      using listed_not_running [OF Cons.prems(1,2), of t i] by simp
  qed
  have "wakeall_move w st = wakeall_move w ?st2"
    by (subst wakeall_move.simps) (simp add: tls(1) t2(1) del: fun_upd_apply)
  moreover have "\<exists>tls'. wakeall_move w ?st2 = Some (Inr (?st2\<lparr>tlists := tls'\<rparr>)) \<and>
      srel {} (?st2\<lparr>tlists := tls'\<rparr>) (?Q2(Wchan w \<mapsto> [], Stacklist \<mapsto> (vs @ [t]) @ ws))"
    by (rule Cons.IH [OF r2]) simp_all
  moreover have "?Q2(Wchan w \<mapsto> [], Stacklist \<mapsto> (vs @ [t]) @ ws) = Q(Wchan w \<mapsto> [], Stacklist \<mapsto> vs @ t # ws)"
    by auto
  ultimately show ?case by (simp del: fun_upd_apply)
qed

lemma wakeall_run_ok:
  assumes "srel {} st Q" and "Q Stacklist = Some ts" and "c < numcpus st" and "locks st c {Wc_lock w}"
  shows "\<exists>st' Q'. wakeall_run c st = Some (Inr st') \<and> srel {} st' Q' \<and> Q' Stacklist = Some [] \<and>
    locks st' c {Wc_lock w} \<and> same_cpus st st'"
  using assms
proof (induction ts arbitrary: st Q)
  case Nil
  have "wakeall_run c st = Some (Inr st)"
    by (subst wakeall_run.simps) (simp add: srel_remhead_empty [OF Nil(1,2)])
  with Nil show ?case by auto
next
  case (Cons t ts)
  obtain tls st2 tc xs where t: "threadlist_remhead Stacklist (tlists st) = Inr (Some t, tls)"
    "thread_make_runnable c t False (st\<lparr>tlists := tls\<rparr>) = Inr st2"
    "srel {} st2 (Q(Stacklist \<mapsto> ts, Runqueue tc \<mapsto> xs @ [t]))" "locks st2 c {Wc_lock w}" "same_cpus st st2"
    using take_runnable [OF Cons.prems(1,2) _ Cons.prems(3,4)] by (auto simp del: fun_upd_apply)
  have "wakeall_run c st = wakeall_run c st2"
    by (subst wakeall_run.simps) (simp add: t(1,2))
  moreover have "\<exists>st' Q'. wakeall_run c st2 = Some (Inr st') \<and> srel {} st' Q' \<and> Q' Stacklist = Some [] \<and>
      locks st' c {Wc_lock w} \<and> same_cpus st2 st'"
    by (rule Cons.IH [OF t(3) _ _ t(4)]) (use t(5) Cons.prems(3) in \<open>simp_all add: same_cpus_def\<close>)
  ultimately show ?case using same_cpus_trans [OF t(5)] by metis
qed

definition wakeall_op :: "nat \<Rightarrow> nat \<Rightarrow> ksys \<Rightarrow> ksys res option" where
  "wakeall_op c w st =
     (case spinlock_acquire c (Wc_lock w) st of
        Inl e \<Rightarrow> Some (Inl e)
      | Inr st1 \<Rightarrow> Option.bind (wchan_wakeall c w (Wc_lock w) st1) (\<lambda>r. Some (rbind r (spinlock_release c (Wc_lock w)))))"

lemma wakeall_sched:
  assumes "sched st" and c: "c < numcpus st" and w: "wc_name st w \<noteq> None"
  shows "\<exists>st'. wakeall_op c w st = Some (Inr st') \<and> sched st' \<and> numcpus st' = numcpus st"
proof -
  from assms(1) obtain Q where r: "srel {} st Q" and s: "Q Stacklist \<in> {None, Some []}" and l: "locks st c {}" by (rule schedE)
  obtain st1 where s1: "spinlock_acquire c (Wc_lock w) st = Inr st1" "quiet st st1" "locks st1 c {Wc_lock w}"
    using spinlock_acquire_ok [OF l _ srel_has_cur [OF r c], of "Wc_lock w"] by auto
  let ?st2 = "st1\<lparr>tlists := threadlist_init Stacklist (tlists st1)\<rparr>"
  have r2: "srel {} ?st2 (Q(Stacklist \<mapsto> []))" by (rule srel_init [OF quiet_srel [OF s1(2) r] s])
  have w1: "wc_name ?st2 w \<noteq> None" using w quiet_sel(4) [OF s1(2)] by simp
  then obtain ws where q: "(Q(Stacklist \<mapsto> [])) (Wchan w) = Some ws" using r2 unfolding srel_def srel_lists_def by blast
  obtain tls where t: "wakeall_move w ?st2 = Some (Inr (?st2\<lparr>tlists := tls\<rparr>))"
    "srel {} (?st2\<lparr>tlists := tls\<rparr>) ((Q(Stacklist \<mapsto> []))(Wchan w \<mapsto> [], Stacklist \<mapsto> [] @ ws))"
    using wakeall_move_ok [OF r2 q, of "[]"] by (auto simp del: fun_upd_apply simp: fun_upd_same)
  let ?st3 = "?st2\<lparr>tlists := tls\<rparr>"
  have c3: "c < numcpus ?st3" using c quiet_sel(2) [OF s1(2)] by simp
  obtain st4 Q4 where s4: "wakeall_run c ?st3 = Some (Inr st4)" "srel {} st4 Q4" "Q4 Stacklist = Some []"
    "locks st4 c {Wc_lock w}" "same_cpus ?st3 st4"
    using wakeall_run_ok [OF t(2) _ c3, of "[] @ ws" w] s1(3) by auto
  have cl: "threadlist_cleanup Stacklist (tlists st4) = Inr ()"
    using srel_isempty [OF s4(2,3)] by (simp add: threadlist_cleanup_def threadlist_isempty_def)
  have h: "spinlock_do_i_hold (spinlocks st1 (Wc_lock w)) c" using s1(3) by (simp add: locks_def spinlock_do_i_hold_def)
  have wk: "wchan_wakeall c w (Wc_lock w) st1 = Some (Inr st4)"
    using h t(1) s4(1) cl by (simp add: wchan_wakeall_def)
  have "c < numcpus st4" using c3 s4(5) by (simp add: same_cpus_def)
  then obtain st5 where "spinlock_release c (Wc_lock w) st4 = Inr st5" "sched st5" "same_cpus st4 st5"
    using wchan_release [OF s4(2) _ s4(4)] s4(3) by auto
  then show ?thesis using s1(1) wk s4(5) quiet_sel(2) [OF s1(2)] by (auto simp: wakeall_op_def same_cpus_def)
qed

end
