(* ===== verification/Thread_Migrate.thy ===== *)
theory Thread_Migrate
  imports Thread_Wake
begin

text \<open>
  Thread migration (\<open>kern/thread/thread.c\<close>): \<open>thread_consider_migration\<close> moves threads between run queues
  through a list of victims on its stack, and keeps the scheduler's invariant.
\<close>

section \<open>Settling a thread on a list\<close>

lemma srel_settle_list:
  assumes r0: "srel (insert t X) st Q" "detached (tlists st) t" and r: "srel (insert t X) (st\<lparr>tlists := tls\<rparr>) (Q(l \<mapsto> ys))"
    and th: "threads st t = Some th" "t \<in> set ys" "on_list l th" "\<exists>i<numcpus st. t_cpu th = Some i" "\<And>i. \<not> running st i t"
  shows "srel X (st\<lparr>tlists := tls\<rparr>) (Q(l \<mapsto> ys))"
proof (rule srel_settle [OF r])
  show "threads (st\<lparr>tlists := tls\<rparr>) t = Some th" "\<exists>i<numcpus (st\<lparr>tlists := tls\<rparr>). t_cpu th = Some i" using th by simp_all
  show "placed (st\<lparr>tlists := tls\<rparr>) (Q(l \<mapsto> ys)) t" unfolding placed_def using th(2) by (intro disjI1 exI [of _ l]) simp
next
  fix l' xs assume l: "(Q(l \<mapsto> ys)) l' = Some xs" "t \<in> set xs"
  show "on_list l' th"
  proof (cases "l' = l")
    case False
    then have "Q l' = Some xs" using l by simp
    from srel_unlisted [OF r0(1) r0(2) this] l show ?thesis by simp
  qed (use th in simp)
next
  fix i assume "running (st\<lparr>tlists := tls\<rparr>) i t"
  then show "detached (tlists (st\<lparr>tlists := tls\<rparr>)) t \<and> t_proc th \<noteq> None \<and> t_state th \<in> {S_RUN, S_READY}" using th(5) by simp
qed

lemma srel_put_tail:
  assumes r: "srel (insert t X) st Q" and d: "detached (tlists st) t" and l: "Q l = Some xs"
    and th: "threads st t = Some th" "on_list l th" "\<exists>i<numcpus st. t_cpu th = Some i" "\<And>i. \<not> running st i t"
  shows "\<exists>tls. on_lists (threadlist_addtail l t) st = Inr (st\<lparr>tlists := tls\<rparr>) \<and> srel X (st\<lparr>tlists := tls\<rparr>) (Q(l \<mapsto> xs @ [t]))"
proof -
  obtain tls where tls: "on_lists (threadlist_addtail l t) st = Inr (st\<lparr>tlists := tls\<rparr>)"
    "srel (insert t X) (st\<lparr>tlists := tls\<rparr>) (Q(l \<mapsto> xs @ [t]))"
    using srel_addtail [OF r insertI1 _ d l] th(1) by auto
  have "srel X (st\<lparr>tlists := tls\<rparr>) (Q(l \<mapsto> xs @ [t]))"
    by (rule srel_settle_list [OF r d tls(2) th(1) _ th(2-4)]) simp
  with tls(1) show ?thesis by blast
qed

lemma srel_put_head:
  assumes r: "srel (insert t X) st Q" and d: "detached (tlists st) t" and l: "Q l = Some xs"
    and th: "threads st t = Some th" "on_list l th" "\<exists>i<numcpus st. t_cpu th = Some i" "\<And>i. \<not> running st i t"
  shows "\<exists>tls. on_lists (threadlist_addhead l t) st = Inr (st\<lparr>tlists := tls\<rparr>) \<and> srel X (st\<lparr>tlists := tls\<rparr>) (Q(l \<mapsto> t # xs))"
proof -
  obtain tls where tls: "on_lists (threadlist_addhead l t) st = Inr (st\<lparr>tlists := tls\<rparr>)"
    "srel (insert t X) (st\<lparr>tlists := tls\<rparr>) (Q(l \<mapsto> t # xs))"
    using srel_addhead [OF r insertI1 _ d l] th(1) by auto
  have "srel X (st\<lparr>tlists := tls\<rparr>) (Q(l \<mapsto> t # xs))"
    by (rule srel_settle_list [OF r d tls(2) th(1) _ th(2-4)]) simp
  with tls(1) show ?thesis by blast
qed

section \<open>The invariant of a migration\<close>

text \<open>
  Between its steps CPU \<open>c\<close> holds the locks \<open>L\<close>, has at least \<open>m\<close> threads in its run queue and at least \<open>n\<close>
  on the list of victims, and every victim is a ready thread of \<open>c\<close>.
\<close>

definition mig :: "nat \<Rightarrow> lockid set \<Rightarrow> nat \<Rightarrow> nat \<Rightarrow> ksys \<Rightarrow> bool" where
  "mig c L m n st \<longleftrightarrow> c < numcpus st \<and> locks st c L \<and>
     (\<exists>Q xs vs. srel {} st Q \<and> Q (Runqueue c) = Some xs \<and> m \<le> length xs \<and> Q Stacklist = Some vs \<and> n \<le> length vs \<and>
        (\<forall>t\<in>set vs. \<exists>th. threads st t = Some th \<and> on_list (Runqueue c) th))"

lemma migE:
  assumes "mig c L m n st"
  obtains Q xs vs where "c < numcpus st" "locks st c L" "srel {} st Q" "Q (Runqueue c) = Some xs" "m \<le> length xs"
    "Q Stacklist = Some vs" "n \<le> length vs" "\<And>t. t \<in> set vs \<Longrightarrow> \<exists>th. threads st t = Some th \<and> on_list (Runqueue c) th"
  using assms unfolding mig_def by blast

lemma migI:
  assumes "c < numcpus st" and "locks st c L" and "srel {} st Q" and "Q (Runqueue c) = Some xs" and "m \<le> length xs"
    and "Q Stacklist = Some vs" and "n \<le> length vs" and "\<And>t. t \<in> set vs \<Longrightarrow> \<exists>th. threads st t = Some th \<and> on_list (Runqueue c) th"
  shows "mig c L m n st"
  using assms unfolding mig_def by blast

lemma mig_quiet:
  assumes "mig c L m n st" and q: "quiet st st'" and l: "locks st' c L'"
  shows "mig c L' m n st'"
proof -
  from assms(1) obtain Q xs vs where a: "c < numcpus st" "srel {} st Q" "Q (Runqueue c) = Some xs" "m \<le> length xs"
    "Q Stacklist = Some vs" "n \<le> length vs" "\<And>t. t \<in> set vs \<Longrightarrow> \<exists>th. threads st t = Some th \<and> on_list (Runqueue c) th"
    by (rule migE) blast
  show ?thesis
  proof (rule migI [OF _ l quiet_srel [OF q a(2)] a(3,4,5,6)])
    show "c < numcpus st'" using a(1) quiet_sel(2) [OF q] by simp
    fix t assume "t \<in> set vs"
    then obtain th where th: "threads st t = Some th" "on_list (Runqueue c) th" using a(7) by blast
    from quiet_thread [OF q th(1)] obtain th' where "threads st' t = Some th'" "th_same th th'" by blast
    with on_list_same [of th th' "Runqueue c"] th(2) show "\<exists>th. threads st' t = Some th \<and> on_list (Runqueue c) th" by blast
  qed
qed

lemma mig_weaken: "mig c L m n st \<Longrightarrow> m' \<le> m \<Longrightarrow> n' \<le> n \<Longrightarrow> mig c L m' n' st"
  unfolding mig_def by (meson le_trans)

lemma mig_has_cur: "mig c L m n st \<Longrightarrow> has_cur c st"
  by (erule migE) (rule srel_has_cur)

lemma take_victim_mig:
  assumes "mig c L (Suc m) n st"
  shows "\<exists>st'. take_victim c st = Inr st' \<and> mig c L m (Suc n) st' \<and> same_cpus st st'"
proof -
  from assms obtain Q xs vs where a: "c < numcpus st" "locks st c L" "srel {} st Q" "Q (Runqueue c) = Some xs" "Suc m \<le> length xs"
    "Q Stacklist = Some vs" "n \<le> length vs" "\<And>t. t \<in> set vs \<Longrightarrow> \<exists>th. threads st t = Some th \<and> on_list (Runqueue c) th"
    by (rule migE) blast
  then obtain us t where us: "xs = us @ [t]" by (cases xs rule: rev_cases) auto
  then have q: "Q (Runqueue c) = Some (us @ [t])" using a(4) by simp
  obtain tls where tls: "threadlist_remtail (Runqueue c) (tlists st) = Inr (Some t, tls)"
    "srel {t} (st\<lparr>tlists := tls\<rparr>) (Q(Runqueue c \<mapsto> us))" "detached tls t"
    using srel_remtail [OF a(3) q] by blast
  obtain th where th: "threads st t = Some th" "on_list (Runqueue c) th" using srel_listed [OF a(3) q, of t] by auto
  let ?Q1 = "Q(Runqueue c \<mapsto> us)" and ?st1 = "st\<lparr>tlists := tls\<rparr>"
  have q1: "?Q1 Stacklist = Some vs" using a(6) by simp
  have nr: "\<not> running ?st1 i t" for i using listed_not_running [OF a(3) q, of t] by simp
  have "\<exists>tls2. on_lists (threadlist_addhead Stacklist t) ?st1 = Inr (?st1\<lparr>tlists := tls2\<rparr>) \<and>
      srel {} (?st1\<lparr>tlists := tls2\<rparr>) (?Q1(Stacklist \<mapsto> t # vs))"
    by (rule srel_put_head [OF tls(2) _ q1 _ _ _ nr, where th = th]) (use tls(3) th a(1) in auto)
  then obtain tls2 where t2: "on_lists (threadlist_addhead Stacklist t) ?st1 = Inr (?st1\<lparr>tlists := tls2\<rparr>)"
    "srel {} (?st1\<lparr>tlists := tls2\<rparr>) (?Q1(Stacklist \<mapsto> t # vs))" by blast
  have "mig c L m (Suc n) (?st1\<lparr>tlists := tls2\<rparr>)"
    by (rule migI [OF _ _ t2(2), of _ _ us _ "t # vs"]) (use a us th in auto)
  moreover have "take_victim c st = Inr (?st1\<lparr>tlists := tls2\<rparr>)" using tls(1) t2(1) by (simp add: take_victim_def)
  ultimately show ?thesis by (auto simp: same_cpus_def)
qed

lemma take_victims_mig:
  assumes "mig c L (length js) n st"
  shows "\<exists>st'. rfold (\<lambda>_. take_victim c) js st = Inr st' \<and> mig c L 0 (n + length js) st' \<and> same_cpus st st'"
  using assms
proof (induction js arbitrary: n st)
  case (Cons j js)
  from Cons.prems obtain st1 where s1: "take_victim c st = Inr st1" "mig c L (length js) (Suc n) st1" "same_cpus st st1"
    using take_victim_mig [of c L "length js"] by auto
  obtain st2 where "rfold (\<lambda>_. take_victim c) js st1 = Inr st2" "mig c L 0 (Suc n + length js) st2" "same_cpus st1 st2"
    using Cons.IH [OF s1(2)] by blast
  with s1 same_cpus_trans [OF s1(3)] show ?case by simp
qed simp

section \<open>Giving victims to another CPU\<close>

lemma send_victims_mig:
  assumes "mig c L 0 n st" and "i < numcpus st" and "i \<noteq> c" and "Ipi_lock i \<notin> L" and "card L < 40"
  shows "\<exists>n' st'. send_victims c i one_share n st = Inr (n', st') \<and> mig c L 0 n' st' \<and> same_cpus st st'"
  using assms(1,2)
proof (induction n arbitrary: st)
  case (Suc n)
  from Suc.prems(1) obtain Q xs vs' where a: "c < numcpus st" "locks st c L" "srel {} st Q" "Q (Runqueue c) = Some xs"
    "Q Stacklist = Some vs'" "Suc n \<le> length vs'" "\<And>t. t \<in> set vs' \<Longrightarrow> \<exists>th. threads st t = Some th \<and> on_list (Runqueue c) th"
    by (rule migE) blast
  show ?case
  proof (cases "tl_count (tlists st) (Runqueue i) < one_share")
    case False
    then show ?thesis using Suc.prems(1) by simp
  next
    case True
    from a(6) obtain t vs where vs: "vs' = t # vs" by (cases vs') auto
    then have q: "Q Stacklist = Some (t # vs)" using a(5) by simp
    obtain tls where tls: "threadlist_remhead Stacklist (tlists st) = Inr (Some t, tls)"
      "srel {t} (st\<lparr>tlists := tls\<rparr>) (Q(Stacklist \<mapsto> vs))" "detached tls t"
      using srel_remhead [OF a(3) q] by blast
    obtain th where th: "threads st t = Some th" "on_list (Runqueue c) th" using a(7) [of t] vs by auto
    let ?st1 = "st\<lparr>tlists := tls\<rparr>" and ?Q1 = "Q(Stacklist \<mapsto> vs)"
    have nr: "\<not> running ?st1 j t" for j using listed_not_running [OF a(3) q, of t] by simp
    have step: "\<exists>st2. send_victims c i one_share (Suc n) st = send_victims c i one_share n st2 \<and> mig c L 0 n st2 \<and> same_cpus st st2"
    proof (cases "curthread c st = Some t")
      case cur: True
      have q1: "?Q1 Stacklist = Some vs" by simp
      have "\<exists>tls2. on_lists (threadlist_addtail Stacklist t) ?st1 = Inr (?st1\<lparr>tlists := tls2\<rparr>) \<and>
          srel {} (?st1\<lparr>tlists := tls2\<rparr>) (?Q1(Stacklist \<mapsto> vs @ [t]))"
        by (rule srel_put_tail [OF tls(2) _ q1 _ _ _ nr, where th = th]) (use tls(3) th a(1) in auto)
      then obtain tls2 where t2: "on_lists (threadlist_addtail Stacklist t) ?st1 = Inr (?st1\<lparr>tlists := tls2\<rparr>)"
        "srel {} (?st1\<lparr>tlists := tls2\<rparr>) (?Q1(Stacklist \<mapsto> vs @ [t]))" by blast
      have "mig c L 0 n (?st1\<lparr>tlists := tls2\<rparr>)"
        by (rule migI [OF _ _ t2(2), of _ _ xs _ "vs @ [t]"]) (use a vs th in auto)
      then show ?thesis using True cur tls(1) t2(1)
        by (intro exI [of _ "?st1\<lparr>tlists := tls2\<rparr>"]) (simp add: same_cpus_def)
    next
      case cur: False
      let ?th = "th\<lparr>t_cpu := Some i\<rparr>"
      let ?st2 = "?st1\<lparr>threads := (threads ?st1)(t \<mapsto> ?th)\<rparr>"
      have th1: "threads ?st1 t = Some th" using th by simp
      have r2: "srel {t} ?st2 ?Q1"
      proof (rule srel_upd_thread [OF tls(2) _ th1])
        show "thread_ok ?th" using srel_ok [OF a(3) th(1)] by (simp add: thread_ok_def)
        fix j assume "j < numcpus ?st1" "curthread j ?st1 = Some t"
        then obtain u where "threads st t = Some u" "t_cpu u = Some j" using srel_cur [OF a(3), of j] by auto
        with th cur \<open>curthread j ?st1 = Some t\<close> show "t_cpu ?th = t_cpu th" by simp
      qed simp_all
      obtain ys where q1: "?Q1 (Runqueue i) = Some ys" using srel_queue [OF a(3) Suc.prems(2)] by auto
      have nr2: "\<not> running ?st2 j t" for j using nr by simp
      have "\<exists>tls2. on_lists (threadlist_addtail (Runqueue i) t) ?st2 = Inr (?st2\<lparr>tlists := tls2\<rparr>) \<and>
          srel {} (?st2\<lparr>tlists := tls2\<rparr>) (?Q1(Runqueue i \<mapsto> ys @ [t]))"
        by (rule srel_put_tail [OF r2 _ q1 _ _ _ nr2, where th = "?th"]) (use tls(3) th Suc.prems(2) in auto)
      then obtain tls2 where t2: "on_lists (threadlist_addtail (Runqueue i) t) ?st2 = Inr (?st2\<lparr>tlists := tls2\<rparr>)"
        "srel {} (?st2\<lparr>tlists := tls2\<rparr>) (?Q1(Runqueue i \<mapsto> ys @ [t]))" by blast
      let ?st3 = "?st2\<lparr>tlists := tls2\<rparr>"
      have "t \<notin> set vs" using srel_unlisted [OF tls(2), of t Stacklist vs] tls(3) by simp
      then have m3: "mig c L 0 n ?st3"
        by (intro migI [OF _ _ t2(2), of _ _ xs _ vs]) (use a vs th assms(3) in auto)
      obtain st4 where s4: "(if c_isidle (cpus ?st3 i) then ipi_send c i IPI_UNIDLE ?st3 else Inr ?st3) = Inr st4"
        "quiet ?st3 st4" "locks st4 c L"
      proof (cases "c_isidle (cpus ?st3 i)")
        case True
        have "locks ?st3 c L" using a(2) by simp
        from ipi_send_ok [OF this assms(4) mig_has_cur [OF m3], of IPI_UNIDLE] assms(5) True that show ?thesis
          by (auto simp: IPI_UNIDLE_def)
      next
        case False
        with a(2) that [of ?st3] show ?thesis by simp
      qed
      have "mig c L 0 n st4" by (rule mig_quiet [OF m3 s4(2,3)])
      moreover have "send_victims c i one_share (Suc n) st = send_victims c i one_share n st4"
        using True cur tls(1) th t2(1) s4(1) by (cases "c_isidle (cpus st i)") (auto simp: upd_thread_def)
      moreover have "same_cpus st st4" using quiet_same_cpus [OF s4(2)] by (simp add: same_cpus_def)
      ultimately show ?thesis by blast
    qed
    then obtain st2 where s2: "send_victims c i one_share (Suc n) st = send_victims c i one_share n st2" "mig c L 0 n st2" "same_cpus st st2"
      by blast
    have "i < numcpus st2" using s2(3) Suc.prems(2) by (simp add: same_cpus_def)
    from Suc.IH [OF s2(2) this] s2 same_cpus_trans [OF s2(3)] show ?thesis by metis
  qed
qed simp

lemma migrate_loop_mig:
  assumes "mig c {} 0 n st" and "set is \<subseteq> {0..<numcpus st}"
  shows "\<exists>st'. migrate_loop c one_share is n st = Inr st' \<and> mig c {} 0 0 st' \<and> same_cpus st st'"
  using assms
proof (induction "is" arbitrary: n st)
  case Nil
  then show ?case using mig_weaken [of c "{}" 0 n st 0 0] by auto
next
  case (Cons i "is")
  consider "n = 0" | "n \<noteq> 0" "i = c" | "n \<noteq> 0" "i \<noteq> c" by blast
  then show ?case
  proof cases
    case 1
    then show ?thesis using Cons.prems(1) by simp
  next
    case 2
    then show ?thesis using Cons.IH [OF Cons.prems(1)] Cons.prems(2) by simp
  next
    case 3
    have l: "locks st c {}" using Cons.prems(1) by (simp add: mig_def)
    obtain st1 where s1: "spinlock_acquire c (Runqueue_lock i) st = Inr st1" "quiet st st1" "locks st1 c {Runqueue_lock i}"
      using spinlock_acquire_ok [OF l _ mig_has_cur [OF Cons.prems(1)], of "Runqueue_lock i"] by auto
    have m1: "mig c {Runqueue_lock i} 0 n st1" by (rule mig_quiet [OF Cons.prems(1) s1(2,3)])
    have i1: "i < numcpus st1" using Cons.prems(2) quiet_sel(2) [OF s1(2)] by simp
    obtain n2 st2 where s2: "send_victims c i one_share n st1 = Inr (n2, st2)" "mig c {Runqueue_lock i} 0 n2 st2" "same_cpus st1 st2"
      using send_victims_mig [OF m1 i1 3(2), of one_share] by auto
    have l2: "locks st2 c {Runqueue_lock i}" using s2(2) by (simp add: mig_def)
    obtain st3 where s3: "spinlock_release c (Runqueue_lock i) st2 = Inr st3" "quiet st2 st3" "locks st3 c {}"
      using spinlock_release_ok [OF l2 _ mig_has_cur [OF s2(2)], of "Runqueue_lock i"] by auto
    have m3: "mig c {} 0 n2 st3" by (rule mig_quiet [OF s2(2) s3(2,3)])
    have sc: "same_cpus st st3"
      using quiet_same_cpus [OF s1(2)] s2(3) quiet_same_cpus [OF s3(2)] by (simp add: same_cpus_def)
    have "set is \<subseteq> {0..<numcpus st3}" using Cons.prems(2) sc by (simp add: same_cpus_def)
    from Cons.IH [OF m3 this] obtain st4 where s4: "migrate_loop c one_share is n2 st3 = Inr st4" "mig c {} 0 0 st4" "same_cpus st3 st4"
      by blast
    have "migrate_loop c one_share (i # is) n st = Inr st4" using 3 s1(1) s2(1) s3(1) s4(1) by simp
    with s4(2) same_cpus_trans [OF sc s4(3)] show ?thesis by blast
  qed
qed

section \<open>Putting the leftovers back\<close>

lemma return_victims_ok:
  assumes "c < numcpus st" and "srel {} st Q" and "Q (Runqueue c) = Some xs" and "Q Stacklist = Some vs"
    and "\<And>t. t \<in> set vs \<Longrightarrow> \<exists>th. threads st t = Some th \<and> on_list (Runqueue c) th"
  shows "\<exists>tls. return_victims c st = Some (Inr (st\<lparr>tlists := tls\<rparr>)) \<and>
    srel {} (st\<lparr>tlists := tls\<rparr>) (Q(Stacklist \<mapsto> [], Runqueue c \<mapsto> xs @ vs))"
  using assms
proof (induction vs arbitrary: st Q xs)
  case Nil
  have "return_victims c st = Some (Inr (st\<lparr>tlists := tlists st\<rparr>))"
    by (subst return_victims.simps) (simp add: srel_remhead_empty [OF Nil(2,4)])
  moreover have "Q(Stacklist \<mapsto> [], Runqueue c \<mapsto> xs @ []) = Q" using Nil(3,4) by auto
  ultimately show ?case using Nil(2) by (intro exI [of _ "tlists st"]) (simp del: fun_upd_apply)
next
  case (Cons t vs)
  obtain tls where tls: "threadlist_remhead Stacklist (tlists st) = Inr (Some t, tls)"
    "srel {t} (st\<lparr>tlists := tls\<rparr>) (Q(Stacklist \<mapsto> vs))" "detached tls t"
    using srel_remhead [OF Cons.prems(2,4)] by blast
  let ?st1 = "st\<lparr>tlists := tls\<rparr>" and ?Q1 = "Q(Stacklist \<mapsto> vs)"
  obtain th where th: "threads st t = Some th" "on_list (Runqueue c) th" using Cons.prems(5) [of t] by auto
  have nr: "\<not> running ?st1 i t" for i using listed_not_running [OF Cons.prems(2,4), of t] by simp
  have q1: "?Q1 (Runqueue c) = Some xs" using Cons.prems(3) by simp
  have "\<exists>tls2. on_lists (threadlist_addtail (Runqueue c) t) ?st1 = Inr (?st1\<lparr>tlists := tls2\<rparr>) \<and>
      srel {} (?st1\<lparr>tlists := tls2\<rparr>) (?Q1(Runqueue c \<mapsto> xs @ [t]))"
    by (rule srel_put_tail [OF tls(2) _ q1 _ _ _ nr, where th = th]) (use tls(3) th Cons.prems(1) in auto)
  then obtain tls2 where t2: "on_lists (threadlist_addtail (Runqueue c) t) ?st1 = Inr (?st1\<lparr>tlists := tls2\<rparr>)"
    "srel {} (?st1\<lparr>tlists := tls2\<rparr>) (?Q1(Runqueue c \<mapsto> xs @ [t]))" by blast
  let ?st2 = "?st1\<lparr>tlists := tls2\<rparr>" and ?Q2 = "?Q1(Runqueue c \<mapsto> xs @ [t])"
  have "return_victims c st = return_victims c ?st2"
    by (subst return_victims.simps) (simp add: tls(1) t2(1))
  moreover have "\<exists>tls'. return_victims c ?st2 = Some (Inr (?st2\<lparr>tlists := tls'\<rparr>)) \<and>
      srel {} (?st2\<lparr>tlists := tls'\<rparr>) (?Q2(Stacklist \<mapsto> [], Runqueue c \<mapsto> (xs @ [t]) @ vs))"
    by (rule Cons.IH [OF _ t2(2)]) (use Cons.prems in simp_all)
  moreover have "?Q2(Stacklist \<mapsto> [], Runqueue c \<mapsto> (xs @ [t]) @ vs) = Q(Stacklist \<mapsto> [], Runqueue c \<mapsto> xs @ t # vs)" by auto
  ultimately show ?case by (simp del: fun_upd_apply)
qed

section \<open>The whole migration\<close>

lemma srel_count: "srel X st Q \<Longrightarrow> Q l = Some xs \<Longrightarrow> tl_count (tlists st) l = of_nat (length xs)"
  using tl_heap_rep [OF srel_heap, of X st Q l xs] by (simp add: tl_rep_def)

lemma count_threads_ok:
  assumes "srel {} st Q" and "locks st c {}" and "c < numcpus st" and "set is \<subseteq> {0..<numcpus st}" and "Q (Runqueue c) = Some xs"
    and "my = of_nat (length xs) \<or> c \<in> set is"
  shows "\<exists>tot' st'. count_threads c is tot my st = Inr ((tot', of_nat (length xs)), st') \<and> quiet st st' \<and> locks st' c {}"
  using assms
proof (induction "is" arbitrary: st tot my)
  case (Cons i "is")
  have cur: "has_cur c st" by (rule srel_has_cur [OF Cons.prems(1,3)])
  obtain st1 where s1: "spinlock_acquire c (Runqueue_lock i) st = Inr st1" "quiet st st1" "locks st1 c {Runqueue_lock i}"
    using spinlock_acquire_ok [OF Cons.prems(2) _ cur, of "Runqueue_lock i"] by auto
  obtain st2 where s2: "spinlock_release c (Runqueue_lock i) st1 = Inr st2" "quiet st1 st2" "locks st2 c {}"
    using spinlock_release_ok [OF s1(3) _ quiet_has_cur [OF s1(2) cur], of "Runqueue_lock i"] by auto
  have q: "quiet st st2" by (rule quiet_trans [OF s1(2) s2(2)])
  have n: "i = c \<Longrightarrow> tl_count (tlists st1) (Runqueue i) = of_nat (length xs)"
    using srel_count [OF Cons.prems(1,5)] quiet_sel(1) [OF s1(2)] by simp
  let ?my = "if i = c then tl_count (tlists st1) (Runqueue i) else my"
  have "\<exists>tot' st'. count_threads c is (tot + tl_count (tlists st1) (Runqueue i)) ?my st2 =
      Inr ((tot', of_nat (length xs)), st') \<and> quiet st2 st' \<and> locks st' c {}"
    by (rule Cons.IH [OF quiet_srel [OF q Cons.prems(1)] s2(3)]) (use Cons.prems n quiet_sel(2) [OF q] in auto)
  then obtain tot' st' where s': "count_threads c is (tot + tl_count (tlists st1) (Runqueue i)) ?my st2 = Inr ((tot', of_nat (length xs)), st')"
    "quiet st2 st'" "locks st' c {}" by blast
  have "count_threads c (i # is) tot my st = Inr ((tot', of_nat (length xs)), st')"
    using s1(1) s2(1) s'(1) by (simp add: runqueue_count_def)
  with s' quiet_trans [OF q] show ?case by blast
qed auto

text \<open>The number of threads to send away is at most the length of the CPU's own run queue.\<close>

lemma to_send_le:
  fixes my one_share :: u32
  assumes "\<not> my < one_share"
  shows "unat (my - one_share) \<le> unat my"
  using assms by (simp add: unat_sub not_less)

lemma mig_sched: "mig c {} m n st \<Longrightarrow> threadlist_isempty Stacklist (tlists st) \<Longrightarrow> sched st"
  by (erule migE) (rule schedI, use srel_isempty in auto)

lemma leftovers_ok:
  assumes m: "mig c {} 0 0 st"
  shows "\<exists>st'. Option.bind
      (if threadlist_isempty Stacklist (tlists st) then Some (Inr st)
       else case spinlock_acquire c (Runqueue_lock c) st of
           Inl e \<Rightarrow> Some (Inl e)
         | Inr st1 \<Rightarrow> Option.bind (return_victims c st1) (\<lambda>r. Some (rbind r (spinlock_release c (Runqueue_lock c)))))
      (\<lambda>r. Some (rbind r (\<lambda>st8.
         if \<not> threadlist_isempty Stacklist (tlists st8) then Inl KAssertFail
         else rbind (threadlist_cleanup Stacklist (tlists st8)) (\<lambda>_. Inr st8)))) = Some (Inr st') \<and>
    sched st' \<and> same_cpus st st'"
proof (cases "threadlist_isempty Stacklist (tlists st)")
  case True
  with mig_sched [OF m] show ?thesis by (simp add: threadlist_cleanup_def threadlist_isempty_def)
next
  case False
  have l: "locks st c {}" using m by (simp add: mig_def)
  obtain st1 where s1: "spinlock_acquire c (Runqueue_lock c) st = Inr st1" "quiet st st1" "locks st1 c {Runqueue_lock c}"
    using spinlock_acquire_ok [OF l _ mig_has_cur [OF m], of "Runqueue_lock c"] by auto
  have m1: "mig c {Runqueue_lock c} 0 0 st1" by (rule mig_quiet [OF m s1(2,3)])
  then obtain Q xs vs where a: "c < numcpus st1" "srel {} st1 Q" "Q (Runqueue c) = Some xs" "Q Stacklist = Some vs"
    "\<And>t. t \<in> set vs \<Longrightarrow> \<exists>th. threads st1 t = Some th \<and> on_list (Runqueue c) th" by (rule migE) blast
  obtain tls where t: "return_victims c st1 = Some (Inr (st1\<lparr>tlists := tls\<rparr>))"
    "srel {} (st1\<lparr>tlists := tls\<rparr>) (Q(Stacklist \<mapsto> [], Runqueue c \<mapsto> xs @ vs))"
    using return_victims_ok [OF a] by blast
  let ?st2 = "st1\<lparr>tlists := tls\<rparr>" and ?Q2 = "Q(Stacklist \<mapsto> [], Runqueue c \<mapsto> xs @ vs)"
  have q2: "?Q2 Stacklist = Some []" by simp
  have l2: "locks ?st2 c {Runqueue_lock c}" using s1(3) by simp
  have cur: "has_cur c ?st2" by (rule srel_has_cur [OF t(2)]) (use a(1) in simp)
  obtain st3 where s3: "spinlock_release c (Runqueue_lock c) ?st2 = Inr st3" "quiet ?st2 st3" "locks st3 c {}"
    using spinlock_release_ok [OF l2 _ cur, of "Runqueue_lock c"] by auto
  have r3: "srel {} st3 ?Q2" by (rule quiet_srel [OF s3(2) t(2)])
  have e: "threadlist_isempty Stacklist (tlists st3)" using srel_isempty [OF r3 q2] by simp
  have "sched st3" by (rule schedI [OF r3 _ s3(3)]) (use q2 in simp)
  moreover have "same_cpus st st3" using quiet_same_cpus [OF s1(2)] quiet_same_cpus [OF s3(2)] by (simp add: same_cpus_def)
  ultimately show ?thesis using False s1(1) t(1) s3(1) e by (simp add: threadlist_cleanup_def threadlist_isempty_def)
qed

lemma migration_sched:
  assumes "sched st" and c: "c < numcpus st"
  shows "\<exists>st'. thread_consider_migration c st = Some (Inr st') \<and> sched st' \<and> same_cpus st st'"
proof -
  from assms(1) obtain Q where r: "srel {} st Q" and s: "Q Stacklist \<in> {None, Some []}" and l: "locks st c {}" by (rule schedE)
  obtain xs where q: "Q (Runqueue c) = Some xs" by (rule srel_queue [OF r c])
  obtain tot st1 where s1: "count_threads c [0..<numcpus st] 0 0 st = Inr ((tot, of_nat (length xs)), st1)" "quiet st st1" "locks st1 c {}"
    using count_threads_ok [OF r l c _ q, of "[0..<numcpus st]" 0 0] c by auto
  have r1: "srel {} st1 Q" by (rule quiet_srel [OF s1(2) r])
  define one_share where "one_share = divroundup32 tot (of_nat (numcpus st1))"
  define my where "my = (of_nat (length xs) :: u32)"
  show ?thesis
  proof (cases "my < one_share")
    case True
    then have "thread_consider_migration c st = Some (Inr st1)"
      using s1(1) by (simp add: thread_consider_migration_def one_share_def my_def)
    with schedI [OF r1 s s1(3)] quiet_same_cpus [OF s1(2)] show ?thesis by blast
  next
    case False
    let ?n = "unat (my - one_share)" and ?st2 = "st1\<lparr>tlists := threadlist_init Stacklist (tlists st1)\<rparr>"
    have n: "?n \<le> length xs"
      using to_send_le [OF False] srel_length [OF r q] by (simp add: my_def unat_of_nat_u32)
    have r2: "srel {} ?st2 (Q(Stacklist \<mapsto> []))" by (rule srel_init [OF r1 s])
    have c2: "c < numcpus ?st2" using c quiet_sel(2) [OF s1(2)] by simp
    have m2: "mig c {} ?n 0 ?st2"
      by (rule migI [OF c2 _ r2, of _ xs _ "[]"]) (use s1(3) q n in auto)
    have l2: "locks ?st2 c {}" using s1(3) by simp
    obtain st3 where s3: "spinlock_acquire c (Runqueue_lock c) ?st2 = Inr st3" "quiet ?st2 st3" "locks st3 c {Runqueue_lock c}"
      using spinlock_acquire_ok [OF l2 _ mig_has_cur [OF m2], of "Runqueue_lock c"] by auto
    have m3: "mig c {Runqueue_lock c} (length [0..<?n]) 0 st3" using mig_quiet [OF m2 s3(2,3)] by simp
    obtain st4 where s4: "rfold (\<lambda>_. take_victim c) [0..<?n] st3 = Inr st4" "mig c {Runqueue_lock c} 0 ?n st4" "same_cpus st3 st4"
      using take_victims_mig [OF m3] by auto
    have l4: "locks st4 c {Runqueue_lock c}" using s4(2) by (simp add: mig_def)
    obtain st5 where s5: "spinlock_release c (Runqueue_lock c) st4 = Inr st5" "quiet st4 st5" "locks st5 c {}"
      using spinlock_release_ok [OF l4 _ mig_has_cur [OF s4(2)], of "Runqueue_lock c"] by auto
    have m5: "mig c {} 0 ?n st5" by (rule mig_quiet [OF s4(2) s5(2,3)])
    obtain st6 where s6: "migrate_loop c one_share [0..<numcpus st5] ?n st5 = Inr st6" "mig c {} 0 0 st6" "same_cpus st5 st6"
      using migrate_loop_mig [OF m5, of "[0..<numcpus st5]" one_share] by auto
    have sc: "same_cpus st st6"
      using quiet_same_cpus [OF s1(2)] quiet_same_cpus [OF s3(2)] s4(3) quiet_same_cpus [OF s5(2)] s6(3) by (simp add: same_cpus_def)
    have eq: "thread_consider_migration c st = Option.bind
      (if threadlist_isempty Stacklist (tlists st6) then Some (Inr st6)
       else case spinlock_acquire c (Runqueue_lock c) st6 of
           Inl e \<Rightarrow> Some (Inl e)
         | Inr st1 \<Rightarrow> Option.bind (return_victims c st1) (\<lambda>r. Some (rbind r (spinlock_release c (Runqueue_lock c)))))
      (\<lambda>r. Some (rbind r (\<lambda>st8.
         if \<not> threadlist_isempty Stacklist (tlists st8) then Inl KAssertFail
         else rbind (threadlist_cleanup Stacklist (tlists st8)) (\<lambda>_. Inr st8))))"
      using s1(1) False s3(1) s4(1) s5(1) s6(1)
      by (simp add: thread_consider_migration_def one_share_def [symmetric] my_def [symmetric])
    from leftovers_ok [OF s6(2)] same_cpus_trans [OF sc] show ?thesis unfolding eq by blast
  qed
qed

end
