(* ===== verification/Clock.thy ===== *)
theory Clock
  imports Thread_Migrate
begin

text \<open>
  The clock interrupt handlers of \<open>kern/thread/clock.c\<close>. \<open>lbolt\<close> is a wait channel with its own lock;
  \<open>hardclock_bootstrap\<close> creates it.
\<close>

subsection \<open>Definitions\<close>

definition SCHEDULE_HARDCLOCKS :: u32 where "SCHEDULE_HARDCLOCKS = 4"
definition MIGRATE_HARDCLOCKS :: u32 where "MIGRATE_HARDCLOCKS = 16"

definition hardclock_bootstrap :: "nat option \<Rightarrow> ksys \<Rightarrow> (nat \<times> ksys) res" where
  "hardclock_bootstrap alloc st =
     (case wchan_create alloc ''lbolt'' st of
        (None, st1) \<Rightarrow> Inl PanicCall
      | (Some w, st1) \<Rightarrow> Inr (w, st1\<lparr>spinlocks := (spinlocks st1)(Wc_lock w := spinlock_init)\<rparr>))"

definition timerclock :: "nat \<Rightarrow> nat \<Rightarrow> ksys \<Rightarrow> ksys res option" where
  "timerclock c lbolt st =
     (case spinlock_acquire c (Wc_lock lbolt) st of
        Inl e \<Rightarrow> Some (Inl e)
      | Inr st1 \<Rightarrow>
          Option.bind (wchan_wakeall c lbolt (Wc_lock lbolt) st1) (\<lambda>r. Some (rbind r (spinlock_release c (Wc_lock lbolt)))))"

text \<open>\<open>schedule\<close> is an empty function.\<close>

definition schedule :: "nat \<Rightarrow> ksys \<Rightarrow> ksys res option" where
  "schedule c st = Some (Inr st)"

definition kthen :: "ksys res option \<Rightarrow> (ksys \<Rightarrow> ksys res option) \<Rightarrow> ksys res option" where
  "kthen m f = Option.bind m (\<lambda>r. case r of Inl e \<Rightarrow> Some (Inl e) | Inr st \<Rightarrow> f st)"

lemma kthen_simps [simp]: "kthen (Some (Inr st)) f = f st" "kthen (Some (Inl e)) f = Some (Inl e)" "kthen None f = None"
  by (simp_all add: kthen_def)

definition hardclock :: "nat \<Rightarrow> ksys \<Rightarrow> ksys res option" where
  "hardclock c st =
     (let st1 = upd_cpu c (\<lambda>cp. cp\<lparr>c_hardclocks := c_hardclocks cp + 1\<rparr>) st in
      kthen (if c_hardclocks (cpus st1 c) mod MIGRATE_HARDCLOCKS = 0 then thread_consider_migration c st1 else Some (Inr st1)) (\<lambda>st2.
      kthen (if c_hardclocks (cpus st2 c) mod SCHEDULE_HARDCLOCKS = 0 then schedule c st2 else Some (Inr st2)) (\<lambda>st3.
      thread_yield c st3)))"

text \<open>
  \<open>clocksleep\<close> up to the first sleep, and one round of its loop after the thread has been woken and
  resumed. The loop head decides between sleeping and returning.
\<close>

definition clocksleep_loop :: "nat \<Rightarrow> nat \<Rightarrow> int \<Rightarrow> ksys \<Rightarrow> ksys res option" where
  "clocksleep_loop c lbolt num_secs st =
     (if num_secs > 0 then wchan_sleep c lbolt (Wc_lock lbolt) st
      else Some (spinlock_release c (Wc_lock lbolt) st))"

definition clocksleep :: "nat \<Rightarrow> nat \<Rightarrow> int \<Rightarrow> ksys \<Rightarrow> ksys res option" where
  "clocksleep c lbolt num_secs st = kthen (Some (spinlock_acquire c (Wc_lock lbolt) st)) (clocksleep_loop c lbolt num_secs)"

definition clocksleep_resume :: "nat \<Rightarrow> nat \<Rightarrow> int \<Rightarrow> ksys \<Rightarrow> ksys res option" where
  "clocksleep_resume c lbolt num_secs st =
     kthen (Some (wchan_resume c (Wc_lock lbolt) st)) (clocksleep_loop c lbolt (num_secs - 1))"

subsection \<open>The invariant of the scheduler is kept\<close>

lemma timerclock_wakeall: "timerclock c w st = wakeall_op c w st"
  by (simp add: timerclock_def wakeall_op_def)

lemma sched_quiet:
  assumes "sched st" and q: "quiet st st'" and l: "locks st' c {}"
  shows "sched st'"
proof -
  from assms(1) obtain Q where "srel {} st Q" "Q Stacklist \<in> {None, Some []}" by (rule schedE)
  then show ?thesis using schedI [OF quiet_srel [OF q] _ l] by blast
qed

text \<open>A clock tick on an idle CPU changes nothing: \<open>thread_switch\<close> returns at once.\<close>

lemma yield_idle_sched:
  assumes "sched st" and c: "c < numcpus st" "c_isidle (cpus st c)"
  shows "\<exists>st'. thread_yield c st = Some (Inr st') \<and> sched st' \<and> numcpus st' = numcpus st"
proof -
  from assms(1) obtain Q where r: "srel {} st Q" and l: "locks st c {}" by (rule schedE)
  obtain spl st1 where s1: "splhigh c st = Inr (spl, st1)" "spl \<in> {0, 1}" "quiet st st1" "locks st1 c {}"
    using splx_ok [OF l srel_has_cur [OF r c(1)], of IPL_HIGH] by (auto simp: splhigh_def IPL_HIGH_def)
  obtain rr st2 where s2: "splx c spl st1 = Inr (rr, st2)" "quiet st1 st2" "locks st2 c {}"
    using splx_ok [OF s1(4) quiet_has_cur [OF s1(3) srel_has_cur [OF r c(1)]] s1(2)] by blast
  have q: "quiet st st2" by (rule quiet_trans [OF s1(3) s2(2)])
  have "c_isidle (cpus st1 c)" using c(2) quiet_sel [OF s1(3)] by simp
  then have "thread_switch_out c S_READY None None st = Inr (False, st2)"
    using s1(1) s2(1) by (simp add: thread_switch_out_def)
  with sched_quiet [OF assms(1) q s2(3)] quiet_sel(2) [OF q] show ?thesis by (simp add: thread_yield_def thread_switch_def)
qed

lemma tick_sched:
  assumes "sched st" and "c < numcpus st"
  shows "\<exists>st'. thread_yield c st = Some (Inr st') \<and> sched st' \<and> numcpus st' = numcpus st"
proof (cases "c_isidle (cpus st c)")
  case True
  then show ?thesis by (rule yield_idle_sched [OF assms])
next
  case False
  from assms(1) obtain Q where r: "srel {} st Q" by (rule schedE)
  obtain t where "curthread c st = Some t" by (rule srel_cur [OF r assms(2)])
  with False assms(2) have "running st c t" by (simp add: running_def)
  then show ?thesis by (rule yield_sched [OF assms(1)])
qed

lemma hardclock_sched:
  assumes "sched st" and c: "c < numcpus st"
  shows "\<exists>st'. hardclock c st = Some (Inr st') \<and> sched st' \<and> numcpus st' = numcpus st"
proof -
  let ?st1 = "upd_cpu c (\<lambda>cp. cp\<lparr>c_hardclocks := c_hardclocks cp + 1\<rparr>) st"
  have q: "quiet st ?st1" by (simp add: quiet_def upd_cpu_def)
  have l: "locks st c {}" by (rule schedE [OF assms(1)])
  have l1: "locks ?st1 c {}" using l by (simp add: locks_def upd_cpu_def)
  have s1: "sched ?st1" by (rule sched_quiet [OF assms(1) q l1])
  have c1: "c < numcpus ?st1" using c by (simp add: upd_cpu_def)
  obtain st2 where s2: "(if c_hardclocks (cpus ?st1 c) mod MIGRATE_HARDCLOCKS = 0 then thread_consider_migration c ?st1 else Some (Inr ?st1)) =
      Some (Inr st2)" "sched st2" "numcpus st2 = numcpus ?st1"
    using migration_sched [OF s1 c1] s1 by (cases "c_hardclocks (cpus ?st1 c) mod MIGRATE_HARDCLOCKS = 0") (auto simp: same_cpus_def)
  have c2: "c < numcpus st2" using c1 s2(3) by simp
  obtain st3 where "thread_yield c st2 = Some (Inr st3)" "sched st3" "numcpus st3 = numcpus st2"
    using tick_sched [OF s2(2) c2] by blast
  then have "hardclock c st = Some (Inr st3)" using s2(1) by (simp add: hardclock_def schedule_def)
  with \<open>sched st3\<close> \<open>numcpus st3 = numcpus st2\<close> s2(3) show ?thesis by (simp add: upd_cpu_def)
qed

lemma clocksleep_resume_eq: "clocksleep_resume c w n st = clocksleep c w (n - 1) st"
  by (simp add: clocksleep_resume_def clocksleep_def wchan_resume_def)

lemma clocksleep_sched:
  assumes "sched st" and run: "running st c cur" and w: "wc_name st w \<noteq> None"
  shows "\<exists>st'. clocksleep c w n st = Some (Inr st') \<and> sched st' \<and> numcpus st' = numcpus st"
proof (cases "n > 0")
  case True
  then have "clocksleep c w n st = sleep_op c w st"
    by (cases "spinlock_acquire c (Wc_lock w) st") (simp_all add: clocksleep_def clocksleep_loop_def sleep_op_def)
  with sleep_sched [OF assms] show ?thesis by simp
next
  case False
  from assms(1) obtain Q where r: "srel {} st Q" and s: "Q Stacklist \<in> {None, Some []}" and l: "locks st c {}" by (rule schedE)
  have c: "c < numcpus st" using run by (simp add: running_def)
  obtain st1 where s1: "spinlock_acquire c (Wc_lock w) st = Inr st1" "quiet st st1" "locks st1 c {Wc_lock w}"
    using spinlock_acquire_ok [OF l _ srel_has_cur [OF r c], of "Wc_lock w"] by auto
  have "c < numcpus st1" using c quiet_sel(2) [OF s1(2)] by simp
  then obtain st2 where "spinlock_release c (Wc_lock w) st1 = Inr st2" "sched st2" "same_cpus st1 st2"
    using wchan_release [OF quiet_srel [OF s1(2) r] s s1(3)] by blast
  with False s1(1) quiet_sel(2) [OF s1(2)] show ?thesis by (simp add: clocksleep_def clocksleep_loop_def same_cpus_def)
qed

end
