(* ===== verification/Thread_Boot.thy ===== *)
theory Thread_Boot
  imports Clock
begin

text \<open>
  Creating CPUs and wait channels, interprocessor interrupts and shutting down keep the invariant of the
  scheduler; \<open>thread_bootstrap\<close> establishes it.
\<close>

subsection \<open>A new CPU\<close>

text \<open>No thread is queued on a CPU that does not exist yet.\<close>

lemma srel_no_cpu:
  assumes r: "srel {} st Q" and n: "numcpus st \<le> n" and l: "l \<in> {Runqueue n, Zombies n}"
  shows "Q l \<in> {None, Some []}"
proof (cases "Q l")
  case (Some xs)
  have False if u: "t \<in> set xs" for t
  proof -
    obtain th where th: "threads st t = Some th" "on_list l th" using srel_listed [OF r Some u] by auto
    with srel_place [OF r th(1)] n l show False by auto
  qed
  then have "xs = []" by (meson equals0I set_empty)
  with Some show ?thesis by simp
qed simp

lemma srel_add_cpu:
  assumes r: "srel {t} st Q" and t: "threads st t = Some th" "t_cpu th = Some (numcpus st)"
    and q: "Q (Runqueue (numcpus st)) \<noteq> None" "Q (Zombies (numcpus st)) \<noteq> None"
    and cp: "c_curthread cp = Some t"
  shows "srel {t} (st\<lparr>cpus := (cpus st)(numcpus st := cp), numcpus := numcpus st + 1\<rparr>) Q" (is "srel _ ?st' _")
proof -
  have old: "running ?st' i u = running st i u" if "i < numcpus st" for i u
    using that by (simp add: running_def curthread_def)
  have new: "running ?st' i u \<Longrightarrow> \<not> i < numcpus st \<Longrightarrow> u = t" for i u
    using cp by (auto simp: running_def curthread_def less_Suc_eq)
  have mono: "running st i u \<Longrightarrow> running ?st' i u" for i u
    using old [of i u] by (simp add: running_def)
  have "srel_lists {t} ?st' Q" using r q unfolding srel_def srel_lists_def by (auto simp: less_Suc_eq)
  moreover have "srel_threads {t} ?st' Q"
  proof -
    have "placed ?st' Q u" if "placed st Q u" for u using that mono unfolding placed_def by blast
    then have "(\<exists>i<numcpus ?st'. t_cpu uh = Some i) \<and> placed ?st' Q u" if "threads st u = Some uh" "u \<notin> {t}" for u uh
      using srel_place [OF r that] by auto
    then show ?thesis using r unfolding srel_def srel_threads_def in_proc_def by simp
  qed
  moreover have "srel_cpus {t} ?st'"
    unfolding srel_cpus_def
  proof (intro conjI allI impI)
    fix i assume i: "i < numcpus ?st'"
    show "\<exists>u th. curthread i ?st' = Some u \<and> threads ?st' u = Some th \<and> t_cpu th = Some i"
    proof (cases "i = numcpus st")
      case True
      then show ?thesis using t cp by (simp add: curthread_def)
    next
      case False
      with i have "i < numcpus st" by simp
      then obtain u uh where "curthread i st = Some u" "threads st u = Some uh" "t_cpu uh = Some i" by (rule srel_cur [OF r])
      with False show ?thesis by (simp add: curthread_def)
    qed
  next
    fix i u assume u: "running ?st' i u" "u \<notin> {t}"
    then have "running st i u" using new old by (metis singletonI)
    from srel_run [OF r this] u(2)
    show "detached (tlists ?st') u" "\<exists>th. threads ?st' u = Some th \<and> t_proc th \<noteq> None \<and> t_state th \<in> {S_RUN, S_READY}" by simp_all
  qed
  ultimately show ?thesis by (simp add: srel_def)
qed

lemma cpu_create_sched:
  assumes "sched st" and t: "threads st t = None" "t \<in> {1..<4294967296}" and c: "numcpus st \<noteq> 0 \<longrightarrow> c < numcpus st"
  shows "\<exists>st'. cpu_create c True True (Some t) True True st = Inr (numcpus st, st') \<and> sched st' \<and> numcpus st' = numcpus st + 1 \<and>
    running st' (numcpus st) t \<and> (\<exists>th. threads st' t = Some th \<and> t_proc th = Some KPROC)"
proof -
  define n where "n = numcpus st"
  from assms(1) obtain Q where r: "srel {} st Q" and s: "Q Stacklist \<in> {None, Some []}" and l: "locks st c {}" by (rule schedE)
  let ?tls1 = "threadlist_init (Zombies n) (tlists st)"
  let ?tls2 = "threadlist_init (Runqueue n) ?tls1"
  let ?Q = "Q(Zombies n \<mapsto> [], Runqueue n \<mapsto> [])"
  have z: "Q (Zombies n) \<in> {None, Some []}" by (rule srel_no_cpu [OF r]) (simp_all add: n_def)
  have q: "(Q(Zombies n \<mapsto> [])) (Runqueue n) \<in> {None, Some []}" using srel_no_cpu [OF r, of n "Runqueue n"] by (simp add: n_def)
  have r1: "srel {} (st\<lparr>tlists := ?tls2\<rparr>) ?Q"
    using srel_init [OF srel_init [OF r z] q] by (simp del: fun_upd_apply)
  define th where "th = (if n = 0 then new_thread\<lparr>t_cpu := Some n\<rparr> else thread_checkstack_init (new_thread\<lparr>t_cpu := Some n\<rparr>))"
  let ?tls3 = "threadlistnode_init t ?tls2"
  have t1: "threads (st\<lparr>tlists := ?tls2\<rparr>) t = None" using t by simp
  let ?a = "st\<lparr>threads := (threads st)(t \<mapsto> new_thread), tlists := ?tls3\<rparr>"
  have r2: "srel {t} ?a ?Q" using srel_new(1) [OF r1 t1 t(2)] by (simp del: fun_upd_apply)
  have d2: "detached ?tls3 t" using srel_new(2) [OF r1 t1 t(2)] by simp
  have "srel {t} (?a\<lparr>threads := (threads ?a)(t \<mapsto> th)\<rparr>) ?Q"
  proof (rule srel_upd_thread [OF r2, where th = new_thread])
    show "thread_ok th" by (simp add: th_def thread_ok_def new_thread_def thread_checkstack_init_def IPL_HIGH_def)
    fix i assume "i < numcpus ?a" "curthread i ?a = Some t"
    then have "i < numcpus st" "curthread i st = Some t" by (simp_all add: curthread_def)
    then have False by (rule_tac srel_cur [OF r, of i]) (use t(1) in simp_all)
    then show "t_cpu th = t_cpu new_thread" by simp
  qed (simp_all add: th_def thread_checkstack_init_def)
  moreover have "?a\<lparr>threads := (threads ?a)(t \<mapsto> th)\<rparr> = st\<lparr>threads := (threads st)(t \<mapsto> th), tlists := ?tls3\<rparr>" by simp
  ultimately have r3: "srel {t} (st\<lparr>threads := (threads st)(t \<mapsto> th), tlists := ?tls3\<rparr>) ?Q" (is "srel _ ?b _") by (rule back_subst [where P = "\<lambda>s. srel {t} s ?Q"])
  let ?cp = "\<lparr>c_curthread = Some t, c_hardclocks = 0, c_spinlocks = 0, c_isidle = False, c_ipi_pending = 0,
    c_shootdown = [], c_irq = c_irq (cpus st n)\<rparr>"
  have "srel {t} (?b\<lparr>cpus := (cpus ?b)(numcpus ?b := ?cp), numcpus := numcpus ?b + 1\<rparr>) ?Q"
    by (rule srel_add_cpu [OF r3, where th = th]) (simp_all add: n_def th_def thread_checkstack_init_def)
  moreover have "?b\<lparr>cpus := (cpus ?b)(numcpus ?b := ?cp), numcpus := numcpus ?b + 1\<rparr> =
      st\<lparr>threads := (threads st)(t \<mapsto> th), cpus := (cpus st)(n := ?cp), numcpus := n + 1, tlists := ?tls3\<rparr>" by (simp add: n_def)
  ultimately have r4: "srel {t} (st\<lparr>threads := (threads st)(t \<mapsto> th), cpus := (cpus st)(n := ?cp), numcpus := n + 1, tlists := ?tls3\<rparr>) ?Q" (is "srel _ ?c _")
    by (rule back_subst [where P = "\<lambda>s. srel {t} s ?Q"])
  let ?cc = "if n = 0 then 0 else c"
  have l4: "locks ?c ?cc {}"
  proof -
    have "locks st ?cc {}" using l locks_empty by blast
    then show ?thesis by (simp add: locks_def)
  qed
  have sp: "(spinlocks st)(Runqueue_lock n := spinlock_init, Ipi_lock n := spinlock_init) = spinlocks st"
    using l by (auto simp: locks_def spinlock_init_def fun_eq_iff)
  have cc: "?cc < numcpus ?c" using c by (auto simp: n_def)
  have tp: "threads ?c t = Some th" "t_proc th = None" by (simp_all add: th_def new_thread_def thread_checkstack_init_def)
  have "\<exists>st' th'. proc_addthread ?cc KPROC t ?c = Inr (0, st') \<and> srel {t} st' ?Q \<and> locks st' ?cc {} \<and> same_cpus ?c st' \<and>
      tlists st' = tlists ?c \<and> threads st' t = Some th' \<and> th_same (th\<lparr>t_proc := Some KPROC\<rparr>) th'"
    by (rule proc_addthread_ok [OF r4 cc singletonI tp l4]) simp_all
  then obtain st' th' where a: "proc_addthread ?cc KPROC t ?c = Inr (0, st')" "srel {t} st' ?Q" "locks st' ?cc {}" "same_cpus ?c st'"
    "tlists st' = tlists ?c" "threads st' t = Some th'" "th_same (th\<lparr>t_proc := Some KPROC\<rparr>) th'" by blast
  have run: "running ?c n t" by (simp add: running_def curthread_def)
  have run': "running st' n t" using run same_cpus_running [OF a(4)] by simp
  have f: "t_cpu th' = Some n" "t_proc th' = Some KPROC" "t_state th' = S_READY"
    using a(7) by (auto simp: th_def th_same_def new_thread_def thread_checkstack_init_def split: if_splits)
  have d': "detached (tlists st') t" using a(5) d2 by simp
  have "srel {} st' ?Q"
  proof (rule srel_settle [OF a(2,6)])
    show "\<exists>i<numcpus st'. t_cpu th' = Some i" using f a(4) by (simp add: same_cpus_def)
    show "placed st' ?Q t" using run' unfolding placed_def by blast
    show "on_list l th'" if "?Q l = Some xs" "t \<in> set xs" for l xs
      using srel_unlisted [OF a(2) d' that(1)] that(2) by simp
  qed (use d' f in simp_all)
  then have "sched st'" by (rule schedI [OF _ _ a(3)]) (use s in simp)
  moreover have "cpu_create c True True (Some t) True True st = Inr (n, st')"
  proof -
    have eq: "st\<lparr>numcpus := n + 1, tlists := ?tls3, cpus := (cpus st)(n := ?cp), threads := (threads st)(t \<mapsto> th)\<rparr> = ?c" by simp
    show ?thesis using a(1) [folded eq] sp
      by (cases "n = 0")
        (simp_all add: cpu_create_def n_def [symmetric] thread_create_def upd_thread_def upd_cpu_def Let_def th_def)
  qed
  ultimately show ?thesis using a(4,6) f(2) run' by (auto simp: n_def same_cpus_def)
qed


definition boot_state :: "ksys" where
  "boot_state = \<lparr>threads = Map.empty,
     cpus = (\<lambda>_. \<lparr>c_curthread = None, c_hardclocks = 0, c_spinlocks = 0, c_isidle = False, c_ipi_pending = 0, c_shootdown = [], c_irq = False\<rparr>),
     numcpus = 0, tlists = \<lparr>tl_node = (\<lambda>_. \<lparr>tln_prev = None, tln_next = None, tln_self = None\<rparr>), tl_count = (\<lambda>_. 0)\<rparr>,
     spinlocks = (\<lambda>_. spinlock_init), p_numthreads = (\<lambda>_. 0), wc_name = Map.empty\<rparr>"

lemma boot_state_sched: "sched boot_state"
proof (rule schedI)
  show "srel {} boot_state Map.empty"
    by (simp add: srel_defs boot_state_def tl_heap_def in_proc_def running_def)
qed (simp_all add: boot_state_def locks_def spinlock_init_def)

lemma bootstrap_sched:
  assumes "t \<in> {1..<4294967296}"
  shows "\<exists>st'. thread_bootstrap True True (Some t) True True boot_state = Inr st' \<and> sched st' \<and> numcpus st' = 1"
proof -
  have n: "numcpus boot_state = 0" "threads boot_state t = None" "boot_state\<lparr>numcpus := 0\<rparr> = boot_state" by (simp_all add: boot_state_def)
  obtain st' th where c: "cpu_create 0 True True (Some t) True True boot_state = Inr (0, st')" "sched st'" "numcpus st' = 1"
    "running st' 0 t" "threads st' t = Some th" "t_proc th = Some KPROC"
    using cpu_create_sched [OF boot_state_sched n(2) assms, of 0] n(1) by auto
  have "curthread 0 st' = Some t" using c(4) by (simp add: running_def)
  then have "thread_bootstrap True True (Some t) True True boot_state = Inr st'"
    unfolding thread_bootstrap_def Let_def n(3) using c n(1) by (simp del: rbind_eq_Inr)
  with c(2,3) show ?thesis by blast
qed

subsection \<open>Wait channels\<close>

text \<open>The memory of a new wait channel holds no list with threads on it.\<close>

definition wchan_unused :: "nat \<Rightarrow> ksys \<Rightarrow> bool" where
  "wchan_unused w st \<longleftrightarrow> wc_name st w = None \<and>
     next_of (tlists st) (Tl_head (Wchan w)) \<in> {None, Some (Tl_tail (Wchan w))}"

lemma srel_wc_name:
  assumes "srel X st Q" and "\<forall>w. wn w \<noteq> None \<longrightarrow> Q (Wchan w) \<noteq> None"
  shows "srel X (st\<lparr>wc_name := wn\<rparr>) Q"
  using assms unfolding srel_defs in_proc_def placed_def running_def curthread_def by simp

lemma locks_wc_name [simp]: "locks (st\<lparr>wc_name := wn\<rparr>) c L = locks st c L"
  by (simp add: locks_def)

lemma srel_wchan: "srel X st Q \<Longrightarrow> wc_name st w \<noteq> None \<Longrightarrow> Q (Wchan w) \<noteq> None"
  unfolding srel_defs by blast

lemma wchan_create_sched:
  assumes "sched st" and w: "wchan_unused w st"
  shows "sched (snd (wchan_create (Some w) name st))" and "numcpus (snd (wchan_create (Some w) name st)) = numcpus st"
proof -
  from assms(1) obtain Q where r: "srel {} st Q" and s: "Q Stacklist \<in> {None, Some []}" and l: "locks st 0 {}" by (rule schedE)
  have "Q (Wchan w) \<in> {None, Some []}"
  proof (cases "Q (Wchan w)")
    case (Some xs)
    with tl_heap_rep [OF srel_heap [OF r]] have "tl_rep (tlists st) (Wchan w) xs" by blast
    with w Some show ?thesis by (cases xs) (auto simp: tl_rep_def wchan_unused_def tl_nodes_def)
  qed simp
  from srel_init [OF r this]
  have r1: "srel {} (st\<lparr>tlists := threadlist_init (Wchan w) (tlists st)\<rparr>) (Q(Wchan w \<mapsto> []))" (is "srel {} ?st1 ?Q1") .
  have "srel {} (?st1\<lparr>wc_name := (wc_name st)(w \<mapsto> name)\<rparr>) ?Q1"
    by (rule srel_wc_name [OF r1]) (use srel_wchan [OF r] in auto)
  then show "sched (snd (wchan_create (Some w) name st))"
    by (intro schedI [where Q = ?Q1 and c = 0]) (use s l in \<open>simp_all add: wchan_create_def\<close>)
  show "numcpus (snd (wchan_create (Some w) name st)) = numcpus st" by (simp add: wchan_create_def)
qed

lemma wchan_destroy_sched:
  assumes "sched st" and w: "wc_name st w \<noteq> None" and e: "threadlist_isempty (Wchan w) (tlists st)"
  shows "\<exists>st'. wchan_destroy w st = Inr st' \<and> sched st' \<and> numcpus st' = numcpus st"
proof -
  from assms(1) obtain Q where r: "srel {} st Q" and s: "Q Stacklist \<in> {None, Some []}" and l: "locks st 0 {}" by (rule schedE)
  have "srel {} (st\<lparr>wc_name := (wc_name st)(w := None)\<rparr>) Q"
    by (rule srel_wc_name [OF r]) (use srel_wchan [OF r] in auto)
  then have "sched (st\<lparr>wc_name := (wc_name st)(w := None)\<rparr>)"
    by (rule schedI [where c = 0]) (use s l in simp_all)
  moreover have "wchan_destroy w st = Inr (st\<lparr>wc_name := (wc_name st)(w := None)\<rparr>)"
    using e by (simp add: wchan_destroy_def threadlist_cleanup_def threadlist_isempty_def)
  ultimately show ?thesis by simp
qed

subsection \<open>Interprocessor interrupts\<close>

lemma ipi_broadcast_quiet:
  assumes "locks st c {}" and "has_cur c st" and "code < 32"
  shows "\<exists>st'. ipi_broadcast c code st = Inr st' \<and> quiet st st' \<and> locks st' c {}"
proof -
  have "\<exists>st'. rfold (\<lambda>i st. if i \<noteq> c then ipi_send c i code st else Inr st) is st = Inr st' \<and> quiet st st' \<and> locks st' c {}" for "is"
    using assms
  proof (induction "is" arbitrary: st)
    case (Cons i "is")
    obtain st1 where s1: "(if i \<noteq> c then ipi_send c i code st else Inr st) = Inr st1" "quiet st st1" "locks st1 c {}"
      using ipi_send_ok [OF Cons.prems(1) _ Cons.prems(2) _ Cons.prems(3), of i] Cons.prems(1) by (cases "i = c") auto
    from Cons.IH [OF s1(3) quiet_has_cur [OF s1(2) Cons.prems(2)] Cons.prems(3)] s1 quiet_trans [OF s1(2)]
    show ?case by fastforce
  qed simp
  then show ?thesis by (simp add: ipi_broadcast_def)
qed

lemma shutdown_sched:
  assumes "sched st" and c: "c < numcpus st"
  shows "\<exists>st'. thread_shutdown c st = Inr st' \<and> sched st' \<and> numcpus st' = numcpus st"
proof -
  from assms(1) obtain Q where r: "srel {} st Q" and l: "locks st c {}" by (rule schedE)
  obtain st' where s: "ipi_broadcast c IPI_OFFLINE st = Inr st'" "quiet st st'" "locks st' c {}"
    using ipi_broadcast_quiet [OF l srel_has_cur [OF r c], of IPI_OFFLINE] by (auto simp: IPI_OFFLINE_def)
  with sched_quiet [OF assms(1) s(2,3)] quiet_sel(2) [OF s(2)] show ?thesis by (simp add: thread_shutdown_def)
qed

definition ipi_state :: "ipi_result \<Rightarrow> ksys" where
  "ipi_state r = (case r of Halted st \<Rightarrow> st | Continued st \<Rightarrow> st)"

lemma acquire_release:
  assumes "locks st c {}" and "has_cur c st"
  shows "\<exists>st1 st2. spinlock_acquire c lk st = Inr st1 \<and> quiet st st1 \<and> locks st1 c {lk} \<and>
    spinlock_release c lk st1 = Inr st2 \<and> quiet st st2 \<and> locks st2 c {}"
proof -
  obtain st1 where s1: "spinlock_acquire c lk st = Inr st1" "quiet st st1" "locks st1 c {lk}"
    using spinlock_acquire_ok [OF assms(1) _ assms(2), of lk] by auto
  obtain st2 where s2: "spinlock_release c lk st1 = Inr st2" "quiet st1 st2" "locks st2 c {}"
    using spinlock_release_ok [OF s1(3) _ quiet_has_cur [OF s1(2) assms(2)], of lk] by auto
  with s1 quiet_trans [OF s1(2) s2(2)] show ?thesis by blast
qed

lemma interrupt_quiet:
  assumes l: "locks st c {}" and cur: "has_cur c st"
  shows "\<exists>r. interprocessor_interrupt c st = Inr r \<and> quiet st (ipi_state r) \<and> locks (ipi_state r) c {}"
proof -
  obtain st1 st2 where s: "spinlock_acquire c (Ipi_lock c) st = Inr st1" "quiet st st1" "locks st1 c {Ipi_lock c}"
    "spinlock_release c (Ipi_lock c) st1 = Inr st2" "quiet st st2" "locks st2 c {}"
    using acquire_release [OF l cur] by blast
  let ?bits = "c_ipi_pending (cpus st1 c)"
  consider "bit ?bits IPI_PANIC" | "\<not> bit ?bits IPI_PANIC" "bit ?bits IPI_OFFLINE" | "\<not> bit ?bits IPI_PANIC" "\<not> bit ?bits IPI_OFFLINE" by blast
  then show ?thesis
  proof cases
    case 1
    with s show ?thesis by (simp add: interprocessor_interrupt_def ipi_state_def)
  next
    case 2
    obtain st3 st4 where "spinlock_acquire c (Runqueue_lock c) st2 = Inr st3" "spinlock_release c (Runqueue_lock c) st3 = Inr st4"
      "quiet st2 st4" "locks st4 c {}"
      using acquire_release [OF s(6) quiet_has_cur [OF s(5) cur]] by blast
    with 2 s quiet_trans [OF s(5)] show ?thesis by (simp add: interprocessor_interrupt_def ipi_state_def)
  next
    case 3
    define st3 where "st3 = upd_cpu c (\<lambda>cp. cp\<lparr>c_ipi_pending := 0\<rparr>)
      (if bit ?bits IPI_TLBSHOOTDOWN then upd_cpu c (\<lambda>cp. cp\<lparr>c_shootdown := []\<rparr>) st1 else st1)"
    have q3: "quiet st1 st3" by (simp add: st3_def quiet_def upd_cpu_def)
    have l3: "locks st3 c {Ipi_lock c}" using s(3) by (simp add: st3_def locks_def upd_cpu_def)
    have q: "quiet st st3" by (rule quiet_trans [OF s(2) q3])
    obtain st4 where s4: "spinlock_release c (Ipi_lock c) st3 = Inr st4" "quiet st3 st4" "locks st4 c {}"
      using spinlock_release_ok [OF l3 _ quiet_has_cur [OF q cur], of "Ipi_lock c"] by auto
    have "interprocessor_interrupt c st = Inr (Continued st4)"
      using 3 s(1) s4(1) by (simp add: interprocessor_interrupt_def st3_def Let_def)
    with s4 quiet_trans [OF q s4(2)] show ?thesis by (simp add: ipi_state_def)
  qed
qed

lemma interrupt_sched:
  assumes "sched st" and c: "c < numcpus st"
  shows "\<exists>r. interprocessor_interrupt c st = Inr r \<and> sched (ipi_state r) \<and> numcpus (ipi_state r) = numcpus st"
proof -
  from assms(1) obtain Q where r: "srel {} st Q" and l: "locks st c {}" by (rule schedE)
  obtain x where "interprocessor_interrupt c st = Inr x" "quiet st (ipi_state x)" "locks (ipi_state x) c {}"
    using interrupt_quiet [OF l srel_has_cur [OF r c]] by blast
  with sched_quiet [OF assms(1)] quiet_sel(2) show ?thesis by metis
qed

end
