(* ===== verification/Thread_Props.thy ===== *)
theory Thread_Props
  imports Thread_Boot
begin

text \<open>
  The scheduler as a whole: from the state \<open>thread_bootstrap\<close> makes, every sequence of operations on
  any number of CPUs runs without a fault, loses no thread and keeps the counts of the processes.
\<close>

subsection \<open>Operations and reachable states\<close>

datatype sched_op =
    Op_cpu_create nat tid
  | Op_fork nat "tid option" bool bool "nat option"
  | Op_yield nat
  | Op_exit nat
  | Op_unidle nat
  | Op_wchan_create nat string
  | Op_wchan_destroy nat
  | Op_sleep nat nat
  | Op_wakeone nat nat
  | Op_wakeall nat nat
  | Op_clocksleep nat nat int
  | Op_timerclock nat nat
  | Op_hardclock nat
  | Op_migrate nat
  | Op_interrupt nat
  | Op_shutdown nat

definition is_running :: "nat \<Rightarrow> ksys \<Rightarrow> bool" where
  "is_running c st \<longleftrightarrow> c < numcpus st \<and> \<not> c_isidle (cpus st c)"

definition unused_tid :: "tid \<Rightarrow> ksys \<Rightarrow> bool" where
  "unused_tid t st \<longleftrightarrow> threads st t = None \<and> 1 \<le> t \<and> t < 4294967296"

text \<open>When an operation may be called: its CPU runs a thread where it needs one, the objects it names exist, and
  the memory it is given is not in use.\<close>

fun enabled :: "sched_op \<Rightarrow> ksys \<Rightarrow> bool" where
  "enabled (Op_cpu_create c t) st \<longleftrightarrow> is_running c st \<and> unused_tid t st"
| "enabled (Op_fork c alloc strdup stack proc) st \<longleftrightarrow> is_running c st \<and> (case alloc of None \<Rightarrow> True | Some t \<Rightarrow> unused_tid t st)"
| "enabled (Op_yield c) st \<longleftrightarrow> is_running c st"
| "enabled (Op_exit c) st \<longleftrightarrow> is_running c st"
| "enabled (Op_unidle c) st \<longleftrightarrow> c < numcpus st \<and> c_isidle (cpus st c)"
| "enabled (Op_wchan_create w name) st \<longleftrightarrow> wchan_unused w st"
| "enabled (Op_wchan_destroy w) st \<longleftrightarrow> wc_name st w \<noteq> None \<and> threadlist_isempty (Wchan w) (tlists st)"
| "enabled (Op_sleep c w) st \<longleftrightarrow> is_running c st \<and> wc_name st w \<noteq> None"
| "enabled (Op_wakeone c w) st \<longleftrightarrow> c < numcpus st \<and> wc_name st w \<noteq> None"
| "enabled (Op_wakeall c w) st \<longleftrightarrow> c < numcpus st \<and> wc_name st w \<noteq> None"
| "enabled (Op_clocksleep c w n) st \<longleftrightarrow> is_running c st \<and> wc_name st w \<noteq> None"
| "enabled (Op_timerclock c w) st \<longleftrightarrow> c < numcpus st \<and> wc_name st w \<noteq> None"
| "enabled (Op_hardclock c) st \<longleftrightarrow> c < numcpus st"
| "enabled (Op_migrate c) st \<longleftrightarrow> c < numcpus st"
| "enabled (Op_interrupt c) st \<longleftrightarrow> c < numcpus st"
| "enabled (Op_shutdown c) st \<longleftrightarrow> c < numcpus st"

fun run_op :: "sched_op \<Rightarrow> ksys \<Rightarrow> ksys res option" where
  "run_op (Op_cpu_create c t) st = Some (rbind (cpu_create c True True (Some t) True True st) (\<lambda>(n, st'). Inr st'))"
| "run_op (Op_fork c alloc strdup stack proc) st = Some (rbind (thread_fork c alloc strdup stack proc st) (\<lambda>(e, st'). Inr st'))"
| "run_op (Op_yield c) st = thread_yield c st"
| "run_op (Op_exit c) st = thread_exit c st"
| "run_op (Op_unidle c) st = cpu_unidle c st"
| "run_op (Op_wchan_create w name) st = Some (Inr (snd (wchan_create (Some w) name st)))"
| "run_op (Op_wchan_destroy w) st = Some (wchan_destroy w st)"
| "run_op (Op_sleep c w) st = sleep_op c w st"
| "run_op (Op_wakeone c w) st = Some (wakeone_op c w st)"
| "run_op (Op_wakeall c w) st = wakeall_op c w st"
| "run_op (Op_clocksleep c w n) st = clocksleep c w n st"
| "run_op (Op_timerclock c w) st = timerclock c w st"
| "run_op (Op_hardclock c) st = hardclock c st"
| "run_op (Op_migrate c) st = thread_consider_migration c st"
| "run_op (Op_interrupt c) st = Some (rbind (interprocessor_interrupt c st) (\<lambda>r. Inr (ipi_state r)))"
| "run_op (Op_shutdown c) st = Some (thread_shutdown c st)"

inductive sched_reach :: "ksys \<Rightarrow> bool" where
  bootstrap: "thread_bootstrap True True (Some t) True True boot_state = Inr st \<Longrightarrow> t \<in> {1..<4294967296} \<Longrightarrow> sched_reach st"
| step: "sched_reach st \<Longrightarrow> enabled op st \<Longrightarrow> run_op op st = Some (Inr st') \<Longrightarrow> sched_reach st'"

subsection \<open>Every operation keeps the invariant\<close>

lemma is_running_running:
  assumes "sched st" and "is_running c st"
  obtains cur where "running st c cur"
proof -
  from assms(1) obtain Q where r: "srel {} st Q" by (rule schedE)
  have c: "c < numcpus st" "\<not> c_isidle (cpus st c)" using assms(2) by (simp_all add: is_running_def)
  obtain t where "curthread c st = Some t" by (rule srel_cur [OF r c(1)])
  with c show thesis using that [of t] by (simp add: running_def)
qed

lemma run_op_sched:
  assumes s: "sched st" and "enabled op st"
  shows "\<exists>st'. run_op op st = Some (Inr st') \<and> sched st'"
  using assms(2)
proof (cases op)
  case (Op_cpu_create c t)
  with assms(2) have "c < numcpus st" "threads st t = None" "t \<in> {1..<4294967296}" by (auto simp: is_running_def unused_tid_def)
  with cpu_create_sched [OF s, of t c] show ?thesis using Op_cpu_create by auto
next
  case (Op_fork c alloc strdup stack proc)
  with assms(2) obtain cur where "running st c cur" using is_running_running [OF s] by auto
  moreover have "threads st t = None \<and> t \<in> {1..<4294967296}" if "alloc = Some t" for t
    using Op_fork assms(2) that by (auto simp: unused_tid_def)
  ultimately obtain e st' where "thread_fork c alloc strdup stack proc st = Inr (e, st')" "sched st'"
    using fork_sched [OF s] by meson
  then show ?thesis using Op_fork by simp
next
  case (Op_yield c)
  with assms(2) tick_sched [OF s, of c] show ?thesis by (auto simp: is_running_def)
next
  case (Op_exit c)
  with assms(2) obtain cur where "running st c cur" using is_running_running [OF s] by auto
  from exit_sched [OF s this] show ?thesis using Op_exit by auto
next
  case (Op_unidle c)
  with assms(2) unidle_sched [OF s, of c] show ?thesis by auto
next
  case (Op_wchan_create w name)
  with assms(2) wchan_create_sched [OF s] show ?thesis by auto
next
  case (Op_wchan_destroy w)
  with assms(2) wchan_destroy_sched [OF s, of w] show ?thesis by auto
next
  case (Op_sleep c w)
  with assms(2) obtain cur where "running st c cur" using is_running_running [OF s] by auto
  from sleep_sched [OF s this] show ?thesis using Op_sleep assms(2) by auto
next
  case (Op_wakeone c w)
  with assms(2) wakeone_sched [OF s, of c w] show ?thesis by auto
next
  case (Op_wakeall c w)
  with assms(2) wakeall_sched [OF s, of c w] show ?thesis by auto
next
  case (Op_clocksleep c w n)
  with assms(2) obtain cur where "running st c cur" using is_running_running [OF s] by auto
  from clocksleep_sched [OF s this] show ?thesis using Op_clocksleep assms(2) by auto
next
  case (Op_timerclock c w)
  with assms(2) wakeall_sched [OF s, of c w] show ?thesis by (auto simp: timerclock_wakeall)
next
  case (Op_hardclock c)
  with assms(2) hardclock_sched [OF s, of c] show ?thesis by auto
next
  case (Op_migrate c)
  with assms(2) migration_sched [OF s, of c] show ?thesis by auto
next
  case (Op_interrupt c)
  with assms(2) interrupt_sched [OF s, of c] show ?thesis by auto
next
  case (Op_shutdown c)
  with assms(2) shutdown_sched [OF s, of c] show ?thesis by auto
qed

lemma sched_reach_sched: "sched_reach st \<Longrightarrow> sched st"
proof (induction rule: sched_reach.induct)
  case (bootstrap t st)
  with bootstrap_sched [of t] show ?case by auto
next
  case (step st op st')
  with run_op_sched [of st op] show ?case by auto
qed

subsection \<open>No fault, no lost thread\<close>

lemma boot_check:
  "case thread_bootstrap True True (Some 1) True True boot_state of Inl e \<Rightarrow> False
   | Inr st \<Rightarrow> is_running 0 st \<and> threads st 2 = None \<and> wchan_unused 5 st"
  by code_simp

lemma boot_reach: "\<exists>st. sched_reach st \<and> is_running 0 st \<and> threads st 2 = None \<and> wchan_unused 5 st"
proof -
  obtain st where st: "thread_bootstrap True True (Some 1) True True boot_state = Inr st" using bootstrap_sched [of 1] by auto
  with boot_check bootstrap [OF st] show ?thesis by auto
qed

text \<open>
  C1: the scheduler never faults. In every state reachable from \<open>thread_bootstrap\<close> by any interleaving of
  forking, yielding, sleeping, waking, exiting, migration, clock ticks, interprocessor interrupts and
  the start of further CPUs, every operation that may be called returns: no assertion fails, no \<open>panic\<close> is
  called, no dead thread and no null pointer is followed, no lock is waited for without end and no loop runs forever.
\<close>

theorem sched_never_faults:
  assumes "sched_reach st" and "enabled op st"
  shows "\<exists>st'. run_op op st = Some (Inr st')"
  using run_op_sched [OF sched_reach_sched [OF assms(1)] assms(2)] by blast

theorem sched_never_faults_witness:
  "\<exists>st st'. sched_reach st \<and> enabled (Op_fork 0 (Some 2) True True None) st \<and>
     run_op (Op_fork 0 (Some 2) True True None) st = Some (Inr st')"
proof -
  obtain st where st: "sched_reach st" "is_running 0 st" "threads st 2 = None" using boot_reach by blast
  then have "enabled (Op_fork 0 (Some 2) True True None) st" by (simp add: unused_tid_def)
  with st sched_never_faults [OF st(1)] show ?thesis by blast
qed

text \<open>Where a thread may be, with the state it has there.\<close>

definition in_place :: "ksys \<Rightarrow> (listid \<rightharpoonup> tid list) \<Rightarrow> tid \<Rightarrow> thread \<Rightarrow> bool" where
  "in_place st Q t th \<longleftrightarrow>
     (\<exists>i. running st i t \<and> t_state th \<in> {S_RUN, S_READY} \<and> (\<forall>j. running st j t \<longrightarrow> j = i) \<and>
        (\<forall>l xs. Q l = Some xs \<longrightarrow> t \<notin> set xs)) \<or>
     (\<exists>l xs. Q l = Some xs \<and> t \<in> set xs \<and> on_list l th \<and> (\<forall>i. \<not> running st i t) \<and>
        (\<forall>l' ys. Q l' = Some ys \<longrightarrow> t \<in> set ys \<longrightarrow> l' = l))"

lemma srel_in_place:
  assumes r: "srel {} st Q" and t: "threads st t = Some th"
  shows "in_place st Q t th"
proof (cases "\<exists>i. running st i t")
  case True
  then obtain i where i: "running st i t" by blast
  have "j = i" if "running st j t" for j
    using srel_cur_unique [OF r, of j i] i that by (simp add: running_def)
  moreover have "t \<notin> set xs" if "Q l = Some xs" for l xs using listed_not_running [OF r that] i by blast
  moreover have "t_state th \<in> {S_RUN, S_READY}" using srel_run [OF r i] t by auto
  ultimately show ?thesis using i unfolding in_place_def by blast
next
  case False
  then obtain l xs where l: "Q l = Some xs" "t \<in> set xs" using srel_place [OF r t] unfolding placed_def by blast
  have "on_list l th" using srel_listed [OF r l] t by auto
  moreover have "l' = l" if "Q l' = Some ys" "t \<in> set ys" for l' ys
    using tl_heap_disjoint [OF srel_heap [OF r] l(1) that(1)] l(2) that(2) by blast
  ultimately show ?thesis using l False unfolding in_place_def by blast
qed

text \<open>
  C2: no thread is lost. In every reachable state the linked lists of the kernel represent disjoint
  sequences of threads, and every thread either runs on exactly one CPU and is on no list, or is on exactly one
  list, in the state that belongs there (ready on the run queue of its CPU, asleep on a wait channel, a zombie on
  the zombie list); every process's \<open>p_numthreads\<close> counts its threads.
\<close>

theorem sched_threads_in_place:
  assumes "sched_reach st"
  shows "\<exists>Q. tl_heap (tlists st) Q \<and> (\<forall>i<numcpus st. Q (Runqueue i) \<noteq> None \<and> Q (Zombies i) \<noteq> None) \<and>
    (\<forall>t th. threads st t = Some th \<longrightarrow> in_place st Q t th) \<and>
    (\<forall>p. unat (p_numthreads st p) = card (in_proc st p))"
proof -
  from sched_reach_sched [OF assms] obtain Q where r: "srel {} st Q" by (rule schedE)
  have "unat (p_numthreads st p) = card (in_proc st p)" for p
    using r card_in_proc [OF r, of p] by (simp add: srel_defs unat_of_nat_u32)
  then show ?thesis using r srel_in_place [OF r] srel_heap [OF r] unfolding srel_def srel_lists_def by blast
qed

theorem sched_threads_in_place_witness:
  "\<exists>st st' Q. sched_reach st \<and> run_op (Op_fork 0 (Some 2) True True None) st = Some (Inr st') \<and> tl_heap (tlists st') Q \<and>
     (\<forall>t th. threads st' t = Some th \<longrightarrow> in_place st' Q t th)"
proof -
  obtain st where st: "sched_reach st" "is_running 0 st" "threads st 2 = None" using boot_reach by blast
  then have e: "enabled (Op_fork 0 (Some 2) True True None) st" by (simp add: unused_tid_def)
  then obtain st' where r: "run_op (Op_fork 0 (Some 2) True True None) st = Some (Inr st')"
    using run_op_sched [OF sched_reach_sched [OF st(1)] e] by blast
  from sched_threads_in_place [OF step [OF st(1) e r]] st(1) r show ?thesis by blast
qed

subsection \<open>Round robin\<close>

lemma yield_rotates:
  assumes r: "srel {} st Q" and s: "Q Stacklist \<in> {None, Some []}" and l: "locks st c {}" and run: "running st c cur"
    and q: "Q (Runqueue c) = Some (t # ts)"
  shows "\<exists>st' Q'. thread_yield c st = Some (Inr st') \<and> srel {} st' Q' \<and> Q' Stacklist \<in> {None, Some []} \<and> locks st' c {} \<and>
    running st' c t \<and> Q' (Runqueue c) = Some (ts @ [cur])"
proof -
  obtain th where th: "threads st cur = Some th" "t_cpu th = Some c" "t_proc th \<noteq> None" "detached (tlists st) cur" "c < numcpus st"
    by (rule srel_running [OF r run]) simp_all
  let ?Q1 = "Q(Runqueue c \<mapsto> (t # ts) @ [cur])"
  have "\<exists>st'. thread_switch_out c S_READY None None st = Inr (True, st') \<and>
      srel {} st' (Q(dest_list c None S_READY \<mapsto> (t # ts) @ [cur])) \<and>
      locks st' c {Runqueue_lock c} \<and> c_isidle (cpus st' c) \<and> numcpus st' = numcpus st"
    by (rule switch_out_ok [OF r _ run th(1,2,4) _ _ l]) (use th q in \<open>simp_all add: dest_ok_def\<close>)
  then obtain st1 where s1: "thread_switch_out c S_READY None None st = Inr (True, st1)" "srel {} st1 ?Q1"
    "locks st1 c {Runqueue_lock c}" "c_isidle (cpus st1 c)" "numcpus st1 = numcpus st"
    by (auto simp del: fun_upd_apply)
  have c1: "c < numcpus st1" using th(5) s1(5) by simp
  have q1: "?Q1 (Runqueue c) = Some (t # ts @ [cur])" by simp
  obtain zs where z: "?Q1 (Zombies c) = Some zs" by (rule srel_zombies [OF s1(2) c1])
  let ?Q2 = "?Q1(Runqueue c \<mapsto> ts @ [cur], Zombies c \<mapsto> [])"
  obtain st2 where s2: "thread_switch_round c st1 = Some (Inr st2)" "srel {} st2 ?Q2" "locks st2 c {}" "running st2 c t"
    using switch_round_ok [OF s1(2) c1 s1(4) q1 z s1(3)] by (auto simp del: fun_upd_apply)
  have "?Q2 Stacklist \<in> {None, Some []}" "?Q2 (Runqueue c) = Some (ts @ [cur])" using s by simp_all
  moreover have "thread_yield c st = Some (Inr st2)" using s1(1) s2(1) by (simp add: thread_yield_def thread_switch_def)
  ultimately show ?thesis using s2(2-4) by blast
qed

fun yields :: "nat \<Rightarrow> nat \<Rightarrow> ksys \<Rightarrow> ksys res option" where
  "yields c 0 st = Some (Inr st)"
| "yields c (Suc n) st = kthen (thread_yield c st) (yields c n)"

lemma yields_reach_turn:
  assumes "srel {} st Q" and "Q Stacklist \<in> {None, Some []}" and "locks st c {}" and "running st c cur"
    and "Q (Runqueue c) = Some xs" and "k < length xs"
  shows "\<exists>st'. yields c (Suc k) st = Some (Inr st') \<and> running st' c (xs ! k)"
  using assms
proof (induction k arbitrary: st Q cur xs)
  case 0
  then obtain t ts where xs: "xs = t # ts" by (cases xs) auto
  from yield_rotates [OF 0(1,2,3,4) 0(5) [unfolded xs]] xs show ?case by auto
next
  case (Suc k)
  then obtain t ts where xs: "xs = t # ts" by (cases xs) auto
  from yield_rotates [OF Suc.prems(1,2,3,4) Suc.prems(5) [unfolded xs]] obtain st1 Q1 where
    s1: "thread_yield c st = Some (Inr st1)" "srel {} st1 Q1" "Q1 Stacklist \<in> {None, Some []}" "locks st1 c {}" "running st1 c t"
      "Q1 (Runqueue c) = Some (ts @ [cur])" by blast
  have k: "k < length (ts @ [cur])" using Suc.prems(6) xs by simp
  have nth: "(ts @ [cur]) ! k = xs ! Suc k" using Suc.prems(6) xs by (simp add: nth_append)
  from Suc.IH [OF s1(2-6) k] obtain st2 where "yields c (Suc k) st1 = Some (Inr st2)" "running st2 c (xs ! Suc k)"
    unfolding nth by blast
  with s1(1) show ?case by simp
qed

text \<open>
  C18: no ready thread starves. When CPU \<open>c\<close> runs a thread and its run queue holds the sequence \<open>xs\<close>,
  the thread at position \<open>k\<close> runs after \<open>k + 1\<close> calls of \<open>thread_yield\<close> on that CPU.
\<close>

theorem sched_round_robin:
  assumes "sched_reach st" and "is_running c st"
  shows "\<exists>xs. tl_rep (tlists st) (Runqueue c) xs \<and>
    (\<forall>k<length xs. \<exists>st'. yields c (Suc k) st = Some (Inr st') \<and> running st' c (xs ! k))"
proof -
  have s: "sched st" by (rule sched_reach_sched [OF assms(1)])
  obtain cur where run: "running st c cur" by (rule is_running_running [OF s assms(2)])
  from s obtain Q where r: "srel {} st Q" "Q Stacklist \<in> {None, Some []}" "locks st c {}" by (rule schedE)
  obtain xs where q: "Q (Runqueue c) = Some xs" using srel_queue [OF r(1)] run by (auto simp: running_def)
  show ?thesis using tl_heap_rep [OF srel_heap [OF r(1)] q] yields_reach_turn [OF r run q] by blast
qed

lemma fork_reach: "\<exists>st. sched_reach st \<and> is_running 0 st \<and> \<not> threadlist_isempty (Runqueue 0) (tlists st)"
proof -
  obtain st where st: "sched_reach st" "is_running 0 st" "threads st 2 = None" using boot_reach by blast
  have s: "sched st" by (rule sched_reach_sched [OF st(1)])
  obtain cur where run: "running st 0 cur" by (rule is_running_running [OF s st(2)])
  from s obtain Q where r: "srel {} st Q" "locks st 0 {}" by (rule schedE)
  have c: "0 < numcpus st" using st(2) by (simp add: is_running_def)
  obtain xs where q: "Q (Runqueue 0) = Some xs" by (rule srel_queue [OF r(1) c])
  obtain st' where f: "thread_fork 0 (Some 2) True True None st = Inr (0, st')" "srel {} st' (Q(Runqueue 0 \<mapsto> xs @ [2]))" "same_cpus st st'"
    using thread_fork_ok [OF r(1) c r(2) run q, of "Some 2" True True None] st(3) by (auto simp del: fun_upd_apply)
  have "sched_reach st'"
    by (rule step [OF st(1), of "Op_fork 0 (Some 2) True True None"]) (use st f(1) in \<open>simp_all add: unused_tid_def\<close>)
  moreover have "is_running 0 st'" using st(2) f(3) by (simp add: is_running_def same_cpus_def)
  moreover have "\<not> threadlist_isempty (Runqueue 0) (tlists st')" using srel_isempty [OF f(2), of "Runqueue 0"] by simp
  ultimately show ?thesis by blast
qed

theorem sched_round_robin_witness:
  "\<exists>st xs. sched_reach st \<and> is_running 0 st \<and> tl_rep (tlists st) (Runqueue 0) xs \<and> xs \<noteq> [] \<and>
     (\<forall>k<length xs. \<exists>st'. yields 0 (Suc k) st = Some (Inr st') \<and> running st' 0 (xs ! k))"
proof -
  obtain st where st: "sched_reach st" "is_running 0 st" "\<not> threadlist_isempty (Runqueue 0) (tlists st)" using fork_reach by blast
  from sched_round_robin [OF st(1,2)] obtain xs where xs: "tl_rep (tlists st) (Runqueue 0) xs"
    "\<forall>k<length xs. \<exists>st'. yields 0 (Suc k) st = Some (Inr st') \<and> running st' 0 (xs ! k)" by blast
  have "xs \<noteq> []" using st(3) xs(1) by (auto simp: tl_rep_def threadlist_isempty_def)
  with xs st show ?thesis by blast
qed

end
