(* ===== verification/Synch.thy ===== *)
theory Synch
  imports Threadlist
begin

text \<open>
  Semaphores, sleep locks and condition variables (\<open>kern/thread/synch.c\<close>).

  Every operation runs under the spinlock of its object, so a stretch of code between taking that spinlock and
  releasing it (or handing it to \<open>wchan_sleep\<close>) is one step. A wait channel is the queue of the threads
  asleep on it; \<open>pos\<close> says in which call a thread is that has slept and has not returned yet, and such
  a thread goes on from there when it is not on a wait channel any more. The spinlock of a condition variable
  stays held while \<open>cv_wait\<close> releases the lock, so its holder is part of the state. An event
  records each call that returns with a lock or a unit of a semaphore, and each one given back.
\<close>

subsection \<open>State\<close>

record semaphore =
  sem_name :: string
  sem_count :: u32

record lock =
  lk_name :: string
  lk_owner :: "tid option"

record cv =
  cv_name :: string
  cv_lock :: "tid option"

datatype wchan_id = Sem_wchan nat | Lk_wchan nat | Cv_wchan nat

datatype pos = Idle | In_P nat | In_lock_acquire nat | In_cv_wait nat nat | In_cv_sleep nat nat

record ssys =
  sems :: "nat \<rightharpoonup> semaphore"
  lks :: "nat \<rightharpoonup> lock"
  cvs :: "nat \<rightharpoonup> cv"
  wchans :: "wchan_id \<Rightarrow> tid list"
  pos :: "tid \<Rightarrow> pos"

datatype event = Downed tid nat | Upped nat | Acquired tid nat | Released tid nat

type_synonym sres = "(event list \<times> ssys) res"

definition obj :: "'a option \<Rightarrow> 'a res" where
  "obj p = (case p of None \<Rightarrow> Inl UseAfterFree | Some x \<Rightarrow> Inr x)"

lemma obj_simps [simp]: "obj None = Inl UseAfterFree" "obj (Some x) = Inr x"
  by (simp_all add: obj_def)

lemma obj_eq_Inr [simp]: "obj p = Inr x \<longleftrightarrow> p = Some x"
  by (cases p) simp_all

definition at_pos :: "tid \<Rightarrow> pos \<Rightarrow> ssys \<Rightarrow> ssys" where
  "at_pos t p sy = sy\<lparr>pos := (pos sy)(t := p)\<rparr>"

definition sleep_on :: "wchan_id \<Rightarrow> tid \<Rightarrow> ssys \<Rightarrow> ssys" where
  "sleep_on w t sy = sy\<lparr>wchans := (wchans sy)(w := wchans sy w @ [t])\<rparr>"

definition wakeone_on :: "wchan_id \<Rightarrow> ssys \<Rightarrow> ssys" where
  "wakeone_on w sy = sy\<lparr>wchans := (wchans sy)(w := tl (wchans sy w))\<rparr>"

definition wakeall_on :: "wchan_id \<Rightarrow> ssys \<Rightarrow> ssys" where
  "wakeall_on w sy = sy\<lparr>wchans := (wchans sy)(w := [])\<rparr>"

fun waits_on :: "pos \<Rightarrow> wchan_id option" where
  "waits_on Idle = None"
| "waits_on (In_P s) = Some (Sem_wchan s)"
| "waits_on (In_lock_acquire l) = Some (Lk_wchan l)"
| "waits_on (In_cv_wait c l) = None"
| "waits_on (In_cv_sleep c l) = Some (Cv_wchan c)"

definition asleep :: "tid \<Rightarrow> ssys \<Rightarrow> bool" where
  "asleep t sy \<longleftrightarrow> (case waits_on (pos sy t) of None \<Rightarrow> False | Some w \<Rightarrow> t \<in> set (wchans sy w))"

subsection \<open>Semaphores\<close>

text \<open>The outcomes of the three allocations are arguments of the constructors.\<close>

definition sem_create :: "nat option \<Rightarrow> bool \<Rightarrow> bool \<Rightarrow> string \<Rightarrow> u32 \<Rightarrow> ssys \<Rightarrow> nat option \<times> ssys" where
  "sem_create alloc strdup wchan name initial_count sy =
     (case alloc of
        None \<Rightarrow> (None, sy)
      | Some s \<Rightarrow>
          if \<not> strdup then (None, sy)
          else if \<not> wchan then (None, sy)
          else (Some s, sy\<lparr>sems := (sems sy)(s \<mapsto> \<lparr>sem_name = name, sem_count = initial_count\<rparr>),
                         wchans := (wchans sy)(Sem_wchan s := [])\<rparr>))"

definition sem_destroy :: "nat \<Rightarrow> ssys \<Rightarrow> ssys res" where
  "sem_destroy s sy =
     rbind (obj (sems sy s)) (\<lambda>_.
       if wchans sy (Sem_wchan s) \<noteq> [] then Inl KAssertFail
       else Inr (sy\<lparr>sems := (sems sy)(s := None)\<rparr>))"

text \<open>The loop of \<open>P\<close>: entered with the spinlock, at the call and again after each sleep.\<close>

definition P_loop :: "tid \<Rightarrow> nat \<Rightarrow> ssys \<Rightarrow> sres" where
  "P_loop t s sy =
     rbind (obj (sems sy s)) (\<lambda>sem.
       if sem_count sem = 0 then Inr ([], sleep_on (Sem_wchan s) t (at_pos t (In_P s) sy))
       else Inr ([Downed t s], at_pos t Idle (sy\<lparr>sems := (sems sy)(s \<mapsto> sem\<lparr>sem_count := sem_count sem - 1\<rparr>)\<rparr>)))"

definition P :: "bool \<Rightarrow> tid \<Rightarrow> nat \<Rightarrow> ssys \<Rightarrow> sres" where
  "P in_interrupt t s sy = (if in_interrupt then Inl KAssertFail else P_loop t s sy)"

definition V :: "nat \<Rightarrow> ssys \<Rightarrow> sres" where
  "V s sy =
     rbind (obj (sems sy s)) (\<lambda>sem.
       let sem' = sem\<lparr>sem_count := sem_count sem + 1\<rparr> in
       if \<not> sem_count sem' > 0 then Inl KAssertFail
       else Inr ([Upped s], wakeone_on (Sem_wchan s) (sy\<lparr>sems := (sems sy)(s \<mapsto> sem')\<rparr>)))"

subsection \<open>Locks\<close>

definition lock_create :: "nat option \<Rightarrow> bool \<Rightarrow> bool \<Rightarrow> string \<Rightarrow> ssys \<Rightarrow> nat option \<times> ssys" where
  "lock_create alloc strdup wchan name sy =
     (case alloc of
        None \<Rightarrow> (None, sy)
      | Some l \<Rightarrow>
          if \<not> strdup then (None, sy)
          else if \<not> wchan then (None, sy)
          else (Some l, sy\<lparr>lks := (lks sy)(l \<mapsto> \<lparr>lk_name = name, lk_owner = None\<rparr>),
                         wchans := (wchans sy)(Lk_wchan l := [])\<rparr>))"

definition lock_destroy :: "nat \<Rightarrow> ssys \<Rightarrow> ssys res" where
  "lock_destroy l sy =
     rbind (obj (lks sy l)) (\<lambda>_.
       if wchans sy (Lk_wchan l) \<noteq> [] then Inl KAssertFail
       else Inr (sy\<lparr>lks := (lks sy)(l := None)\<rparr>))"

definition lock_do_i_hold :: "tid \<Rightarrow> nat \<Rightarrow> ssys \<Rightarrow> bool res" where
  "lock_do_i_hold t l sy = rbind (obj (lks sy l)) (\<lambda>lock. Inr (Some t = lk_owner lock))"

definition lock_acquire_loop :: "tid \<Rightarrow> nat \<Rightarrow> ssys \<Rightarrow> sres" where
  "lock_acquire_loop t l sy =
     rbind (obj (lks sy l)) (\<lambda>lock.
       if lk_owner lock \<noteq> None then Inr ([], sleep_on (Lk_wchan l) t (at_pos t (In_lock_acquire l) sy))
       else Inr ([Acquired t l], at_pos t Idle (sy\<lparr>lks := (lks sy)(l \<mapsto> lock\<lparr>lk_owner := Some t\<rparr>)\<rparr>)))"

definition lock_acquire :: "bool \<Rightarrow> tid \<Rightarrow> nat \<Rightarrow> ssys \<Rightarrow> sres" where
  "lock_acquire in_interrupt t l sy =
     rbind (lock_do_i_hold t l sy) (\<lambda>h.
       if h then Inl KAssertFail
       else if in_interrupt then Inl KAssertFail
       else lock_acquire_loop t l sy)"

definition lock_release :: "tid \<Rightarrow> nat \<Rightarrow> ssys \<Rightarrow> sres" where
  "lock_release t l sy =
     rbind (lock_do_i_hold t l sy) (\<lambda>h.
       if \<not> h then Inl KAssertFail
       else rbind (obj (lks sy l)) (\<lambda>lock.
         Inr ([Released t l], wakeone_on (Lk_wchan l) (sy\<lparr>lks := (lks sy)(l \<mapsto> lock\<lparr>lk_owner := None\<rparr>)\<rparr>))))"

subsection \<open>Condition variables\<close>

definition cv_create :: "nat option \<Rightarrow> bool \<Rightarrow> bool \<Rightarrow> string \<Rightarrow> ssys \<Rightarrow> nat option \<times> ssys" where
  "cv_create alloc strdup wchan name sy =
     (case alloc of
        None \<Rightarrow> (None, sy)
      | Some c \<Rightarrow>
          if \<not> strdup then (None, sy)
          else if \<not> wchan then (None, sy)
          else (Some c, sy\<lparr>cvs := (cvs sy)(c \<mapsto> \<lparr>cv_name = name, cv_lock = None\<rparr>),
                         wchans := (wchans sy)(Cv_wchan c := [])\<rparr>))"

definition cv_destroy :: "nat \<Rightarrow> ssys \<Rightarrow> ssys res" where
  "cv_destroy c sy =
     rbind (obj (cvs sy c)) (\<lambda>cv.
       if wchans sy (Cv_wchan c) \<noteq> [] then Inl KAssertFail
       else if cv_lock cv \<noteq> None then Inl KAssertFail
       else Inr (sy\<lparr>cvs := (cvs sy)(c := None)\<rparr>))"

text \<open>Taking the spinlock of a condition variable; \<open>Spins\<close> while another thread has it.\<close>

definition take_cv_lock :: "nat \<Rightarrow> tid \<Rightarrow> ssys \<Rightarrow> ssys res" where
  "take_cv_lock c t sy =
     rbind (obj (cvs sy c)) (\<lambda>cv.
       if cv_lock cv \<noteq> None then Inl Spins else Inr (sy\<lparr>cvs := (cvs sy)(c \<mapsto> cv\<lparr>cv_lock := Some t\<rparr>)\<rparr>))"

definition drop_cv_lock :: "nat \<Rightarrow> ssys \<Rightarrow> ssys res" where
  "drop_cv_lock c sy =
     rbind (obj (cvs sy c)) (\<lambda>cv. Inr (sy\<lparr>cvs := (cvs sy)(c \<mapsto> cv\<lparr>cv_lock := None\<rparr>)\<rparr>))"

text \<open>
  \<open>cv_wait\<close> in three steps: it takes the spinlock and gives up the lock; \<open>wchan_sleep\<close> puts it on the
  wait channel and drops the spinlock; when it has been woken it takes and drops the spinlock and calls
  \<open>lock_acquire\<close>.
\<close>

definition cv_wait :: "tid \<Rightarrow> nat \<Rightarrow> nat \<Rightarrow> ssys \<Rightarrow> sres" where
  "cv_wait t c l sy =
     rbind (lock_do_i_hold t l sy) (\<lambda>h.
       if \<not> h then Inl KAssertFail
       else rbind (take_cv_lock c t sy) (\<lambda>sy1.
            rbind (lock_release t l sy1) (\<lambda>(es, sy2). Inr (es, at_pos t (In_cv_wait c l) sy2))))"

definition cv_wait_sleep :: "tid \<Rightarrow> nat \<Rightarrow> nat \<Rightarrow> ssys \<Rightarrow> sres" where
  "cv_wait_sleep t c l sy =
     rbind (drop_cv_lock c (sleep_on (Cv_wchan c) t (at_pos t (In_cv_sleep c l) sy))) (\<lambda>sy1. Inr ([], sy1))"

definition cv_wait_resume :: "tid \<Rightarrow> nat \<Rightarrow> nat \<Rightarrow> ssys \<Rightarrow> sres" where
  "cv_wait_resume t c l sy =
     rbind (take_cv_lock c t sy) (\<lambda>sy1. rbind (drop_cv_lock c sy1) (\<lambda>sy2. lock_acquire False t l sy2))"

definition cv_signal :: "tid \<Rightarrow> nat \<Rightarrow> nat \<Rightarrow> ssys \<Rightarrow> sres" where
  "cv_signal t c l sy =
     rbind (lock_do_i_hold t l sy) (\<lambda>h.
       if \<not> h then Inl KAssertFail
       else rbind (take_cv_lock c t sy) (\<lambda>sy1.
            rbind (drop_cv_lock c (wakeone_on (Cv_wchan c) sy1)) (\<lambda>sy2. Inr ([], sy2))))"

definition cv_broadcast :: "tid \<Rightarrow> nat \<Rightarrow> nat \<Rightarrow> ssys \<Rightarrow> sres" where
  "cv_broadcast t c l sy =
     rbind (lock_do_i_hold t l sy) (\<lambda>h.
       if \<not> h then Inl KAssertFail
       else rbind (take_cv_lock c t sy) (\<lambda>sy1.
            rbind (drop_cv_lock c (wakeall_on (Cv_wchan c) sy1)) (\<lambda>sy2. Inr ([], sy2))))"

subsection \<open>Threads\<close>

datatype call =
    Call_P bool nat
  | Call_V nat
  | Call_acquire bool nat
  | Call_release nat
  | Call_wait nat nat
  | Call_signal nat nat
  | Call_broadcast nat nat
  | Resume

text \<open>
  A step of a thread that is not asleep: a call when it is in none, else the continuation of the call it is in.
  \<open>V\<close> may come from an interrupt handler and does not depend on the thread.
\<close>

fun synch_step :: "tid \<Rightarrow> call \<Rightarrow> ssys \<Rightarrow> sres option" where
  "synch_step t (Call_P intr s) sy = (if pos sy t \<noteq> Idle then None else Some (P intr t s sy))"
| "synch_step t (Call_V s) sy = Some (V s sy)"
| "synch_step t (Call_acquire intr l) sy = (if pos sy t \<noteq> Idle then None else Some (lock_acquire intr t l sy))"
| "synch_step t (Call_release l) sy = (if pos sy t \<noteq> Idle then None else Some (lock_release t l sy))"
| "synch_step t (Call_wait c l) sy = (if pos sy t \<noteq> Idle then None else Some (cv_wait t c l sy))"
| "synch_step t (Call_signal c l) sy = (if pos sy t \<noteq> Idle then None else Some (cv_signal t c l sy))"
| "synch_step t (Call_broadcast c l) sy = (if pos sy t \<noteq> Idle then None else Some (cv_broadcast t c l sy))"
| "synch_step t Resume sy =
     (if asleep t sy then None
      else case pos sy t of
          Idle \<Rightarrow> None
        | In_P s \<Rightarrow> Some (P_loop t s sy)
        | In_lock_acquire l \<Rightarrow> Some (lock_acquire_loop t l sy)
        | In_cv_wait c l \<Rightarrow> Some (cv_wait_sleep t c l sy)
        | In_cv_sleep c l \<Rightarrow> Some (cv_wait_resume t c l sy))"

definition quiescent :: "ssys \<Rightarrow> bool" where
  "quiescent sy \<longleftrightarrow> (\<forall>w. wchans sy w = []) \<and> (\<forall>t. pos sy t = Idle) \<and>
     (\<forall>l lock. lks sy l = Some lock \<longrightarrow> lk_owner lock = None) \<and> (\<forall>c cv. cvs sy c = Some cv \<longrightarrow> cv_lock cv = None)"

inductive synch_run :: "ssys \<Rightarrow> event list \<Rightarrow> ssys \<Rightarrow> bool" for sy0 where
  start: "quiescent sy0 \<Longrightarrow> synch_run sy0 [] sy0"
| step: "synch_run sy0 es sy \<Longrightarrow> synch_step t a sy = Some (Inr (es', sy')) \<Longrightarrow> synch_run sy0 (es @ es') sy'"

subsection \<open>The wait queues\<close>

text \<open>A thread on a wait channel is in the call that sleeps there.\<close>

definition queues_ok :: "ssys \<Rightarrow> bool" where
  "queues_ok sy \<longleftrightarrow> finite {t. pos sy t \<noteq> Idle} \<and>
     (\<forall>w. distinct (wchans sy w) \<and> (\<forall>t\<in>set (wchans sy w). waits_on (pos sy t) = Some w))"

lemma sel_upd [simp]:
  "wchans (at_pos t p sy) = wchans sy" "sems (at_pos t p sy) = sems sy" "lks (at_pos t p sy) = lks sy" "cvs (at_pos t p sy) = cvs sy"
  "pos (at_pos t p sy) = (pos sy)(t := p)"
  "sems (sleep_on w t sy) = sems sy" "lks (sleep_on w t sy) = lks sy" "cvs (sleep_on w t sy) = cvs sy" "pos (sleep_on w t sy) = pos sy"
  "wchans (sleep_on w t sy) = (wchans sy)(w := wchans sy w @ [t])"
  "sems (wakeone_on w sy) = sems sy" "lks (wakeone_on w sy) = lks sy" "cvs (wakeone_on w sy) = cvs sy" "pos (wakeone_on w sy) = pos sy"
  "wchans (wakeone_on w sy) = (wchans sy)(w := tl (wchans sy w))"
  "sems (wakeall_on w sy) = sems sy" "lks (wakeall_on w sy) = lks sy" "cvs (wakeall_on w sy) = cvs sy" "pos (wakeall_on w sy) = pos sy"
  "wchans (wakeall_on w sy) = (wchans sy)(w := [])"
  by (simp_all add: at_pos_def sleep_on_def wakeone_on_def wakeall_on_def)

lemma asleep_iff: "asleep t sy \<longleftrightarrow> (\<exists>w. waits_on (pos sy t) = Some w \<and> t \<in> set (wchans sy w))"
  by (auto simp: asleep_def split: option.splits)

lemma asleep_obj [simp]:
  "asleep t (sy\<lparr>sems := a\<rparr>) = asleep t sy" "asleep t (sy\<lparr>lks := b\<rparr>) = asleep t sy" "asleep t (sy\<lparr>cvs := c\<rparr>) = asleep t sy"
  by (simp_all add: asleep_iff)

lemma queues_obj [simp]:
  "queues_ok (sy\<lparr>sems := a\<rparr>) = queues_ok sy" "queues_ok (sy\<lparr>lks := b\<rparr>) = queues_ok sy" "queues_ok (sy\<lparr>cvs := c\<rparr>) = queues_ok sy"
  by (simp_all add: queues_ok_def)

lemma not_asleep: "queues_ok sy \<Longrightarrow> \<not> asleep t sy \<Longrightarrow> t \<notin> set (wchans sy w)"
  by (force simp: queues_ok_def asleep_iff)

lemma idle_awake: "waits_on (pos sy t) = None \<Longrightarrow> \<not> asleep t sy"
  by (simp add: asleep_iff)

lemma finite_upd: "finite {u. (f(t := p)) u \<noteq> q}" if "finite {u. f u \<noteq> q}"
  by (rule finite_subset [of _ "insert t {u. f u \<noteq> q}"]) (use that in auto)

lemma queues_at_pos:
  assumes "queues_ok sy" and "\<not> asleep t sy"
  shows "queues_ok (at_pos t p sy)"
  using assms(1) not_asleep [OF assms] finite_upd [of "pos sy" Idle t p] by (auto simp: queues_ok_def)

lemma queues_sleep:
  assumes "queues_ok sy" and "\<not> asleep t sy" and "waits_on p = Some w"
  shows "queues_ok (sleep_on w t (at_pos t p sy))"
  using assms(1,3) not_asleep [OF assms(1,2)] finite_upd [of "pos sy" Idle t p] by (auto simp: queues_ok_def)

lemma in_tl: "t \<in> set (tl xs) \<Longrightarrow> t \<in> set xs"
  by (cases xs) simp_all

lemma queues_wakeone: "queues_ok sy \<Longrightarrow> queues_ok (wakeone_on w sy)"
  by (auto simp: queues_ok_def distinct_tl dest: in_tl)

lemma queues_wakeall: "queues_ok sy \<Longrightarrow> queues_ok (wakeall_on w sy)"
  by (simp add: queues_ok_def)

subsection \<open>Who has been woken\<close>

definition awake_in :: "pos \<Rightarrow> ssys \<Rightarrow> tid set" where
  "awake_in p sy = {t. pos sy t = p \<and> \<not> asleep t sy}"

lemma awake_obj [simp]:
  "awake_in p (sy\<lparr>sems := a\<rparr>) = awake_in p sy" "awake_in p (sy\<lparr>lks := b\<rparr>) = awake_in p sy" "awake_in p (sy\<lparr>cvs := c\<rparr>) = awake_in p sy"
  by (simp_all add: awake_in_def)

lemma finite_awake: "queues_ok sy \<Longrightarrow> p \<noteq> Idle \<Longrightarrow> finite (awake_in p sy)"
  by (rule finite_subset [of _ "{t. pos sy t \<noteq> Idle}"]) (auto simp: awake_in_def queues_ok_def)

lemma awake_at_idle:
  assumes "p \<noteq> Idle"
  shows "awake_in p (at_pos t Idle sy) = awake_in p sy - {t}"
  using assms by (auto simp: awake_in_def asleep_iff)

lemma awake_at_pos:
  assumes "waits_on q = None" and "q \<noteq> p"
  shows "awake_in p (at_pos t q sy) = awake_in p sy - {t}"
  using assms by (auto simp: awake_in_def asleep_iff)

lemma awake_sleep:
  assumes "waits_on q = Some w"
  shows "awake_in p (sleep_on w t (at_pos t q sy)) = awake_in p sy - {t}"
  using assms by (auto simp: awake_in_def asleep_iff)

lemma awake_in_eq: "waits_on p = Some w \<Longrightarrow> awake_in p sy = {t. pos sy t = p \<and> t \<notin> set (wchans sy w)}"
  by (auto simp: awake_in_def asleep_iff)

lemma awake_wakeone:
  assumes q: "queues_ok sy" and w: "waits_on p = Some w"
  shows "awake_in p (wakeone_on w sy) = awake_in p sy \<union> {t. wchans sy w \<noteq> [] \<and> t = hd (wchans sy w) \<and> pos sy t = p}"
proof -
  have "distinct (wchans sy w)" using q by (simp add: queues_ok_def)
  then show ?thesis unfolding awake_in_eq [OF w] by (cases "wchans sy w") auto
qed

lemma awake_other_wakeone: "waits_on p \<noteq> Some w \<Longrightarrow> awake_in p (wakeone_on w sy) = awake_in p sy"
  by (auto simp: awake_in_def asleep_iff)

lemma awake_other_wakeall: "waits_on p \<noteq> Some w \<Longrightarrow> awake_in p (wakeall_on w sy) = awake_in p sy"
  by (auto simp: awake_in_def asleep_iff)


lemma awake_pos: "pos sy t \<noteq> p \<Longrightarrow> awake_in p sy - {t} = awake_in p sy"
  by (auto simp: awake_in_def)

subsection \<open>No wake-up is lost\<close>

text \<open>
  While threads wait for a semaphore, at least as many threads as it has units have been woken and are about to
  look at it again; while threads wait for a free lock, one has been woken. The spinlock of a
  condition variable is held only by a thread between giving up the lock and going to sleep.
\<close>

definition sem_ok :: "ssys \<Rightarrow> bool" where
  "sem_ok sy \<longleftrightarrow> (\<forall>s sem. sems sy s = Some sem \<longrightarrow> wchans sy (Sem_wchan s) \<noteq> [] \<longrightarrow>
     unat (sem_count sem) \<le> card (awake_in (In_P s) sy))"

definition lock_ok :: "ssys \<Rightarrow> bool" where
  "lock_ok sy \<longleftrightarrow> (\<forall>l lock. lks sy l = Some lock \<longrightarrow> wchans sy (Lk_wchan l) \<noteq> [] \<longrightarrow> lk_owner lock = None \<longrightarrow>
     awake_in (In_lock_acquire l) sy \<noteq> {})"

definition cv_ok :: "ssys \<Rightarrow> bool" where
  "cv_ok sy \<longleftrightarrow> (\<forall>c cv t. cvs sy c = Some cv \<longrightarrow> cv_lock cv = Some t \<longrightarrow> (\<exists>l. pos sy t = In_cv_wait c l))"

definition synch_ok :: "ssys \<Rightarrow> bool" where
  "synch_ok sy \<longleftrightarrow> queues_ok sy \<and> sem_ok sy \<and> lock_ok sy \<and> cv_ok sy"

lemma synch_okI: "queues_ok sy \<Longrightarrow> sem_ok sy \<Longrightarrow> lock_ok sy \<Longrightarrow> cv_ok sy \<Longrightarrow> synch_ok sy"
  by (simp add: synch_ok_def)

lemma synch_okD: "synch_ok sy \<Longrightarrow> queues_ok sy" "synch_ok sy \<Longrightarrow> sem_ok sy" "synch_ok sy \<Longrightarrow> lock_ok sy" "synch_ok sy \<Longrightarrow> cv_ok sy"
  by (simp_all add: synch_ok_def)

lemma cv_ok_frame:
  assumes "cv_ok sy" and "cvs sy' = cvs sy" and "\<And>u. u \<noteq> t \<Longrightarrow> pos sy' u = pos sy u" and "\<And>c l. pos sy t \<noteq> In_cv_wait c l"
  shows "cv_ok sy'"
  unfolding cv_ok_def
proof (intro allI impI)
  fix c cv u assume "cvs sy' c = Some cv" "cv_lock cv = Some u"
  then obtain l where l: "pos sy u = In_cv_wait c l" using assms(1,2) unfolding cv_ok_def by metis
  then have "u \<noteq> t" using assms(4) by blast
  with l assms(3) show "\<exists>l. pos sy' u = In_cv_wait c l" by simp
qed

lemma P_loop_ok:
  assumes i: "synch_ok sy" and t: "\<not> asleep t sy" "pos sy t \<in> {Idle, In_P s}" and r: "P_loop t s sy = Inr (es, sy')"
  shows "synch_ok sy'"
proof -
  from r obtain sem where sem: "sems sy s = Some sem" by (auto simp: P_loop_def)
  note q = synch_okD(1) [OF i]
  have np: "pos sy t \<noteq> In_lock_acquire l" "pos sy t \<noteq> In_cv_wait c l" for c l using t(2) by auto
  have ns: "s' \<noteq> s \<Longrightarrow> pos sy t \<noteq> In_P s'" for s' using t(2) by auto
  show ?thesis
  proof (cases "sem_count sem = 0")
    case True
    then have e: "sy' = sleep_on (Sem_wchan s) t (at_pos t (In_P s) sy)" using r sem by (simp add: P_loop_def)
    have aw: "awake_in p sy' = awake_in p sy - {t}" for p unfolding e by (rule awake_sleep) simp
    show ?thesis
    proof (rule synch_okI)
      show "queues_ok sy'" unfolding e by (rule queues_sleep [OF q t(1)]) simp
      show "sem_ok sy'" unfolding sem_ok_def aw
        using synch_okD(2) [OF i] True sem ns by (auto simp: e sem_ok_def awake_pos)
      show "lock_ok sy'" unfolding lock_ok_def aw awake_pos [OF np(1)] using synch_okD(3) [OF i] by (simp add: e lock_ok_def)
      show "cv_ok sy'" by (rule cv_ok_frame [OF synch_okD(4) [OF i], of _ t]) (use np in \<open>simp_all add: e\<close>)
    qed
  next
    case False
    then have e: "sy' = at_pos t Idle (sy\<lparr>sems := (sems sy)(s \<mapsto> sem\<lparr>sem_count := sem_count sem - 1\<rparr>)\<rparr>)"
      using r sem by (simp add: P_loop_def)
    have aw: "p \<noteq> Idle \<Longrightarrow> awake_in p sy' = awake_in p sy - {t}" for p unfolding e by (simp add: awake_at_idle)
    have f: "sems sy' = (sems sy)(s \<mapsto> sem\<lparr>sem_count := sem_count sem - 1\<rparr>)" "wchans sy' = wchans sy" "lks sy' = lks sy" by (simp_all add: e)
    have dec: "unat (sem_count sem - 1) = unat (sem_count sem) - 1" using False by (rule unat_minus_one)
    have fin: "finite (awake_in (In_P s) sy)" by (rule finite_awake [OF q]) simp
    show ?thesis
    proof (rule synch_okI)
      show "queues_ok sy'" unfolding e by (rule queues_at_pos) (use q t in simp_all)
      have "unat (sem_count sem - 1) \<le> card (awake_in (In_P s) sy - {t})" if "wchans sy (Sem_wchan s) \<noteq> []"
      proof -
        have "unat (sem_count sem) \<le> card (awake_in (In_P s) sy)" using synch_okD(2) [OF i] sem that by (simp add: sem_ok_def)
        then show ?thesis unfolding dec card_Diff_singleton_if by (simp add: diff_le_mono) linarith
      qed
      then show "sem_ok sy'" using synch_okD(2) [OF i] ns by (auto simp: sem_ok_def aw f awake_pos)
      show "lock_ok sy'" using synch_okD(3) [OF i] by (auto simp: lock_ok_def aw awake_pos [OF np(1)] f)
      show "cv_ok sy'" by (rule cv_ok_frame [OF synch_okD(4) [OF i], of _ t]) (use np in \<open>simp_all add: e\<close>)
    qed
  qed
qed

lemma V_ok:
  assumes i: "synch_ok sy" and r: "V s sy = Inr (es, sy')"
  shows "synch_ok sy'"
proof -
  from r obtain sem where sem: "sems sy s = Some sem" by (auto simp: V_def)
  let ?sem = "sem\<lparr>sem_count := sem_count sem + 1\<rparr>"
  let ?sy1 = "sy\<lparr>sems := (sems sy)(s \<mapsto> ?sem)\<rparr>"
  have e: "sy' = wakeone_on (Sem_wchan s) ?sy1" and n: "sem_count sem + 1 \<noteq> 0" using r sem by (auto simp: V_def Let_def split: if_splits)
  note q = synch_okD(1) [OF i]
  have q1: "queues_ok ?sy1" using q by simp
  have aw: "awake_in (In_P s) sy' = awake_in (In_P s) sy \<union> {t. wchans sy (Sem_wchan s) \<noteq> [] \<and> t = hd (wchans sy (Sem_wchan s)) \<and> pos sy t = In_P s}"
    using awake_wakeone [OF q1, of "In_P s" "Sem_wchan s"] by (simp add: e)
  have ao: "waits_on p \<noteq> Some (Sem_wchan s) \<Longrightarrow> awake_in p sy' = awake_in p sy" for p
    using awake_other_wakeone [of p "Sem_wchan s" ?sy1] by (simp add: e)
  have f: "sems sy' = (sems sy)(s \<mapsto> ?sem)" "wchans sy' = (wchans sy)(Sem_wchan s := tl (wchans sy (Sem_wchan s)))" "lks sy' = lks sy"
    by (simp_all add: e)
  show ?thesis
  proof (rule synch_okI)
    show "queues_ok sy'" unfolding e by (rule queues_wakeone [OF q1])
    have "unat (sem_count sem + 1) \<le> card (awake_in (In_P s) sy')" if w: "tl (wchans sy (Sem_wchan s)) \<noteq> []"
    proof -
      obtain h ts where h: "wchans sy (Sem_wchan s) = h # ts" using w by (cases "wchans sy (Sem_wchan s)") auto
      have "waits_on (pos sy h) = Some (Sem_wchan s)" using q h unfolding queues_ok_def by (metis list.set_intros(1))
      then have p: "pos sy h = In_P s" by (cases "pos sy h") simp_all
      have "h \<notin> awake_in (In_P s) sy" using h p by (simp add: awake_in_eq)
      moreover have "awake_in (In_P s) sy' = insert h (awake_in (In_P s) sy)" using aw h p by auto
      ultimately have "card (awake_in (In_P s) sy') = Suc (card (awake_in (In_P s) sy))" using finite_awake [OF q] by simp
      moreover have "unat (sem_count sem) \<le> card (awake_in (In_P s) sy)" using synch_okD(2) [OF i] sem h by (simp add: sem_ok_def)
      moreover have "unat (sem_count sem + 1) \<le> unat (sem_count sem) + 1" unfolding unat_add_u32 by simp
      ultimately show ?thesis by simp
    qed
    moreover have "awake_in (In_P s') sy' = awake_in (In_P s') sy" if "s' \<noteq> s" for s' using ao [of "In_P s'"] that by simp
    ultimately show "sem_ok sy'" using synch_okD(2) [OF i] by (auto simp: f sem_ok_def)
    show "lock_ok sy'" using synch_okD(3) [OF i] by (simp add: f ao lock_ok_def)
    show "cv_ok sy'" using synch_okD(4) [OF i] by (simp add: e cv_ok_def)
  qed
qed

lemma lock_acquire_loop_ok:
  assumes i: "synch_ok sy" and t: "\<not> asleep t sy" "pos sy t \<in> {Idle, In_lock_acquire l, In_cv_sleep c l}" and r: "lock_acquire_loop t l sy = Inr (es, sy')"
  shows "synch_ok sy'"
proof -
  from r obtain lock where lock: "lks sy l = Some lock" by (auto simp: lock_acquire_loop_def)
  note q = synch_okD(1) [OF i]
  have np: "pos sy t \<noteq> In_P s" "pos sy t \<noteq> In_cv_wait c' l'" for s c' l' using t(2) by auto
  have nl: "l' \<noteq> l \<Longrightarrow> pos sy t \<noteq> In_lock_acquire l'" for l' using t(2) by auto
  show ?thesis
  proof (cases "lk_owner lock = None")
    case False
    then have e: "sy' = sleep_on (Lk_wchan l) t (at_pos t (In_lock_acquire l) sy)" using r lock by (simp add: lock_acquire_loop_def)
    have aw: "awake_in p sy' = awake_in p sy - {t}" for p unfolding e by (rule awake_sleep) simp
    show ?thesis
    proof (rule synch_okI)
      show "queues_ok sy'" unfolding e by (rule queues_sleep [OF q t(1)]) simp
      show "sem_ok sy'" unfolding sem_ok_def aw awake_pos [OF np(1)] using synch_okD(2) [OF i] by (simp add: e sem_ok_def)
      have awl: "l' \<noteq> l \<Longrightarrow> awake_in (In_lock_acquire l') sy' = awake_in (In_lock_acquire l') sy" for l'
        using aw awake_pos [OF nl] by simp
      show "lock_ok sy'" unfolding lock_ok_def
      proof (intro allI impI)
        fix l' lock' assume "lks sy' l' = Some lock'" "wchans sy' (Lk_wchan l') \<noteq> []" "lk_owner lock' = None"
        with False lock synch_okD(3) [OF i] show "awake_in (In_lock_acquire l') sy' \<noteq> {}"
          by (cases "l' = l") (simp_all add: awl, simp_all add: e lock_ok_def)
      qed
      show "cv_ok sy'" by (rule cv_ok_frame [OF synch_okD(4) [OF i], of _ t]) (use np in \<open>simp_all add: e\<close>)
    qed
  next
    case True
    then have e: "sy' = at_pos t Idle (sy\<lparr>lks := (lks sy)(l \<mapsto> lock\<lparr>lk_owner := Some t\<rparr>)\<rparr>)"
      using r lock by (simp add: lock_acquire_loop_def)
    have aw: "p \<noteq> Idle \<Longrightarrow> awake_in p sy' = awake_in p sy - {t}" for p unfolding e by (simp add: awake_at_idle)
    have f: "sems sy' = sems sy" "wchans sy' = wchans sy" "lks sy' = (lks sy)(l \<mapsto> lock\<lparr>lk_owner := Some t\<rparr>)" by (simp_all add: e)
    show ?thesis
    proof (rule synch_okI)
      show "queues_ok sy'" unfolding e by (rule queues_at_pos) (use q t in simp_all)
      show "sem_ok sy'" using synch_okD(2) [OF i] by (simp add: sem_ok_def aw f awake_pos [OF np(1)])
      have awl: "l' \<noteq> l \<Longrightarrow> awake_in (In_lock_acquire l') sy' = awake_in (In_lock_acquire l') sy" for l'
        using aw awake_pos [OF nl] by simp
      show "lock_ok sy'" using synch_okD(3) [OF i] by (simp add: lock_ok_def awl f)
      show "cv_ok sy'" by (rule cv_ok_frame [OF synch_okD(4) [OF i], of _ t]) (use np in \<open>simp_all add: e\<close>)
    qed
  qed
qed

lemma lock_release_iff:
  "lock_release t l sy = Inr r \<longleftrightarrow> (\<exists>lock. lks sy l = Some lock \<and> lk_owner lock = Some t \<and>
     r = ([Released t l], wakeone_on (Lk_wchan l) (sy\<lparr>lks := (lks sy)(l \<mapsto> lock\<lparr>lk_owner := None\<rparr>)\<rparr>)))"
  by (cases "lks sy l") (auto simp: lock_release_def lock_do_i_hold_def split: if_splits)

lemma lock_release_ok:
  assumes i: "synch_ok sy" and r: "lock_release t l sy = Inr (es, sy')"
  shows "synch_ok sy'"
proof -
  from r obtain lock where lock: "lks sy l = Some lock" by (auto simp: lock_release_def lock_do_i_hold_def)
  let ?sy1 = "sy\<lparr>lks := (lks sy)(l \<mapsto> lock\<lparr>lk_owner := None\<rparr>)\<rparr>"
  have e: "sy' = wakeone_on (Lk_wchan l) ?sy1" using r lock by (simp add: lock_release_def lock_do_i_hold_def split: if_splits)
  note q = synch_okD(1) [OF i]
  have q1: "queues_ok ?sy1" using q by simp
  have ao: "waits_on p \<noteq> Some (Lk_wchan l) \<Longrightarrow> awake_in p sy' = awake_in p sy" for p
    using awake_other_wakeone [of p "Lk_wchan l" ?sy1] by (simp add: e)
  have f: "sems sy' = sems sy" "wchans sy' = (wchans sy)(Lk_wchan l := tl (wchans sy (Lk_wchan l)))"
    "lks sy' = (lks sy)(l \<mapsto> lock\<lparr>lk_owner := None\<rparr>)" "cvs sy' = cvs sy" "pos sy' = pos sy" by (simp_all add: e)
  show ?thesis
  proof (rule synch_okI)
    show "queues_ok sy'" unfolding e by (rule queues_wakeone [OF q1])
    show "sem_ok sy'" using synch_okD(2) [OF i] by (simp add: f ao sem_ok_def)
    have "awake_in (In_lock_acquire l) sy' \<noteq> {}" if w: "tl (wchans sy (Lk_wchan l)) \<noteq> []"
    proof -
      obtain h ts where h: "wchans sy (Lk_wchan l) = h # ts" using w by (cases "wchans sy (Lk_wchan l)") auto
      have "waits_on (pos sy h) = Some (Lk_wchan l)" using q h unfolding queues_ok_def by (metis list.set_intros(1))
      then have p: "pos sy h = In_lock_acquire l" by (cases "pos sy h") simp_all
      then have "h \<in> awake_in (In_lock_acquire l) sy'" using awake_wakeone [OF q1, of "In_lock_acquire l" "Lk_wchan l"] h by (simp add: e)
      then show ?thesis by blast
    qed
    moreover have "awake_in (In_lock_acquire l') sy' = awake_in (In_lock_acquire l') sy" if "l' \<noteq> l" for l' using ao [of "In_lock_acquire l'"] that by simp
    ultimately show "lock_ok sy'" using synch_okD(3) [OF i] by (auto simp: f lock_ok_def)
    show "cv_ok sy'" using synch_okD(4) [OF i] by (simp add: f cv_ok_def)
  qed
qed

lemma cv_wake_ok:
  assumes i: "synch_ok sy" and w: "w = wakeone_on (Cv_wchan c) \<or> w = wakeall_on (Cv_wchan c)"
    and r: "rbind (take_cv_lock c t sy) (\<lambda>sy1. rbind (drop_cv_lock c (w sy1)) (\<lambda>sy2. Inr ([], sy2))) = Inr (es, sy')"
  shows "synch_ok sy'"
proof -
  from r obtain cv where cv: "cvs sy c = Some cv" "cv_lock cv = None" by (auto simp: take_cv_lock_def split: if_splits)
  let ?sy1 = "sy\<lparr>cvs := (cvs sy)(c \<mapsto> cv\<lparr>cv_lock := Some t\<rparr>)\<rparr>"
  have q1: "queues_ok ?sy1" using synch_okD(1) [OF i] by simp
  have c1: "cvs (w ?sy1) c = Some (cv\<lparr>cv_lock := Some t\<rparr>)" using w by auto
  have e: "sy' = (w ?sy1)\<lparr>cvs := (cvs (w ?sy1))(c \<mapsto> cv\<lparr>cv_lock := None\<rparr>)\<rparr>"
    using r cv c1 by (auto simp: take_cv_lock_def drop_cv_lock_def)
  have ao: "waits_on p \<noteq> Some (Cv_wchan c) \<Longrightarrow> awake_in p sy' = awake_in p sy" for p
    using w awake_other_wakeone [of p "Cv_wchan c" ?sy1] awake_other_wakeall [of p "Cv_wchan c" ?sy1] by (auto simp: e)
  have f: "sems sy' = sems sy" "lks sy' = lks sy" "pos sy' = pos sy" "cvs sy' = (cvs sy)(c \<mapsto> cv\<lparr>cv_lock := None\<rparr>)"
    "wchans sy' (Sem_wchan s) = wchans sy (Sem_wchan s)" "wchans sy' (Lk_wchan l) = wchans sy (Lk_wchan l)" for s l
    using w by (auto simp: e)
  show ?thesis
  proof (rule synch_okI)
    show "queues_ok sy'" unfolding e using w queues_wakeone [OF q1] queues_wakeall [OF q1] by auto
    show "sem_ok sy'" using synch_okD(2) [OF i] by (simp add: f ao sem_ok_def)
    show "lock_ok sy'" using synch_okD(3) [OF i] by (simp add: f ao lock_ok_def)
    show "cv_ok sy'" using synch_okD(4) [OF i] by (simp add: f cv_ok_def)
  qed
qed

lemma cv_wait_ok:
  assumes i: "synch_ok sy" and t: "pos sy t = Idle" and r: "cv_wait t c l sy = Inr (es, sy')"
  shows "synch_ok sy'"
proof -
  from r obtain cv sy1 sy2 where cv: "cvs sy c = Some cv" "cv_lock cv = None"
    and sy1: "sy1 = sy\<lparr>cvs := (cvs sy)(c \<mapsto> cv\<lparr>cv_lock := Some t\<rparr>)\<rparr>"
    and rel: "lock_release t l sy1 = Inr (es, sy2)" and e: "sy' = at_pos t (In_cv_wait c l) sy2"
    by (auto simp: cv_wait_def take_cv_lock_def split: if_splits)
  from rel obtain lock where lock: "lks sy l = Some lock" "lk_owner lock = Some t" "es = [Released t l]"
    "sy2 = wakeone_on (Lk_wchan l) (sy1\<lparr>lks := (lks sy)(l \<mapsto> lock\<lparr>lk_owner := None\<rparr>)\<rparr>)"
    unfolding lock_release_iff by (auto simp: sy1)
  define sy0 where "sy0 = wakeone_on (Lk_wchan l) (sy\<lparr>lks := (lks sy)(l \<mapsto> lock\<lparr>lk_owner := None\<rparr>)\<rparr>)"
  have sy0: "lock_release t l sy = Inr (es, sy0)" "sy2 = sy0\<lparr>cvs := (cvs sy)(c \<mapsto> cv\<lparr>cv_lock := Some t\<rparr>)\<rparr>"
    "pos sy0 = pos sy" "cvs sy0 = cvs sy"
    using lock by (simp_all add: lock_release_iff sy0_def sy1 wakeone_on_def)
  have i0: "synch_ok sy0" by (rule lock_release_ok [OF i sy0(1)])
  have aw: "p \<noteq> In_cv_wait c l \<Longrightarrow> p \<noteq> Idle \<Longrightarrow> awake_in p sy' = awake_in p sy0" for p
    unfolding e sy0(2) using awake_at_pos [of "In_cv_wait c l" p t sy2] awake_pos [of sy0 t p] t sy0 by simp
  have f: "sems sy' = sems sy0" "lks sy' = lks sy0" "wchans sy' = wchans sy0" "cvs sy' = (cvs sy0)(c \<mapsto> cv\<lparr>cv_lock := Some t\<rparr>)"
    "pos sy' = (pos sy0)(t := In_cv_wait c l)" by (simp_all add: e sy0)
  show ?thesis
  proof (rule synch_okI)
    show "queues_ok sy'" unfolding e sy0(2)
      by (rule queues_at_pos) (use synch_okD(1) [OF i0] t sy0(3) in \<open>simp_all add: idle_awake\<close>)
    show "sem_ok sy'" using synch_okD(2) [OF i0] by (simp add: f aw sem_ok_def)
    show "lock_ok sy'" using synch_okD(3) [OF i0] by (simp add: f aw lock_ok_def)
    show "cv_ok sy'" using synch_okD(4) [OF i0] t sy0(3) unfolding cv_ok_def f by (auto split: if_splits) (metis pos.distinct(5))
  qed
qed

lemma cv_wait_sleep_ok:
  assumes i: "synch_ok sy" and t: "pos sy t = In_cv_wait c l" and r: "cv_wait_sleep t c l sy = Inr (es, sy')"
  shows "synch_ok sy'"
proof -
  from r obtain cv where cv: "cvs sy c = Some cv" by (auto simp: cv_wait_sleep_def drop_cv_lock_def)
  let ?sy1 = "sleep_on (Cv_wchan c) t (at_pos t (In_cv_sleep c l) sy)"
  have e: "sy' = ?sy1\<lparr>cvs := (cvs sy)(c \<mapsto> cv\<lparr>cv_lock := None\<rparr>)\<rparr>" using r cv by (simp add: cv_wait_sleep_def drop_cv_lock_def)
  have aw: "p \<noteq> In_cv_wait c l \<Longrightarrow> awake_in p sy' = awake_in p sy" for p
    using awake_sleep [of "In_cv_sleep c l" "Cv_wchan c" p t sy] awake_pos [of sy t p] t by (simp add: e)
  have f: "sems sy' = sems sy" "lks sy' = lks sy" "wchans sy' = (wchans sy)(Cv_wchan c := wchans sy (Cv_wchan c) @ [t])"
    "cvs sy' = (cvs sy)(c \<mapsto> cv\<lparr>cv_lock := None\<rparr>)" "pos sy' = (pos sy)(t := In_cv_sleep c l)" by (simp_all add: e)
  have na: "\<not> asleep t sy" using t by (simp add: idle_awake)
  show ?thesis
  proof (rule synch_okI)
    show "queues_ok sy'" unfolding e using queues_sleep [OF synch_okD(1) [OF i] na, of "In_cv_sleep c l" "Cv_wchan c"] by simp
    show "sem_ok sy'" using synch_okD(2) [OF i] by (simp add: f aw sem_ok_def)
    show "lock_ok sy'" using synch_okD(3) [OF i] by (simp add: f aw lock_ok_def)
    show "cv_ok sy'"
      unfolding cv_ok_def
    proof (intro allI impI)
      fix c' cv' u assume a: "cvs sy' c' = Some cv'" "cv_lock cv' = Some u"
      then have c': "c' \<noteq> c" "cvs sy c' = Some cv'" by (auto simp: f split: if_splits)
      with a synch_okD(4) [OF i] obtain l' where l': "pos sy u = In_cv_wait c' l'" unfolding cv_ok_def by metis
      with t c'(1) have "u \<noteq> t" by auto
      with l' show "\<exists>l. pos sy' u = In_cv_wait c' l" by (simp add: f)
    qed
  qed
qed

lemma take_drop_cv_lock:
  assumes "take_cv_lock c t sy = Inr sy1" and "drop_cv_lock c sy1 = Inr sy2"
  shows "sy2 = sy"
proof -
  from assms(1) obtain cv where cv: "cvs sy c = Some cv" "cv_lock cv = None" "sy1 = sy\<lparr>cvs := (cvs sy)(c \<mapsto> cv\<lparr>cv_lock := Some t\<rparr>)\<rparr>"
    by (auto simp: take_cv_lock_def split: if_splits)
  have "cv\<lparr>cv_lock := None\<rparr> = cv" using cv(2) by simp
  then show ?thesis using assms(2) cv by (auto simp: drop_cv_lock_def fun_upd_idem)
qed

lemma lock_acquire_loop_of: "lock_acquire b t l sy = Inr r \<Longrightarrow> lock_acquire_loop t l sy = Inr r"
  by (auto simp: lock_acquire_def split: if_splits)

lemma cv_wait_resumeE:
  assumes "cv_wait_resume t c l sy = Inr r"
  shows "lock_acquire_loop t l sy = Inr r"
proof -
  from assms obtain sy1 sy2 where s: "take_cv_lock c t sy = Inr sy1" "drop_cv_lock c sy1 = Inr sy2" "lock_acquire False t l sy2 = Inr r"
    by (auto simp: cv_wait_resume_def)
  have "sy2 = sy" by (rule take_drop_cv_lock [OF s(1,2)])
  with lock_acquire_loop_of [OF s(3)] show ?thesis by simp
qed

lemma P_loop_of: "P b t s sy = Inr r \<Longrightarrow> P_loop t s sy = Inr r"
  by (simp add: P_def split: if_splits)

lemma cv_signal_wake:
  "cv_signal t c l sy = Inr r \<Longrightarrow>
     rbind (take_cv_lock c t sy) (\<lambda>sy1. rbind (drop_cv_lock c (wakeone_on (Cv_wchan c) sy1)) (\<lambda>sy2. Inr ([], sy2))) = Inr r"
  by (auto simp: cv_signal_def split: if_splits)

lemma cv_broadcast_wake:
  "cv_broadcast t c l sy = Inr r \<Longrightarrow>
     rbind (take_cv_lock c t sy) (\<lambda>sy1. rbind (drop_cv_lock c (wakeall_on (Cv_wchan c) sy1)) (\<lambda>sy2. Inr ([], sy2))) = Inr r"
  by (auto simp: cv_broadcast_def split: if_splits)

lemma synch_step_ok:
  assumes i: "synch_ok sy" and r: "synch_step t a sy = Some (Inr (es, sy'))"
  shows "synch_ok sy'"
proof (cases a)
  case (Call_P b s)
  then have "pos sy t = Idle" "P_loop t s sy = Inr (es, sy')" using r by (auto split: if_splits dest: P_loop_of)
  then show ?thesis using P_loop_ok [OF i, of t s es sy'] by (simp add: idle_awake)
next
  case (Call_V s)
  then show ?thesis using r V_ok [OF i, of s es sy'] by simp
next
  case (Call_acquire b l)
  then have "pos sy t = Idle" "lock_acquire_loop t l sy = Inr (es, sy')" using r by (auto split: if_splits dest: lock_acquire_loop_of)
  then show ?thesis using lock_acquire_loop_ok [OF i, of t l 0 es sy'] by (simp add: idle_awake)
next
  case (Call_release l)
  then show ?thesis using r lock_release_ok [OF i] by (auto split: if_splits)
next
  case (Call_wait c l)
  then show ?thesis using r cv_wait_ok [OF i] by (auto split: if_splits)
next
  case (Call_signal c l)
  then have "cv_signal t c l sy = Inr (es, sy')" using r by (simp split: if_splits)
  from cv_wake_ok [OF i disjI1 [OF refl] cv_signal_wake [OF this]] show ?thesis .
next
  case (Call_broadcast c l)
  then have "cv_broadcast t c l sy = Inr (es, sy')" using r by (simp split: if_splits)
  from cv_wake_ok [OF i disjI2 [OF refl] cv_broadcast_wake [OF this]] show ?thesis .
next
  case Resume
  then have na: "\<not> asleep t sy" using r by (simp split: if_splits)
  show ?thesis
  proof (cases "pos sy t")
    case Idle
    then show ?thesis using r Resume by (simp split: if_splits)
  next
    case (In_P s)
    then show ?thesis using r Resume na P_loop_ok [OF i na, of s es sy'] by simp
  next
    case (In_lock_acquire l)
    then show ?thesis using r Resume na lock_acquire_loop_ok [OF i na, of l 0 es sy'] by simp
  next
    case (In_cv_wait c l)
    then show ?thesis using r Resume na cv_wait_sleep_ok [OF i, of t c l es sy'] by simp
  next
    case (In_cv_sleep c l)
    then have "lock_acquire_loop t l sy = Inr (es, sy')" using r Resume na by (simp add: cv_wait_resumeE)
    with In_cv_sleep show ?thesis using lock_acquire_loop_ok [OF i na, of l c es sy'] by simp
  qed
qed

lemma synch_run_ok: "synch_run sy0 es sy \<Longrightarrow> synch_ok sy"
proof (induction rule: synch_run.induct)
  case start
  then show ?case by (auto simp: quiescent_def synch_ok_def queues_ok_def sem_ok_def lock_ok_def cv_ok_def)
next
  case (step es sy t a es' sy')
  then show ?case using synch_step_ok by blast
qed

end
