(* ===== verification/Synch_Props.thy ===== *)
theory Synch_Props
  imports Synch
begin

text \<open>Mutual exclusion of locks, the accounting of semaphores, and that waiting threads are served.\<close>

subsection \<open>Histories\<close>

text \<open>
  The holder of lock \<open>l\<close> according to the history of calls that returned; \<open>None\<close> when the history lets
  two threads in, or a thread give back what it does not have.
\<close>

fun lock_hist :: "nat \<Rightarrow> tid option \<Rightarrow> event list \<Rightarrow> tid option option" where
  "lock_hist l h [] = Some h"
| "lock_hist l h (Acquired t l' # es) =
     (if l' \<noteq> l then lock_hist l h es else if h = None then lock_hist l (Some t) es else None)"
| "lock_hist l h (Released t l' # es) =
     (if l' \<noteq> l then lock_hist l h es else if h = Some t then lock_hist l None es else None)"
| "lock_hist l h (Downed t s # es) = lock_hist l h es"
| "lock_hist l h (Upped s # es) = lock_hist l h es"

lemma lock_hist_append: "lock_hist l h (es @ es') = Option.bind (lock_hist l h es) (\<lambda>h'. lock_hist l h' es')"
  by (induction l h es rule: lock_hist.induct) simp_all

fun downs :: "nat \<Rightarrow> event list \<Rightarrow> nat" where
  "downs s [] = 0"
| "downs s (e # es) = (case e of Downed t s' \<Rightarrow> if s' = s then 1 else 0 | _ \<Rightarrow> 0) + downs s es"

fun ups :: "nat \<Rightarrow> event list \<Rightarrow> nat" where
  "ups s [] = 0"
| "ups s (e # es) = (case e of Upped s' \<Rightarrow> if s' = s then 1 else 0 | _ \<Rightarrow> 0) + ups s es"

lemma downs_append [simp]: "downs s (es @ es') = downs s es + downs s es'" and ups_append [simp]: "ups s (es @ es') = ups s es + ups s es'"
  by (induction es) simp_all

subsection \<open>What a step does to the objects\<close>

text \<open>How the locks and semaphores change with the events of a step.\<close>

definition effect :: "ssys \<Rightarrow> event list \<Rightarrow> ssys \<Rightarrow> bool" where
  "effect sy es sy' \<longleftrightarrow>
     (\<forall>l lock. lks sy l = Some lock \<longrightarrow> (\<exists>lock'. lks sy' l = Some lock' \<and> lock_hist l (lk_owner lock) es = Some (lk_owner lock'))) \<and>
     (\<forall>s sem. sems sy s = Some sem \<longrightarrow> (\<exists>sem'. sems sy' s = Some sem' \<and>
        unat (sem_count sem') + downs s es = unat (sem_count sem) + ups s es))"

lemma effect_refl: "lks sy' = lks sy \<Longrightarrow> sems sy' = sems sy \<Longrightarrow> effect sy [] sy'"
  by (simp add: effect_def)

lemma P_loop_effect:
  assumes "P_loop t s sy = Inr (es, sy')"
  shows "effect sy es sy'"
proof -
  from assms obtain sem where sem: "sems sy s = Some sem" by (auto simp: P_loop_def)
  show ?thesis
  proof (cases "sem_count sem = 0")
    case True
    with sem assms show ?thesis by (auto simp: P_loop_def effect_refl)
  next
    case False
    then have "unat (sem_count sem - 1) + 1 = unat (sem_count sem)"
      using unat_minus_one [OF False] by (simp add: unat_gt_0)
    moreover have "es = [Downed t s]" "lks sy' = lks sy" "sems sy' = (sems sy)(s \<mapsto> sem\<lparr>sem_count := sem_count sem - 1\<rparr>)"
      using assms sem False by (auto simp: P_loop_def)
    ultimately show ?thesis using sem by (auto simp: effect_def)
  qed
qed

lemma unat_inc_u32: "(x :: u32) + 1 \<noteq> 0 \<Longrightarrow> unat (x + 1) = unat x + 1"
  using unatSuc [of x] by (simp add: add.commute)

lemma V_effect:
  assumes "V s sy = Inr (es, sy')"
  shows "effect sy es sy'"
proof -
  from assms obtain sem where sem: "sems sy s = Some sem" by (auto simp: V_def)
  let ?sem = "sem\<lparr>sem_count := sem_count sem + 1\<rparr>"
  from assms sem have n: "sem_count sem + 1 \<noteq> 0" "es = [Upped s]" "sy' = wakeone_on (Sem_wchan s) (sy\<lparr>sems := (sems sy)(s \<mapsto> ?sem)\<rparr>)"
    by (simp_all add: V_def Let_def split: if_splits)
  have "lks sy' = lks sy" "sems sy' = (sems sy)(s \<mapsto> ?sem)" by (simp_all add: n(3))
  then show ?thesis using sem n(2) unat_inc_u32 [OF n(1)] by (simp add: effect_def)
qed

lemma lock_acquire_loop_effect: "lock_acquire_loop t l sy = Inr (es, sy') \<Longrightarrow> effect sy es sy'"
  by (cases "lks sy l") (auto simp: lock_acquire_loop_def effect_def split: if_splits)

lemma lock_release_effect: "lock_release t l sy = Inr (es, sy') \<Longrightarrow> effect sy es sy'"
  by (auto simp: lock_release_iff effect_def)

lemma cv_wait_effect:
  assumes "cv_wait t c l sy = Inr (es, sy')"
  shows "effect sy es sy'"
proof -
  from assms obtain sy1 sy2 where s: "take_cv_lock c t sy = Inr sy1" "lock_release t l sy1 = Inr (es, sy2)" "sy' = at_pos t (In_cv_wait c l) sy2"
    by (auto simp: cv_wait_def split: if_splits)
  from s(1) have "lks sy1 = lks sy" "sems sy1 = sems sy" by (auto simp: take_cv_lock_def split: if_splits)
  with lock_release_effect [OF s(2)] s(3) show ?thesis by (simp add: effect_def)
qed

lemma cv_wake_effect:
  assumes "w = wakeone_on (Cv_wchan c) \<or> w = wakeall_on (Cv_wchan c)"
    and "rbind (take_cv_lock c t sy) (\<lambda>sy1. rbind (drop_cv_lock c (w sy1)) (\<lambda>sy2. Inr ([], sy2))) = Inr (es, sy')"
  shows "effect sy es sy'"
proof -
  have "es = []" "lks sy' = lks sy" "sems sy' = sems sy"
    using assms by (auto simp: take_cv_lock_def drop_cv_lock_def split: if_splits)
  then show ?thesis by (simp add: effect_refl)
qed

lemma synch_step_effect:
  assumes r: "synch_step t a sy = Some (Inr (es, sy'))"
  shows "effect sy es sy'"
proof (cases a)
  case (Call_P b s)
  with r show ?thesis by (auto split: if_splits intro: P_loop_effect dest: P_loop_of)
next
  case (Call_V s)
  with r show ?thesis by (auto intro: V_effect)
next
  case (Call_acquire b l)
  with r show ?thesis by (auto split: if_splits intro: lock_acquire_loop_effect dest: lock_acquire_loop_of)
next
  case (Call_release l)
  with r show ?thesis by (auto split: if_splits intro: lock_release_effect)
next
  case (Call_wait c l)
  with r show ?thesis by (auto split: if_splits intro: cv_wait_effect)
next
  case (Call_signal c l)
  with r have "cv_signal t c l sy = Inr (es, sy')" by (simp split: if_splits)
  from cv_wake_effect [OF disjI1 [OF refl] cv_signal_wake [OF this]] show ?thesis .
next
  case (Call_broadcast c l)
  with r have "cv_broadcast t c l sy = Inr (es, sy')" by (simp split: if_splits)
  from cv_wake_effect [OF disjI2 [OF refl] cv_broadcast_wake [OF this]] show ?thesis .
next
  case Resume
  show ?thesis
  proof (cases "pos sy t")
    case (In_P s)
    with r Resume show ?thesis by (auto split: if_splits intro: P_loop_effect)
  next
    case (In_lock_acquire l)
    with r Resume show ?thesis by (auto split: if_splits intro: lock_acquire_loop_effect)
  next
    case (In_cv_wait c l)
    with r Resume have "es = []" "lks sy' = lks sy" "sems sy' = sems sy"
      by (auto simp: cv_wait_sleep_def drop_cv_lock_def split: if_splits)
    then show ?thesis by (simp add: effect_refl)
  next
    case (In_cv_sleep c l)
    with r Resume show ?thesis by (auto split: if_splits intro: lock_acquire_loop_effect dest: cv_wait_resumeE)
  qed (use r Resume in \<open>simp split: if_splits\<close>)
qed

lemma effect_trans: "effect sy es sy1 \<Longrightarrow> effect sy1 es' sy2 \<Longrightarrow> effect sy (es @ es') sy2"
  unfolding effect_def by (fastforce simp: lock_hist_append)

lemma synch_run_effect: "synch_run sy0 es sy \<Longrightarrow> effect sy0 es sy"
proof (induction rule: synch_run.induct)
  case start
  then show ?case by (simp add: effect_refl)
next
  case (step es sy t a es' sy')
  then show ?case using effect_trans synch_step_effect by blast
qed

subsection \<open>Properties\<close>

text \<open>
  C3: locks exclude. In every run of any number of threads over locks, condition variables and semaphores, the
  calls that return form a history in which a lock is handed to a thread only when no thread has it and is given
  back only by the thread that has it; the holder after the history is \<open>lk_owner\<close>.
\<close>

theorem lock_mutual_exclusion:
  assumes "synch_run sy0 es sy" and "lks sy0 l = Some lock"
  shows "\<exists>lock'. lks sy l = Some lock' \<and> lock_hist l None es = Some (lk_owner lock')"
proof -
  have "quiescent sy0" using assms(1) by (induction rule: synch_run.induct) simp_all
  then have "lk_owner lock = None" using assms(2) by (simp add: quiescent_def)
  with synch_run_effect [OF assms(1)] assms(2) show ?thesis unfolding effect_def by metis
qed

text \<open>
  C5: semaphores count. At every moment the units handed out by \<open>P\<close> and the count make up the initial count
  and the units given by \<open>V\<close>.
\<close>

theorem semaphore_accounting:
  assumes "synch_run sy0 es sy" and "sems sy0 s = Some sem"
  shows "\<exists>sem'. sems sy s = Some sem' \<and> unat (sem_count sem') + downs s es = unat (sem_count sem) + ups s es"
  using synch_run_effect [OF assms(1)] assms(2) unfolding effect_def by blast

text \<open>
  C4: no wake-up is lost. When threads wait for a lock that is free, or for a semaphore that has units, some
  thread has been woken and the next step of it takes the lock, or a unit.
\<close>

theorem synch_no_lost_wakeup:
  assumes "synch_run sy0 es sy"
  shows "(\<forall>l lock. lks sy l = Some lock \<and> lk_owner lock = None \<and> wchans sy (Lk_wchan l) \<noteq> [] \<longrightarrow>
      (\<exists>t sy'. synch_step t Resume sy = Some (Inr ([Acquired t l], sy')))) \<and>
    (\<forall>s sem. sems sy s = Some sem \<and> sem_count sem \<noteq> 0 \<and> wchans sy (Sem_wchan s) \<noteq> [] \<longrightarrow>
      (\<exists>t sy'. synch_step t Resume sy = Some (Inr ([Downed t s], sy'))))"
proof (intro conjI allI impI)
  note ok = synch_run_ok [OF assms]
  fix l lock assume l: "lks sy l = Some lock \<and> lk_owner lock = None \<and> wchans sy (Lk_wchan l) \<noteq> []"
  then have "awake_in (In_lock_acquire l) sy \<noteq> {}" using synch_okD(3) [OF ok] by (simp add: lock_ok_def)
  then obtain t where "pos sy t = In_lock_acquire l" "\<not> asleep t sy" by (auto simp: awake_in_def)
  with l show "\<exists>t sy'. synch_step t Resume sy = Some (Inr ([Acquired t l], sy'))"
    by (intro exI [of _ t]) (simp add: lock_acquire_loop_def)
next
  note ok = synch_run_ok [OF assms]
  fix s sem assume s: "sems sy s = Some sem \<and> sem_count sem \<noteq> 0 \<and> wchans sy (Sem_wchan s) \<noteq> []"
  then have "unat (sem_count sem) \<le> card (awake_in (In_P s) sy)" using synch_okD(2) [OF ok] by (simp add: sem_ok_def)
  moreover have "unat (sem_count sem) \<noteq> 0" using s by (simp add: unat_eq_0)
  ultimately have "awake_in (In_P s) sy \<noteq> {}" by (metis card.empty le_zero_eq)
  then obtain t where "pos sy t = In_P s" "\<not> asleep t sy" by (auto simp: awake_in_def)
  with s show "\<exists>t sy'. synch_step t Resume sy = Some (Inr ([Downed t s], sy'))"
    by (intro exI [of _ t]) (simp add: P_loop_def)
qed

subsection \<open>A run\<close>

text \<open>Three threads, a lock and an empty semaphore: thread 1 takes the lock, 2 and 3 wait for it, 1 gives it back; 2 waits for the semaphore.\<close>

definition sys_ex :: ssys where
  "sys_ex = \<lparr>sems = [0 \<mapsto> \<lparr>sem_name = ''s'', sem_count = 0\<rparr>], lks = [0 \<mapsto> \<lparr>lk_name = ''l'', lk_owner = None\<rparr>], cvs = Map.empty,
     wchans = (\<lambda>_. []), pos = (\<lambda>_. Idle)\<rparr>"

fun synch_steps :: "(tid \<times> call) list \<Rightarrow> event list \<times> ssys \<Rightarrow> (event list \<times> ssys) option" where
  "synch_steps [] r = Some r"
| "synch_steps ((t, a) # as) (es, sy) =
     (case synch_step t a sy of Some (Inr (es', sy')) \<Rightarrow> synch_steps as (es @ es', sy') | _ \<Rightarrow> None)"

lemma synch_steps_run: "synch_steps as (es, sy) = Some (es', sy') \<Longrightarrow> synch_run sy0 es sy \<Longrightarrow> synch_run sy0 es' sy'"
proof (induction as arbitrary: es sy)
  case (Cons ta as)
  obtain t a where ta: "ta = (t, a)" by (cases ta)
  from Cons.prems(1) obtain es1 sy1 where s: "synch_step t a sy = Some (Inr (es1, sy1))" "synch_steps as (es @ es1, sy1) = Some (es', sy')"
    by (auto simp: ta split: option.splits sum.splits)
  show ?case by (rule Cons.IH [OF s(2) synch_run.step [OF Cons.prems(2) s(1)]])
qed simp

lemma quiescent_ex: "quiescent sys_ex"
  by (simp add: quiescent_def sys_ex_def)

definition trace_ex :: "(tid \<times> call) list" where
  "trace_ex = [(1, Call_acquire False 0), (2, Call_acquire False 0), (3, Call_acquire False 0), (1, Call_release 0),
     (1, Call_P False 0), (2, Resume), (2, Call_V 0), (2, Call_release 0)]"

lemma trace_ex_run:
  "\<exists>sy. synch_run sys_ex [Acquired 1 0, Released 1 0, Acquired 2 0, Upped 0, Released 2 0] sy"
proof -
  have "case synch_steps trace_ex ([], sys_ex) of None \<Rightarrow> False
      | Some (es, sy) \<Rightarrow> es = [Acquired 1 0, Released 1 0, Acquired 2 0, Upped 0, Released 2 0]"
    by code_simp
  then show ?thesis using synch_steps_run [OF _ start [OF quiescent_ex], of trace_ex] by (auto split: option.splits)
qed

theorem lock_mutual_exclusion_witness:
  "\<exists>sy lock'. synch_run sys_ex [Acquired 1 0, Released 1 0, Acquired 2 0, Upped 0, Released 2 0] sy \<and> lks sy 0 = Some lock' \<and>
     lock_hist 0 None [Acquired 1 0, Released 1 0, Acquired 2 0, Upped 0, Released 2 0] = Some (lk_owner lock')"
proof -
  obtain sy where r: "synch_run sys_ex [Acquired 1 0, Released 1 0, Acquired 2 0, Upped 0, Released 2 0] sy" using trace_ex_run by blast
  have "lks sys_ex 0 = Some \<lparr>lk_name = ''l'', lk_owner = None\<rparr>" by (simp add: sys_ex_def)
  from lock_mutual_exclusion [OF r this] r show ?thesis by blast
qed

theorem semaphore_accounting_witness:
  "\<exists>sy sem'. synch_run sys_ex [Acquired 1 0, Released 1 0, Acquired 2 0, Upped 0, Released 2 0] sy \<and> sems sy 0 = Some sem' \<and>
     unat (sem_count sem') + downs 0 [Acquired 1 0, Released 1 0, Acquired 2 0, Upped 0, Released 2 0] = 1"
proof -
  obtain sy where r: "synch_run sys_ex [Acquired 1 0, Released 1 0, Acquired 2 0, Upped 0, Released 2 0] sy" using trace_ex_run by blast
  have "sems sys_ex 0 = Some \<lparr>sem_name = ''s'', sem_count = 0\<rparr>" by (simp add: sys_ex_def)
  from semaphore_accounting [OF r this] r show ?thesis by auto
qed

lemma trace_ex_blocked:
  "\<exists>es sy lock. synch_run sys_ex es sy \<and> lks sy 0 = Some lock \<and> lk_owner lock = None \<and> wchans sy (Lk_wchan 0) = [3]"
proof -
  have "case synch_steps (take 4 trace_ex) ([], sys_ex) of None \<Rightarrow> False
      | Some (es, sy) \<Rightarrow> map_option lk_owner (lks sy 0) = Some None \<and> wchans sy (Lk_wchan 0) = [3]"
    by code_simp
  then show ?thesis using synch_steps_run [OF _ start [OF quiescent_ex], of "take 4 trace_ex"] by (fastforce split: option.splits)
qed

theorem synch_no_lost_wakeup_witness:
  "\<exists>es sy t sy'. synch_run sys_ex es sy \<and> wchans sy (Lk_wchan 0) = [3] \<and> synch_step t Resume sy = Some (Inr ([Acquired t 0], sy'))"
proof -
  obtain es sy lock where r: "synch_run sys_ex es sy" "lks sy 0 = Some lock \<and> lk_owner lock = None" "wchans sy (Lk_wchan 0) = [3]"
    using trace_ex_blocked by blast
  with synch_no_lost_wakeup [OF r(1)] show ?thesis by (metis not_Cons_self2)
qed

end
