(* ===== verification/Vnode.thy ===== *)
theory Vnode
  imports Prelude
begin

text \<open>
  Reference counts of abstract vnodes (\<open>kern/vfs/vnode.c\<close>). A vnode is a number into a store; pointers kept
  inside a vnode are addresses. \<open>VOP_RECLAIM\<close> belongs to the file system of the vnode and is a
  parameter, as is the magic number found in an operations table.
\<close>

record vnode =
  vn_refcount :: int
  vn_fs :: u32
  vn_data :: u32
  vn_ops :: u32

type_synonym vstore = "nat \<rightharpoonup> vnode"

definition VOP_MAGIC :: u32 where "VOP_MAGIC = 0xa2b3c4d5"

definition vnode_init :: "nat \<Rightarrow> u32 \<Rightarrow> u32 \<Rightarrow> u32 \<Rightarrow> vstore \<Rightarrow> (int \<times> vstore) res" where
  "vnode_init vn ops fs fsdata vs =
     (if ops = 0 then Inl KAssertFail
      else Inr (0, vs(vn \<mapsto> \<lparr>vn_refcount = 1, vn_fs = fs, vn_data = fsdata, vn_ops = ops\<rparr>)))"

definition get_vnode :: "nat option \<Rightarrow> vstore \<Rightarrow> (nat \<times> vnode) res" where
  "get_vnode p vs =
     (case p of
        None \<Rightarrow> Inl KAssertFail
      | Some v \<Rightarrow> (case vs v of None \<Rightarrow> Inl UseAfterFree | Some vn \<Rightarrow> Inr (v, vn)))"

definition vnode_cleanup :: "nat option \<Rightarrow> vstore \<Rightarrow> vstore res" where
  "vnode_cleanup p vs =
     rbind (get_vnode p vs) (\<lambda>(v, vn).
       if vn_refcount vn \<noteq> 1 then Inl KAssertFail
       else Inr (vs(v \<mapsto> \<lparr>vn_refcount = 0, vn_fs = 0, vn_data = 0, vn_ops = 0\<rparr>)))"

definition vnode_incref :: "nat option \<Rightarrow> vstore \<Rightarrow> vstore res" where
  "vnode_incref p vs =
     rbind (get_vnode p vs) (\<lambda>(v, vn). Inr (vs(v \<mapsto> vn\<lparr>vn_refcount := vn_refcount vn + 1\<rparr>)))"

text \<open>
  \<open>vnode_check\<close> runs before every operation of a vnode. \<open>magic\<close> reads the \<open>vop_magic\<close> field of an
  operations table.
\<close>

definition vnode_check :: "(u32 \<Rightarrow> u32) \<Rightarrow> nat option \<Rightarrow> vstore \<Rightarrow> unit res" where
  "vnode_check magic p vs =
     (case p of
        None \<Rightarrow> Inl PanicCall
      | Some v \<Rightarrow>
          (case vs v of
             None \<Rightarrow> Inl UseAfterFree
           | Some vn \<Rightarrow>
               if vn_ops vn = 0 then Inl PanicCall
               else if vn_ops vn = 0xdeadbeef then Inl PanicCall
               else if magic (vn_ops vn) \<noteq> VOP_MAGIC then Inl PanicCall
               else if vn_fs vn = 0xdeadbeef then Inl PanicCall
               else if vn_refcount vn < 0 then Inl PanicCall
               else if vn_refcount vn = 0 then Inl PanicCall
               else Inr ()))"

definition vnode_decref ::
  "(u32 \<Rightarrow> u32) \<Rightarrow> (nat \<Rightarrow> vstore \<Rightarrow> int \<times> vstore) \<Rightarrow> nat option \<Rightarrow> vstore \<Rightarrow> vstore res" where
  "vnode_decref magic vop_reclaim p vs =
     rbind (get_vnode p vs) (\<lambda>(v, vn).
       if \<not> vn_refcount vn > 0 then Inl KAssertFail
       else if vn_refcount vn > 1 then Inr (vs(v \<mapsto> vn\<lparr>vn_refcount := vn_refcount vn - 1\<rparr>))
       else rbind (vnode_check magic (Some v) vs) (\<lambda>_. Inr (snd (vop_reclaim v vs))))"

subsection \<open>Balanced references\<close>

lemma get_vnode_simps [simp]:
  "get_vnode None vs = Inl KAssertFail" "vs v = Some vn \<Longrightarrow> get_vnode (Some v) vs = Inr (v, vn)"
  by (simp_all add: get_vnode_def)

text \<open>Giving back a reference that was taken restores the vnode and does not reclaim it.\<close>

lemma incref_decref:
  assumes "vs v = Some vn" and "vn_refcount vn > 0"
  shows "\<exists>vs1. vnode_incref (Some v) vs = Inr vs1 \<and> vnode_decref magic vop_reclaim (Some v) vs1 = Inr vs"
  using assms by (simp add: vnode_incref_def vnode_decref_def fun_upd_idem)

lemma decref_shared:
  assumes "vs v = Some vn" and "vn_refcount vn > 1"
  shows "vnode_decref magic vop_reclaim (Some v) vs = Inr (vs(v \<mapsto> vn\<lparr>vn_refcount := vn_refcount vn - 1\<rparr>))"
  using assms by (simp add: vnode_decref_def)

end
