(* ===== verification/Libc_Mem.thy ===== *)
theory Libc_Mem
  imports Machine
begin

text \<open>
  The block operations of the C library (\<open>common/libc/string\<close>: \<open>memcpy.c\<close>, \<open>memmove.c\<close>, \<open>bzero.c\<close>,
  \<open>memset.c\<close>), which copy and clear word by word when addresses and length allow it and byte by byte otherwise. They
  implement the block operations \<open>memmove\<close> and \<open>bzero\<close> on memory that the rest of the development uses.
  \<open>sizeof(long)\<close> is 4; an assignment of a \<open>long\<close> moves four bytes.
\<close>

subsection \<open>Definitions\<close>

text \<open>\<open>d[i] = s[i]\<close> on arrays of \<open>b\<close>-byte elements.\<close>

definition copy_elem :: "nat \<Rightarrow> u32 \<Rightarrow> u32 \<Rightarrow> nat \<Rightarrow> mem \<Rightarrow> mem" where
  "copy_elem b d s i m =
     (\<lambda>a. if a - (d + of_nat (b * i)) < of_nat b then m (s + of_nat (b * i) + (a - (d + of_nat (b * i)))) else m a)"

definition memcpy_c :: "u32 \<Rightarrow> u32 \<Rightarrow> u32 \<Rightarrow> mem \<Rightarrow> mem" where
  "memcpy_c dst src len m =
     (if dst mod 4 = 0 \<and> src mod 4 = 0 \<and> len mod 4 = 0
      then fold (copy_elem 4 dst src) [0..<unat (len div 4)] m
      else fold (copy_elem 1 dst src) [0..<unat len] m)"

definition memmove_c :: "u32 \<Rightarrow> u32 \<Rightarrow> u32 \<Rightarrow> mem \<Rightarrow> mem" where
  "memmove_c dst src len m =
     (if dst < src then memcpy_c dst src len m
      else if dst mod 4 = 0 \<and> src mod 4 = 0 \<and> len mod 4 = 0
      then fold (copy_elem 4 dst src) (rev [0..<unat (len div 4)]) m
      else fold (copy_elem 1 dst src) (rev [0..<unat len]) m)"

definition zero_elem :: "nat \<Rightarrow> u32 \<Rightarrow> nat \<Rightarrow> mem \<Rightarrow> mem" where
  "zero_elem b d i m = (\<lambda>a. if a - (d + of_nat (b * i)) < of_nat b then 0 else m a)"

definition bzero_c :: "u32 \<Rightarrow> u32 \<Rightarrow> mem \<Rightarrow> mem" where
  "bzero_c block len m =
     (if block mod 4 = 0 \<and> len mod 4 = 0
      then fold (zero_elem 4 block) [0..<unat (len div 4)] m
      else fold (zero_elem 1 block) [0..<unat len] m)"

definition memset_c :: "u32 \<Rightarrow> u8 \<Rightarrow> u32 \<Rightarrow> mem \<Rightarrow> mem" where
  "memset_c ptr ch len m = fold (\<lambda>i m. m(ptr + of_nat i := ch)) [0..<unat len] m"

subsection \<open>Copying block by block\<close>

text \<open>The first \<open>n\<close> bytes at \<open>d\<close> are those at \<open>s\<close>.\<close>

definition moved :: "u32 \<Rightarrow> u32 \<Rightarrow> nat \<Rightarrow> mem \<Rightarrow> mem" where
  "moved d s n m = (\<lambda>a. if unat (a - d) < n then m (s + (a - d)) else m a)"

lemma memmove_moved: "memmove d s len m = moved d s (unat len) m"
  by (simp add: memmove_def moved_def word_less_nat_alt)

lemma unat_diff_shift:
  fixes a d :: u32
  assumes "n < 4294967296"
  shows "unat (a - (d + of_nat n)) = (if n \<le> unat (a - d) then unat (a - d) - n else unat (a - d) + 4294967296 - n)"
proof -
  have e: "a - (d + of_nat n) = (a - d) - of_nat n" by (simp add: algebra_simps)
  have u: "unat (of_nat n :: u32) = n" using assms by (rule unat_of_nat_u32)
  show ?thesis unfolding e unat_sub_if_size using u by (auto simp: word_size)
qed

lemma elem_range:
  fixes a d :: u32
  assumes "b * i + b \<le> 4294967296" and "0 < b" and "b < 4294967296"
  shows "a - (d + of_nat (b * i)) < of_nat b \<longleftrightarrow> b * i \<le> unat (a - d) \<and> unat (a - d) < b * i + b"
proof -
  have n: "b * i < 4294967296" using assms by simp
  have "a - (d + of_nat (b * i)) < of_nat b \<longleftrightarrow> unat (a - (d + of_nat (b * i))) < b"
    using assms(3) by (simp add: word_less_nat_alt unat_of_nat_u32)
  also have "\<dots> \<longleftrightarrow> b * i \<le> unat (a - d) \<and> unat (a - d) < b * i + b"
    using unat_diff_shift [OF n, of a d] assms unat_u32_bound [of "a - d"] by auto
  finally show ?thesis .
qed

lemma copy_elem_alt:
  assumes "b * i + b \<le> 4294967296" and "0 < b" and "b < 4294967296"
  shows "copy_elem b d s i m = (\<lambda>a. if b * i \<le> unat (a - d) \<and> unat (a - d) < b * i + b then m (s + (a - d)) else m a)"
proof (rule ext)
  fix a
  have "s + of_nat (b * i) + (a - (d + of_nat (b * i))) = s + (a - d)" by (simp add: algebra_simps)
  then show "copy_elem b d s i m a = (if b * i \<le> unat (a - d) \<and> unat (a - d) < b * i + b then m (s + (a - d)) else m a)"
    unfolding copy_elem_def elem_range [OF assms] by simp
qed

text \<open>The distance from \<open>d\<close> of the byte that goes to distance \<open>k\<close>.\<close>

lemma unat_src_dist:
  fixes s d x :: u32
  assumes "unat s + unat x < 4294967296"
  shows "unat d \<le> unat s \<Longrightarrow> unat (s + x - d) = unat s + unat x - unat d"
    and "unat s + unat x < unat d \<Longrightarrow> unat (s + x - d) = unat s + unat x + 4294967296 - unat d"
  using unat_add_u32_le [OF assms] by (auto simp: unat_sub_if_size word_size)

lemma copy_forward:
  assumes "unat d \<le> unat s" and "unat s + b * n \<le> 4294967296" and b: "0 < b" "b < 4294967296"
  shows "fold (copy_elem b d s) [0..<n] m = moved d s (b * n) m"
  using assms(2)
proof (induction n)
  case 0
  then show ?case by (simp add: moved_def)
next
  case (Suc n)
  have IH: "fold (copy_elem b d s) [0..<n] m = moved d s (b * n) m" by (rule Suc.IH) (use Suc.prems in simp)
  have bi: "b * n + b \<le> 4294967296" using Suc.prems by simp
  have "copy_elem b d s n (moved d s (b * n) m) = moved d s (b * Suc n) m"
  proof (rule ext)
    fix a
    let ?k = "unat (a - d)"
    have src: "moved d s (b * n) m (s + (a - d)) = m (s + (a - d))" if k: "b * n \<le> ?k" "?k < b * n + b"
    proof -
      have "unat s + ?k < 4294967296" using k(2) Suc.prems by simp
      then have "unat (s + (a - d) - d) = unat s + ?k - unat d" by (rule unat_src_dist(1)) (rule assms(1))
      then have "\<not> unat (s + (a - d) - d) < b * n" using k(1) assms(1) by simp
      then show ?thesis by (simp add: moved_def)
    qed
    show "copy_elem b d s n (moved d s (b * n) m) a = moved d s (b * Suc n) m a"
      unfolding copy_elem_alt [OF bi b] using src by (auto simp: moved_def)
  qed
  with IH show ?case by simp
qed

lemma copy_backward:
  assumes "unat s \<le> unat d" and "unat d + b * n \<le> 4294967296" and b: "0 < b" "b < 4294967296"
  shows "fold (copy_elem b d s) (rev [0..<n]) m = moved d s (b * n) m"
  using assms(2)
proof (induction n arbitrary: m)
  case 0
  then show ?case by (simp add: moved_def)
next
  case (Suc n)
  have bi: "b * n + b \<le> 4294967296" using Suc.prems by simp
  let ?m = "copy_elem b d s n m"
  have IH: "fold (copy_elem b d s) (rev [0..<n]) ?m = moved d s (b * n) ?m" by (rule Suc.IH) (use Suc.prems in simp)
  have "moved d s (b * n) ?m = moved d s (b * Suc n) m"
  proof (rule ext)
    fix a
    let ?k = "unat (a - d)"
    have src: "?m (s + x) = m (s + x)" if k: "unat x < b * n" for x
    proof -
      have sk: "unat s + unat x < 4294967296" using k Suc.prems assms(1) by simp
      have "\<not> (b * n \<le> unat (s + x - d) \<and> unat (s + x - d) < b * n + b)"
      proof (cases "unat s + unat x < unat d")
        case True
        have "b * n + b \<le> unat s + unat x + 4294967296 - unat d" using Suc.prems by simp
        with unat_src_dist(2) [OF sk True] show ?thesis by simp
      next
        case False
        then have "unat (s + x - d) = unat s + unat x - unat d"
          using unat_add_u32_le [OF sk] by (simp add: unat_sub_if_size)
        moreover have "\<not> b * n \<le> unat s + unat x - unat d" using assms(1) k by linarith
        ultimately show ?thesis by simp
      qed
      then show ?thesis unfolding copy_elem_alt [OF bi b] by (rule if_not_P)
    qed
    show "moved d s (b * n) ?m a = moved d s (b * Suc n) m a"
    proof (cases "?k < b * n")
      case True
      then show ?thesis using src by (simp add: moved_def)
    next
      case False
      then show ?thesis by (simp add: moved_def copy_elem_alt [OF bi b])
    qed
  qed
  with IH show ?case by simp
qed

lemma mult_div_4: "(len :: u32) mod 4 = 0 \<Longrightarrow> 4 * unat (len div 4) = unat len"
proof -
  assume "len mod 4 = 0"
  then have "unat (len mod 4) = 0" by simp
  then have "unat len mod 4 = 0" by (simp add: unat_mod)
  then have "4 * (unat len div 4) = unat len" by presburger
  then show ?thesis by (simp add: unat_div)
qed

lemma memcpy_c_forward:
  assumes "unat dst \<le> unat src" and "unat src + unat len \<le> 4294967296"
  shows "memcpy_c dst src len m = memmove dst src len m"
proof (cases "dst mod 4 = 0 \<and> src mod 4 = 0 \<and> len mod 4 = 0")
  case True
  then have l: "4 * unat (len div 4) = unat len" by (simp add: mult_div_4)
  have "fold (copy_elem 4 dst src) [0..<unat (len div 4)] m = moved dst src (4 * unat (len div 4)) m"
    by (rule copy_forward [OF assms(1)]) (use l assms(2) in simp_all)
  with True l show ?thesis by (simp add: memcpy_c_def memmove_moved)
next
  case False
  have "fold (copy_elem 1 dst src) [0..<unat len] m = moved dst src (1 * unat len) m"
    by (rule copy_forward [OF assms(1)]) (use assms(2) in simp_all)
  then show ?thesis unfolding memcpy_c_def if_not_P [OF False] memmove_moved by simp
qed

lemma memmove_c_memmove:
  assumes "unat dst + unat len \<le> 4294967296" and "unat src + unat len \<le> 4294967296"
  shows "memmove_c dst src len m = memmove dst src len m"
proof (cases "dst < src")
  case True
  then have "unat dst \<le> unat src" by (simp add: word_less_nat_alt)
  with True memcpy_c_forward [OF _ assms(2)] show ?thesis by (simp add: memmove_c_def)
next
  case False
  then have le: "unat src \<le> unat dst" by (simp add: word_less_nat_alt)
  show ?thesis
  proof (cases "dst mod 4 = 0 \<and> src mod 4 = 0 \<and> len mod 4 = 0")
    case True
    then have l: "4 * unat (len div 4) = unat len" by (simp add: mult_div_4)
    have "fold (copy_elem 4 dst src) (rev [0..<unat (len div 4)]) m = moved dst src (4 * unat (len div 4)) m"
      by (rule copy_backward [OF le]) (use l assms(1) in simp_all)
    with True False l show ?thesis by (simp add: memmove_c_def memmove_moved)
  next
    case nal: False
    have "fold (copy_elem 1 dst src) (rev [0..<unat len]) m = moved dst src (1 * unat len) m"
      by (rule copy_backward [OF le]) (use assms(1) in simp_all)
    then show ?thesis unfolding memmove_c_def if_not_P [OF False] if_not_P [OF nal] memmove_moved by simp
  qed
qed

text \<open>
  C31: \<open>memmove\<close> copies a block correctly whether it goes by words or by bytes, forwards or backwards, and whether or not
  the two blocks overlap, as long as neither block rolls over the top of memory: every byte of the destination gets the
  byte the source had before the call and no other byte changes.
\<close>

theorem memmove_c_correct:
  assumes "unat dst + unat len \<le> 4294967296" and "unat src + unat len \<le> 4294967296"
  shows "memmove_c dst src len m = (\<lambda>a. if a - dst < len then m (src + (a - dst)) else m a)"
  unfolding memmove_c_memmove [OF assms] memmove_def by (rule refl)

theorem memmove_c_correct_witness:
  "unat (0x1002 :: u32) + unat (0x10 :: u32) \<le> 4294967296 \<and>
   memmove_c 0x1002 0x1000 0x10 (\<lambda>a. ucast a) 0x1005 = 3 \<and> memmove_c 0x1002 0x1000 0x10 (\<lambda>a. ucast a) 0x1001 = 1"
  using memmove_c_correct [of "0x1002" "0x10" "0x1000" "\<lambda>a. ucast a"] by simp

subsection \<open>Clearing and filling\<close>

lemma zero_elem_bzero: "fold (zero_elem b d) [0..<n] m = (\<lambda>a. if unat (a - d) < b * n then 0 else m a)"
  if "b * n \<le> 4294967296" "0 < b" "b < 4294967296"
  using that(1)
proof (induction n)
  case (Suc n)
  have n: "b * n + b \<le> 4294967296" using Suc.prems by simp
  have IH: "fold (zero_elem b d) [0..<n] m = (\<lambda>a. if unat (a - d) < b * n then 0 else m a)" by (rule Suc.IH) (use n in simp)
  show ?case unfolding upt_Suc_append [OF le0] fold_append o_apply IH
    by (auto simp: zero_elem_def elem_range [OF n that(2,3)] fun_eq_iff simp del: of_nat_mult)
qed simp

lemma bzero_c_correct: "bzero_c block len m = bzero block len m"
proof -
  have len: "unat len < 4294967296" by (rule unat_u32_bound)
  show ?thesis
  proof (cases "block mod 4 = 0 \<and> len mod 4 = 0")
    case True
    then have l: "4 * unat (len div 4) = unat len" by (simp add: mult_div_4)
    have "fold (zero_elem 4 block) [0..<unat (len div 4)] m = (\<lambda>a. if unat (a - block) < 4 * unat (len div 4) then 0 else m a)"
      by (rule zero_elem_bzero) (use l len in simp_all)
    with True l show ?thesis by (simp add: bzero_c_def bzero_def word_less_nat_alt)
  next
    case False
    have "fold (zero_elem 1 block) [0..<unat len] m = (\<lambda>a. if unat (a - block) < 1 * unat len then 0 else m a)"
      by (rule zero_elem_bzero) (use len in simp_all)
    then show ?thesis unfolding bzero_c_def if_not_P [OF False] by (simp add: bzero_def word_less_nat_alt)
  qed
qed

lemma memset_c_correct: "memset_c ptr ch len m = (\<lambda>a. if a - ptr < len then ch else m a)"
proof -
  have "fold (\<lambda>i m. m(ptr + of_nat i := ch)) [0..<n] m = (\<lambda>a. if unat (a - ptr) < n then ch else m a)" if "n < 4294967296" for n
    using that
  proof (induction n)
    case (Suc n)
    have "a = ptr + of_nat n \<longleftrightarrow> a - ptr = of_nat n" for a by (auto simp: algebra_simps)
    then have "a = ptr + of_nat n \<longleftrightarrow> unat (a - ptr) = n" for a
      using Suc.prems by (simp add: word_unat_eq_iff unat_of_nat_u32)
    with Suc show ?case by (auto simp: fun_eq_iff less_Suc_eq)
  qed simp
  from this [OF unat_u32_bound [of len]] show ?thesis by (simp add: memset_c_def word_less_nat_alt)
qed

end
