(* ===== verification/Copyinout.thy ===== *)
theory Copyinout
  imports Libc_Mem
begin

text \<open>
  Access to user memory from the kernel (\<open>kern/vm/copyinout.c\<close>). User and kernel addresses share one 32-bit
  address space, user space being the part below \<open>USERSPACETOP\<close>. Which user addresses can be read and written without a
  fatal fault is an argument. A fatal fault in the middle of a copy resumes in \<open>copyfail\<close>, which returns to the
  \<open>setjmp\<close>: the bytes before the faulting one have been copied. (A word copied at a time lies
  within one page, so words and bytes fault at the same place.)
\<close>

subsection \<open>Definitions\<close>

definition copycheck :: "u32 \<Rightarrow> u32 \<Rightarrow> u32 cret" where
  "copycheck userptr len =
     (let bot = userptr; top = bot + len - 1 in
      if top < bot then Err EFAULT
      else if bot \<ge> USERSPACETOP then Err EFAULT
      else if top \<ge> USERSPACETOP then Ret (USERSPACETOP - bot)
      else Ret len)"

text \<open>\<open>memcpy\<close> that stops at the first byte it cannot read or write.\<close>

fun copy_bytes :: "(u32 \<Rightarrow> bool) \<Rightarrow> (u32 \<Rightarrow> bool) \<Rightarrow> u32 \<Rightarrow> u32 \<Rightarrow> nat \<Rightarrow> mem \<Rightarrow> bool \<times> mem" where
  "copy_bytes rd wr dest src 0 m = (True, m)"
| "copy_bytes rd wr dest src (Suc n) m =
     (if rd src \<and> wr dest then copy_bytes rd wr (dest + 1) (src + 1) n (m(dest := m src)) else (False, m))"

definition copyin :: "(u32 \<Rightarrow> bool) \<Rightarrow> u32 \<Rightarrow> u32 \<Rightarrow> u32 \<Rightarrow> mem \<Rightarrow> int \<times> mem" where
  "copyin rd usersrc dest len m =
     (case copycheck usersrc len of
        Err e \<Rightarrow> (e, m)
      | Ret stoplen \<Rightarrow>
          if stoplen \<noteq> len then (EFAULT, m)
          else case copy_bytes rd (\<lambda>_. True) dest usersrc (unat len) m of (ok, m') \<Rightarrow> (if ok then 0 else EFAULT, m'))"

definition copyout :: "(u32 \<Rightarrow> bool) \<Rightarrow> u32 \<Rightarrow> u32 \<Rightarrow> u32 \<Rightarrow> mem \<Rightarrow> int \<times> mem" where
  "copyout wr src userdest len m =
     (case copycheck userdest len of
        Err e \<Rightarrow> (e, m)
      | Ret stoplen \<Rightarrow>
          if stoplen \<noteq> len then (EFAULT, m)
          else case copy_bytes (\<lambda>_. True) wr userdest src (unat len) m of (ok, m') \<Rightarrow> (if ok then 0 else EFAULT, m'))"

text \<open>\<open>copystr\<close>: \<open>i\<close> counts up to the bound \<open>n\<close>, the smaller of the two lengths; a fault leaves the loop.\<close>

datatype copystr_end = Got u32 | Bound | Fault

fun copystr_loop :: "(u32 \<Rightarrow> bool) \<Rightarrow> (u32 \<Rightarrow> bool) \<Rightarrow> u32 \<Rightarrow> u32 \<Rightarrow> nat \<Rightarrow> u32 \<Rightarrow> mem \<Rightarrow> copystr_end \<times> mem" where
  "copystr_loop rd wr dest src 0 i m = (Bound, m)"
| "copystr_loop rd wr dest src (Suc n) i m =
     (if rd (src + i) \<and> wr (dest + i) then
        let m' = m(dest + i := m (src + i)) in
        if m (src + i) = 0 then (Got (i + 1), m') else copystr_loop rd wr dest src n (i + 1) m'
      else (Fault, m))"

definition copystr :: "(u32 \<Rightarrow> bool) \<Rightarrow> (u32 \<Rightarrow> bool) \<Rightarrow> u32 \<Rightarrow> u32 \<Rightarrow> u32 \<Rightarrow> u32 \<Rightarrow> mem \<Rightarrow> u32 cret \<times> mem" where
  "copystr rd wr dest src maxlen stoplen m =
     (case copystr_loop rd wr dest src (min (unat maxlen) (unat stoplen)) 0 m of
        (Got l, m') \<Rightarrow> (Ret l, m')
      | (Fault, m') \<Rightarrow> (Err EFAULT, m')
      | (Bound, m') \<Rightarrow> (Err (if stoplen < maxlen then EFAULT else ENAMETOOLONG), m'))"

definition copyinstr :: "(u32 \<Rightarrow> bool) \<Rightarrow> u32 \<Rightarrow> u32 \<Rightarrow> u32 \<Rightarrow> mem \<Rightarrow> u32 cret \<times> mem" where
  "copyinstr rd usersrc dest len m =
     (case copycheck usersrc len of
        Err e \<Rightarrow> (Err e, m)
      | Ret stoplen \<Rightarrow> copystr rd (\<lambda>_. True) dest usersrc len stoplen m)"

definition copyoutstr :: "(u32 \<Rightarrow> bool) \<Rightarrow> u32 \<Rightarrow> u32 \<Rightarrow> u32 \<Rightarrow> mem \<Rightarrow> u32 cret \<times> mem" where
  "copyoutstr wr src userdest len m =
     (case copycheck userdest len of
        Err e \<Rightarrow> (Err e, m)
      | Ret stoplen \<Rightarrow> copystr (\<lambda>_. True) wr userdest src len stoplen m)"

subsection \<open>The region check\<close>

lemma unat_USERSPACETOP: "unat USERSPACETOP = 2147483648"
  by (simp add: USERSPACETOP_def MIPS_KSEG0_def)

text \<open>A block passes the check of a whole copy exactly when it is not empty and lies in user space.\<close>

lemma copycheck_whole:
  "copycheck u len = Ret len \<longleftrightarrow> 0 < unat len \<and> unat u + unat len \<le> 2147483648"
proof (cases "len = 0")
  case True
  show ?thesis
  proof (cases "u = 0")
    case True
    with \<open>len = 0\<close> show ?thesis by (simp add: copycheck_def Let_def USERSPACETOP_def MIPS_KSEG0_def)
  next
    case False
    then have "unat (u - 1) < unat u" by (simp add: unat_minus_one unat_gt_0)
    then have "u - 1 < u" by (simp add: word_less_nat_alt)
    with \<open>len = 0\<close> show ?thesis by (simp add: copycheck_def Let_def)
  qed
next
  case False
  then have l: "0 < unat len" by (simp add: unat_gt_0)
  have t: "unat (u + len - 1) = (if unat u + unat len - 1 < 4294967296 then unat u + unat len - 1 else unat u + unat len - 1 - 4294967296)"
  proof -
    have e: "u + len - 1 = u + (len - 1)" by simp
    have d: "unat (len - 1) = unat len - 1" by (rule unat_minus_one [OF False])
    have "unat (u + (len - 1)) = (if unat u + unat (len - 1) < 4294967296 then unat u + unat (len - 1) else unat u + unat (len - 1) - 4294967296)"
      by (simp add: unat_plus_if_size word_size)
    then show ?thesis unfolding e d using l by simp
  qed
  have sub: "unat (USERSPACETOP - u) = 2147483648 - unat u" if "unat u < 2147483648"
    using that by (simp add: unat_sub_if_size unat_USERSPACETOP)
  show ?thesis
    using t sub l unat_u32_bound [of u] unat_u32_bound [of len]
    by (auto simp: copycheck_def Let_def word_less_nat_alt word_le_nat_alt unat_USERSPACETOP word_unat_eq_iff split: if_splits)
qed

subsection \<open>Copying\<close>

lemma all_less_shift: "(\<forall>i<Suc n. P (x + of_nat i :: u32)) \<longleftrightarrow> P x \<and> (\<forall>i<n. P (x + 1 + of_nat i))"
  unfolding All_less_Suc2 by (simp add: add.assoc)

lemma copy_bytes_ok_iff:
  "fst (copy_bytes rd wr d s n m) \<longleftrightarrow> (\<forall>i<n. rd (s + of_nat i)) \<and> (\<forall>i<n. wr (d + of_nat i))"
  by (induction n arbitrary: d s m) (auto simp: all_less_shift [of _ rd] all_less_shift [of _ wr])

lemma unat_dist_Suc:
  fixes a d :: u32
  shows "a \<noteq> d \<Longrightarrow> unat (a - (d + 1)) = unat (a - d) - 1" and "unat (a - d) = 0 \<longleftrightarrow> a = d"
proof -
  assume "a \<noteq> d"
  then have "a - d \<noteq> 0" by simp
  from unat_minus_one [OF this] show "unat (a - (d + 1)) = unat (a - d) - 1" by (simp add: algebra_simps)
qed (simp add: unat_eq_0)

lemma copy_bytes_frame:
  assumes "copy_bytes rd wr d s n m = (ok, m')" and "m' a \<noteq> m a"
  shows "unat (a - d) < n \<and> wr a"
  using assms
proof (induction n arbitrary: d s m)
  case (Suc n)
  show ?case
  proof (cases "rd s \<and> wr d")
    case True
    show ?thesis
    proof (cases "a = d")
      case False
      have c: "copy_bytes rd wr (d + 1) (s + 1) n (m(d := m s)) = (ok, m')" using Suc.prems(1) True by simp
      have "unat (a - (d + 1)) < n \<and> wr a" using Suc.IH [OF c] Suc.prems(2) False by simp
      with unat_dist_Suc [of a d] False show ?thesis by auto
    qed (use True in simp)
  qed (use Suc.prems in \<open>auto split: if_splits\<close>)
qed simp

lemma copy_bytes_moved:
  assumes "copy_bytes rd wr d s n m = (True, m')" and "\<And>i j. i < n \<Longrightarrow> j < n \<Longrightarrow> s + of_nat i \<noteq> d + of_nat j" and "n < 4294967296"
  shows "m' = moved d s n m"
  using assms
proof (induction n arbitrary: d s m)
  case 0
  then show ?case by (simp add: moved_def)
next
  case (Suc n)
  have c: "copy_bytes rd wr (d + 1) (s + 1) n (m(d := m s)) = (True, m')" using Suc.prems(1) by (simp split: if_splits)
  have dis: "s + 1 + of_nat i \<noteq> d + 1 + of_nat j" if "i < n" "j < n" for i j
    using Suc.prems(2) [of "Suc i" "Suc j"] that by (simp add: algebra_simps)
  have IH: "m' = moved (d + 1) (s + 1) n (m(d := m s))"
  proof (rule Suc.IH [OF c])
    show "n < 4294967296" using Suc.prems(3) by simp
  qed (rule dis)
  show ?case
  proof (rule ext)
    fix a
    show "m' a = moved d s (Suc n) m a"
    proof (cases "a = d")
      case True
      have "unat (- 1 :: u32) = 4294967295" by (simp add: unsigned_minus_1_eq_mask mask_eq_exp_minus_1)
      then have "unat (d - (d + 1)) = 4294967295" by simp
      with True Suc.prems(3) show ?thesis unfolding IH by (simp add: moved_def)
    next
      case False
      note u = unat_dist_Suc(1) [OF False]
      have e: "s + 1 + (a - (d + 1)) = s + (a - d)" by (simp add: algebra_simps)
      have pos: "0 < unat (a - d)" using False by (simp add: unat_gt_0)
      have "s + (a - d) \<noteq> d" if "unat (a - d) < Suc n"
        using Suc.prems(2) [of "unat (a - d)" 0] that by simp
      then show ?thesis unfolding IH moved_def e u using False pos by auto
    qed
  qed
qed



text \<open>A whole block copied in: the destination holds the user's bytes.\<close>

lemma copyin_ok:
  assumes "copyin rd usersrc dest len m = (0, m')" and "USERSPACETOP \<le> dest" and "unat dest + unat len \<le> 4294967296"
  shows "m' = memmove dest usersrc len m"
proof -
  have True: "copycheck usersrc len = Ret len"
    using assms(1) by (auto simp: copyin_def copycheck_def Let_def split: if_splits prod.splits)
  then have u: "0 < unat len" "unat usersrc + unat len \<le> 2147483648" by (simp_all add: copycheck_whole)
  have c: "copy_bytes rd (\<lambda>_. True) dest usersrc (unat len) m = (True, m')"
    using assms(1) True by (auto simp: copyin_def split: prod.splits if_splits)
  have "usersrc + of_nat i \<noteq> dest + of_nat j" if "i < unat len" "j < unat len" for i j
  proof -
    have "unat (usersrc + of_nat i) < 2147483648"
      using unat_add_u32_le [of usersrc "of_nat i"] that u unat_u32_bound [of len] by (simp add: unat_of_nat_u32)
    moreover have "2147483648 \<le> unat (dest + of_nat j)"
      using unat_add_u32_le [of dest "of_nat j"] that assms(2,3) unat_u32_bound [of len]
      by (simp add: unat_of_nat_u32 word_le_nat_alt unat_USERSPACETOP)
    ultimately show ?thesis by auto
  qed
  then show ?thesis using copy_bytes_moved [OF c] unat_u32_bound [of len] by (simp add: memmove_moved)
qed

subsection \<open>Strings\<close>

text \<open>When \<open>copystr\<close> finds the end of the string, the destination holds the string with its terminator.\<close>

lemma copystr_loop_got:
  assumes "copystr_loop rd wr d s n i m = (Got l, m')" and "\<And>j k. s + j \<noteq> d + k \<or> unat j \<ge> unat i + n \<or> unat k \<ge> unat i + n"
    and "unat i + n < 4294967296"
  shows "\<exists>k. unat l = k + 1 \<and> unat i \<le> k \<and> k < unat i + n \<and> m (s + of_nat k) = 0 \<and>
    (\<forall>j. unat i \<le> j \<and> j < k \<longrightarrow> m (s + of_nat j) \<noteq> 0) \<and> (\<forall>j. unat i \<le> j \<and> j \<le> k \<longrightarrow> m' (d + of_nat j) = m (s + of_nat j)) \<and>
    (\<forall>j. unat j < unat i \<longrightarrow> m' (d + j) = m (d + j))"
  using assms
proof (induction n arbitrary: i m)
  case (Suc n)
  have acc: "rd (s + i) \<and> wr (d + i)" using Suc.prems(1) by (simp split: if_splits)
  let ?m = "m(d + i := m (s + i))"
  have i1: "unat (i + 1) = unat i + 1" using unat_add_u32_le [of i 1] Suc.prems(3) by simp
  show ?case
  proof (cases "m (s + i) = 0")
    case True
    then have "l = i + 1" "m' = ?m" using Suc.prems(1) acc by (simp_all add: Let_def)
    then show ?thesis using True i1 by (intro exI [of _ "unat i"]) auto
  next
    case False
    have r: "copystr_loop rd wr d s n (i + 1) ?m = (Got l, m')" using Suc.prems(1) acc False by (simp add: Let_def)
    have old: "?m (s + of_nat j) = m (s + of_nat j)" if "j < unat i + Suc n" for j
      using Suc.prems(2) [of "of_nat j" i] that Suc.prems(3) by (auto simp: unat_of_nat_u32)
    have "\<exists>k. unat l = k + 1 \<and> unat (i + 1) \<le> k \<and> k < unat (i + 1) + n \<and> ?m (s + of_nat k) = 0 \<and>
        (\<forall>j. unat (i + 1) \<le> j \<and> j < k \<longrightarrow> ?m (s + of_nat j) \<noteq> 0) \<and> (\<forall>j. unat (i + 1) \<le> j \<and> j \<le> k \<longrightarrow> m' (d + of_nat j) = ?m (s + of_nat j)) \<and>
        (\<forall>j. unat j < unat (i + 1) \<longrightarrow> m' (d + j) = ?m (d + j))"
      by (rule Suc.IH [OF r]) (use Suc.prems(2,3) i1 in auto)
    then obtain k where k: "unat l = k + 1" "unat i + 1 \<le> k" "k < unat i + Suc n" "?m (s + of_nat k) = 0"
      "\<And>j. unat i + 1 \<le> j \<Longrightarrow> j < k \<Longrightarrow> ?m (s + of_nat j) \<noteq> 0"
      "\<And>j. unat i + 1 \<le> j \<Longrightarrow> j \<le> k \<Longrightarrow> m' (d + of_nat j) = ?m (s + of_nat j)"
      "\<And>j. unat j < unat i + 1 \<Longrightarrow> m' (d + j) = ?m (d + j)" unfolding i1 by auto
    have a: "m (s + of_nat k) = 0" using old [OF k(3)] k(4) by simp
    have b: "m (s + of_nat j) \<noteq> 0" if "unat i \<le> j" "j < k" for j
    proof (cases "j = unat i")
      case True
      then show ?thesis using False by simp
    next
      case False
      then show ?thesis using k(5) [of j] old [of j] that k(3) by simp
    qed
    have c: "m' (d + of_nat j) = m (s + of_nat j)" if "unat i \<le> j" "j \<le> k" for j
    proof (cases "j = unat i")
      case True
      then show ?thesis using k(7) [of i] by simp
    next
      case False
      then show ?thesis using k(6) [of j] old [of j] that k(3) by simp
    qed
    have e: "m' (d + j) = m (d + j)" if "unat j < unat i" for j using k(7) [of j] that by auto
    show ?thesis using k(1-3) a b c e by (intro exI [of _ k]) auto
  qed
qed simp

end
