(* ===== verification/Uiomove.thy ===== *)
theory Uiomove
  imports Uio Copyinout
begin

text \<open>
  Moving data through a transfer descriptor (\<open>kern/lib/uio.c\<close>). The descriptor's buffers are read as the list of the
  addresses they cover, in order, so that moving \<open>k\<close> bytes takes the first \<open>k\<close> addresses of that list.
  The readable and writable user addresses and the current address space are arguments.
\<close>

subsection \<open>Definitions\<close>

definition move_chunk :: "(u32 \<Rightarrow> bool) \<Rightarrow> (u32 \<Rightarrow> bool) \<Rightarrow> uio_seg \<Rightarrow> uio_rw \<Rightarrow> u32 \<Rightarrow> u32 \<Rightarrow> u32 \<Rightarrow> mem \<Rightarrow> int \<times> mem" where
  "move_chunk rd wr segflg rw base ptr sz m =
     (case segflg of
        UIO_SYSSPACE \<Rightarrow> (0, if rw = UIO_READ then memmove_c base ptr sz m else memmove_c ptr base sz m)
      | _ \<Rightarrow> if rw = UIO_READ then copyout wr ptr base sz m else copyin rd base ptr sz m)"

lemma chunk_less: "(sz :: u32) \<noteq> 0 \<Longrightarrow> sz \<le> n \<Longrightarrow> unat (n - sz) = unat n - unat sz \<and> unat sz \<le> unat n \<and> 0 < unat sz"
  by (simp add: unat_sub word_le_nat_alt unat_gt_0)

lemma rest_less: "0 < (n :: u32) \<Longrightarrow> unat (n - (if 16 > n then n else 16)) < unat n"
  by (cases "16 > n") (use chunk_less [of 16 n] in \<open>auto simp: not_less unat_gt_0\<close>)

function uiomove_loop :: "(u32 \<Rightarrow> bool) \<Rightarrow> (u32 \<Rightarrow> bool) \<Rightarrow> u32 \<Rightarrow> u32 \<Rightarrow> uio \<Rightarrow> mem \<Rightarrow> (int \<times> uio \<times> mem) res" where
  "uiomove_loop rd wr ptr n u m =
     (if n > 0 \<and> uio_resid u > 0 then
        case uio_iov u of
          [] \<Rightarrow> Inl OutOfBounds
        | iov # rest \<Rightarrow>
            let sz = (if iov_len iov > n then n else iov_len iov) in
            if sz = 0 then
              let u1 = u\<lparr>uio_iov := rest, uio_iovcnt := uio_iovcnt u - 1\<rparr> in
              if uio_iovcnt u1 = 0 then Inl PanicCall else uiomove_loop rd wr ptr n u1 m
            else
              let (result, m1) = move_chunk rd wr (uio_segflg u) (uio_rw u) (iov_base iov) ptr sz m in
              if result \<noteq> 0 then Inr (result, u, m1)
              else uiomove_loop rd wr (ptr + sz) (n - sz)
                     (u\<lparr>uio_iov := \<lparr>iov_base = iov_base iov + sz, iov_len = iov_len iov - sz\<rparr> # rest,
                        uio_resid := uio_resid u - sz, uio_offset := uio_offset u + ucast sz\<rparr>) m1
      else Inr (0, u, m))"
  by pat_completeness auto

termination
  by (relation "measure (\<lambda>(rd, wr, ptr, n, u, m). unat n + length (uio_iov u))")
     (auto split: if_splits simp: not_less dest: chunk_less)

declare uiomove_loop.simps [simp del]

definition uiomove :: "(u32 \<Rightarrow> bool) \<Rightarrow> (u32 \<Rightarrow> bool) \<Rightarrow> vaddr option \<Rightarrow> u32 \<Rightarrow> u32 \<Rightarrow> uio \<Rightarrow> mem \<Rightarrow> (int \<times> uio \<times> mem) res" where
  "uiomove rd wr curas ptr n u m =
     (if uio_space u \<noteq> (if uio_segflg u = UIO_SYSSPACE then None else curas) then Inl KAssertFail
      else uiomove_loop rd wr ptr n u m)"

text \<open>\<open>uiomovezeros\<close>; \<open>zeros\<close> is the address of the static array of 16 zero bytes.\<close>

function uiomovezeros_loop :: "(u32 \<Rightarrow> bool) \<Rightarrow> (u32 \<Rightarrow> bool) \<Rightarrow> vaddr option \<Rightarrow> u32 \<Rightarrow> u32 \<Rightarrow> uio \<Rightarrow> mem \<Rightarrow> (int \<times> uio \<times> mem) res" where
  "uiomovezeros_loop rd wr curas zeros n u m =
     (if n > 0 then
        let amt = (if 16 > n then n else 16) in
        rbind (uiomove rd wr curas zeros amt u m) (\<lambda>(result, u1, m1).
          if result \<noteq> 0 then Inr (result, u1, m1)
          else uiomovezeros_loop rd wr curas zeros (n - amt) u1 m1)
      else Inr (0, u, m))"
  by pat_completeness auto

termination
  by (relation "measure (\<lambda>(rd, wr, curas, zeros, n, u, m). unat n)") (use rest_less in auto)

declare uiomovezeros_loop.simps [simp del]

definition uiomovezeros :: "(u32 \<Rightarrow> bool) \<Rightarrow> (u32 \<Rightarrow> bool) \<Rightarrow> vaddr option \<Rightarrow> u32 \<Rightarrow> u32 \<Rightarrow> uio \<Rightarrow> mem \<Rightarrow> (int \<times> uio \<times> mem) res" where
  "uiomovezeros rd wr curas zeros n u m =
     (if uio_rw u \<noteq> UIO_READ then Inl KAssertFail else uiomovezeros_loop rd wr curas zeros n u m)"

subsection \<open>Blocks of addresses\<close>

definition blk :: "u32 \<Rightarrow> nat \<Rightarrow> u32 list" where
  "blk p n = map (\<lambda>i. p + of_nat i) [0..<n]"

lemma length_blk [simp]: "length (blk p n) = n"
  by (simp add: blk_def)

lemma blk_0 [simp]: "blk p 0 = []"
  by (simp add: blk_def)

lemma blk_add: "blk p (a + b) = blk p a @ blk (p + of_nat a) b"
  by (rule nth_equalityI) (auto simp: blk_def nth_append algebra_simps)

lemma take_blk: "k \<le> n \<Longrightarrow> take k (blk p n) = blk p k"
  by (simp add: blk_def take_map)

lemma set_blk: "n \<le> 4294967296 \<Longrightarrow> set (blk p n) = {a. unat (a - p) < n}"
proof (intro equalityI subsetI)
  fix a assume n: "n \<le> 4294967296" and "a \<in> set (blk p n)"
  then obtain i where "i < n" "a = p + of_nat i" by (auto simp: blk_def)
  with n show "a \<in> {a. unat (a - p) < n}" by (simp add: unat_of_nat_u32)
next
  fix a assume "a \<in> {a. unat (a - p) < n}"
  then have "unat (a - p) < n" "a = p + of_nat (unat (a - p))" by simp_all
  then show "a \<in> set (blk p n)" unfolding blk_def by (metis atLeastLessThan_iff image_eqI image_set le0 set_upt)
qed

lemma distinct_blk: "n \<le> 4294967296 \<Longrightarrow> distinct (blk p n)"
proof -
  assume n: "n \<le> 4294967296"
  have "inj_on (\<lambda>i. p + of_nat i) {0..<n}"
  proof (rule inj_onI)
    fix i j assume "i \<in> {0..<n}" "j \<in> {0..<n}" "p + of_nat i = p + of_nat j"
    then have "unat (of_nat i :: u32) = unat (of_nat j :: u32)" "i < 4294967296" "j < 4294967296" using n by auto
    then show "i = j" by (simp add: unat_of_nat_u32)
  qed
  then show ?thesis by (simp add: blk_def distinct_map)
qed

lemma moved_blk:
  assumes "n \<le> 4294967296"
  shows "map (moved d s n m) (blk d n) = map m (blk s n)" and "a \<notin> set (blk d n) \<Longrightarrow> moved d s n m a = m a"
proof -
  show "map (moved d s n m) (blk d n) = map m (blk s n)" using assms by (simp add: blk_def moved_def unat_of_nat_u32)
  show "a \<notin> set (blk d n) \<Longrightarrow> moved d s n m a = m a" using assms by (simp add: set_blk moved_def)
qed

subsection \<open>Moving one chunk\<close>

text \<open>The direction of a transfer between a kernel block \<open>A\<close> and the buffers \<open>B\<close>.\<close>

definition copied :: "uio_rw \<Rightarrow> u32 list \<Rightarrow> u32 list \<Rightarrow> mem \<Rightarrow> mem \<Rightarrow> bool" where
  "copied rw A B m m' \<longleftrightarrow> (case rw of UIO_READ \<Rightarrow> map m' B = map m A | UIO_WRITE \<Rightarrow> map m' A = map m B)"

definition touched :: "uio_rw \<Rightarrow> u32 list \<Rightarrow> u32 list \<Rightarrow> mem \<Rightarrow> mem \<Rightarrow> bool" where
  "touched rw A B m m' \<longleftrightarrow> (\<forall>a. m' a \<noteq> m a \<longrightarrow> a \<in> set (case rw of UIO_READ \<Rightarrow> B | UIO_WRITE \<Rightarrow> A))"

lemma copied_Nil [simp]: "copied rw [] [] m m'"
  by (simp add: copied_def split: uio_rw.splits)

lemma touched_refl [simp]: "touched rw A B m m"
  by (simp add: touched_def)

lemma copied_append:
  assumes "copied rw A1 B1 m m1" and "touched rw A1 B1 m m1" and "copied rw A2 B2 m1 m2" and "touched rw A B m1 m2"
    and "set A2 \<subseteq> set A" and "set B2 \<subseteq> set B"
    and "set (A1 @ A) \<inter> set (B1 @ B) = {}" and "set A1 \<inter> set A = {}" and "set B1 \<inter> set B = {}"
  shows "copied rw (A1 @ A2) (B1 @ B2) m m2"
proof (cases rw)
  case UIO_READ
  have "map m2 B1 = map m1 B1" using assms(4,9) UIO_READ by (fastforce simp: touched_def)
  moreover have "map m1 A2 = map m A2" using assms(2,5,7) UIO_READ by (fastforce simp: touched_def)
  ultimately show ?thesis using assms(1,3) UIO_READ by (simp add: copied_def del: map_eq_conv)
next
  case UIO_WRITE
  have "map m2 A1 = map m1 A1" using assms(4,8) UIO_WRITE by (fastforce simp: touched_def)
  moreover have "map m1 B2 = map m B2" using assms(2,6,7) UIO_WRITE by (fastforce simp: touched_def)
  ultimately show ?thesis using assms(1,3) UIO_WRITE by (simp add: copied_def del: map_eq_conv)
qed

lemma touched_append: "touched rw A1 B1 m m1 \<Longrightarrow> touched rw A2 B2 m1 m2 \<Longrightarrow> touched rw (A1 @ A2) (B1 @ B2) m m2"
  by (cases rw) (force simp: touched_def)+

lemma copy_bytes_touched:
  assumes "copy_bytes rd wr d s n m = (ok, m')" and "n \<le> 4294967296" and "a \<notin> set (blk d n)"
  shows "m' a = m a"
  using copy_bytes_frame [OF assms(1), of a] assms(2,3) by (auto simp: set_blk)

lemma copy_bytes_copied:
  assumes "copy_bytes rd wr d s n m = (True, m')" and "n < 4294967296" and "set (blk s n) \<inter> set (blk d n) = {}"
  shows "map m' (blk d n) = map m (blk s n)"
proof -
  have "s + of_nat i \<noteq> d + of_nat j" if "i < n" "j < n" for i j
    using assms(3) that unfolding blk_def by force
  then have "m' = moved d s n m" using copy_bytes_moved [OF assms(1)] assms(2) by blast
  then show ?thesis using moved_blk(1) [of n d s m] assms(2) by simp
qed

lemma copycheck_err: "copycheck u len = Err e \<Longrightarrow> e = EFAULT"
  by (auto simp: copycheck_def Let_def split: if_splits)

lemma copyout_chunk:
  assumes "copyout wr ptr base sz m = (r, m')" and "set (blk ptr (unat sz)) \<inter> set (blk base (unat sz)) = {}"
  shows "(r = 0 \<or> r = EFAULT) \<and> (r = 0 \<longrightarrow> map m' (blk base (unat sz)) = map m (blk ptr (unat sz))) \<and>
    (\<forall>a. a \<notin> set (blk base (unat sz)) \<longrightarrow> m' a = m a)"
proof -
  have u: "unat sz < 4294967296" by (rule unat_u32_bound)
  show ?thesis
    using assms(1) u copy_bytes_touched [of "\<lambda>_. True" wr base ptr "unat sz" m _ m'] copy_bytes_copied [OF _ u assms(2), of "\<lambda>_. True" wr m m']
    by (auto simp: copyout_def split: cret.splits if_splits prod.splits dest: copycheck_err)
qed

lemma copyin_chunk:
  assumes "copyin rd base ptr sz m = (r, m')" and "set (blk base (unat sz)) \<inter> set (blk ptr (unat sz)) = {}"
  shows "(r = 0 \<or> r = EFAULT) \<and> (r = 0 \<longrightarrow> map m' (blk ptr (unat sz)) = map m (blk base (unat sz))) \<and>
    (\<forall>a. a \<notin> set (blk ptr (unat sz)) \<longrightarrow> m' a = m a)"
proof -
  have u: "unat sz < 4294967296" by (rule unat_u32_bound)
  show ?thesis
    using assms(1) u copy_bytes_touched [of rd "\<lambda>_. True" ptr base "unat sz" m _ m'] copy_bytes_copied [OF _ u assms(2), of rd "\<lambda>_. True" m m']
    by (auto simp: copyin_def split: cret.splits if_splits prod.splits dest: copycheck_err)
qed

lemma memmove_c_chunk:
  assumes "unat d + unat len \<le> 4294967296" and "unat s + unat len \<le> 4294967296"
  shows "map (memmove_c d s len m) (blk d (unat len)) = map m (blk s (unat len))" and "a \<notin> set (blk d (unat len)) \<Longrightarrow> memmove_c d s len m a = m a"
proof -
  have u: "unat len \<le> 4294967296" using unat_u32_bound [of len] by simp
  have e: "memmove_c d s len m = moved d s (unat len) m"
    unfolding memmove_c_memmove [OF assms] by (rule memmove_moved)
  show "map (memmove_c d s len m) (blk d (unat len)) = map m (blk s (unat len))" unfolding e by (rule moved_blk(1) [OF u])
  show "a \<notin> set (blk d (unat len)) \<Longrightarrow> memmove_c d s len m a = m a" unfolding e by (rule moved_blk(2) [OF u])
qed

lemma move_chunk_ok:
  assumes "move_chunk rd wr seg rw base ptr sz m = (r, m')"
    and "unat base + unat sz \<le> 4294967296" and "unat ptr + unat sz \<le> 4294967296"
    and "set (blk ptr (unat sz)) \<inter> set (blk base (unat sz)) = {}"
  shows "(r = 0 \<or> r = EFAULT \<and> seg \<noteq> UIO_SYSSPACE) \<and> touched rw (blk ptr (unat sz)) (blk base (unat sz)) m m' \<and>
    (r = 0 \<longrightarrow> copied rw (blk ptr (unat sz)) (blk base (unat sz)) m m')"
proof -
  have d: "set (blk base (unat sz)) \<inter> set (blk ptr (unat sz)) = {}" using assms(4) by blast
  have user: ?thesis if "seg \<noteq> UIO_SYSSPACE"
  proof (cases rw)
    case UIO_READ
    then have "copyout wr ptr base sz m = (r, m')" using assms(1) that by (simp add: move_chunk_def split: uio_seg.splits)
    from copyout_chunk [OF this assms(4)] show ?thesis using UIO_READ that by (auto simp: copied_def touched_def)
  next
    case UIO_WRITE
    then have "copyin rd base ptr sz m = (r, m')" using assms(1) that by (simp add: move_chunk_def split: uio_seg.splits)
    from copyin_chunk [OF this d] show ?thesis using UIO_WRITE that by (auto simp: copied_def touched_def)
  qed
  show ?thesis
  proof (cases seg)
    case UIO_SYSSPACE
    then show ?thesis
      using assms(1) memmove_c_chunk [OF assms(2,3)] memmove_c_chunk [OF assms(3,2)]
      by (cases rw; simp add: move_chunk_def copied_def touched_def; blast)
  qed (use user in auto)
qed

subsection \<open>The loop\<close>

definition iov_addrs :: "iovec list \<Rightarrow> u32 list" where
  "iov_addrs iovs = concat (map (\<lambda>v. blk (iov_base v) (unat (iov_len v))) iovs)"

lemma iov_addrs_simps [simp]:
  "iov_addrs [] = []" "iov_addrs (v # vs) = blk (iov_base v) (unat (iov_len v)) @ iov_addrs vs"
  by (simp_all add: iov_addrs_def)

text \<open>A descriptor whose residue is the total length of its buffers, none of which rolls over the top of memory.\<close>

definition uio_ok :: "uio \<Rightarrow> bool" where
  "uio_ok u \<longleftrightarrow> unat (uio_iovcnt u) = length (uio_iov u) \<and> unat (uio_resid u) = length (iov_addrs (uio_iov u)) \<and>
     (\<forall>v\<in>set (uio_iov u). unat (iov_base v) + unat (iov_len v) \<le> 4294967296)"

text \<open>After \<open>k\<close> of the requested bytes have been moved.\<close>

definition uio_moved :: "u32 \<Rightarrow> u32 \<Rightarrow> uio \<Rightarrow> mem \<Rightarrow> nat \<Rightarrow> uio \<Rightarrow> mem \<Rightarrow> bool" where
  "uio_moved ptr n u m k u' m' \<longleftrightarrow>
     uio_ok u' \<and> k \<le> unat n \<and> iov_addrs (uio_iov u') = drop k (iov_addrs (uio_iov u)) \<and>
     uio_resid u' = uio_resid u - of_nat k \<and> uio_offset u' = uio_offset u + of_nat k \<and>
     uio_rw u' = uio_rw u \<and> uio_segflg u' = uio_segflg u \<and> uio_space u' = uio_space u \<and>
     copied (uio_rw u) (blk ptr k) (take k (iov_addrs (uio_iov u))) m m' \<and>
     touched (uio_rw u) (blk ptr (unat n)) (take (unat n) (iov_addrs (uio_iov u))) m m'"

lemma uio_moved_refl: "uio_ok u \<Longrightarrow> touched (uio_rw u) (blk ptr (unat n)) (take (unat n) (iov_addrs (uio_iov u))) m m' \<Longrightarrow> uio_moved ptr n u m 0 u m'"
  by (simp add: uio_moved_def)

lemma uio_ok_next:
  assumes "uio_ok u" and "uio_iov u = v # vs" and "iov_len v = 0" and "uio_resid u > 0"
  shows "uio_iovcnt u - 1 \<noteq> 0 \<and> uio_ok (u\<lparr>uio_iov := vs, uio_iovcnt := uio_iovcnt u - 1\<rparr>)"
proof -
  have "vs \<noteq> []" using assms by (auto simp: uio_ok_def word_less_nat_alt)
  moreover have c: "unat (uio_iovcnt u) = Suc (length vs)" using assms(1,2) by (simp add: uio_ok_def)
  then have "unat (uio_iovcnt u - 1) = length vs" using unat_minus_one [of "uio_iovcnt u"] by fastforce
  ultimately show ?thesis using assms(1-3) by (auto simp: uio_ok_def)
qed

lemma uio_ok_chunk:
  assumes "uio_ok u" and "uio_iov u = v # vs" and "sz \<le> iov_len v"
    and "u1 = u\<lparr>uio_iov := \<lparr>iov_base = iov_base v + sz, iov_len = iov_len v - sz\<rparr> # vs, uio_resid := uio_resid u - sz,
      uio_offset := uio_offset u + ucast sz\<rparr>"
  shows "uio_ok u1" and "iov_addrs (uio_iov u1) = drop (unat sz) (iov_addrs (uio_iov u))"
    and "take (unat sz) (iov_addrs (uio_iov u)) = blk (iov_base v) (unat sz)"
    and "unat (iov_base v) + unat sz \<le> 4294967296"
proof -
  have l: "unat (iov_len v - sz) = unat (iov_len v) - unat sz" "unat sz \<le> unat (iov_len v)"
    using assms(3) by (simp_all add: unat_sub word_le_nat_alt)
  have b: "unat (iov_base v) + unat (iov_len v) \<le> 4294967296" using assms(1,2) by (simp add: uio_ok_def)
  with l(2) show "unat (iov_base v) + unat sz \<le> 4294967296" by simp
  have s: "blk (iov_base v) (unat (iov_len v)) = blk (iov_base v) (unat sz) @ blk (iov_base v + sz) (unat (iov_len v) - unat sz)"
    using blk_add [of "iov_base v" "unat sz" "unat (iov_len v) - unat sz"] l(2) by simp
  show a: "iov_addrs (uio_iov u1) = drop (unat sz) (iov_addrs (uio_iov u))" using assms(2) s l by (simp add: assms(4))
  show "take (unat sz) (iov_addrs (uio_iov u)) = blk (iov_base v) (unat sz)" using assms(2) s by simp
  have r: "unat (uio_resid u) = length (iov_addrs (uio_iov u))" using assms(1) by (simp add: uio_ok_def)
  then have "unat sz \<le> unat (uio_resid u)" using assms(2) l(2) by simp
  then have r1: "unat (uio_resid u1) = length (iov_addrs (uio_iov u1))"
    unfolding a using r by (simp add: assms(4) unat_sub word_le_nat_alt)
  have "unat (iov_base v + sz) + unat (iov_len v - sz) \<le> 4294967296"
  proof (cases "unat (iov_base v) + unat sz < 4294967296")
    case True
    then show ?thesis using b l unat_add_u32_le [of "iov_base v" sz] by simp
  next
    case False
    then have "unat (iov_len v - sz) = 0" using b l by simp
    then show ?thesis using unat_u32_bound [of "iov_base v + sz"] by simp
  qed
  then show "uio_ok u1" using assms(1,2) r1 by (simp add: uio_ok_def assms(4))
qed

lemma uio_moved_chunk:
  assumes "uio_ok u" and "uio_iov u = v # vs" and "sz \<le> iov_len v" and "sz \<le> n" and "unat n \<le> unat (uio_resid u)"
    and "u1 = u\<lparr>uio_iov := \<lparr>iov_base = iov_base v + sz, iov_len = iov_len v - sz\<rparr> # vs, uio_resid := uio_resid u - sz,
      uio_offset := uio_offset u + ucast sz\<rparr>"
    and "distinct (iov_addrs (uio_iov u))" and "set (blk ptr (unat n)) \<inter> set (take (unat n) (iov_addrs (uio_iov u))) = {}"
    and c: "copied (uio_rw u) (blk ptr (unat sz)) (blk (iov_base v) (unat sz)) m m1"
    and t: "touched (uio_rw u) (blk ptr (unat sz)) (blk (iov_base v) (unat sz)) m m1"
    and m: "uio_moved (ptr + sz) (n - sz) u1 m1 k u' m'"
  shows "uio_moved ptr n u m (unat sz + k) u' m'"
proof -
  let ?A = "iov_addrs (uio_iov u)" and ?s = "unat sz" and ?n = "unat n"
  note ch = uio_ok_chunk [OF assms(1-3,6)]
  have n: "unat (n - sz) = ?n - ?s" "?s \<le> ?n" using assms(4) by (simp_all add: unat_sub word_le_nat_alt)
  have sel: "uio_rw u1 = uio_rw u" "uio_segflg u1 = uio_segflg u" "uio_space u1 = uio_space u"
    "uio_resid u1 = uio_resid u - sz" "uio_offset u1 = uio_offset u + ucast sz" by (simp_all add: assms(6))
  have k: "uio_ok u'" "k \<le> ?n - ?s" "iov_addrs (uio_iov u') = drop k (drop ?s ?A)" "uio_resid u' = uio_resid u - sz - of_nat k"
    "uio_offset u' = uio_offset u + ucast sz + of_nat k" "uio_rw u' = uio_rw u" "uio_segflg u' = uio_segflg u" "uio_space u' = uio_space u"
    and c2: "copied (uio_rw u) (blk (ptr + sz) k) (take k (drop ?s ?A)) m1 m'"
    and t2: "touched (uio_rw u) (blk (ptr + sz) (?n - ?s)) (take (?n - ?s) (drop ?s ?A)) m1 m'"
    using m unfolding uio_moved_def sel ch(2) n by simp_all
  have B: "blk ptr (?s + j) = blk ptr ?s @ blk (ptr + sz) j" "take (?s + j) ?A = blk (iov_base v) ?s @ take j (drop ?s ?A)" for j
    using ch(3) by (simp_all add: blk_add take_add)
  have sub: "set (blk (ptr + sz) k) \<subseteq> set (blk (ptr + sz) (?n - ?s))" "set (take k (drop ?s ?A)) \<subseteq> set (take (?n - ?s) (drop ?s ?A))"
    using k(2) take_blk [of k "?n - ?s" "ptr + sz"] by (metis set_take_subset, simp add: set_take_subset_set_take)
  have e: "?s + (?n - ?s) = ?n" using n(2) by simp
  note Bn = B [of "?n - ?s", unfolded e]
  have d1: "distinct (blk ptr ?n)" using unat_u32_bound [of n] by (simp add: distinct_blk)
  have d2: "distinct (take ?n ?A)" using assms(7) by simp
  have "copied (uio_rw u) (blk ptr (?s + k)) (take (?s + k) ?A) m m'"
    unfolding B by (rule copied_append [OF c t c2 t2 sub]) (use assms(8) d1 d2 in \<open>simp_all add: Bn\<close>)
  moreover have "touched (uio_rw u) (blk ptr ?n) (take ?n ?A) m m'"
    unfolding Bn by (rule touched_append [OF t t2])
  moreover have "uio_offset u + ucast sz + of_nat k = uio_offset u + of_nat (?s + k)" by (simp add: unsigned_ucast_eq)
  ultimately show ?thesis using k n(2) by (simp add: uio_moved_def add.commute diff_diff_eq)
qed

lemma uiomove_loop_0: "uiomove_loop rd wr ptr 0 u m = Inr (0, u, m)"
  by (simp add: uiomove_loop.simps [of rd wr ptr 0])

lemma uiomove_loop_next:
  assumes "n > 0 \<and> uio_resid u > 0" and "uio_iov u = v # vs" and "iov_len v = 0" and "uio_iovcnt u - 1 \<noteq> 0"
  shows "uiomove_loop rd wr ptr n u m = uiomove_loop rd wr ptr n (u\<lparr>uio_iov := vs, uio_iovcnt := uio_iovcnt u - 1\<rparr>) m"
  using assms by (simp add: uiomove_loop.simps [of rd wr ptr n u] Let_def)

lemma uiomove_loop_chunk:
  assumes "n > 0 \<and> uio_resid u > 0" and "uio_iov u = v # vs" and "iov_len v \<noteq> 0" and "sz = (if iov_len v > n then n else iov_len v)"
    and "move_chunk rd wr (uio_segflg u) (uio_rw u) (iov_base v) ptr sz m = (r, m1)"
  shows "uiomove_loop rd wr ptr n u m =
    (if r \<noteq> 0 then Inr (r, u, m1)
     else uiomove_loop rd wr (ptr + sz) (n - sz)
       (u\<lparr>uio_iov := \<lparr>iov_base = iov_base v + sz, iov_len = iov_len v - sz\<rparr> # vs, uio_resid := uio_resid u - sz,
          uio_offset := uio_offset u + ucast sz\<rparr>) m1)"
proof -
  have "sz \<noteq> 0" using assms(1,3,4) by auto
  then show ?thesis
    using assms(1,2,5) by (simp add: uiomove_loop.simps [of rd wr ptr n u] assms(4) [symmetric] Let_def)
qed

text \<open>What remains after a chunk is again a transfer the induction hypothesis speaks of.\<close>

definition transfer_ok :: "u32 \<Rightarrow> u32 \<Rightarrow> uio \<Rightarrow> bool" where
  "transfer_ok ptr n u \<longleftrightarrow> uio_ok u \<and> unat n \<le> unat (uio_resid u) \<and> unat ptr + unat n \<le> 4294967296 \<and>
     distinct (iov_addrs (uio_iov u)) \<and> set (blk ptr (unat n)) \<inter> set (take (unat n) (iov_addrs (uio_iov u))) = {}"

lemma transfer_ok_chunk:
  assumes "transfer_ok ptr n u" and "uio_iov u = v # vs" and "sz \<le> iov_len v" and "sz \<le> n"
    and "u1 = u\<lparr>uio_iov := \<lparr>iov_base = iov_base v + sz, iov_len = iov_len v - sz\<rparr> # vs, uio_resid := uio_resid u - sz,
      uio_offset := uio_offset u + ucast sz\<rparr>"
  shows "transfer_ok (ptr + sz) (n - sz) u1" and "set (blk ptr (unat sz)) \<inter> set (blk (iov_base v) (unat sz)) = {}"
    and "touched rw (blk ptr (unat sz)) (blk (iov_base v) (unat sz)) m m' \<Longrightarrow>
      touched rw (blk ptr (unat n)) (take (unat n) (iov_addrs (uio_iov u))) m m'"
proof -
  have t: "uio_ok u" "unat n \<le> unat (uio_resid u)" "unat ptr + unat n \<le> 4294967296" "distinct (iov_addrs (uio_iov u))"
    "set (blk ptr (unat n)) \<inter> set (take (unat n) (iov_addrs (uio_iov u))) = {}" using assms(1) by (simp_all add: transfer_ok_def)
  note ch = uio_ok_chunk [OF t(1) assms(2,3,5)]
  have n: "unat (n - sz) = unat n - unat sz" "unat sz \<le> unat n" using assms(4) by (simp_all add: unat_sub word_le_nat_alt)
  have e: "unat sz + (unat n - unat sz) = unat n" using n by simp
  have B: "blk ptr (unat n) = blk ptr (unat sz) @ blk (ptr + sz) (unat n - unat sz)"
    "take (unat n) (iov_addrs (uio_iov u)) = blk (iov_base v) (unat sz) @ take (unat n - unat sz) (drop (unat sz) (iov_addrs (uio_iov u)))"
    using blk_add [of ptr "unat sz" "unat n - unat sz"] take_add [of "unat sz" "unat n - unat sz" "iov_addrs (uio_iov u)"] e ch(3) by simp_all
  show "set (blk ptr (unat sz)) \<inter> set (blk (iov_base v) (unat sz)) = {}" using t(5) unfolding B by auto
  show "touched rw (blk ptr (unat n)) (take (unat n) (iov_addrs (uio_iov u))) m m'"
    if "touched rw (blk ptr (unat sz)) (blk (iov_base v) (unat sz)) m m'" unfolding B by (rule touched_append [OF that touched_refl])
  have "unat (n - sz) \<le> unat (uio_resid u1)" using t(2) n by (simp add: assms(5) unat_sub word_le_nat_alt)
  moreover have "unat (ptr + sz) + unat (n - sz) \<le> 4294967296"
    using t(3) n unat_add_u32_le [of ptr sz] unat_u32_bound [of "ptr + sz"] by (cases "unat ptr + unat sz < 4294967296") auto
  moreover have "distinct (iov_addrs (uio_iov u1))" unfolding ch(2) using t(4) by (rule distinct_drop)
  moreover have "set (blk (ptr + sz) (unat (n - sz))) \<inter> set (take (unat (n - sz)) (iov_addrs (uio_iov u1))) = {}"
    unfolding ch(2) n using t(5) unfolding B by auto
  ultimately show "transfer_ok (ptr + sz) (n - sz) u1" using ch(1) by (simp add: transfer_ok_def)
qed

lemma uiomove_loop_ok:
  assumes "transfer_ok ptr n u"
  shows "\<exists>r u' m' k. uiomove_loop rd wr ptr n u m = Inr (r, u', m') \<and>
    (r = 0 \<and> k = unat n \<or> r = EFAULT \<and> uio_segflg u \<noteq> UIO_SYSSPACE) \<and> uio_moved ptr n u m k u' m'"
  using assms
proof (induction "unat n + length (uio_iov u)" arbitrary: ptr n u m rule: less_induct)
  case less
  have t: "uio_ok u" "unat n \<le> unat (uio_resid u)" "unat ptr + unat n \<le> 4294967296" "distinct (iov_addrs (uio_iov u))"
    "set (blk ptr (unat n)) \<inter> set (take (unat n) (iov_addrs (uio_iov u))) = {}" using less.prems by (simp_all add: transfer_ok_def)
  show ?case
  proof (cases "n = 0")
    case True
    then show ?thesis using uio_moved_refl [OF t(1)] uiomove_loop_0 by fastforce
  next
    case False
    then have "0 < unat n" by (simp add: unat_gt_0)
    then have pos: "n > 0 \<and> uio_resid u > 0" using t(2) by (simp add: word_less_nat_alt)
    then obtain v vs where iov: "uio_iov u = v # vs" using t(1) by (cases "uio_iov u") (auto simp: uio_ok_def word_less_nat_alt)
    define sz where "sz = (if iov_len v > n then n else iov_len v)"
    have le: "sz \<le> n" "sz \<le> iov_len v" by (auto simp: sz_def)
    let ?u = "u\<lparr>uio_iov := \<lparr>iov_base = iov_base v + sz, iov_len = iov_len v - sz\<rparr> # vs, uio_resid := uio_resid u - sz,
        uio_offset := uio_offset u + ucast sz\<rparr>"
    show ?thesis
    proof (cases "iov_len v = 0")
      case True
      let ?u = "u\<lparr>uio_iov := vs, uio_iovcnt := uio_iovcnt u - 1\<rparr>"
      note nx = uio_ok_next [OF t(1) iov True conjunct2 [OF pos]]
      have "uio_moved ptr n ?u m k u' m' = uio_moved ptr n u m k u' m'" for k u' m' using iov True by (simp add: uio_moved_def)
      then show ?thesis unfolding uiomove_loop_next [OF pos iov True conjunct1 [OF nx]]
        using less.hyps [of n ?u ptr m] t iov True nx by (simp add: transfer_ok_def)
    next
      case False
      note ch = transfer_ok_chunk [OF less.prems iov le(2,1) refl]
      obtain r m1 where mv: "move_chunk rd wr (uio_segflg u) (uio_rw u) (iov_base v) ptr sz m = (r, m1)" by fastforce
      have "sz \<noteq> 0" using False pos by (auto simp: sz_def)
      note n = chunk_less [OF this le(1)]
      note mo = move_chunk_ok [OF mv uio_ok_chunk(4) [OF t(1) iov le(2) refl] _ ch(2)]
      have mo: "(r = 0 \<or> r = EFAULT \<and> uio_segflg u \<noteq> UIO_SYSSPACE) \<and> touched (uio_rw u) (blk ptr (unat sz)) (blk (iov_base v) (unat sz)) m m1 \<and>
          (r = 0 \<longrightarrow> copied (uio_rw u) (blk ptr (unat sz)) (blk (iov_base v) (unat sz)) m m1)" by (rule mo) (use n t(3) in simp)
      note e = uiomove_loop_chunk [OF pos iov False sz_def mv]
      show ?thesis
      proof (cases "r = 0")
        case False
        then show ?thesis using mo e ch(3) uio_moved_refl [OF t(1)] by (metis (no_types))
      next
        case True
        have "unat (n - sz) + length (uio_iov ?u) < unat n + length (uio_iov u)" using n iov by simp
        from less.hyps [OF this ch(1), of m1] obtain r' u' m' k where
          *: "uiomove_loop rd wr (ptr + sz) (n - sz) ?u m1 = Inr (r', u', m')"
          "r' = 0 \<and> k = unat (n - sz) \<or> r' = EFAULT \<and> uio_segflg ?u \<noteq> UIO_SYSSPACE" "uio_moved (ptr + sz) (n - sz) ?u m1 k u' m'" by blast
        have "uio_moved ptr n u m (unat sz + k) u' m'"
          by (rule uio_moved_chunk [OF t(1) iov le(2,1) t(2) refl t(4,5) _ _ *(3)]) (use mo True in simp_all)
        moreover have "uiomove_loop rd wr ptr n u m = Inr (r', u', m')" unfolding e using True *(1) by simp
        moreover have "r' = 0 \<and> unat sz + k = unat n \<or> r' = EFAULT \<and> uio_segflg u \<noteq> UIO_SYSSPACE" using *(2) n by auto
        ultimately show ?thesis by blast
      qed
    qed
  qed
qed

text \<open>\<open>uiomovezeros\<close> fills the next \<open>n\<close> bytes of the kernel buffers with zeros.\<close>

lemma uiomovezeros_loop_ok:
  assumes "uio_ok u" and "unat n \<le> unat (uio_resid u)" and "unat zeros + 16 \<le> 4294967296" and "distinct (iov_addrs (uio_iov u))"
    and "set (blk zeros 16) \<inter> set (iov_addrs (uio_iov u)) = {}" and "\<forall>a\<in>set (blk zeros 16). m a = 0"
    and "uio_rw u = UIO_READ" and "uio_segflg u = UIO_SYSSPACE" and "uio_space u = None"
  shows "\<exists>u' m'. uiomovezeros_loop rd wr curas zeros n u m = Inr (0, u', m') \<and>
    iov_addrs (uio_iov u') = drop (unat n) (iov_addrs (uio_iov u)) \<and>
    m' = (\<lambda>a. if a \<in> set (take (unat n) (iov_addrs (uio_iov u))) then 0 else m a)"
  using assms
proof (induction "unat n" arbitrary: n u m rule: less_induct)
  case less
  let ?A = "iov_addrs (uio_iov u)"
  show ?case
  proof (cases "n = 0")
    case True
    then show ?thesis by (simp add: uiomovezeros_loop.simps [of rd wr curas zeros 0])
  next
    case False
    then have pos: "n > 0" by (simp add: word_gt_0)
    define amt :: u32 where "amt = (if 16 > n then n else 16)"
    have amt: "amt \<noteq> 0" "amt \<le> n" "unat amt \<le> 16" using False by (auto simp: amt_def word_less_nat_alt word_le_nat_alt not_less)
    note n = chunk_less [OF amt(1,2)]
    have sub: "set (blk zeros (unat amt)) \<subseteq> set (blk zeros 16)" using amt(3) take_blk [of "unat amt" 16 zeros] by (metis set_take_subset)
    then have "transfer_ok zeros amt u"
      using less.prems(1-5) n amt(3) set_take_subset [of "unat amt" ?A] by (auto simp: transfer_ok_def)
    from uiomove_loop_ok [OF this, of rd wr m] less.prems(8) obtain u1 m1 where
      l: "uiomove_loop rd wr zeros amt u m = Inr (0, u1, m1)" and mv: "uio_moved zeros amt u m (unat amt) u1 m1" by auto
    have u1: "uio_ok u1" "iov_addrs (uio_iov u1) = drop (unat amt) ?A" "uio_resid u1 = uio_resid u - amt" "uio_rw u1 = UIO_READ"
      "uio_segflg u1 = UIO_SYSSPACE" "uio_space u1 = None" and c: "map m1 (take (unat amt) ?A) = map m (blk zeros (unat amt))"
      and t: "m1 a \<noteq> m a \<Longrightarrow> a \<in> set (take (unat amt) ?A)" for a
      using mv less.prems(7-9) by (simp_all add: uio_moved_def copied_def touched_def)
    have "set (map m1 (take (unat amt) ?A)) \<subseteq> {0}" unfolding c using less.prems(6) sub by auto
    then have m1: "m1 = (\<lambda>a. if a \<in> set (take (unat amt) ?A) then 0 else m a)" using t by (auto simp: fun_eq_iff)
    have e: "uiomovezeros_loop rd wr curas zeros n u m = uiomovezeros_loop rd wr curas zeros (n - amt) u1 m1"
      using pos l less.prems(8,9) by (simp add: uiomovezeros_loop.simps [of rd wr curas zeros n u] amt_def [symmetric] Let_def uiomove_def)
    have dis: "set (blk zeros 16) \<inter> set ?A = {}" by (rule less.prems(5))
    have "\<exists>u' m'. uiomovezeros_loop rd wr curas zeros (n - amt) u1 m1 = Inr (0, u', m') \<and>
        iov_addrs (uio_iov u') = drop (unat (n - amt)) (iov_addrs (uio_iov u1)) \<and>
        m' = (\<lambda>a. if a \<in> set (take (unat (n - amt)) (iov_addrs (uio_iov u1))) then 0 else m1 a)"
    proof (rule less.hyps)
      show "unat (n - amt) < unat n" using n by simp
      show "unat (n - amt) \<le> unat (uio_resid u1)" unfolding u1 using less.prems(2) n by (simp add: unat_sub word_le_nat_alt)
      show "set (blk zeros 16) \<inter> set (iov_addrs (uio_iov u1)) = {}" unfolding u1 using dis set_drop_subset [of "unat amt" ?A] by blast
      show "\<forall>a\<in>set (blk zeros 16). m1 a = 0" using less.prems(6) by (simp add: m1)
    qed (use u1 less.prems(3,4) in simp_all)
    then obtain u' m' where *: "uiomovezeros_loop rd wr curas zeros n u m = Inr (0, u', m')"
      "iov_addrs (uio_iov u') = drop (unat (n - amt)) (drop (unat amt) ?A)"
      "m' = (\<lambda>a. if a \<in> set (take (unat (n - amt)) (drop (unat amt) ?A)) then 0 else m1 a)" unfolding e u1 by blast
    have "take (unat n) ?A = take (unat amt) ?A @ take (unat (n - amt)) (drop (unat amt) ?A)"
      using take_add [of "unat amt" "unat (n - amt)" ?A] n by simp
    then have "m' = (\<lambda>a. if a \<in> set (take (unat n) ?A) then 0 else m a)" unfolding *(3) m1 by (auto simp: fun_eq_iff)
    then show ?thesis using *(1,2) n by (auto simp: add.commute)
  qed
qed

subsection \<open>Properties\<close>

text \<open>
  C29: \<open>uiomove\<close> moves the data and keeps the books. On a descriptor whose residue is the total length of its buffers it
  never panics; it moves the next \<open>k\<close> bytes between the kernel block and the buffers, in order and in the direction of
  \<open>uio_rw\<close>, advances buffers, residue and offset by exactly \<open>k\<close>, leaves a descriptor of the same
  kind, and changes no other memory. It returns 0 with all \<open>n\<close> bytes moved, or, for user buffers only,
  \<open>EFAULT\<close>.
\<close>

theorem uiomove_moves:
  assumes "uio_ok u" and "unat n \<le> unat (uio_resid u)" and "unat ptr + unat n \<le> 4294967296"
    and "distinct (iov_addrs (uio_iov u))" and "set (blk ptr (unat n)) \<inter> set (take (unat n) (iov_addrs (uio_iov u))) = {}"
    and "uio_space u = (if uio_segflg u = UIO_SYSSPACE then None else curas)"
  shows "\<exists>r u' m' k. uiomove rd wr curas ptr n u m = Inr (r, u', m') \<and>
    (r = 0 \<and> k = unat n \<or> r = EFAULT \<and> k \<le> unat n \<and> uio_segflg u \<noteq> UIO_SYSSPACE) \<and>
    uio_ok u' \<and> iov_addrs (uio_iov u') = drop k (iov_addrs (uio_iov u)) \<and>
    uio_resid u' = uio_resid u - of_nat k \<and> uio_offset u' = uio_offset u + of_nat k \<and>
    (case uio_rw u of UIO_READ \<Rightarrow> map m' (take k (iov_addrs (uio_iov u))) = map m (blk ptr k)
                    | UIO_WRITE \<Rightarrow> map m' (blk ptr k) = map m (take k (iov_addrs (uio_iov u)))) \<and>
    (\<forall>a. m' a \<noteq> m a \<longrightarrow> a \<in> set (case uio_rw u of UIO_READ \<Rightarrow> take (unat n) (iov_addrs (uio_iov u)) | UIO_WRITE \<Rightarrow> blk ptr (unat n)))"
proof -
  have "transfer_ok ptr n u" using assms by (simp add: transfer_ok_def)
  from uiomove_loop_ok [OF this, of rd wr m] obtain r u' m' k where
    "uiomove_loop rd wr ptr n u m = Inr (r, u', m')" "r = 0 \<and> k = unat n \<or> r = EFAULT \<and> uio_segflg u \<noteq> UIO_SYSSPACE"
    and m: "uio_moved ptr n u m k u' m'" by blast
  moreover have "uiomove rd wr curas ptr n u m = uiomove_loop rd wr ptr n u m" using assms(6) by (simp add: uiomove_def)
  moreover note m [unfolded uio_moved_def copied_def touched_def]
  ultimately show ?thesis by (intro exI [of _ r] exI [of _ u'] exI [of _ m'] exI [of _ k]) auto
qed

theorem uiomove_moves_witness:
  "\<exists>u' m'. uiomove (\<lambda>_. True) (\<lambda>_. True) None 0x80000000 3
      \<lparr>uio_iov = [\<lparr>iov_base = 0x80001000, iov_len = 2\<rparr>, \<lparr>iov_base = 0x80002000, iov_len = 2\<rparr>], uio_iovcnt = 2, uio_offset = 10,
       uio_resid = 4, uio_segflg = UIO_SYSSPACE, uio_rw = UIO_READ, uio_space = None\<rparr> (\<lambda>a. ucast a) = Inr (0, u', m') \<and>
    m' 0x80001000 = 0 \<and> m' 0x80001001 = 1 \<and> m' 0x80002000 = 2 \<and> uio_resid u' = 1 \<and> uio_offset u' = 13"
proof -
  let ?u = "\<lparr>uio_iov = [\<lparr>iov_base = 0x80001000, iov_len = 2\<rparr>, \<lparr>iov_base = 0x80002000, iov_len = 2\<rparr>], uio_iovcnt = 2, uio_offset = 10,
       uio_resid = 4, uio_segflg = UIO_SYSSPACE, uio_rw = UIO_READ, uio_space = None\<rparr> :: uio"
  have a: "iov_addrs (uio_iov ?u) = [0x80001000, 0x80001001, 0x80002000, 0x80002001]" by code_simp
  have b: "blk 0x80000000 3 = [0x80000000, 0x80000001, 0x80000002]" by code_simp
  have "uio_ok ?u" "unat (3 :: u32) \<le> unat (uio_resid ?u)" "unat (0x80000000 :: u32) + unat (3 :: u32) \<le> 4294967296"
    "distinct (iov_addrs (uio_iov ?u))" "set (blk 0x80000000 (unat (3 :: u32))) \<inter> set (take (unat (3 :: u32)) (iov_addrs (uio_iov ?u))) = {}"
    "uio_space ?u = (if uio_segflg ?u = UIO_SYSSPACE then None else None)"
    using a b by (simp_all add: uio_ok_def)
  from uiomove_moves [OF this, of "\<lambda>_. True" "\<lambda>_. True" "\<lambda>a. ucast a"] show ?thesis unfolding a b by (auto simp: b)
qed

end
