(* ===== verification/Kmalloc.thy ===== *)
theory Kmalloc
  imports Machine
begin

text \<open>
  The kernel's heap (\<open>kern/vm/kmalloc.c\<close>, in its default configuration without the debugging modes
  \<open>SLOW\<close>, \<open>SLOWER\<close>, \<open>GUARDS\<close> and \<open>LABELS\<close>). Whole pages come from \<open>alloc_kpages\<close> and go back to
  \<open>free_kpages\<close>, which are arguments here, over a state \<open>'v\<close> of the page allocator.

  A pointer to a \<open>struct pageref\<close> is its address, and \<open>refs\<close> is the array of structures behind these
  addresses; \<open>hmem\<close> is the memory of the heap by words, where a free block holds the address of the next
  free block. The null pointer is 0. Nothing else enters the allocator while it has given up its spinlock
  to call the page allocator.
\<close>

subsection \<open>Data\<close>

definition NSIZES :: nat where "NSIZES = 8"

definition sizes :: "u32 list" where "sizes = [16, 32, 64, 128, 256, 512, 1024, 2048]"

definition LARGEST_SUBPAGE_SIZE :: u32 where "LARGEST_SUBPAGE_SIZE = 2048"

definition INVALID_OFFSET :: u16 where "INVALID_OFFSET = 0xffff"

definition NPAGEREFS_PER_PAGE :: u32 where "NPAGEREFS_PER_PAGE = PAGE_SIZE div 16"

definition NUM_PAGEREFPAGES :: nat where "NUM_PAGEREFPAGES = 16"

record pageref =
  next_samesize :: u32
  next_all :: u32
  pageaddr_and_blocktype :: u32
  freelist_offset :: u16
  nfree :: u16

definition PR_PAGEADDR :: "pageref \<Rightarrow> u32" where
  "PR_PAGEADDR pr = pageaddr_and_blocktype pr AND PAGE_FRAME"

definition PR_BLOCKTYPE :: "pageref \<Rightarrow> u32" where
  "PR_BLOCKTYPE pr = pageaddr_and_blocktype pr AND NOT PAGE_FRAME"

definition MKPAB :: "u32 \<Rightarrow> u32 \<Rightarrow> u32" where
  "MKPAB pa blk = (pa AND PAGE_FRAME) OR (blk AND NOT PAGE_FRAME)"

record kheap_root =
  page :: u32
  pagerefs_inuse :: "u32 list"
  numinuse :: u32

record kheap =
  kheaproots :: "kheap_root list"
  refs :: "u32 \<Rightarrow> pageref"
  sizebases :: "u32 list"
  allbase :: u32
  hmem :: "u32 \<Rightarrow> u32"

text \<open>The static variables before any call: null pointers and zeros.\<close>

definition kheap_start :: "(u32 \<Rightarrow> pageref) \<Rightarrow> (u32 \<Rightarrow> u32) \<Rightarrow> kheap" where
  "kheap_start r m =
     \<lparr>kheaproots = replicate NUM_PAGEREFPAGES \<lparr>page = 0, pagerefs_inuse = replicate 8 0, numinuse = 0\<rparr>, refs = r,
      sizebases = replicate NSIZES 0, allbase = 0, hmem = m\<rparr>"

subsection \<open>Page references\<close>

definition allocpagerefpage ::
    "(u32 \<Rightarrow> 'v \<Rightarrow> (u32 \<times> 'v) res) \<Rightarrow> (u32 \<Rightarrow> 'v \<Rightarrow> 'v res) \<Rightarrow> nat \<Rightarrow> kheap \<Rightarrow> 'v \<Rightarrow> (kheap \<times> 'v) res" where
  "allocpagerefpage alloc_kpages free_kpages whichroot h v =
     (if page (kheaproots h ! whichroot) \<noteq> 0 then Inl KAssertFail
      else rbind (alloc_kpages 1 v) (\<lambda>(va, v1).
        if va = 0 then Inr (h, v1)
        else if va mod PAGE_SIZE \<noteq> 0 then Inl KAssertFail
        else if page (kheaproots h ! whichroot) \<noteq> 0 then
          rbind (free_kpages va v1) (\<lambda>v2. if page (kheaproots h ! whichroot) = 0 then Inl KAssertFail else Inr (h, v2))
        else Inr (h\<lparr>kheaproots := (kheaproots h)[whichroot := (kheaproots h ! whichroot)\<lparr>page := va\<rparr>]\<rparr>, v1)))"

text \<open>The search for a clear bit in the words of a root: word \<open>i\<close> and bit \<open>j\<close>.\<close>

fun scan_words :: "u32 list \<Rightarrow> nat \<Rightarrow> (nat \<times> nat) option res" where
  "scan_words [] i = Inr None"
| "scan_words (w # ws) i =
     (if w = 0xffffffff then scan_words ws (Suc i)
      else case find (\<lambda>j. w AND push_bit j 1 = 0) [0..<32] of
          None \<Rightarrow> Inl KAssertFail
        | Some j \<Rightarrow> Inr (Some (i, j)))"

definition set_inuse :: "nat \<Rightarrow> nat \<Rightarrow> kheap_root \<Rightarrow> kheap_root" where
  "set_inuse i j root =
     root\<lparr>pagerefs_inuse := (pagerefs_inuse root)[i := pagerefs_inuse root ! i OR push_bit j 1], numinuse := numinuse root + 1\<rparr>"

fun allocpageref_loop ::
    "(u32 \<Rightarrow> 'v \<Rightarrow> (u32 \<times> 'v) res) \<Rightarrow> (u32 \<Rightarrow> 'v \<Rightarrow> 'v res) \<Rightarrow> nat list \<Rightarrow> kheap \<Rightarrow> 'v \<Rightarrow> (u32 \<times> kheap \<times> 'v) res" where
  "allocpageref_loop alloc_kpages free_kpages [] h v = Inr (0, h, v)"
| "allocpageref_loop alloc_kpages free_kpages (w # ws) h v =
     (let root = kheaproots h ! w in
      if numinuse root \<ge> NPAGEREFS_PER_PAGE then allocpageref_loop alloc_kpages free_kpages ws h v
      else rbind (scan_words (pagerefs_inuse root) 0) (\<lambda>s.
        case s of
          None \<Rightarrow> allocpageref_loop alloc_kpages free_kpages ws h v
        | Some (i, j) \<Rightarrow>
            let h1 = h\<lparr>kheaproots := (kheaproots h)[w := set_inuse i j root]\<rparr> in
            rbind (if page root = 0 then allocpagerefpage alloc_kpages free_kpages w h1 v else Inr (h1, v)) (\<lambda>(h2, v2).
              let pg = page (kheaproots h2 ! w) in
              if pg = 0 then Inr (0, h2, v2) else Inr (pg + 16 * of_nat (i * 32 + j), h2, v2))))"

definition allocpageref ::
    "(u32 \<Rightarrow> 'v \<Rightarrow> (u32 \<times> 'v) res) \<Rightarrow> (u32 \<Rightarrow> 'v \<Rightarrow> 'v res) \<Rightarrow> kheap \<Rightarrow> 'v \<Rightarrow> (u32 \<times> kheap \<times> 'v) res" where
  "allocpageref alloc_kpages free_kpages h v = allocpageref_loop alloc_kpages free_kpages [0..<NUM_PAGEREFPAGES] h v"

text \<open>
  \<open>j\<close> is the difference of two pointers to 16-byte structures. For an address below the page it is
  negative, which is a number above \<open>NPAGEREFS_PER_PAGE\<close> in the unsigned type, as here.
\<close>

fun freepageref_loop :: "nat list \<Rightarrow> u32 \<Rightarrow> kheap \<Rightarrow> kheap res" where
  "freepageref_loop [] p h = Inl KAssertFail"
| "freepageref_loop (w # ws) p h =
     (let root = kheaproots h ! w in
      if page root = 0 then if numinuse root \<noteq> 0 then Inl KAssertFail else freepageref_loop ws p h
      else
        let j = (p - page root) div 16 in
        if j < NPAGEREFS_PER_PAGE then
          let i = unat (j div 32); k = push_bit (unat (j mod 32)) 1 in
          if pagerefs_inuse root ! i AND k = 0 then Inl KAssertFail
          else if \<not> numinuse root > 0 then Inl KAssertFail
          else Inr (h\<lparr>kheaproots := (kheaproots h)[w := root\<lparr>pagerefs_inuse := (pagerefs_inuse root)[i := pagerefs_inuse root ! i AND NOT k],
                                                       numinuse := numinuse root - 1\<rparr>]\<rparr>)
        else freepageref_loop ws p h)"

definition freepageref :: "u32 \<Rightarrow> kheap \<Rightarrow> kheap res" where
  "freepageref p h = freepageref_loop [0..<NUM_PAGEREFPAGES] p h"

subsection \<open>Lists of page references\<close>

text \<open>A loop along a list that leaves as soon as \<open>f\<close> has a result; it does not end on a circular list.\<close>

partial_function (option) walk :: "(u32 \<Rightarrow> u32) \<Rightarrow> (u32 \<Rightarrow> 'b option) \<Rightarrow> u32 \<Rightarrow> 'b option option" where
  "walk nx f p = (if p = 0 then Some None else case f p of Some r \<Rightarrow> Some (Some r) | None \<Rightarrow> walk nx f (nx p))"

text \<open>
  \<open>remove_lists\<close>: the pointer \<open>guy\<close> is at the base or at the link of an element; \<open>walk\<close> looks for the
  element whose link is \<open>pr\<close>.
\<close>

definition unlink_samesize :: "u32 \<Rightarrow> nat \<Rightarrow> kheap \<Rightarrow> kheap res" where
  "unlink_samesize pr blktype h =
     (if sizebases h ! blktype = 0 then Inr h
      else if sizebases h ! blktype = pr then Inr (h\<lparr>sizebases := (sizebases h)[blktype := next_samesize (refs h pr)]\<rparr>)
      else case walk (\<lambda>p. next_samesize (refs h p)) (\<lambda>p. if next_samesize (refs h p) = pr then Some p else None) (sizebases h ! blktype) of
          None \<Rightarrow> Inl Spins
        | Some None \<Rightarrow> Inr h
        | Some (Some g) \<Rightarrow> Inr (h\<lparr>refs := (refs h)(g := (refs h g)\<lparr>next_samesize := next_samesize (refs h pr)\<rparr>)\<rparr>))"

definition unlink_all :: "u32 \<Rightarrow> kheap \<Rightarrow> kheap res" where
  "unlink_all pr h =
     (if allbase h = 0 then Inr h
      else if allbase h = pr then Inr (h\<lparr>allbase := next_all (refs h pr)\<rparr>)
      else case walk (\<lambda>p. next_all (refs h p)) (\<lambda>p. if next_all (refs h p) = pr then Some p else None) (allbase h) of
          None \<Rightarrow> Inl Spins
        | Some None \<Rightarrow> Inr h
        | Some (Some g) \<Rightarrow> Inr (h\<lparr>refs := (refs h)(g := (refs h g)\<lparr>next_all := next_all (refs h pr)\<rparr>)\<rparr>))"

definition remove_lists :: "u32 \<Rightarrow> nat \<Rightarrow> kheap \<Rightarrow> kheap res" where
  "remove_lists pr blktype h =
     (if \<not> blktype < NSIZES then Inl KAssertFail
      else rbind (unlink_samesize pr blktype h) (unlink_all pr))"

subsection \<open>Blocks\<close>

definition blocktype :: "u32 \<Rightarrow> nat res" where
  "blocktype clientsz =
     (case find (\<lambda>i. clientsz \<le> sizes ! i) [0..<NSIZES] of None \<Rightarrow> Inl PanicCall | Some i \<Rightarrow> Inr i)"

definition find_page :: "nat \<Rightarrow> kheap \<Rightarrow> u32 res" where
  "find_page blktype h =
     (case walk (\<lambda>p. next_samesize (refs h p))
             (\<lambda>p. if PR_BLOCKTYPE (refs h p) \<noteq> of_nat blktype then Some (Inl KAssertFail)
                  else if nfree (refs h p) > 0 then Some (Inr p) else None) (sizebases h ! blktype) of
        None \<Rightarrow> Inl Spins
      | Some None \<Rightarrow> Inr 0
      | Some (Some r) \<Rightarrow> r)"

definition doalloc :: "u32 \<Rightarrow> kheap \<Rightarrow> (u32 \<times> kheap) res" where
  "doalloc pr h =
     (let r = refs h pr in
      if \<not> ucast (freelist_offset r) < PAGE_SIZE then Inl KAssertFail
      else
        let prpage = PR_PAGEADDR r;
            fla = prpage + ucast (freelist_offset r);
            fl = hmem h fla;
            r1 = r\<lparr>nfree := nfree r - 1\<rparr> in
        if fl \<noteq> 0 then
          if \<not> nfree r1 > 0 then Inl KAssertFail
          else if \<not> fl - prpage < PAGE_SIZE then Inl KAssertFail
          else Inr (fla, h\<lparr>refs := (refs h)(pr := r1\<lparr>freelist_offset := ucast (fl - prpage)\<rparr>)\<rparr>)
        else
          if nfree r1 \<noteq> 0 then Inl KAssertFail
          else Inr (fla, h\<lparr>refs := (refs h)(pr := r1\<lparr>freelist_offset := INVALID_OFFSET\<rparr>)\<rparr>))"

text \<open>The free list of a new page: each block points to the one before it.\<close>

fun link_blocks :: "u32 \<Rightarrow> u32 \<Rightarrow> nat list \<Rightarrow> (u32 \<Rightarrow> u32) \<Rightarrow> (u32 \<Rightarrow> u32) res" where
  "link_blocks fla blksz [] m = Inr m"
| "link_blocks fla blksz (i # is) m =
     (let fl = fla + of_nat i * blksz; nxt = fla + (of_nat i - 1) * blksz in
      if fl = nxt then Inl KAssertFail else link_blocks fla blksz is (m(fl := nxt)))"

definition new_page :: "nat \<Rightarrow> u32 \<Rightarrow> u32 \<Rightarrow> kheap \<Rightarrow> kheap res" where
  "new_page blktype prpage pr h =
     (let blksz = sizes ! blktype;
          n = ucast (PAGE_SIZE div blksz) :: u16 in
      rbind (link_blocks prpage blksz [1..<unat n] ((hmem h)(prpage := 0))) (\<lambda>m.
        let off = ucast ((of_nat (unat n) - 1) * blksz) :: u16 in
        if ucast off \<noteq> (ucast n - 1) * blksz then Inl KAssertFail
        else Inr (h\<lparr>refs := (refs h)(pr := \<lparr>next_samesize = sizebases h ! blktype, next_all = allbase h,
                      pageaddr_and_blocktype = MKPAB prpage (of_nat blktype), freelist_offset = off, nfree = n\<rparr>),
                    sizebases := (sizebases h)[blktype := pr], allbase := pr, hmem := m\<rparr>)))"

definition subpage_kmalloc ::
    "(u32 \<Rightarrow> 'v \<Rightarrow> (u32 \<times> 'v) res) \<Rightarrow> (u32 \<Rightarrow> 'v \<Rightarrow> 'v res) \<Rightarrow> u32 \<Rightarrow> kheap \<Rightarrow> 'v \<Rightarrow> (u32 \<times> kheap \<times> 'v) res" where
  "subpage_kmalloc alloc_kpages free_kpages sz h v =
     rbind (blocktype sz) (\<lambda>blktype.
     rbind (find_page blktype h) (\<lambda>pr.
       if pr \<noteq> 0 then rbind (doalloc pr h) (\<lambda>(retptr, h1). Inr (retptr, h1, v))
       else rbind (alloc_kpages 1 v) (\<lambda>(prpage, v1).
         if prpage = 0 then Inr (0, h, v1)
         else if prpage mod PAGE_SIZE \<noteq> 0 then Inl KAssertFail
         else rbind (allocpageref alloc_kpages free_kpages h v1) (\<lambda>(pr, h1, v2).
           if pr = 0 then rbind (free_kpages prpage v2) (\<lambda>v3. Inr (0, h1, v3))
           else rbind (new_page blktype prpage pr h1) (\<lambda>h2.
                rbind (doalloc pr h2) (\<lambda>(retptr, h3). Inr (retptr, h3, v2)))))))"

definition fill_deadbeef :: "u32 \<Rightarrow> u32 \<Rightarrow> (u32 \<Rightarrow> u32) \<Rightarrow> u32 \<Rightarrow> u32" where
  "fill_deadbeef ptr len m = fold (\<lambda>i m. m(ptr + 4 * of_nat i := 0xdeadbeef)) [0..<unat (len div 4)] m"

definition find_pageref :: "u32 \<Rightarrow> kheap \<Rightarrow> u32 res" where
  "find_pageref ptraddr h =
     (case walk (\<lambda>p. next_all (refs h p))
             (\<lambda>p. let prpage = PR_PAGEADDR (refs h p) in
                  if \<not> PR_BLOCKTYPE (refs h p) < of_nat NSIZES then Some (Inl KAssertFail)
                  else if ptraddr \<ge> prpage \<and> ptraddr < prpage + PAGE_SIZE then Some (Inr p) else None) (allbase h) of
        None \<Rightarrow> Inl Spins
      | Some None \<Rightarrow> Inr 0
      | Some (Some r) \<Rightarrow> r)"

definition subpage_kfree :: "(u32 \<Rightarrow> 'v \<Rightarrow> 'v res) \<Rightarrow> u32 \<Rightarrow> kheap \<Rightarrow> 'v \<Rightarrow> (int \<times> kheap \<times> 'v) res" where
  "subpage_kfree free_kpages ptraddr h v =
     rbind (find_pageref ptraddr h) (\<lambda>pr.
       if pr = 0 then Inr (-1, h, v)
       else
         let r = refs h pr; prpage = PR_PAGEADDR r; blktype = unat (PR_BLOCKTYPE r); blksz = sizes ! blktype;
             offset = ptraddr - prpage in
         if offset \<ge> PAGE_SIZE \<or> offset mod blksz \<noteq> 0 then Inl PanicCall
         else
           let m = fill_deadbeef ptraddr blksz (hmem h);
               fl = prpage + offset;
               nxt = (if freelist_offset r = INVALID_OFFSET then 0 else prpage + ucast (freelist_offset r)) in
           if freelist_offset r \<noteq> INVALID_OFFSET \<and> fl = nxt then Inl KAssertFail
           else
             let n = nfree r + 1;
                 h1 = h\<lparr>hmem := m(fl := nxt), refs := (refs h)(pr := r\<lparr>freelist_offset := ucast offset, nfree := n\<rparr>)\<rparr> in
             if \<not> ucast n \<le> PAGE_SIZE div blksz then Inl KAssertFail
             else if ucast n = PAGE_SIZE div blksz then
               rbind (remove_lists pr blktype h1) (\<lambda>h2.
               rbind (freepageref pr h2) (\<lambda>h3.
               rbind (free_kpages prpage v) (\<lambda>v1. Inr (0, h3, v1))))
             else Inr (0, h1, v))"

subsection \<open>The interface\<close>

definition kmalloc ::
    "(u32 \<Rightarrow> 'v \<Rightarrow> (u32 \<times> 'v) res) \<Rightarrow> (u32 \<Rightarrow> 'v \<Rightarrow> 'v res) \<Rightarrow> u32 \<Rightarrow> kheap \<Rightarrow> 'v \<Rightarrow> (u32 \<times> kheap \<times> 'v) res" where
  "kmalloc alloc_kpages free_kpages sz h v =
     (if sz \<ge> LARGEST_SUBPAGE_SIZE then
        let npages = (sz + PAGE_SIZE - 1) div PAGE_SIZE in
        rbind (alloc_kpages npages v) (\<lambda>(address, v1).
          if address = 0 then Inr (0, h, v1)
          else if address mod PAGE_SIZE \<noteq> 0 then Inl KAssertFail
          else Inr (address, h, v1))
      else subpage_kmalloc alloc_kpages free_kpages sz h v)"

definition kfree :: "(u32 \<Rightarrow> 'v \<Rightarrow> 'v res) \<Rightarrow> u32 \<Rightarrow> kheap \<Rightarrow> 'v \<Rightarrow> (kheap \<times> 'v) res" where
  "kfree free_kpages ptr h v =
     (if ptr = 0 then Inr (h, v)
      else rbind (subpage_kfree free_kpages ptr h v) (\<lambda>(r, h1, v1).
        if r \<noteq> 0 then
          if ptr mod PAGE_SIZE \<noteq> 0 then Inl KAssertFail
          else rbind (free_kpages ptr v1) (\<lambda>v2. Inr (h1, v2))
        else Inr (h1, v1)))"

end
