(* ===== verification/Kmalloc_Lists.thy ===== *)
theory Kmalloc_Lists
  imports Kmalloc
begin

text \<open>
  The linked lists of the heap: chains of addresses, the loops along them, and the removal of a page
  reference from the two lists it is on.
\<close>

subsection \<open>Chains\<close>

fun chain :: "(u32 \<Rightarrow> u32) \<Rightarrow> u32 \<Rightarrow> u32 list \<Rightarrow> bool" where
  "chain nx a [] \<longleftrightarrow> a = 0"
| "chain nx a (x # xs) \<longleftrightarrow> a = x \<and> x \<noteq> 0 \<and> chain nx (nx x) xs"

lemma chain_0 [simp]: "chain nx 0 xs \<longleftrightarrow> xs = []"
  by (cases xs) auto

lemma chain_nonzero: "chain nx a xs \<Longrightarrow> 0 \<notin> set xs"
  by (induction xs arbitrary: a) auto

lemma chain_unique: "chain nx a xs \<Longrightarrow> chain nx a ys \<Longrightarrow> xs = ys"
proof (induction xs arbitrary: a ys)
  case (Cons x xs)
  then show ?case by (cases ys) auto
qed simp

lemma chain_suffix: "chain nx a (xs @ y # ys) \<Longrightarrow> chain nx y (y # ys)"
  by (induction xs arbitrary: a) auto

lemma chain_distinct: "chain nx a xs \<Longrightarrow> distinct xs"
proof (induction xs arbitrary: a)
  case (Cons x xs)
  have "x \<notin> set xs"
  proof
    assume "x \<in> set xs"
    then obtain ys zs where "xs = ys @ x # zs" by (meson split_list)
    with Cons.prems chain_suffix [of nx "nx x" ys x zs] have "chain nx x (x # zs)" "chain nx x (x # ys @ x # zs)" by auto
    then have "x # zs = x # ys @ x # zs" by (rule chain_unique)
    then show False by simp
  qed
  with Cons show ?case by auto
qed simp

lemma chain_cong: "(\<And>x. x \<in> set xs \<Longrightarrow> nx x = nx' x) \<Longrightarrow> chain nx a xs \<longleftrightarrow> chain nx' a xs"
proof (induction xs arbitrary: a)
  case (Cons x xs)
  then have "chain nx (nx x) xs \<longleftrightarrow> chain nx' (nx x) xs" "nx x = nx' x" by simp_all
  then show ?case by simp
qed simp

lemma walk_chain:
  assumes "chain nx a xs"
  shows "walk nx f a = Some (case find (\<lambda>x. f x \<noteq> None) xs of None \<Rightarrow> None | Some x \<Rightarrow> f x)"
  using assms
proof (induction xs arbitrary: a)
  case Nil
  then show ?case by (simp add: walk.simps)
next
  case (Cons x xs)
  then show ?case by (cases "f x") (simp_all add: walk.simps [of nx f x])
qed

subsection \<open>Removing an element\<close>

lemma chain_remove_hd: "chain nx a xs \<Longrightarrow> a \<in> set xs \<Longrightarrow> chain nx (nx a) (remove1 a xs)"
  by (cases xs) auto

text \<open>The element before \<open>p\<close> is found, and setting its link to that of \<open>p\<close> removes \<open>p\<close>.\<close>

lemma chain_remove:
  assumes "chain nx a xs" and "p \<in> set xs" and "a \<noteq> p"
  obtains g where "find (\<lambda>x. nx x = p) xs = Some g" and "g \<in> set xs" and "nx g = p" and "g \<noteq> p"
    and "chain (nx(g := nx p)) a (remove1 p xs)"
proof -
  have "\<exists>g. find (\<lambda>x. nx x = p) xs = Some g \<and> g \<in> set xs \<and> nx g = p \<and> g \<noteq> p \<and> chain (nx(g := nx p)) a (remove1 p xs)"
    using assms
  proof (induction xs arbitrary: a)
    case (Cons x xs)
    then have x: "a = x" "x \<noteq> 0" "chain nx (nx x) xs" "p \<in> set xs" "x \<noteq> p" by auto
    have d: "x \<notin> set xs" "distinct xs" using chain_distinct [OF Cons.prems(1)] by simp_all
    show ?case
    proof (cases "nx x = p")
      case True
      then obtain ys where ys: "xs = p # ys" "chain nx (nx p) ys" using x by (cases xs) auto
      have "nx z = (nx(x := nx p)) z" if "z \<in> set ys" for z using d ys(1) that by auto
      then have "chain (nx(x := nx p)) (nx p) ys" using ys(2) chain_cong [of ys nx "nx(x := nx p)"] by blast
      with True ys x show ?thesis by (auto simp: fun_upd_same simp del: fun_upd_apply)
    next
      case False
      with Cons.IH [OF x(3,4)] obtain g where g: "find (\<lambda>x. nx x = p) xs = Some g" "g \<in> set xs" "nx g = p" "g \<noteq> p"
        "chain (nx(g := nx p)) (nx x) (remove1 p xs)" by blast
      then have "x \<noteq> g" using d by auto
      with False g x show ?thesis by (auto simp: fun_upd_other simp del: fun_upd_apply)
    qed
  qed simp
  with that show thesis by blast
qed

abbreviation nextS :: "kheap \<Rightarrow> u32 \<Rightarrow> u32" where
  "nextS h \<equiv> \<lambda>p. next_samesize (refs h p)"

abbreviation nextA :: "kheap \<Rightarrow> u32 \<Rightarrow> u32" where
  "nextA h \<equiv> \<lambda>p. next_all (refs h p)"

text \<open>What the two removals leave of the page references: only the link changes.\<close>

definition same_refs :: "kheap \<Rightarrow> kheap \<Rightarrow> bool" where
  "same_refs h h' \<longleftrightarrow> (\<forall>p. pageaddr_and_blocktype (refs h' p) = pageaddr_and_blocktype (refs h p) \<and>
     freelist_offset (refs h' p) = freelist_offset (refs h p) \<and> nfree (refs h' p) = nfree (refs h p)) \<and>
     kheaproots h' = kheaproots h \<and> hmem h' = hmem h"

lemma same_refs_refl [simp]: "same_refs h h"
  by (simp add: same_refs_def)

lemma find_iff: "(\<lambda>x. (if P x then Some x else None) \<noteq> None) = P"
  by auto

lemma unlink_samesize_ok:
  assumes "chain (nextS h) (sizebases h ! b) xs" and "pr \<in> set xs" and "b < length (sizebases h)"
  shows "\<exists>h'. unlink_samesize pr b h = Inr h' \<and> same_refs h h' \<and> allbase h' = allbase h \<and> nextA h' = nextA h \<and>
    chain (nextS h') (sizebases h' ! b) (remove1 pr xs) \<and>
    (\<forall>c. c \<noteq> b \<longrightarrow> sizebases h' ! c = sizebases h ! c) \<and> length (sizebases h') = length (sizebases h) \<and>
    (\<forall>p. p \<notin> set xs \<longrightarrow> nextS h' p = nextS h p)"
proof (cases "sizebases h ! b = pr")
  case True
  have "pr \<noteq> 0" using chain_nonzero [OF assms(1)] assms(2) by blast
  with True show ?thesis using assms(2,3) chain_remove_hd [OF assms(1)]
    by (auto simp: unlink_samesize_def same_refs_def)
next
  case False
  obtain g where g: "find (\<lambda>x. nextS h x = pr) xs = Some g" "g \<in> set xs" "nextS h g = pr" "g \<noteq> pr"
    "chain ((nextS h)(g := nextS h pr)) (sizebases h ! b) (remove1 pr xs)"
    using chain_remove [OF assms(1,2) False] by blast
  let ?h = "h\<lparr>refs := (refs h)(g := (refs h g)\<lparr>next_samesize := nextS h pr\<rparr>)\<rparr>"
  have "sizebases h ! b \<noteq> 0" using assms(1,2) by auto
  moreover have "walk (nextS h) (\<lambda>p. if nextS h p = pr then Some p else None) (sizebases h ! b) = Some (Some g)"
    using walk_chain [OF assms(1), of "\<lambda>p. if nextS h p = pr then Some p else None"] g(1,3) unfolding find_iff by simp
  ultimately have u: "unlink_samesize pr b h = Inr ?h" using False by (simp add: unlink_samesize_def)
  have e: "nextS ?h = (nextS h)(g := nextS h pr)" by (auto simp: fun_eq_iff)
  have c: "chain (nextS ?h) (sizebases ?h ! b) (remove1 pr xs)" unfolding e using g(5) by simp
  show ?thesis by (intro exI [of _ ?h] conjI u c) (use g(2) in \<open>auto simp: same_refs_def fun_eq_iff\<close>)
qed

lemma unlink_all_ok:
  assumes "chain (nextA h) (allbase h) xs" and "pr \<in> set xs"
  shows "\<exists>h'. unlink_all pr h = Inr h' \<and> same_refs h h' \<and> sizebases h' = sizebases h \<and> nextS h' = nextS h \<and>
    chain (nextA h') (allbase h') (remove1 pr xs)"
proof (cases "allbase h = pr")
  case True
  have "pr \<noteq> 0" using chain_nonzero [OF assms(1)] assms(2) by blast
  with True show ?thesis using assms(2) chain_remove_hd [OF assms(1)] by (auto simp: unlink_all_def same_refs_def)
next
  case False
  obtain g where g: "find (\<lambda>x. nextA h x = pr) xs = Some g" "g \<in> set xs" "nextA h g = pr" "g \<noteq> pr"
    "chain ((nextA h)(g := nextA h pr)) (allbase h) (remove1 pr xs)"
    using chain_remove [OF assms False] by blast
  let ?h = "h\<lparr>refs := (refs h)(g := (refs h g)\<lparr>next_all := nextA h pr\<rparr>)\<rparr>"
  have "allbase h \<noteq> 0" using assms by auto
  moreover have "walk (nextA h) (\<lambda>p. if nextA h p = pr then Some p else None) (allbase h) = Some (Some g)"
    using walk_chain [OF assms(1), of "\<lambda>p. if nextA h p = pr then Some p else None"] g(1,3) unfolding find_iff by simp
  ultimately have u: "unlink_all pr h = Inr ?h" using False by (simp add: unlink_all_def)
  have e: "nextA ?h = (nextA h)(g := nextA h pr)" by (auto simp: fun_eq_iff)
  have c: "chain (nextA ?h) (allbase ?h) (remove1 pr xs)" unfolding e using g(5) by simp
  show ?thesis by (intro exI [of _ ?h] conjI u c) (auto simp: same_refs_def fun_eq_iff)
qed

end
