(* ===== verification/Kmalloc_Page.thy ===== *)
theory Kmalloc_Page
  imports Kmalloc_Lists
begin

text \<open>
  One page of the heap: its blocks, its free list, taking the first free block, giving a block back and setting
  up a new page.
\<close>

subsection \<open>Blocks of a page\<close>

definition bsize :: "nat \<Rightarrow> nat" where "bsize b = 16 * 2 ^ b"

definition nblocks :: "nat \<Rightarrow> nat" where "nblocks b = 4096 div bsize b"

definition blocks :: "u32 \<Rightarrow> nat \<Rightarrow> u32 list" where
  "blocks pg b = map (\<lambda>i. pg + of_nat i * sizes ! b) [0..<nblocks b]"

definition page_addr :: "u32 \<Rightarrow> bool" where
  "page_addr pg \<longleftrightarrow> unat pg mod 4096 = 0 \<and> 0x80000000 \<le> unat pg \<and> unat pg + 4096 \<le> 0xa0000000"

lemma type_cases: "b < 8 \<Longrightarrow> b = 0 \<or> b = 1 \<or> b = 2 \<or> b = 3 \<or> b = 4 \<or> b = 5 \<or> b = 6 \<or> b = (7 :: nat)"
  by arith

lemma sizes_unat: "b < 8 \<Longrightarrow> unat (sizes ! b) = bsize b"
  by (drule type_cases) (elim disjE; simp add: sizes_def bsize_def)

lemma nblocks_bsize: "b < 8 \<Longrightarrow> nblocks b * bsize b = 4096"
  by (drule type_cases) (elim disjE; simp add: nblocks_def bsize_def)

lemma bsize_bounds: "b < 8 \<Longrightarrow> 16 \<le> bsize b \<and> bsize b \<le> 2048 \<and> 2 \<le> nblocks b \<and> nblocks b \<le> 256 \<and> bsize b mod 4 = 0"
  by (drule type_cases) (elim disjE; simp add: nblocks_def bsize_def)

lemma sizes_nonzero: "b < 8 \<Longrightarrow> sizes ! b \<noteq> 0"
  using sizes_unat [of b] bsize_bounds [of b] by fastforce

lemma nblocks_word: "b < 8 \<Longrightarrow> PAGE_SIZE div sizes ! b = of_nat (nblocks b)"
  by (drule type_cases) (elim disjE; simp add: sizes_def nblocks_def bsize_def PAGE_SIZE_def)

lemma block_fits: "b < 8 \<Longrightarrow> i < nblocks b \<Longrightarrow> i * bsize b + bsize b \<le> 4096"
proof -
  assume b: "b < 8" and "i < nblocks b"
  then have "Suc i * bsize b \<le> nblocks b * bsize b" by (intro mult_right_mono) simp_all
  then show ?thesis using nblocks_bsize [OF b] by simp
qed

lemma block_unat:
  assumes "page_addr pg" and "b < 8" and "i < nblocks b"
  shows "unat (pg + of_nat i * sizes ! b) = unat pg + i * bsize b"
proof -
  have i: "i < 4294967296" and f: "i * bsize b + bsize b \<le> 4096" using assms(2,3) bsize_bounds block_fits by fastforce+
  then have "unat (of_nat i * sizes ! b) = i * bsize b"
    by (simp add: unat_mult_u32 unat_of_nat_u32 sizes_unat [OF assms(2)])
  with assms(1) f show ?thesis by (simp add: unat_add_u32_le page_addr_def)
qed

lemma in_blocks:
  assumes "page_addr pg" and "b < 8"
  shows "a \<in> set (blocks pg b) \<longleftrightarrow> (\<exists>i<nblocks b. unat a = unat pg + i * bsize b)"
proof
  assume "a \<in> set (blocks pg b)"
  then show "\<exists>i<nblocks b. unat a = unat pg + i * bsize b" using block_unat [OF assms] by (auto simp: blocks_def)
next
  assume "\<exists>i<nblocks b. unat a = unat pg + i * bsize b"
  then obtain i where i: "i < nblocks b" "unat a = unat pg + i * bsize b" by blast
  then have "a = pg + of_nat i * sizes ! b" using block_unat [OF assms i(1)] by (simp add: word_unat_eq_iff)
  with i(1) show "a \<in> set (blocks pg b)" by (auto simp: blocks_def)
qed

lemma length_blocks [simp]: "length (blocks pg b) = nblocks b"
  by (simp add: blocks_def)

lemma distinct_blocks:
  assumes "page_addr pg" and "b < 8"
  shows "distinct (blocks pg b)"
proof -
  have "inj_on (\<lambda>i. pg + of_nat i * sizes ! b) {0..<nblocks b}"
  proof (rule inj_onI)
    fix i j assume "i \<in> {0..<nblocks b}" "j \<in> {0..<nblocks b}" "pg + of_nat i * sizes ! b = pg + of_nat j * sizes ! b"
    then have "unat pg + i * bsize b = unat pg + j * bsize b" using block_unat [OF assms] by (metis atLeastLessThan_iff)
    then show "i = j" using bsize_bounds [OF assms(2)] by simp
  qed
  then show ?thesis by (simp add: blocks_def distinct_map)
qed

text \<open>A block of a page and its bytes lie in the page.\<close>

lemma block_in_page:
  assumes "page_addr pg" and "b < 8" and "a \<in> set (blocks pg b)"
  shows "unat pg \<le> unat a \<and> unat a + bsize b \<le> unat pg + 4096" and "a \<noteq> 0" and "a - pg < PAGE_SIZE" and "unat (a - pg) = unat a - unat pg"
    and "(a - pg) mod sizes ! b = 0" and "unat a mod 16 = 0"
proof -
  obtain i where i: "i < nblocks b" "unat a = unat pg + i * bsize b" using assms in_blocks by blast
  show r: "unat pg \<le> unat a \<and> unat a + bsize b \<le> unat pg + 4096" using i block_fits [OF assms(2) i(1)] by simp
  then show "a \<noteq> 0" using assms(1) by (auto simp: page_addr_def)
  show u: "unat (a - pg) = unat a - unat pg" using r by (simp add: unat_sub word_le_nat_alt)
  have "unat a - unat pg < 4096" using r bsize_bounds [OF assms(2)] by linarith
  then show "a - pg < PAGE_SIZE" using u by (simp add: word_less_nat_alt PAGE_SIZE_def)
  have "unat ((a - pg) mod sizes ! b) = 0" using i u by (simp add: unat_mod sizes_unat [OF assms(2)])
  then show "(a - pg) mod sizes ! b = 0" by (simp add: unat_eq_0)
  have "16 dvd unat pg" using assms(1) by (auto simp: page_addr_def intro: dvd_trans [of 16 4096])
  moreover have "16 dvd bsize b" by (simp add: bsize_def)
  ultimately show "unat a mod 16 = 0" unfolding i(2) by (simp add: dvd_eq_mod_eq_0 [symmetric])
qed

text \<open>Conversely, an address in the page at a multiple of the block size is a block.\<close>

lemma block_of_offset:
  assumes "page_addr pg" and "b < 8" and "unat pg \<le> unat a" and "unat a < unat pg + 4096" and "(a - pg) mod sizes ! b = 0"
  shows "a \<in> set (blocks pg b)"
proof -
  have u: "unat (a - pg) = unat a - unat pg" using assms(3) by (simp add: unat_sub word_le_nat_alt)
  have "(unat a - unat pg) mod bsize b = 0" using assms(5) unfolding u [symmetric] sizes_unat [OF assms(2), symmetric] unat_mod [symmetric] by simp
  then obtain i where i: "unat a - unat pg = i * bsize b" by (metis dvd_div_mult_self mod_eq_0_iff_dvd)
  then have "i * bsize b < nblocks b * bsize b" using assms(3,4) nblocks_bsize [OF assms(2)] by simp
  then have "i < nblocks b" by simp
  with i assms(3) show ?thesis using in_blocks [OF assms(1,2)] by fastforce
qed

subsection \<open>Packed page references\<close>

lemma page_addr_aligned: "page_addr pg \<Longrightarrow> pg AND PAGE_FRAME = pg"
  by (simp add: page_addr_def page_aligned_mod)

lemma small_AND_PAGE_FRAME: "unat w < 4096 \<Longrightarrow> w AND PAGE_FRAME = 0"
proof -
  assume "unat w < 4096"
  then have "take_bit 12 w = w" by (simp add: take_bit_eq_mod word_unat_eq_iff unat_mod)
  then show ?thesis unfolding PAGE_FRAME_mask by (metis and.assoc bit.conj_cancel_right take_bit_eq_mask zero_and_eq and_zero_eq)
qed

lemma MKPAB_parts:
  assumes "page_addr pg" and "b < 8"
  shows "MKPAB pg (of_nat b) AND PAGE_FRAME = pg" and "MKPAB pg (of_nat b) AND NOT PAGE_FRAME = of_nat b"
proof -
  have "unat (of_nat b :: u32) < 4096" using assms(2) by (simp add: unat_of_nat_u32)
  then have s: "(of_nat b :: u32) AND PAGE_FRAME = 0" by (rule small_AND_PAGE_FRAME)
  have "(of_nat b :: u32) = (of_nat b AND PAGE_FRAME) OR (of_nat b AND NOT PAGE_FRAME)" by (simp add: bit.conj_disj_distrib [symmetric])
  then have t: "(of_nat b :: u32) AND NOT PAGE_FRAME = of_nat b" using s by simp
  note p = page_addr_aligned [OF assms(1)]
  show "MKPAB pg (of_nat b) AND PAGE_FRAME = pg"
    unfolding MKPAB_def p t using p s by (simp add: bit.conj_disj_distrib2)
  have "pg AND NOT PAGE_FRAME = 0" by (subst p [symmetric]) (simp add: and.assoc)
  then show "MKPAB pg (of_nat b) AND NOT PAGE_FRAME = of_nat b"
    unfolding MKPAB_def p t using t by (simp add: bit.conj_disj_distrib2)
qed

lemma u16_of_small:
  fixes w :: u32
  assumes "unat w < 65536"
  shows "unat (ucast w :: u16) = unat w" and "ucast (ucast w :: u16) = w"
proof -
  show u: "unat (ucast w :: u16) = unat w" using assms by (simp add: unsigned_ucast_eq take_bit_eq_mod)
  show "ucast (ucast w :: u16) = w"
    unfolding word_unat_eq_iff using u assms by (simp add: unsigned_ucast_eq take_bit_eq_mod unat_mod)
qed

subsection \<open>The free list of a page\<close>

definition freehead :: "pageref \<Rightarrow> u32" where
  "freehead r = (if freelist_offset r = INVALID_OFFSET then 0 else PR_PAGEADDR r + ucast (freelist_offset r))"

abbreviation btype :: "pageref \<Rightarrow> nat" where
  "btype r \<equiv> unat (PR_BLOCKTYPE r)"

text \<open>A page whose free blocks are \<open>xs\<close>, in the order of its free list.\<close>

definition page_ok :: "(u32 \<Rightarrow> u32) \<Rightarrow> pageref \<Rightarrow> u32 list \<Rightarrow> bool" where
  "page_ok m r xs \<longleftrightarrow> btype r < 8 \<and> page_addr (PR_PAGEADDR r) \<and> chain m (freehead r) xs \<and> length xs = unat (nfree r) \<and>
     set xs \<subseteq> set (blocks (PR_PAGEADDR r) (btype r))"

lemma page_okD:
  assumes "page_ok m r xs"
  shows "btype r < 8" and "page_addr (PR_PAGEADDR r)" and "chain m (freehead r) xs" and "length xs = unat (nfree r)"
    and "set xs \<subseteq> set (blocks (PR_PAGEADDR r) (btype r))" and "distinct xs" and "length xs \<le> nblocks (btype r)"
proof -
  show "btype r < 8" "page_addr (PR_PAGEADDR r)" "chain m (freehead r) xs" "length xs = unat (nfree r)"
    "set xs \<subseteq> set (blocks (PR_PAGEADDR r) (btype r))" using assms by (simp_all add: page_ok_def)
  then show "distinct xs" using chain_distinct by blast
  then have "length xs = card (set xs)" by (simp add: distinct_card)
  also have "\<dots> \<le> card (set (blocks (PR_PAGEADDR r) (btype r)))"
    using \<open>set xs \<subseteq> _\<close> by (intro card_mono) simp_all
  also have "\<dots> \<le> nblocks (btype r)" using card_length [of "blocks (PR_PAGEADDR r) (btype r)"] by simp
  finally show "length xs \<le> nblocks (btype r)" .
qed

text \<open>Changes outside the free blocks do not matter.\<close>

lemma page_ok_cong: "page_ok m r xs \<Longrightarrow> (\<And>a. a \<in> set xs \<Longrightarrow> m' a = m a) \<Longrightarrow> page_ok m' r xs"
  using chain_cong [of xs m' m "freehead r"] by (simp add: page_ok_def)

lemma page_ok_ext:
  assumes "page_ok m r xs" and "pageaddr_and_blocktype r' = pageaddr_and_blocktype r" and "freelist_offset r' = freelist_offset r"
    and "nfree r' = nfree r"
  shows "page_ok m r' xs"
proof -
  have "PR_BLOCKTYPE r' = PR_BLOCKTYPE r" "PR_PAGEADDR r' = PR_PAGEADDR r" using assms(2) by (simp_all add: PR_BLOCKTYPE_def PR_PAGEADDR_def)
  moreover from this have "freehead r' = freehead r" using assms(3) by (simp add: freehead_def)
  ultimately show ?thesis using assms(1,4) by (simp add: page_ok_def)
qed

lemma freehead_offset:
  assumes "page_addr pg" and "PR_PAGEADDR r = pg" and "b < 8" and "y \<in> set (blocks pg b)" and "freelist_offset r = ucast (y - pg)"
  shows "freehead r = y" and "freelist_offset r \<noteq> INVALID_OFFSET" and "ucast (freelist_offset r) = y - pg"
proof -
  have "unat (y - pg) < 4096" using block_in_page(3) [OF assms(1,3,4)] by (simp add: word_less_nat_alt PAGE_SIZE_def)
  then have u: "unat (ucast (y - pg) :: u16) < 4096" "ucast (ucast (y - pg) :: u16) = y - pg" using u16_of_small [of "y - pg"] by simp_all
  show n: "freelist_offset r \<noteq> INVALID_OFFSET"
  proof
    assume "freelist_offset r = INVALID_OFFSET"
    then have "unat (ucast (y - pg) :: u16) = 65535" using assms(5) by (simp add: INVALID_OFFSET_def)
    with u(1) show False by simp
  qed
  show c: "ucast (freelist_offset r) = y - pg" using assms(5) u(2) by simp
  then show "freehead r = y" using n by (simp add: freehead_def assms(2))
qed

lemma freehead_Cons:
  assumes "page_ok m r (y # ys)"
  shows "freelist_offset r \<noteq> INVALID_OFFSET" and "y = PR_PAGEADDR r + ucast (freelist_offset r)" and "ucast (freelist_offset r) < PAGE_SIZE"
proof -
  note p = page_okD [OF assms]
  from p(3) have y: "freehead r = y" "y \<noteq> 0" by simp_all
  then show "freelist_offset r \<noteq> INVALID_OFFSET" by (auto simp: freehead_def)
  with y show e: "y = PR_PAGEADDR r + ucast (freelist_offset r)" by (simp add: freehead_def)
  have "y - PR_PAGEADDR r < PAGE_SIZE" using block_in_page(3) [OF p(2,1)] p(5) by simp
  then show "ucast (freelist_offset r) < PAGE_SIZE" using e by simp
qed

lemma doalloc_ok:
  assumes "page_ok (hmem h) (refs h pr) (y # ys)"
  shows "\<exists>r'. doalloc pr h = Inr (y, h\<lparr>refs := (refs h)(pr := r')\<rparr>) \<and> page_ok (hmem h) r' ys \<and>
    pageaddr_and_blocktype r' = pageaddr_and_blocktype (refs h pr) \<and> next_samesize r' = next_samesize (refs h pr) \<and>
    next_all r' = next_all (refs h pr)"
proof -
  let ?r = "refs h pr" and ?pg = "PR_PAGEADDR (refs h pr)"
  note p = page_okD [OF assms] and hd = freehead_Cons [OF assms]
  have n: "unat (nfree ?r - 1) = length ys" using p(4) unat_minus_one [of "nfree ?r"] by fastforce
  have c: "chain (hmem h) (hmem h y) ys" using p(3) by simp
  show ?thesis
  proof (cases ys)
    case Nil
    then have "hmem h y = 0" using c by simp
    moreover have "nfree ?r - 1 = 0" using n Nil by (simp add: unat_eq_0)
    ultimately have "doalloc pr h = Inr (y, h\<lparr>refs := (refs h)(pr := ?r\<lparr>nfree := nfree ?r - 1, freelist_offset := INVALID_OFFSET\<rparr>)\<rparr>)"
      using hd by (simp add: doalloc_def Let_def)
    moreover have "page_ok (hmem h) (?r\<lparr>nfree := nfree ?r - 1, freelist_offset := INVALID_OFFSET\<rparr>) ys"
      using p(1,2) n Nil by (simp add: page_ok_def freehead_def PR_BLOCKTYPE_def PR_PAGEADDR_def)
    ultimately show ?thesis by fastforce
  next
    case (Cons z zs)
    let ?r' = "?r\<lparr>nfree := nfree ?r - 1, freelist_offset := ucast (z - ?pg)\<rparr>"
    have z: "hmem h y = z" "z \<noteq> 0" "z \<in> set (blocks ?pg (btype ?r))" using c p(5) Cons by simp_all
    have "nfree ?r - 1 > 0" using n Cons by (simp add: word_less_nat_alt)
    then have "doalloc pr h = Inr (y, h\<lparr>refs := (refs h)(pr := ?r')\<rparr>)"
      using hd z block_in_page(3) [OF p(2,1) z(3)] by (simp add: doalloc_def Let_def)
    moreover have "freehead ?r' = z" by (rule freehead_offset(1) [OF p(2) _ p(1) z(3)]) (simp_all add: PR_PAGEADDR_def)
    then have "page_ok (hmem h) ?r' ys" using p c z(1) n by (simp add: page_ok_def PR_BLOCKTYPE_def PR_PAGEADDR_def)
    ultimately show ?thesis by fastforce
  qed
qed

subsection \<open>A new page\<close>

lemma link_blocks_eq:
  assumes "blksz \<noteq> 0"
  shows "link_blocks pg blksz is m = Inr (\<lambda>a. if a \<in> (\<lambda>i. pg + of_nat i * blksz) ` set is then a - blksz else m a)"
  using assms
proof (induction "is" arbitrary: m)
  case (Cons i "is")
  have "pg + (of_nat i - 1) * blksz = pg + of_nat i * blksz - blksz" by (simp add: algebra_simps)
  then show ?case using Cons by (auto simp: Let_def fun_eq_iff)
qed simp

lemma link_chain:
  assumes pg: "page_addr pg" and b: "b < 8"
    and m: "m = (\<lambda>a. if a \<in> (\<lambda>i. pg + of_nat i * sizes ! b) ` {1..<nblocks b} then a - sizes ! b else (m0(pg := 0)) a)"
    and k: "k < nblocks b"
  shows "chain m (pg + of_nat k * sizes ! b) (rev (map (\<lambda>i. pg + of_nat i * sizes ! b) [0..<Suc k]))"
  using k
proof (induction k)
  case 0
  have "pg \<noteq> pg + of_nat i * sizes ! b" if "i \<in> {1..<nblocks b}" for i
  proof
    assume "pg = pg + of_nat i * sizes ! b"
    then have "unat pg = unat pg + i * bsize b" using block_unat [OF pg b, of i] that by simp
    then show False using that bsize_bounds [OF b] by simp
  qed
  then have "m pg = 0" unfolding m by auto
  then show ?case using pg by (auto simp: page_addr_def)
next
  case (Suc k)
  let ?a = "pg + of_nat (Suc k) * sizes ! b"
  have "?a \<in> (\<lambda>i. pg + of_nat i * sizes ! b) ` {1..<nblocks b}" by (rule image_eqI [OF refl]) (use Suc.prems in simp)
  then have "m ?a = pg + of_nat k * sizes ! b" unfolding m by (simp add: algebra_simps)
  moreover have "?a \<noteq> 0" using block_in_page(2) [OF pg b, of ?a] Suc.prems by (auto simp: blocks_def simp del: of_nat_Suc)
  ultimately show ?case using Suc.IH Suc.prems by (simp add: upt_Suc_append del: of_nat_Suc upt_Suc)
qed

lemma new_page_ok:
  assumes pg: "page_addr pg" and b: "b < 8"
  shows "\<exists>h' r. new_page b pg pr h = Inr h' \<and> refs h' = (refs h)(pr := r) \<and> page_ok (hmem h') r (rev (blocks pg b)) \<and>
    PR_PAGEADDR r = pg \<and> PR_BLOCKTYPE r = of_nat b \<and> next_samesize r = sizebases h ! b \<and> next_all r = allbase h \<and>
    sizebases h' = (sizebases h)[b := pr] \<and> allbase h' = pr \<and> kheaproots h' = kheaproots h \<and>
    (\<forall>a. a \<notin> set (blocks pg b) \<longrightarrow> hmem h' a = hmem h a)"
proof -
  let ?s = "sizes ! b" and ?n = "ucast (PAGE_SIZE div sizes ! b) :: u16"
  let ?m = "\<lambda>a. if a \<in> (\<lambda>i. pg + of_nat i * ?s) ` {1..<nblocks b} then a - ?s else ((hmem h)(pg := 0)) a"
  have nb: "2 \<le> nblocks b" "nblocks b \<le> 256" using bsize_bounds [OF b] by simp_all
  then obtain k where k: "nblocks b = Suc k" by (cases "nblocks b") simp_all
  let ?y = "pg + of_nat k * ?s"
  have "unat (of_nat (nblocks b) :: u32) = nblocks b" using nb by (simp add: unat_of_nat_u32)
  then have n: "unat ?n = nblocks b" "(ucast ?n :: u32) = of_nat (nblocks b)"
    using u16_of_small [of "of_nat (nblocks b) :: u32"] nb by (simp_all add: nblocks_word [OF b])
  have e: "(of_nat (nblocks b) :: u32) - 1 = of_nat k" using k by simp
  have y: "?y \<in> set (blocks pg b)" using k by (auto simp: blocks_def)
  have d: "?y - pg = of_nat k * ?s" by simp
  let ?r = "\<lparr>next_samesize = sizebases h ! b, next_all = allbase h, pageaddr_and_blocktype = MKPAB pg (of_nat b),
             freelist_offset = ucast (?y - pg), nfree = ?n\<rparr>"
  have f: "PR_PAGEADDR ?r = pg" "PR_BLOCKTYPE ?r = of_nat b" using MKPAB_parts [OF pg b] by (simp_all add: PR_PAGEADDR_def PR_BLOCKTYPE_def)
  have fh: "freehead ?r = ?y" "ucast (freelist_offset ?r) = ?y - pg" using freehead_offset [OF pg f(1) b y] by simp_all
  have bt: "btype ?r = b" unfolding f using b by (simp add: unat_of_nat_u32)
  have "blocks pg b = map (\<lambda>i. pg + of_nat i * ?s) [0..<Suc k]" using k by (simp add: blocks_def)
  then have c: "chain ?m ?y (rev (blocks pg b))" using link_chain [OF pg b refl, of k "hmem h"] k by simp
  have ok: "page_ok ?m ?r (rev (blocks pg b))" unfolding page_ok_def bt f(1) fh(1) using b pg c n(1) by simp
  have lb: "link_blocks pg ?s [1..<unat ?n] ((hmem h)(pg := 0)) = Inr ?m" unfolding n(1) link_blocks_eq [OF sizes_nonzero [OF b]] by simp
  have k1: "(of_nat (unat ?n) :: u32) - 1 = of_nat k" unfolding n(1) by (rule e)
  have off: "ucast (ucast (of_nat k * ?s) :: u16) = (ucast ?n - 1) * ?s" unfolding n e using fh(2) d by simp
  have "new_page b pg pr h = Inr (h\<lparr>refs := (refs h)(pr := ?r), sizebases := (sizebases h)[b := pr], allbase := pr, hmem := ?m\<rparr>)"
    unfolding new_page_def Let_def lb rbind_simps k1 d off by simp
  moreover have "?m a = hmem h a" if "a \<notin> set (blocks pg b)" for a
  proof -
    have "pg \<in> set (blocks pg b)" using nb by (auto simp: blocks_def intro!: image_eqI [of _ _ 0])
    moreover have "(\<lambda>i. pg + of_nat i * ?s) ` {1..<nblocks b} \<subseteq> set (blocks pg b)" by (auto simp: blocks_def)
    ultimately show ?thesis using that by auto
  qed
  ultimately show ?thesis
    by (intro exI [of _ "h\<lparr>refs := (refs h)(pr := ?r), sizebases := (sizebases h)[b := pr], allbase := pr, hmem := ?m\<rparr>"] exI [of _ ?r])
      (use ok f in simp)
qed

subsection \<open>Giving a block back\<close>

lemma fill_deadbeef_frame:
  assumes "b < 8" and "unat x + bsize b \<le> 4294967296" and "\<not> (unat x \<le> unat y \<and> unat y < unat x + bsize b)"
  shows "fill_deadbeef x (sizes ! b) m y = m y"
proof -
  have n: "unat (sizes ! b div 4) = bsize b div 4" by (simp add: unat_div sizes_unat [OF assms(1)])
  have "y \<noteq> x + 4 * of_nat i" if "i < bsize b div 4" for i
  proof
    assume y: "y = x + 4 * of_nat i"
    have i: "4 * i < bsize b" using that by (simp add: less_mult_imp_div_less)
    then have "unat (4 * of_nat i :: u32) = 4 * i" using bsize_bounds [OF assms(1)] by (simp add: unat_mult_u32 unat_of_nat_u32)
    then have "unat y = unat x + 4 * i" unfolding y using i assms(2) by (simp add: unat_add_u32_le)
    with i assms(3) show False by simp
  qed
  then have "fold (\<lambda>i m. m(x + 4 * of_nat i := 0xdeadbeef)) [0..<k] m y = m y" if "k \<le> bsize b div 4" for k
    using that by (induction k) auto
  then show ?thesis unfolding fill_deadbeef_def n by blast
qed

lemma page_ok_push:
  assumes ok: "page_ok m r xs" and x: "x \<in> set (blocks (PR_PAGEADDR r) (btype r))" "x \<notin> set xs"
    and m: "m' x = freehead r" "\<And>a. a \<in> set xs \<Longrightarrow> m' a = m a"
    and r': "r' = r\<lparr>freelist_offset := ucast (x - PR_PAGEADDR r), nfree := nfree r + 1\<rparr>"
  shows "page_ok m' r' (x # xs)" and "unat (nfree r') = Suc (length xs)" and "Suc (length xs) \<le> nblocks (btype r)"
proof -
  note p = page_okD [OF ok]
  have pr: "PR_PAGEADDR r' = PR_PAGEADDR r" "PR_BLOCKTYPE r' = PR_BLOCKTYPE r" by (simp_all add: r' PR_PAGEADDR_def PR_BLOCKTYPE_def)
  have "freehead r' = x" by (rule freehead_offset(1) [OF p(2) pr(1) p(1) x(1)]) (simp add: r')
  moreover have "chain m' (freehead r) xs" using p(3) m(2) chain_cong [of xs m' m] by blast
  moreover have "x \<noteq> 0" using block_in_page(2) [OF p(2,1) x(1)] .
  moreover have "card (set (x # xs)) \<le> card (set (blocks (PR_PAGEADDR r) (btype r)))"
    using p(5) x(1) by (intro card_mono) auto
  then show l: "Suc (length xs) \<le> nblocks (btype r)"
    using card_length [of "blocks (PR_PAGEADDR r) (btype r)"] p(6) x(2) distinct_card [of "x # xs"] by simp
  then have "unat (nfree r) + 1 < 65536" using p(4) bsize_bounds [OF p(1)] by simp
  then show n: "unat (nfree r') = Suc (length xs)" using p(4) by (simp add: r' unat_word_ariths)
  ultimately show "page_ok m' r' (x # xs)" unfolding page_ok_def pr using p x(1) m(1) by simp
qed

end
