(* ===== verification/Kmalloc_Roots.thy ===== *)
theory Kmalloc_Roots
  imports Kmalloc_Page
begin

text \<open>
  The pages of page references: which slots are in use, and the allocation and release of a slot.
\<close>

subsection \<open>Slots in use\<close>

definition inuse_set :: "kheap_root \<Rightarrow> nat set" where
  "inuse_set r = {n. n < 256 \<and> bit (pagerefs_inuse r ! (n div 32)) (n mod 32)}"

definition root_ok :: "kheap_root \<Rightarrow> bool" where
  "root_ok r \<longleftrightarrow> length (pagerefs_inuse r) = 8 \<and> unat (numinuse r) = card (inuse_set r) \<and>
     (page r = 0 \<longrightarrow> inuse_set r = {}) \<and> (page r \<noteq> 0 \<longrightarrow> page_addr (page r))"

lemma inuse_less: "inuse_set r \<subseteq> {..<256}" "finite (inuse_set r)" "card (inuse_set r) \<le> 256"
proof -
  show s: "inuse_set r \<subseteq> {..<256}" by (auto simp: inuse_set_def)
  then show "finite (inuse_set r)" by (rule finite_subset) simp
  show "card (inuse_set r) \<le> 256" using card_mono [OF _ s] by simp
qed

lemma NPAGEREFS: "NPAGEREFS_PER_PAGE = 256"
  by (simp add: NPAGEREFS_PER_PAGE_def PAGE_SIZE_def)

lemma bit_test: "(w :: u32) AND push_bit j 1 = 0 \<longleftrightarrow> \<not> bit w j"
  by (simp add: push_bit_of_1)

lemma u32_all_ones: "(w :: u32) = 0xffffffff \<longleftrightarrow> (\<forall>j<32. bit w j)"
proof -
  have m: "(0xffffffff :: u32) = mask 32" by (simp add: mask_eq_exp_minus_1)
  show ?thesis unfolding m by (auto simp: bit_mask_iff intro!: bit_eqI dest: bit_imp_le_length)
qed

lemma scan_words_spec:
  "case scan_words ws i0 of
     Inl e \<Rightarrow> False
   | Inr None \<Rightarrow> \<forall>w\<in>set ws. w = 0xffffffff
   | Inr (Some (i, j)) \<Rightarrow> i0 \<le> i \<and> i < i0 + length ws \<and> j < 32 \<and> \<not> bit (ws ! (i - i0)) j"
proof (induction ws arbitrary: i0)
  case (Cons w ws)
  show ?case
  proof (cases "w = 0xffffffff")
    case True
    then show ?thesis using Cons.IH [of "Suc i0"]
      by (auto simp: nth_Cons' Suc_diff_le split: sum.splits option.splits)
  next
    case False
    then obtain j where "j < 32" "\<not> bit w j" by (auto simp: u32_all_ones)
    then obtain k where k: "find (\<lambda>j. \<not> bit w j) [0..<32] = Some k"
      by (cases "find (\<lambda>j. \<not> bit w j) [0..<32]") (auto simp: find_None_iff)
    then have "k < 32" "\<not> bit w k" by (auto simp: find_Some_iff)
    with False k show ?thesis by (simp add: bit_test)
  qed
qed simp

text \<open>Taking and giving back slot \<open>n\<close>.\<close>

definition take_slot :: "nat \<Rightarrow> kheap_root \<Rightarrow> kheap_root" where
  "take_slot n r = set_inuse (n div 32) (n mod 32) r"

lemma inuse_upd:
  assumes "length (pagerefs_inuse r) = 8" and "n < 256" and "pagerefs_inuse r' = (pagerefs_inuse r)[n div 32 := w]"
    and "\<And>k. k < 32 \<Longrightarrow> bit w k \<longleftrightarrow> (if k = n mod 32 then v else bit (pagerefs_inuse r ! (n div 32)) k)"
  shows "inuse_set r' = (if v then insert n (inuse_set r) else inuse_set r - {n})"
proof -
  have n8: "n div 32 < 8" using assms(2) by simp
  have "k \<in> inuse_set r' \<longleftrightarrow> k \<in> (if v then insert n (inuse_set r) else inuse_set r - {n})" for k
  proof (cases "k div 32 = n div 32")
    case True
    moreover from this have "k mod 32 = n mod 32 \<longleftrightarrow> k = n" by (metis mult_div_mod_eq)
    ultimately show ?thesis using assms(1-3) assms(4) [of "k mod 32"] n8 by (auto simp: inuse_set_def)
  next
    case False
    then have "k \<noteq> n" by blast
    then show ?thesis using False assms(3) by (simp add: inuse_set_def)
  qed
  then show ?thesis by blast
qed

lemma take_slot_ok:
  assumes "length (pagerefs_inuse r) = 8" and "unat (numinuse r) = card (inuse_set r)" and "n < 256" and "n \<notin> inuse_set r"
  shows "inuse_set (take_slot n r) = insert n (inuse_set r)" and "length (pagerefs_inuse (take_slot n r)) = 8"
    and "unat (numinuse (take_slot n r)) = card (inuse_set (take_slot n r))" and "page (take_slot n r) = page r"
proof -
  let ?w = "pagerefs_inuse r ! (n div 32) OR push_bit (n mod 32) 1"
  have b: "bit ?w k \<longleftrightarrow> (if k = n mod 32 then True else bit (pagerefs_inuse r ! (n div 32)) k)" if "k < 32" for k
    using that by (auto simp: bit_simps)
  show i: "inuse_set (take_slot n r) = insert n (inuse_set r)"
    using inuse_upd [OF assms(1,3) _ b, of "take_slot n r"] by (simp add: take_slot_def set_inuse_def)
  show "length (pagerefs_inuse (take_slot n r)) = 8" "page (take_slot n r) = page r" using assms(1) by (simp_all add: take_slot_def set_inuse_def)
  have "unat (numinuse r + 1) = Suc (card (inuse_set r))"
    using assms(2) inuse_less(3) [of r] unat_add_u32_le [of "numinuse r" 1] by simp
  then show "unat (numinuse (take_slot n r)) = card (inuse_set (take_slot n r))"
    using assms(4) inuse_less(2) [of r] i by (simp add: take_slot_def set_inuse_def)
qed

lemma find_slot:
  assumes "root_ok r" and "numinuse r < NPAGEREFS_PER_PAGE"
  obtains n where "n < 256" and "n \<notin> inuse_set r" and "scan_words (pagerefs_inuse r) 0 = Inr (Some (n div 32, n mod 32))"
proof -
  have r: "length (pagerefs_inuse r) = 8" "card (inuse_set r) < 256"
    using assms by (simp_all add: root_ok_def NPAGEREFS word_less_nat_alt)
  have "\<not> (\<forall>w\<in>set (pagerefs_inuse r). w = 0xffffffff)"
  proof
    assume "\<forall>w\<in>set (pagerefs_inuse r). w = 0xffffffff"
    then have "pagerefs_inuse r ! (n div 32) = 0xffffffff" if "n < 256" for n using r(1) that by (simp add: less_mult_imp_div_less)
    then have "bit (pagerefs_inuse r ! (n div 32)) (n mod 32)" if "n < 256" for n using that u32_all_ones by fastforce
    then have "inuse_set r = {..<256}" by (auto simp: inuse_set_def)
    with r(2) show False by simp
  qed
  with scan_words_spec [of "pagerefs_inuse r" 0] obtain i j where
    s: "scan_words (pagerefs_inuse r) 0 = Inr (Some (i, j))" "i < 8" "j < 32" "\<not> bit (pagerefs_inuse r ! i) j"
    using r(1) by (auto split: sum.splits option.splits)
  let ?n = "i * 32 + j"
  have n: "?n < 256" "?n div 32 = i" "?n mod 32 = j" using s(2,3) by simp_all
  then show thesis using that [of ?n] s by (simp add: inuse_set_def)
qed

subsection \<open>Allocation of a slot\<close>

text \<open>The outcome when slot \<open>n\<close> of root \<open>w\<close> is taken; a root without a page gets one.\<close>

definition slot_result :: "(u32 \<Rightarrow> 'v \<Rightarrow> (u32 \<times> 'v) res) \<Rightarrow> nat \<Rightarrow> nat \<Rightarrow> kheap \<Rightarrow> 'v \<Rightarrow> (u32 \<times> kheap \<times> 'v) res" where
  "slot_result al w n h v =
     (let r = kheaproots h ! w in
      if page r \<noteq> 0 then Inr (page r + 16 * of_nat n, h\<lparr>kheaproots := (kheaproots h)[w := take_slot n r]\<rparr>, v)
      else rbind (al 1 v) (\<lambda>(va, v1).
        if va = 0 then Inr (0, h\<lparr>kheaproots := (kheaproots h)[w := take_slot n r]\<rparr>, v1)
        else if va mod PAGE_SIZE \<noteq> 0 then Inl KAssertFail
        else Inr (va + 16 * of_nat n, h\<lparr>kheaproots := (kheaproots h)[w := (take_slot n r)\<lparr>page := va\<rparr>]\<rparr>, v1)))"

lemma allocpageref_loop_cases:
  assumes "\<And>w. w \<in> set ws \<Longrightarrow> w < length (kheaproots h) \<and> root_ok (kheaproots h ! w)"
  shows "allocpageref_loop al fr ws h v = Inr (0, h, v) \<or>
    (\<exists>w n. w \<in> set ws \<and> n < 256 \<and> n \<notin> inuse_set (kheaproots h ! w) \<and> allocpageref_loop al fr ws h v = slot_result al w n h v)"
  using assms
proof (induction ws)
  case (Cons w ws)
  let ?r = "kheaproots h ! w"
  show ?case
  proof (cases "numinuse ?r \<ge> NPAGEREFS_PER_PAGE")
    case True
    then have e: "allocpageref_loop al fr (w # ws) h v = allocpageref_loop al fr ws h v" by simp
    show ?thesis unfolding e using Cons by (meson list.set_intros(2))
  next
    case False
    have w: "w < length (kheaproots h)" "root_ok ?r" using Cons.prems by simp_all
    obtain n where n: "n < 256" "n \<notin> inuse_set ?r" "scan_words (pagerefs_inuse ?r) 0 = Inr (Some (n div 32, n mod 32))"
      by (rule find_slot [OF w(2)]) (use False in \<open>simp add: not_le\<close>)
    have e: "n div 32 * 32 + n mod 32 = n" by simp
    have "allocpageref_loop al fr (w # ws) h v = slot_result al w n h v"
    proof (cases "page ?r = 0")
      case True
      then show ?thesis using False n(3) w(1)
        by (cases "al 1 v") (auto simp: slot_result_def Let_def take_slot_def set_inuse_def allocpagerefpage_def e simp del: of_nat_add of_nat_mult split: prod.splits)
    next
      case False
      then show ?thesis using \<open>\<not> numinuse ?r \<ge> NPAGEREFS_PER_PAGE\<close> n(3) w(1)
        by (simp add: slot_result_def Let_def take_slot_def set_inuse_def e del: of_nat_add of_nat_mult)
    qed
    with n(1,2) show ?thesis by (intro disjI2 exI [of _ w] exI [of _ n]) simp
  qed
qed simp

subsection \<open>Addresses of slots\<close>

lemma slot_unat: "page_addr pg \<Longrightarrow> n < 256 \<Longrightarrow> unat (pg + 16 * of_nat n) = unat pg + 16 * n"
proof -
  assume pg: "page_addr pg" and n: "n < 256"
  then have "unat (16 * of_nat n :: u32) = 16 * n" by (simp add: unat_mult_u32 unat_of_nat_u32)
  then show ?thesis using pg n by (simp add: unat_add_u32_le page_addr_def)
qed

lemma aligned_unique:
  fixes a b :: nat
  assumes "a mod 4096 = 0" and "b mod 4096 = 0" and "a + i = b + j" and "i < 4096" and "j < 4096"
  shows "a = b \<and> i = j"
proof -
  obtain c d where e: "a = 4096 * c" "b = 4096 * d" using assms(1,2) by (metis mod_0_imp_dvd dvd_def)
  then have "(4096 * c + i) div 4096 = (4096 * d + j) div 4096" using assms(3) by simp
  then have "c = d" using assms(4,5) by simp
  then show ?thesis using e assms(3) by simp
qed

lemma slot_unique:
  assumes "page_addr pg" and "page_addr pg'" and "n < 256" and "n' < 256" and "pg + 16 * of_nat n = pg' + 16 * of_nat n'"
  shows "pg = pg' \<and> n = n'"
proof -
  have "unat pg + 16 * n = unat pg' + 16 * n'" using slot_unat assms by metis
  then have "unat pg = unat pg' \<and> 16 * n = 16 * n'"
    using assms by (intro aligned_unique) (simp_all add: page_addr_def)
  then show ?thesis by (simp add: word_unat_eq_iff)
qed

definition refs_of :: "kheap_root list \<Rightarrow> u32 set" where
  "refs_of roots = {p. \<exists>w<length roots. \<exists>n\<in>inuse_set (roots ! w). p = page (roots ! w) + 16 * of_nat n}"

definition root_pages :: "kheap_root list \<Rightarrow> u32 list" where
  "root_pages roots = map page (filter (\<lambda>r. page r \<noteq> 0) roots)"

definition roots_ok :: "kheap_root list \<Rightarrow> bool" where
  "roots_ok roots \<longleftrightarrow> length roots = NUM_PAGEREFPAGES \<and> (\<forall>r\<in>set roots. root_ok r) \<and> distinct (root_pages roots)"

lemma distinct_filter_nth:
  "distinct (map f (filter P xs)) \<Longrightarrow> i < length xs \<Longrightarrow> j < length xs \<Longrightarrow> P (xs ! i) \<Longrightarrow> P (xs ! j) \<Longrightarrow> f (xs ! i) = f (xs ! j) \<Longrightarrow> i = j"
proof (induction xs arbitrary: i j)
  case (Cons x xs)
  have "f x \<notin> f ` {y \<in> set xs. P y}" if "P x" using Cons.prems(1) that by (auto simp: image_iff)
  then have "f x \<noteq> f (xs ! k)" if "P x" "k < length xs" "P (xs ! k)" for k using that by (auto simp: image_iff)
  moreover have "distinct (map f (filter P xs))" using Cons.prems(1) by (simp split: if_splits)
  ultimately show ?case using Cons by (cases i; cases j) fastforce+
qed simp

lemma roots_okD:
  assumes "roots_ok roots" and "w < length roots"
  shows "root_ok (roots ! w)" and "inuse_set (roots ! w) \<noteq> {} \<Longrightarrow> page (roots ! w) \<noteq> 0"
    and "page (roots ! w) \<noteq> 0 \<Longrightarrow> page_addr (page (roots ! w))"
    and "w' < length roots \<Longrightarrow> page (roots ! w) \<noteq> 0 \<Longrightarrow> page (roots ! w') = page (roots ! w) \<Longrightarrow> w' = w"
proof -
  show r: "root_ok (roots ! w)" using assms by (simp add: roots_ok_def)
  then show "inuse_set (roots ! w) \<noteq> {} \<Longrightarrow> page (roots ! w) \<noteq> 0" "page (roots ! w) \<noteq> 0 \<Longrightarrow> page_addr (page (roots ! w))"
    by (simp_all add: root_ok_def)
  show "w' < length roots \<Longrightarrow> page (roots ! w) \<noteq> 0 \<Longrightarrow> page (roots ! w') = page (roots ! w) \<Longrightarrow> w' = w"
    using assms distinct_filter_nth [of page "\<lambda>r. page r \<noteq> 0" roots w' w] by (simp add: roots_ok_def root_pages_def)
qed

subsection \<open>Updates of a root\<close>

lemma root_pages_upd:
  assumes "w < length roots"
  shows "root_pages (roots[w := r]) = root_pages (take w roots) @ (if page r \<noteq> 0 then [page r] else []) @ root_pages (drop (Suc w) roots)"
  unfolding upd_conv_take_nth_drop [OF assms] by (simp add: root_pages_def)

lemma root_pages_split:
  assumes "w < length roots"
  shows "root_pages roots = root_pages (take w roots) @ (if page (roots ! w) \<noteq> 0 then [page (roots ! w)] else []) @ root_pages (drop (Suc w) roots)"
  using root_pages_upd [OF assms, of "roots ! w"] by simp

lemma refs_of_upd:
  assumes "w < length roots"
  shows "refs_of (roots[w := r]) = {p. \<exists>n\<in>inuse_set r. p = page r + 16 * of_nat n} \<union>
    {p. \<exists>u<length roots. u \<noteq> w \<and> (\<exists>n\<in>inuse_set (roots ! u). p = page (roots ! u) + 16 * of_nat n)}"
proof (intro equalityI subsetI)
  fix p assume "p \<in> refs_of (roots[w := r])"
  then obtain u n where u: "u < length roots" "n \<in> inuse_set (roots[w := r] ! u)" "p = page (roots[w := r] ! u) + 16 * of_nat n"
    by (auto simp: refs_of_def)
  then show "p \<in> {p. \<exists>n\<in>inuse_set r. p = page r + 16 * of_nat n} \<union>
      {p. \<exists>u<length roots. u \<noteq> w \<and> (\<exists>n\<in>inuse_set (roots ! u). p = page (roots ! u) + 16 * of_nat n)}"
    by (cases "u = w") (simp, blast)+
next
  fix p assume "p \<in> {p. \<exists>n\<in>inuse_set r. p = page r + 16 * of_nat n} \<union>
      {p. \<exists>u<length roots. u \<noteq> w \<and> (\<exists>n\<in>inuse_set (roots ! u). p = page (roots ! u) + 16 * of_nat n)}"
  then consider n where "n \<in> inuse_set r" "p = page r + 16 * of_nat n"
    | u n where "u < length roots" "u \<noteq> w" "n \<in> inuse_set (roots ! u)" "p = page (roots ! u) + 16 * of_nat n" by blast
  then show "p \<in> refs_of (roots[w := r])"
  proof cases
    case 1
    then show ?thesis unfolding refs_of_def using assms by (intro CollectI exI [of _ w]) auto
  next
    case 2
    then show ?thesis unfolding refs_of_def by (intro CollectI exI [of _ u]) auto
  qed
qed

lemma refs_of_split:
  assumes "w < length roots"
  shows "refs_of roots = {p. \<exists>n\<in>inuse_set (roots ! w). p = page (roots ! w) + 16 * of_nat n} \<union>
    {p. \<exists>u<length roots. u \<noteq> w \<and> (\<exists>n\<in>inuse_set (roots ! u). p = page (roots ! u) + 16 * of_nat n)}"
  using refs_of_upd [OF assms, of "roots ! w"] by simp

lemma inuse_page:
  assumes "roots_ok roots" and "u < length roots" and "n \<in> inuse_set (roots ! u)"
  shows "page_addr (page (roots ! u))" and "n < 256" and "page (roots ! u) \<in> set (root_pages roots)"
proof -
  have p: "page (roots ! u) \<noteq> 0" using roots_okD(2) [OF assms(1,2)] assms(3) by blast
  then show "page_addr (page (roots ! u))" using roots_okD(3) [OF assms(1,2)] by simp
  show "n < 256" using assms(3) inuse_less(1) by blast
  show "page (roots ! u) \<in> set (root_pages roots)" using p assms(2) by (auto simp: root_pages_def)
qed

text \<open>A page reference lies in one of the pages of page references.\<close>

lemma refs_of_page:
  assumes "roots_ok roots" and "p \<in> refs_of roots"
  obtains w n where "w < length roots" and "n \<in> inuse_set (roots ! w)" and "p = page (roots ! w) + 16 * of_nat n"
  using assms(2) unfolding refs_of_def by blast

lemma slot_fresh:
  assumes ok: "roots_ok roots" and w: "w < length roots" and n: "n < 256" and pg: "page_addr pg"
    and new: "pg = page (roots ! w) \<and> n \<notin> inuse_set (roots ! w) \<or> pg \<notin> set (root_pages roots)"
  shows "pg + 16 * of_nat n \<notin> refs_of roots"
proof
  assume "pg + 16 * of_nat n \<in> refs_of roots"
  then obtain u k where u: "u < length roots" "k \<in> inuse_set (roots ! u)" "pg + 16 * of_nat n = page (roots ! u) + 16 * of_nat k"
    using refs_of_page [OF ok] by blast
  note q = inuse_page [OF ok u(1,2)]
  have e: "pg = page (roots ! u)" "n = k" using slot_unique [OF pg q(1) n q(2) u(3)] by simp_all
  moreover have "page (roots ! u) \<noteq> 0" using q(1) by (auto simp: page_addr_def)
  ultimately have "w = u" if "pg = page (roots ! w)" using roots_okD(4) [OF ok u(1) w] that by simp
  then show False using new e u(2) q(3) by auto
qed

lemma take_slot_roots:
  assumes ok: "roots_ok roots" and w: "w < length roots" and n: "n < 256" "n \<notin> inuse_set (roots ! w)" and pg: "page (roots ! w) \<noteq> 0"
    and r: "roots' = roots[w := take_slot n (roots ! w)]"
  shows "roots_ok roots'" and "root_pages roots' = root_pages roots" and "refs_of roots' = insert (page (roots ! w) + 16 * of_nat n) (refs_of roots)"
proof -
  have "root_ok (roots ! w)" by (rule roots_okD(1) [OF ok w])
  then have t: "inuse_set (take_slot n (roots ! w)) = insert n (inuse_set (roots ! w))" "root_ok (take_slot n (roots ! w))"
    "page (take_slot n (roots ! w)) = page (roots ! w)"
    using take_slot_ok [of "roots ! w" n] n pg by (simp_all add: root_ok_def)
  show p: "root_pages roots' = root_pages roots" unfolding r root_pages_upd [OF w] t root_pages_split [OF w] ..
  then show "roots_ok roots'" using ok t(2) set_update_subset_insert [of roots w "take_slot n (roots ! w)"] by (auto simp: roots_ok_def r)
  show "refs_of roots' = insert (page (roots ! w) + 16 * of_nat n) (refs_of roots)"
    unfolding r refs_of_upd [OF w] refs_of_split [OF w] t by blast
qed

lemma new_root_page:
  assumes ok: "roots_ok roots" and w: "w < length roots" and n: "n < 256" "n \<notin> inuse_set (roots ! w)" and pg: "page (roots ! w) = 0"
    and va: "page_addr va" "va \<notin> set (root_pages roots)"
    and r: "roots' = roots[w := (take_slot n (roots ! w))\<lparr>page := va\<rparr>]"
  shows "roots_ok roots'" and "set (root_pages roots') = insert va (set (root_pages roots))" and "distinct (root_pages roots')"
    and "refs_of roots' = insert (va + 16 * of_nat n) (refs_of roots)"
proof -
  let ?t = "(take_slot n (roots ! w))\<lparr>page := va\<rparr>"
  have i: "inuse_set (roots ! w) = {}" using roots_okD(2) [OF ok w] pg by blast
  have "root_ok (roots ! w)" by (rule roots_okD(1) [OF ok w])
  then have t0: "inuse_set (take_slot n (roots ! w)) = {n}" "length (pagerefs_inuse (take_slot n (roots ! w))) = 8"
      "unat (numinuse (take_slot n (roots ! w))) = card (inuse_set (take_slot n (roots ! w)))"
    using take_slot_ok [of "roots ! w" n] n i by (simp_all add: root_ok_def)
  have ie: "inuse_set ?t = inuse_set (take_slot n (roots ! w))" by (simp add: inuse_set_def)
  then have t: "inuse_set ?t = {n}" "root_ok ?t" using t0 va(1) by (auto simp: root_ok_def page_addr_def)
  have va0: "va \<noteq> 0" using va(1) by (auto simp: page_addr_def)
  have e: "root_pages roots' = root_pages (take w roots) @ va # root_pages (drop (Suc w) roots)"
    "root_pages roots = root_pages (take w roots) @ root_pages (drop (Suc w) roots)"
    using root_pages_upd [OF w, of ?t] root_pages_split [OF w] va0 pg by (simp_all add: r)
  show s: "set (root_pages roots') = insert va (set (root_pages roots))" unfolding e by auto
  show d: "distinct (root_pages roots')" using ok va(2) unfolding roots_ok_def e by auto
  show "roots_ok roots'" using ok d t(2) set_update_subset_insert [of roots w ?t] by (auto simp: roots_ok_def r)
  show "refs_of roots' = insert (va + 16 * of_nat n) (refs_of roots)"
    unfolding r refs_of_upd [OF w] refs_of_split [OF w] t i by auto
qed

subsection \<open>Release of a slot\<close>

definition drop_slot :: "nat \<Rightarrow> kheap_root \<Rightarrow> kheap_root" where
  "drop_slot n r = r\<lparr>pagerefs_inuse := (pagerefs_inuse r)[n div 32 := pagerefs_inuse r ! (n div 32) AND NOT (push_bit (n mod 32) 1)],
     numinuse := numinuse r - 1\<rparr>"

lemma drop_slot_ok:
  assumes "root_ok r" and "n \<in> inuse_set r"
  shows "inuse_set (drop_slot n r) = inuse_set r - {n}" and "root_ok (drop_slot n r)" and "page (drop_slot n r) = page r" and "numinuse r > 0"
proof -
  let ?w = "pagerefs_inuse r ! (n div 32) AND NOT (push_bit (n mod 32) 1)"
  have r: "length (pagerefs_inuse r) = 8" "unat (numinuse r) = card (inuse_set r)" "page_addr (page r)" "page r \<noteq> 0"
    using assms by (auto simp: root_ok_def)
  have n: "n < 256" using assms(2) inuse_less(1) by blast
  have b: "bit ?w k \<longleftrightarrow> (if k = n mod 32 then False else bit (pagerefs_inuse r ! (n div 32)) k)" if "k < 32" for k
    using that by (auto simp: bit_simps)
  show i: "inuse_set (drop_slot n r) = inuse_set r - {n}"
    using inuse_upd [OF r(1) n _ b, of "drop_slot n r"] by (simp add: drop_slot_def)
  show p: "page (drop_slot n r) = page r" by (simp add: drop_slot_def)
  have "0 < card (inuse_set r)" using assms(2) inuse_less(2) [of r] by (auto simp: card_gt_0_iff)
  then show pos: "numinuse r > 0" using r(2) by (simp add: word_less_nat_alt)
  then have "unat (numinuse r - 1) = unat (numinuse r) - 1" by (intro unat_minus_one) auto
  then have "unat (numinuse (drop_slot n r)) = card (inuse_set (drop_slot n r))"
    using r(2) assms(2) inuse_less(2) [of r] i by (simp add: drop_slot_def card_Diff_singleton)
  then show "root_ok (drop_slot n r)" using r p by (simp add: root_ok_def) (simp add: drop_slot_def)
qed

lemma slot_other_page:
  assumes "page_addr pg" and "page_addr pg'" and "pg' \<noteq> pg" and "n < 256"
  shows "\<not> (pg + 16 * of_nat n - pg') div 16 < NPAGEREFS_PER_PAGE"
proof
  let ?p = "pg + 16 * of_nat n"
  assume "(?p - pg') div 16 < NPAGEREFS_PER_PAGE"
  then have "unat (?p - pg') div 16 < 256" by (simp add: NPAGEREFS word_less_nat_alt unat_div)
  then have d: "unat (?p - pg') < 4096" by (simp add: div_less_iff_less_mult)
  have "unat (pg' + (?p - pg')) = unat pg' + unat (?p - pg')" using d assms(2) by (intro unat_add_u32_le) (simp add: page_addr_def)
  then have "unat pg' + unat (?p - pg') = unat pg + 16 * n" using slot_unat [OF assms(1,4)] by simp
  then have "unat pg' = unat pg \<and> unat (?p - pg') = 16 * n"
    using assms d by (intro aligned_unique) (simp_all add: page_addr_def)
  with assms(3) show False by (simp add: word_unat_eq_iff)
qed

lemma slot_index:
  assumes "n < 256"
  shows "(pg + 16 * of_nat n - pg :: u32) div 16 = of_nat n" and "unat (of_nat n div 32 :: u32) = n div 32" and "unat (of_nat n mod 32 :: u32) = n mod 32"
    and "(of_nat n :: u32) < NPAGEREFS_PER_PAGE"
proof -
  have u: "unat (of_nat n :: u32) = n" using assms by (simp add: unat_of_nat_u32)
  have "unat (16 * of_nat n :: u32) = 16 * n" using assms u by (simp add: unat_mult_u32)
  then have "unat ((16 * of_nat n :: u32) div 16) = unat (of_nat n :: u32)" using u by (simp add: unat_div)
  then show "(pg + 16 * of_nat n - pg :: u32) div 16 = of_nat n" by (simp add: word_unat_eq_iff)
  show "unat (of_nat n div 32 :: u32) = n div 32" "unat (of_nat n mod 32 :: u32) = n mod 32" "(of_nat n :: u32) < NPAGEREFS_PER_PAGE"
    using u assms by (simp_all add: unat_div unat_mod NPAGEREFS word_less_nat_alt)
qed

lemma freepageref_loop_ok:
  assumes ok: "roots_ok (kheaproots h)" and w: "w < length (kheaproots h)" and n: "n \<in> inuse_set (kheaproots h ! w)"
    and "w \<in> set ws" and "\<forall>u\<in>set ws. u < length (kheaproots h)"
  shows "freepageref_loop ws (page (kheaproots h ! w) + 16 * of_nat n) h =
    Inr (h\<lparr>kheaproots := (kheaproots h)[w := drop_slot n (kheaproots h ! w)]\<rparr>)"
  using assms(4,5)
proof (induction ws)
  case (Cons u ws)
  let ?R = "kheaproots h" and ?p = "page (kheaproots h ! w) + 16 * of_nat n"
  note pg = inuse_page [OF ok w n] and r = roots_okD(1) [OF ok w]
  have wnz: "page (?R ! w) \<noteq> 0" using pg(1) by (auto simp: page_addr_def)
  show ?case
  proof (cases "u = w")
    case True
    have "bit (pagerefs_inuse (?R ! w) ! (n div 32)) (n mod 32)" using n by (simp add: inuse_set_def)
    then show ?thesis
      using True wnz slot_index [OF pg(2)] drop_slot_ok(4) [OF r n]
      by (simp add: Let_def bit_test drop_slot_def)
  next
    case False
    have u: "u < length ?R" and IH: "freepageref_loop ws ?p h = Inr (h\<lparr>kheaproots := ?R[w := drop_slot n (?R ! w)]\<rparr>)"
      using Cons False by simp_all
    show ?thesis
    proof (cases "page (?R ! u) = 0")
      case True
      then have "inuse_set (?R ! u) = {}" using roots_okD(2) [OF ok u] by blast
      then have "numinuse (?R ! u) = 0" using roots_okD(1) [OF ok u] by (simp add: root_ok_def unat_eq_0)
      with True IH show ?thesis by simp
    next
      case nz: False
      then have "page (?R ! u) \<noteq> page (?R ! w)" using roots_okD(4) [OF ok w u wnz] False by blast
      then have "\<not> (?p - page (?R ! u)) div 16 < NPAGEREFS_PER_PAGE"
        using slot_other_page [OF pg(1) roots_okD(3) [OF ok u nz] _ pg(2)] by blast
      with nz IH show ?thesis by (simp add: Let_def)
    qed
  qed
qed simp

lemma freepageref_ok:
  assumes ok: "roots_ok (kheaproots h)" and p: "p \<in> refs_of (kheaproots h)"
  shows "\<exists>roots. freepageref p h = Inr (h\<lparr>kheaproots := roots\<rparr>) \<and> roots_ok roots \<and> root_pages roots = root_pages (kheaproots h) \<and>
    refs_of roots = refs_of (kheaproots h) - {p}"
proof -
  let ?R = "kheaproots h"
  obtain w n where w: "w < length ?R" "n \<in> inuse_set (?R ! w)" "p = page (?R ! w) + 16 * of_nat n"
    by (rule refs_of_page [OF ok p])
  have len: "length ?R = NUM_PAGEREFPAGES" using ok by (simp add: roots_ok_def)
  let ?R' = "?R[w := drop_slot n (?R ! w)]"
  note d = drop_slot_ok [OF roots_okD(1) [OF ok w(1)] w(2)] and pg = inuse_page [OF ok w(1,2)]
  have f: "freepageref p h = Inr (h\<lparr>kheaproots := ?R'\<rparr>)"
    unfolding freepageref_def w(3) by (rule freepageref_loop_ok [OF ok w(1,2)]) (use w(1) len in simp_all)
  have rp: "root_pages ?R' = root_pages ?R" unfolding root_pages_upd [OF w(1)] d root_pages_split [OF w(1)] ..
  then have ok': "roots_ok ?R'" using ok d(2) set_update_subset_insert [of ?R w "drop_slot n (?R ! w)"] by (auto simp: roots_ok_def)
  have fresh: "p \<notin> refs_of ?R'"
    unfolding w(3) by (rule slot_fresh [OF ok', of w]) (use w(1) d pg in simp_all)
  have "insert p (refs_of ?R') = refs_of ?R"
    unfolding refs_of_upd [OF w(1)] refs_of_split [OF w(1)] d w(3) using w(2) by blast
  then have "refs_of ?R' = refs_of ?R - {p}" using fresh by blast
  then show ?thesis using f rp ok' by blast
qed

end
