(* ===== verification/Kmalloc_Inv.thy ===== *)
theory Kmalloc_Inv
  imports Kmalloc_Roots
begin

text \<open>
  The invariant of the heap: its lists, its pages and its page references, and what the steps of the
  allocator do to it.
\<close>

subsection \<open>The invariant\<close>

abbreviation pgaddr :: "kheap \<Rightarrow> u32 \<Rightarrow> u32" where
  "pgaddr h p \<equiv> PR_PAGEADDR (refs h p)"

definition heap_pages :: "kheap \<Rightarrow> u32 list \<Rightarrow> u32 list" where
  "heap_pages h L = root_pages (kheaproots h) @ map (pgaddr h) L"

text \<open>\<open>L\<close> lists the page references, \<open>F\<close> gives the free blocks of each page.\<close>

definition heap_ok :: "(u32 \<Rightarrow> u32 list) \<Rightarrow> u32 list \<Rightarrow> kheap \<Rightarrow> bool" where
  "heap_ok F L h \<longleftrightarrow> roots_ok (kheaproots h) \<and> length (sizebases h) = NSIZES \<and> chain (nextA h) (allbase h) L \<and>
     (\<forall>b<NSIZES. chain (nextS h) (sizebases h ! b) (filter (\<lambda>p. btype (refs h p) = b) L)) \<and>
     (\<forall>p\<in>set L. page_ok (hmem h) (refs h p) (F p)) \<and> set L = refs_of (kheaproots h) \<and> distinct (heap_pages h L)"

lemma heap_okD:
  assumes "heap_ok F L h"
  shows "roots_ok (kheaproots h)" and "length (sizebases h) = 8" and "chain (nextA h) (allbase h) L"
    and "b < 8 \<Longrightarrow> chain (nextS h) (sizebases h ! b) (filter (\<lambda>p. btype (refs h p) = b) L)"
    and "p \<in> set L \<Longrightarrow> page_ok (hmem h) (refs h p) (F p)" and "set L = refs_of (kheaproots h)" and "distinct (heap_pages h L)"
    and "distinct L" and "0 \<notin> set L"
  using assms chain_distinct [of "nextA h" "allbase h" L] chain_nonzero [of "nextA h" "allbase h" L]
  by (simp_all add: heap_ok_def NSIZES_def)

lemma heap_pages_addr:
  assumes "heap_ok F L h" and "pg \<in> set (heap_pages h L)"
  shows "page_addr pg"
  using assms heap_okD(1,5) [OF assms(1)] page_okD(2) by (auto simp: heap_pages_def root_pages_def roots_ok_def root_ok_def)

text \<open>A block is live when it is not on the free list of its page.\<close>

definition live_in :: "(u32 \<Rightarrow> u32 list) \<Rightarrow> kheap \<Rightarrow> u32 \<Rightarrow> u32 set" where
  "live_in F h p = set (blocks (pgaddr h p) (btype (refs h p))) - set (F p)"

lemma blocks_disjoint:
  assumes "page_addr pg" and "page_addr pg'" and "b < 8" and "b' < 8" and "a \<in> set (blocks pg b)" and "a \<in> set (blocks pg' b')"
  shows "pg = pg'"
proof -
  note x = block_in_page [OF assms(1,3,5)] and y = block_in_page [OF assms(2,4,6)]
  have "unat pg + (unat a - unat pg) = unat pg' + (unat a - unat pg')" using x(1) y(1) by simp
  moreover have "unat a - unat pg < 4096" "unat a - unat pg' < 4096"
    using x(1) y(1) bsize_bounds [OF assms(3)] bsize_bounds [OF assms(4)] by linarith+
  ultimately have "unat pg = unat pg' \<and> unat a - unat pg = unat a - unat pg'"
    using assms(1,2) unfolding page_addr_def by (intro aligned_unique) blast+
  then show ?thesis by (simp add: word_unat_eq_iff)
qed

lemma pages_apart:
  assumes "heap_ok F L h" and "p \<in> set L" and "q \<in> set L" and "p \<noteq> q"
  shows "pgaddr h p \<noteq> pgaddr h q"
  using heap_okD(7) [OF assms(1)] assms(2-4) by (auto simp: heap_pages_def distinct_map inj_on_def)

lemma block_of_one_page:
  assumes ok: "heap_ok F L h" and "p \<in> set L" and "q \<in> set L"
    and "a \<in> set (blocks (pgaddr h p) (btype (refs h p)))" and "a \<in> set (blocks (pgaddr h q) (btype (refs h q)))"
  shows "p = q"
  using blocks_disjoint [OF page_okD(2) [OF heap_okD(5) [OF ok assms(2)]] page_okD(2) [OF heap_okD(5) [OF ok assms(3)]]
      page_okD(1) [OF heap_okD(5) [OF ok assms(2)]] page_okD(1) [OF heap_okD(5) [OF ok assms(3)]] assms(4,5)]
    pages_apart [OF ok assms(2,3)] by blast

text \<open>Blocks do not overlap: a block that starts within the bytes of another is that block.\<close>

lemma block_ranges:
  assumes ok: "heap_ok F L h" and p: "p \<in> set L" and q: "q \<in> set L"
    and a: "a \<in> set (blocks (pgaddr h p) (btype (refs h p)))" and x: "x \<in> set (blocks (pgaddr h q) (btype (refs h q)))"
    and r: "unat a \<le> unat x \<and> unat x < unat a + bsize (btype (refs h p))"
  shows "x = a"
proof -
  let ?r = "refs h p"
  note P = page_okD [OF heap_okD(5) [OF ok p]] and Q = page_okD [OF heap_okD(5) [OF ok q]]
  have "unat (PR_PAGEADDR ?r) \<le> unat x" "unat x < unat (PR_PAGEADDR ?r) + 4096" using r block_in_page(1) [OF P(2,1) a] by linarith+
  moreover have "unat (pgaddr h q) \<le> unat x" "unat x < unat (pgaddr h q) + 4096"
    using block_in_page(1) [OF Q(2,1) x] bsize_bounds [OF Q(1)] by linarith+
  ultimately have "unat (PR_PAGEADDR ?r) = unat (pgaddr h q) \<and> unat x - unat (PR_PAGEADDR ?r) = unat x - unat (pgaddr h q)"
    using P(2) Q(2) unfolding page_addr_def by (intro aligned_unique) simp_all
  then have "pgaddr h q = PR_PAGEADDR ?r" by (simp add: word_unat_eq_iff)
  then have "q = p" using pages_apart [OF ok q p] by blast
  then obtain i j where ij: "unat a = unat (PR_PAGEADDR ?r) + i * bsize (btype ?r)" "unat x = unat (PR_PAGEADDR ?r) + j * bsize (btype ?r)"
    using a x in_blocks [OF P(2,1)] by blast
  then have "i * bsize (btype ?r) \<le> j * bsize (btype ?r)" "j * bsize (btype ?r) < Suc i * bsize (btype ?r)" using r by simp_all
  then have "i = j" using bsize_bounds [OF P(1)] mult_less_cancel2 [of j "bsize (btype ?r)" "Suc i"] by auto
  then show "x = a" using ij by (simp add: word_unat_eq_iff)
qed

text \<open>A change that leaves links and packed addresses alone keeps everything but the free lists.\<close>

lemma heap_ok_upd:
  assumes "heap_ok F L h" and "kheaproots h' = kheaproots h" and "sizebases h' = sizebases h" and "allbase h' = allbase h"
    and "\<And>q. nextS h' q = nextS h q" and "\<And>q. nextA h' q = nextA h q" and "\<And>q. pageaddr_and_blocktype (refs h' q) = pageaddr_and_blocktype (refs h q)"
    and "\<And>q. q \<in> set L \<Longrightarrow> page_ok (hmem h') (refs h' q) (F' q)"
  shows "heap_ok F' L h'" and "heap_pages h' L = heap_pages h L"
proof -
  have "PR_BLOCKTYPE (refs h' q) = PR_BLOCKTYPE (refs h q)" and a: "PR_PAGEADDR (refs h' q) = PR_PAGEADDR (refs h q)" for q
    using assms(7) by (simp_all add: PR_BLOCKTYPE_def PR_PAGEADDR_def)
  moreover show "heap_pages h' L = heap_pages h L" using a assms(2) by (simp add: heap_pages_def)
  ultimately show "heap_ok F' L h'" using assms by (simp add: heap_ok_def)
qed

subsection \<open>Finding a page\<close>

lemma nfree_iff: "page_ok m r xs \<Longrightarrow> nfree r > 0 \<longleftrightarrow> xs \<noteq> []"
proof -
  assume "page_ok m r xs"
  then have "unat (nfree r) = length xs" by (simp add: page_ok_def)
  then show ?thesis by (simp add: word_less_nat_alt)
qed

lemma btype_eq: "b < 8 \<Longrightarrow> btype r = b \<longleftrightarrow> PR_BLOCKTYPE r = of_nat b"
  by (simp add: word_unat_eq_iff unat_of_nat_u32)

lemma find_page_ok:
  assumes ok: "heap_ok F L h" and b: "b < 8"
  shows "find_page b h = Inr 0 \<or> (\<exists>p\<in>set L. btype (refs h p) = b \<and> F p \<noteq> [] \<and> p \<noteq> 0 \<and> find_page b h = Inr p)"
proof -
  let ?xs = "filter (\<lambda>p. btype (refs h p) = b) L"
  let ?f = "\<lambda>p. if PR_BLOCKTYPE (refs h p) \<noteq> of_nat b then Some (Inl KAssertFail) else if nfree (refs h p) > 0 then Some (Inr p) else None :: u32 res option"
  note w = walk_chain [OF heap_okD(4) [OF ok b], of ?f]
  show ?thesis
  proof (cases "find (\<lambda>x. ?f x \<noteq> None) ?xs")
    case None
    then show ?thesis using w by (simp add: find_page_def)
  next
    case (Some p)
    then have p: "p \<in> set L" "btype (refs h p) = b" "?f p \<noteq> None" by (auto simp: find_Some_iff dest: nth_mem)
    then have "PR_BLOCKTYPE (refs h p) = of_nat b" using btype_eq [OF b] by blast
    then have "nfree (refs h p) > 0" "?f p = Some (Inr p)" using p(3) by (auto split: if_splits)
    moreover have "p \<noteq> 0" using p(1) heap_okD(9) [OF ok] by blast
    ultimately show ?thesis using w Some p nfree_iff [OF heap_okD(5) [OF ok p(1)]] by (auto simp: find_page_def)
  qed
qed

lemma in_page_iff:
  assumes "page_addr pg"
  shows "a \<ge> pg \<and> a < pg + PAGE_SIZE \<longleftrightarrow> unat pg \<le> unat a \<and> unat a < unat pg + 4096"
proof -
  have "unat (pg + PAGE_SIZE) = unat pg + 4096" using assms by (simp add: unat_add_u32_le page_addr_def PAGE_SIZE_def)
  then show ?thesis by (simp add: word_less_nat_alt word_le_nat_alt)
qed

lemma find_pageref_ok:
  assumes ok: "heap_ok F L h"
  shows "(\<forall>p\<in>set L. \<not> (unat (pgaddr h p) \<le> unat a \<and> unat a < unat (pgaddr h p) + 4096)) \<and> find_pageref a h = Inr 0 \<or>
    (\<exists>p\<in>set L. unat (pgaddr h p) \<le> unat a \<and> unat a < unat (pgaddr h p) + 4096 \<and> p \<noteq> 0 \<and> find_pageref a h = Inr p)"
proof -
  let ?f = "\<lambda>p. let prpage = pgaddr h p in
      if \<not> PR_BLOCKTYPE (refs h p) < of_nat NSIZES then Some (Inl KAssertFail)
      else if a \<ge> prpage \<and> a < prpage + PAGE_SIZE then Some (Inr p) else None :: u32 res option"
  have f: "?f p = (if unat (pgaddr h p) \<le> unat a \<and> unat a < unat (pgaddr h p) + 4096 then Some (Inr p) else None)" if "p \<in> set L" for p
    using page_okD(1,2) [OF heap_okD(5) [OF ok that]] in_page_iff [of "pgaddr h p" a] by (simp add: Let_def word_less_nat_alt NSIZES_def)
  note w = walk_chain [OF heap_okD(3) [OF ok], of ?f]
  show ?thesis
  proof (cases "find (\<lambda>x. ?f x \<noteq> None) L")
    case None
    then have "?f p = None" if "p \<in> set L" for p using that by (auto simp: find_None_iff)
    then have "\<forall>p\<in>set L. \<not> (unat (pgaddr h p) \<le> unat a \<and> unat a < unat (pgaddr h p) + 4096)" using f by fastforce
    moreover have "find_pageref a h = Inr 0" using w None by (simp add: find_pageref_def)
    ultimately show ?thesis by blast
  next
    case (Some p)
    then have p: "p \<in> set L" "?f p \<noteq> None" by (auto simp: find_Some_iff dest: nth_mem)
    then have e: "unat (pgaddr h p) \<le> unat a \<and> unat a < unat (pgaddr h p) + 4096" "?f p = Some (Inr p)" using f [OF p(1)] by (auto split: if_splits)
    moreover have "find_pageref a h = Inr p" using w Some e(2) by (simp add: find_pageref_def)
    moreover have "p \<noteq> 0" using p(1) heap_okD(9) [OF ok] by blast
    ultimately show ?thesis using p(1) by blast
  qed
qed

subsection \<open>Taking a block\<close>

text \<open>The pages and the live blocks of the pages in \<open>S\<close> are the same in two heaps.\<close>

definition same_pages :: "kheap \<Rightarrow> kheap \<Rightarrow> u32 set \<Rightarrow> bool" where
  "same_pages h h' S \<longleftrightarrow> (\<forall>p\<in>S. pageaddr_and_blocktype (refs h' p) = pageaddr_and_blocktype (refs h p))"

lemma same_pagesD:
  assumes "same_pages h h' S" and "p \<in> S"
  shows "pgaddr h' p = pgaddr h p" and "btype (refs h' p) = btype (refs h p)" and "live_in F h' p = live_in F h p"
  using assms by (simp_all add: same_pages_def live_in_def PR_PAGEADDR_def PR_BLOCKTYPE_def)

lemma heap_doalloc:
  assumes ok: "heap_ok F L h" and p: "p \<in> set L" and F: "F p = y # ys"
  shows "\<exists>h'. doalloc p h = Inr (y, h') \<and> heap_ok (F(p := ys)) L h' \<and> heap_pages h' L = heap_pages h L \<and> hmem h' = hmem h \<and>
    same_pages h h' UNIV"
proof -
  have "page_ok (hmem h) (refs h p) (y # ys)" using heap_okD(5) [OF ok p] F by simp
  from doalloc_ok [OF this] obtain r where d: "doalloc p h = Inr (y, h\<lparr>refs := (refs h)(p := r)\<rparr>)" "page_ok (hmem h) r ys"
    "pageaddr_and_blocktype r = pageaddr_and_blocktype (refs h p)" "next_samesize r = next_samesize (refs h p)" "next_all r = next_all (refs h p)" by blast
  let ?h = "h\<lparr>refs := (refs h)(p := r)\<rparr>"
  have pg: "page_ok (hmem ?h) (refs ?h q) ((F(p := ys)) q)" if "q \<in> set L" for q using d(2) heap_okD(5) [OF ok that] by simp
  have h: "heap_ok (F(p := ys)) L ?h" "heap_pages ?h L = heap_pages h L"
    using heap_ok_upd [OF ok, of ?h "F(p := ys)"] pg d(3-5) by simp_all
  show ?thesis by (intro exI [of _ ?h] conjI d(1) h) (use d(3) in \<open>simp_all add: same_pages_def\<close>)
qed

subsection \<open>Adding a page\<close>

lemma heap_new_page:
  assumes ok: "heap_ok F L h" and b: "b < 8" and R: "roots_ok R" "refs_of R = insert pr (set L)" "pr \<notin> set L" "pr \<noteq> 0"
    and pg: "page_addr pg" and d: "distinct (root_pages R @ pg # map (pgaddr h) L)"
  shows "\<exists>h'. new_page b pg pr (h\<lparr>kheaproots := R\<rparr>) = Inr h' \<and> heap_ok (F(pr := rev (blocks pg b))) (pr # L) h' \<and>
    heap_pages h' (pr # L) = root_pages R @ pg # map (pgaddr h) L \<and> same_pages h h' (set L) \<and>
    pgaddr h' pr = pg \<and> btype (refs h' pr) = b \<and> (\<forall>a. a \<notin> set (blocks pg b) \<longrightarrow> hmem h' a = hmem h a)"
proof -
  obtain h' r where n: "new_page b pg pr (h\<lparr>kheaproots := R\<rparr>) = Inr h'" "refs h' = (refs h)(pr := r)" "page_ok (hmem h') r (rev (blocks pg b))"
    "PR_PAGEADDR r = pg" "PR_BLOCKTYPE r = of_nat b" "next_samesize r = sizebases h ! b" "next_all r = allbase h"
    "sizebases h' = (sizebases h)[b := pr]" "allbase h' = pr" "kheaproots h' = R" "\<forall>a. a \<notin> set (blocks pg b) \<longrightarrow> hmem h' a = hmem h a"
    using new_page_ok [OF pg b, of pr "h\<lparr>kheaproots := R\<rparr>"] by auto
  have bt: "btype r = b" using btype_eq [OF b] n(5) by blast
  have old: "refs h' q = refs h q" if "q \<in> set L" for q using n(2) that R(3) by auto
  have "chain (nextA h') (allbase h) L"
    using chain_cong [of L "nextA h'" "nextA h"] old heap_okD(3) [OF ok] by simp
  then have cA: "chain (nextA h') (allbase h') (pr # L)" using n(2,7,9) R(4) by simp
  have cS: "chain (nextS h') (sizebases h' ! c) (filter (\<lambda>p. btype (refs h' p) = c) (pr # L))" if c: "c < 8" for c
  proof -
    let ?xs = "filter (\<lambda>p. btype (refs h p) = c) L"
    have f: "filter (\<lambda>p. btype (refs h' p) = c) L = ?xs" using old by (intro filter_cong) simp_all
    have "chain (nextS h') (sizebases h ! c) ?xs"
      using chain_cong [of ?xs "nextS h'" "nextS h"] old heap_okD(4) [OF ok c] by simp
    then show ?thesis using f c b bt n(2,6,8) R(4) heap_okD(2) [OF ok] by (cases "c = b") simp_all
  qed
  have pgs: "page_ok (hmem h') (refs h' q) ((F(pr := rev (blocks pg b))) q)" if q: "q \<in> set (pr # L)" for q
  proof (cases "q = pr")
    case True
    then show ?thesis using n(2,3) by simp
  next
    case False
    then have qL: "q \<in> set L" using q by simp
    note ok_q = heap_okD(5) [OF ok qL]
    have "pgaddr h q \<noteq> pg" using d qL by auto
    then have "a \<notin> set (blocks pg b)" if "a \<in> set (F q)" for a
      using blocks_disjoint [OF page_okD(2) [OF ok_q] pg page_okD(1) [OF ok_q] b] page_okD(5) [OF ok_q] that by blast
    then have "page_ok (hmem h') (refs h q) (F q)" using page_ok_cong [OF ok_q] n(11) by blast
    then show ?thesis using False old [OF qL] by simp
  qed
  have hp: "heap_pages h' (pr # L) = root_pages R @ pg # map (pgaddr h) L"
    using old n(2,4,10) by (simp add: heap_pages_def)
  have "heap_ok (F(pr := rev (blocks pg b))) (pr # L) h'"
    unfolding heap_ok_def hp n(10) NSIZES_def using R(1,2) cA cS pgs d heap_okD(2) [OF ok] n(8) by simp
  then show ?thesis using n(1,2,4,11) bt hp old by (intro exI [of _ h']) (simp add: same_pages_def)
qed

subsection \<open>Giving a block back\<close>

text \<open>The heap after a block has been put on the free list of its page.\<close>

definition pushed :: "u32 \<Rightarrow> u32 \<Rightarrow> kheap \<Rightarrow> kheap" where
  "pushed p a h =
     (let r = refs h p in
      h\<lparr>hmem := (fill_deadbeef a (sizes ! btype r) (hmem h))(a := freehead r),
        refs := (refs h)(p := r\<lparr>freelist_offset := ucast (a - PR_PAGEADDR r), nfree := nfree r + 1\<rparr>)\<rparr>)"

lemma heap_push:
  assumes ok: "heap_ok F L h" and p: "p \<in> set L" and a: "a \<in> live_in F h p"
  shows "heap_ok (F(p := a # F p)) L (pushed p a h)" and "heap_pages (pushed p a h) L = heap_pages h L" and "same_pages h (pushed p a h) UNIV"
    and "unat (nfree (refs (pushed p a h) p)) = Suc (length (F p))" and "Suc (length (F p)) \<le> nblocks (btype (refs h p))"
    and "\<not> (unat a \<le> unat x \<and> unat x < unat a + bsize (btype (refs h p))) \<Longrightarrow> hmem (pushed p a h) x = hmem h x"
proof -
  let ?r = "refs h p" and ?h = "pushed p a h"
  note okp = heap_okD(5) [OF ok p]
  note P = page_okD [OF okp]
  have ab: "a \<in> set (blocks (PR_PAGEADDR ?r) (btype ?r))" "a \<notin> set (F p)" using a by (simp_all add: live_in_def)
  note bp = block_in_page [OF P(2,1) ab(1)]
  have top: "unat a + bsize (btype ?r) \<le> 4294967296" using bp(1) P(2) by (simp add: page_addr_def)
  show m: "hmem ?h x = hmem h x" if "\<not> (unat a \<le> unat x \<and> unat x < unat a + bsize (btype ?r))" for x
  proof -
    have "x \<noteq> a" using that bsize_bounds [OF P(1)] by auto
    then show ?thesis using fill_deadbeef_frame [OF P(1) top that] by (simp add: pushed_def Let_def)
  qed
  have other: "hmem ?h x = hmem h x" if "q \<in> set L" and "x \<in> set (blocks (pgaddr h q) (btype (refs h q)))" and "x \<noteq> a" for x q
    using m [of x] block_ranges [OF ok p that(1) ab(1) that(2)] that(3) by blast
  have hd: "hmem ?h a = freehead ?r" by (simp add: pushed_def Let_def)
  have "hmem ?h x = hmem h x" if "x \<in> set (F p)" for x using other [OF p, of x] P(5) ab(2) that by blast
  note push = page_ok_push [OF okp ab hd this refl]
  have rp: "refs ?h p = ?r\<lparr>freelist_offset := ucast (a - PR_PAGEADDR ?r), nfree := nfree ?r + 1\<rparr>" by (simp add: pushed_def Let_def)
  show "unat (nfree (refs ?h p)) = Suc (length (F p))" "Suc (length (F p)) \<le> nblocks (btype ?r)" using push(2,3) unfolding rp by simp_all
  have pgs: "page_ok (hmem ?h) (refs ?h q) ((F(p := a # F p)) q)" if q: "q \<in> set L" for q
  proof (cases "q = p")
    case True
    then show ?thesis using push(1) rp by simp
  next
    case False
    have "hmem ?h x = hmem h x" if "x \<in> set (F q)" for x
    proof (rule other [OF q])
      show "x \<in> set (blocks (pgaddr h q) (btype (refs h q)))" using page_okD(5) [OF heap_okD(5) [OF ok q]] that by blast
      then show "x \<noteq> a" using block_of_one_page [OF ok p q ab(1)] False by blast
    qed
    then have "page_ok (hmem ?h) (refs h q) (F q)" by (rule page_ok_cong [OF heap_okD(5) [OF ok q]])
    then show ?thesis using False by (simp add: pushed_def Let_def)
  qed
  have f: "kheaproots ?h = kheaproots h" "sizebases ?h = sizebases h" "allbase ?h = allbase h" "nextS ?h q = nextS h q" "nextA ?h q = nextA h q"
    "pageaddr_and_blocktype (refs ?h q) = pageaddr_and_blocktype (refs h q)" for q by (simp_all add: pushed_def Let_def)
  show "heap_ok (F(p := a # F p)) L ?h" "heap_pages ?h L = heap_pages h L" by (rule heap_ok_upd [OF ok f pgs]; assumption)+
  show "same_pages h ?h UNIV" by (simp add: same_pages_def pushed_def Let_def)
qed

subsection \<open>Removing a page\<close>

lemma remove_lists_ok:
  assumes ok: "heap_ok F L h" and p: "p \<in> set L"
  shows "\<exists>h'. remove_lists p (btype (refs h p)) h = Inr h' \<and> same_refs h h' \<and> length (sizebases h') = 8 \<and>
    chain (nextA h') (allbase h') (remove1 p L) \<and>
    (\<forall>c<8. chain (nextS h') (sizebases h' ! c) (filter (\<lambda>q. btype (refs h q) = c) (remove1 p L)))"
proof -
  let ?b = "btype (refs h p)"
  let ?xs = "\<lambda>c. filter (\<lambda>q. btype (refs h q) = c) L"
  have b: "?b < 8" using page_okD(1) [OF heap_okD(5) [OF ok p]] .
  have "p \<in> set (?xs ?b)" using p by simp
  then obtain h1 where u: "unlink_samesize p ?b h = Inr h1" "same_refs h h1" "allbase h1 = allbase h" "nextA h1 = nextA h"
    "chain (nextS h1) (sizebases h1 ! ?b) (remove1 p (?xs ?b))" "\<forall>c. c \<noteq> ?b \<longrightarrow> sizebases h1 ! c = sizebases h ! c"
    "length (sizebases h1) = length (sizebases h)" "\<forall>q. q \<notin> set (?xs ?b) \<longrightarrow> nextS h1 q = nextS h q"
    using unlink_samesize_ok [OF heap_okD(4) [OF ok b], of p] b heap_okD(2) [OF ok] by auto
  have "chain (nextA h1) (allbase h1) L" using u(3,4) heap_okD(3) [OF ok] by simp
  from unlink_all_ok [OF this p] obtain h2 where w: "unlink_all p h1 = Inr h2" "same_refs h1 h2" "sizebases h2 = sizebases h1" "nextS h2 = nextS h1"
    "chain (nextA h2) (allbase h2) (remove1 p L)" by blast
  have "chain (nextS h2) (sizebases h2 ! c) (filter (\<lambda>q. btype (refs h q) = c) (remove1 p L))" if c: "c < 8" for c
  proof (cases "c = ?b")
    case True
    then show ?thesis using u(5) unfolding w(3,4) by (simp add: filter_remove1)
  next
    case False
    then have e: "filter (\<lambda>q. btype (refs h q) = c) (remove1 p L) = ?xs c" by (simp add: filter_remove1 remove1_idem)
    have "nextS h1 q = nextS h q" if "q \<in> set (?xs c)" for q using u(8) that False by auto
    then have "chain (nextS h1) (sizebases h1 ! c) (?xs c)"
      using heap_okD(4) [OF ok c] u(6) False chain_cong [of "?xs c" "nextS h1" "nextS h"] by simp
    then show ?thesis unfolding w(3,4) e .
  qed
  moreover have "remove_lists p ?b h = Inr h2" using u(1) w(1) b by (simp add: remove_lists_def NSIZES_def)
  moreover have "same_refs h h2" using u(2) w(2) by (simp add: same_refs_def)
  ultimately show ?thesis using w(3,5) u(7) heap_okD(2) [OF ok] by auto
qed

lemma Un_Diff_fresh: "C = B - {x} \<Longrightarrow> x \<notin> A \<Longrightarrow> A \<union> C = (A \<union> B) - {x}"
  by blast

lemma heap_release:
  assumes ok: "heap_ok F L h" and p: "p \<in> set L"
  shows "\<exists>h2 h3. remove_lists p (btype (refs h p)) h = Inr h2 \<and> freepageref p h2 = Inr h3 \<and> heap_ok F (remove1 p L) h3 \<and>
    set (heap_pages h3 (remove1 p L)) = set (heap_pages h L) - {pgaddr h p} \<and> hmem h3 = hmem h \<and> same_pages h h3 UNIV"
proof -
  obtain h2 where r: "remove_lists p (btype (refs h p)) h = Inr h2" "same_refs h h2" "length (sizebases h2) = 8"
    "chain (nextA h2) (allbase h2) (remove1 p L)"
    "\<forall>c<8. chain (nextS h2) (sizebases h2 ! c) (filter (\<lambda>q. btype (refs h q) = c) (remove1 p L))"
    using remove_lists_ok [OF ok p] by blast
  have k: "kheaproots h2 = kheaproots h" "hmem h2 = hmem h" using r(2) by (simp_all add: same_refs_def)
  have "p \<in> refs_of (kheaproots h2)" "roots_ok (kheaproots h2)" using p heap_okD(1,6) [OF ok] k by simp_all
  from freepageref_ok [OF this(2,1)] obtain R where f: "freepageref p h2 = Inr (h2\<lparr>kheaproots := R\<rparr>)" "roots_ok R" "root_pages R = root_pages (kheaproots h)"
    "refs_of R = refs_of (kheaproots h) - {p}" using k by auto
  let ?h = "h2\<lparr>kheaproots := R\<rparr>" and ?L = "remove1 p L"
  have pr: "pageaddr_and_blocktype (refs ?h q) = pageaddr_and_blocktype (refs h q)" for q using r(2) by (simp add: same_refs_def)
  then have sp: "same_pages h ?h UNIV" by (simp add: same_pages_def)
  have bt: "btype (refs ?h q) = btype (refs h q)" "pgaddr ?h q = pgaddr h q" for q using same_pagesD [OF sp, of q] by simp_all
  note d = heap_okD(8) [OF ok] and dp = heap_okD(7) [OF ok]
  have sL: "set ?L = set L - {p}" using d by (simp add: set_remove1_eq)
  have hp: "heap_pages ?h ?L = root_pages (kheaproots h) @ map (pgaddr h) ?L" using f(3) bt(2) by (simp add: heap_pages_def)
  have dm: "distinct (map (pgaddr h) L)" "set (root_pages (kheaproots h)) \<inter> pgaddr h ` set L = {}" "distinct (root_pages (kheaproots h))"
    using dp by (auto simp: heap_pages_def)
  have inj: "inj_on (pgaddr h) (set L)" using dm(1) by (simp add: distinct_map)
  have pgs: "page_ok (hmem ?h) (refs ?h q) (F q)" if "q \<in> set ?L" for q
    using page_ok_ext [OF heap_okD(5) [OF ok]] that sL r(2) k by (simp add: same_refs_def)
  have dist: "distinct (heap_pages ?h ?L)"
    unfolding hp using dm inj d sL by (auto simp: distinct_map intro: inj_on_subset)
  have ok': "heap_ok F ?L ?h"
    unfolding heap_ok_def NSIZES_def
  proof (intro conjI)
    show "\<forall>b<8. chain (nextS ?h) (sizebases ?h ! b) (filter (\<lambda>q. btype (refs ?h q) = b) ?L)"
      unfolding bt(1) using r(5) by simp
    show "set ?L = refs_of (kheaproots ?h)" unfolding sL using f(4) heap_okD(6) [OF ok] by simp
    show "\<forall>q\<in>set ?L. page_ok (hmem ?h) (refs ?h q) (F q)" using pgs by blast
    show "length (sizebases ?h) = 8" "chain (nextA ?h) (allbase ?h) ?L" using r(3,4) by simp_all
    show "roots_ok (kheaproots ?h)" using f(2) by simp
    show "distinct (heap_pages ?h ?L)" by (rule dist)
  qed
  have set: "set (heap_pages ?h ?L) = set (heap_pages h L) - {pgaddr h p}"
  proof -
    have "pgaddr h ` (set L - {p}) = pgaddr h ` set L - {pgaddr h p}" using inj_on_image_set_diff [OF inj, of "set L" "{p}"] p by simp
    moreover have "pgaddr h p \<notin> set (root_pages (kheaproots h))" using dm(2) p by blast
    ultimately show ?thesis unfolding hp unfolding heap_pages_def set_append set_map sL by (intro Un_Diff_fresh)
  qed
  show ?thesis by (intro exI [of _ h2] exI [of _ ?h] conjI r(1) f(1) ok' set sp) (use k in simp)
qed

subsection \<open>Freeing a small block\<close>

lemma live_find_pageref:
  assumes ok: "heap_ok F L h" and p: "p \<in> set L" and a: "a \<in> live_in F h p"
  shows "find_pageref a h = Inr p" and "p \<noteq> 0"
proof -
  note P = page_okD [OF heap_okD(5) [OF ok p]]
  have ab: "a \<in> set (blocks (pgaddr h p) (btype (refs h p)))" using a by (simp add: live_in_def)
  have in_p: "unat (pgaddr h p) \<le> unat a" "unat a < unat (pgaddr h p) + 4096"
    using block_in_page(1) [OF P(2,1) ab] bsize_bounds [OF P(1)] by linarith+
  show "p \<noteq> 0" using p heap_okD(9) [OF ok] by blast
  have "q = p" if q: "q \<in> set L" "unat (pgaddr h q) \<le> unat a" "unat a < unat (pgaddr h q) + 4096" for q
  proof -
    have "unat (pgaddr h q) = unat (pgaddr h p) \<and> unat a - unat (pgaddr h q) = unat a - unat (pgaddr h p)"
      using P(2) page_okD(2) [OF heap_okD(5) [OF ok q(1)]] q(2,3) in_p unfolding page_addr_def by (intro aligned_unique) simp_all
    then have "pgaddr h q = pgaddr h p" by (simp add: word_unat_eq_iff)
    then show ?thesis using pages_apart [OF ok q(1) p] by blast
  qed
  then show "find_pageref a h = Inr p" using find_pageref_ok [OF ok, of a] p in_p by blast
qed

lemma subpage_kfree_live:
  assumes ok: "heap_ok F L h" and p: "p \<in> set L" and a: "a \<in> live_in F h p"
  shows "subpage_kfree fr a h v =
    (if Suc (length (F p)) = nblocks (btype (refs h p)) then
       rbind (remove_lists p (btype (refs h p)) (pushed p a h)) (\<lambda>h2.
       rbind (freepageref p h2) (\<lambda>h3. rbind (fr (pgaddr h p) v) (\<lambda>v1. Inr (0, h3, v1))))
     else Inr (0, pushed p a h, v))"
proof -
  let ?r = "refs h p" and ?b = "btype (refs h p)"
  note okp = heap_okD(5) [OF ok p]
  note P = page_okD [OF okp]
  have ab: "a \<in> set (blocks (pgaddr h p) ?b)" "a \<notin> set (F p)" using a by (simp_all add: live_in_def)
  note B = block_in_page [OF P(2,1) ab(1)]
  note push = heap_push [OF ok p a]
  have n: "unat (nfree ?r + 1) = Suc (length (F p))" using push(4) by (simp add: pushed_def Let_def)
  have le: "Suc (length (F p)) \<le> nblocks ?b" "nblocks ?b \<le> 256" using push(5) bsize_bounds [OF P(1)] by simp_all
  have u: "unat (of_nat (nblocks ?b) :: u32) = nblocks ?b" using le(2) by (simp add: unat_of_nat_u32)
  have un: "unat (ucast (nfree ?r + 1) :: u32) = Suc (length (F p))"
    using n le by (simp add: unsigned_ucast_eq take_bit_eq_mod unat_mod)
  have c1: "ucast (nfree ?r + 1) \<le> PAGE_SIZE div sizes ! ?b" unfolding nblocks_word [OF P(1)] word_le_nat_alt u un using le by simp
  have c2: "ucast (nfree ?r + 1) = PAGE_SIZE div sizes ! ?b \<longleftrightarrow> Suc (length (F p)) = nblocks ?b"
    unfolding nblocks_word [OF P(1)] word_unat_eq_iff u un ..
  have hd: "\<not> (freelist_offset ?r \<noteq> INVALID_OFFSET \<and> a = freehead ?r)"
  proof
    assume "freelist_offset ?r \<noteq> INVALID_OFFSET \<and> a = freehead ?r"
    then have "chain (hmem h) a (F p)" using P(3) by simp
    then have "a \<in> set (F p)" using B(2) by (cases "F p") auto
    with ab(2) show False by simp
  qed
  have fh: "(if freelist_offset ?r = INVALID_OFFSET then 0 else PR_PAGEADDR ?r + ucast (freelist_offset ?r)) = freehead ?r" by (simp add: freehead_def)
  have e: "PR_PAGEADDR ?r + (a - PR_PAGEADDR ?r) = a" by simp
  have pu: "h\<lparr>hmem := (fill_deadbeef a (sizes ! ?b) (hmem h))(a := freehead ?r),
      refs := (refs h)(p := ?r\<lparr>freelist_offset := ucast (a - PR_PAGEADDR ?r), nfree := nfree ?r + 1\<rparr>)\<rparr> = pushed p a h" by (simp add: pushed_def Let_def)
  have off: "\<not> (a - pgaddr h p \<ge> PAGE_SIZE \<or> (a - pgaddr h p) mod sizes ! ?b \<noteq> 0)" using B(3,5) by (simp add: not_le)
  show ?thesis
    unfolding subpage_kfree_def live_find_pageref(1) [OF ok p a] rbind_simps Let_def if_not_P [OF live_find_pageref(2) [OF ok p a]]
      if_not_P [OF off] e fh if_not_P [OF hd] pu using c1 c2 by simp
qed

end
