(* ===== verification/Kmalloc_Source.thy ===== *)
theory Kmalloc_Source
  imports Kmalloc_Inv
begin

text \<open>
  The interface between the heap and the allocator of whole pages, the invariant of the heap together with
  the blocks its clients hold, and that every operation keeps it.
\<close>

subsection \<open>The page allocator\<close>

definition block_addr :: "u32 \<Rightarrow> nat \<Rightarrow> bool" where
  "block_addr a n \<longleftrightarrow> unat a mod 4096 = 0 \<and> 0x80000000 \<le> unat a \<and> unat a + 4096 * n \<le> 0xa0000000"

definition apart :: "u32 \<Rightarrow> nat \<Rightarrow> u32 \<Rightarrow> nat \<Rightarrow> bool" where
  "apart a n b k \<longleftrightarrow> unat a + 4096 * n \<le> unat b \<or> unat b + 4096 * k \<le> unat a"

lemma apart_sym: "apart a n b k \<Longrightarrow> apart b k a n"
  by (auto simp: apart_def)

lemma not_apart_self: "0 < n \<Longrightarrow> 0 < k \<Longrightarrow> \<not> apart a n a k"
  by (simp add: apart_def)

lemma page_addr_block: "page_addr a \<longleftrightarrow> block_addr a 1"
  by (simp add: page_addr_def block_addr_def)

text \<open>
  \<open>held v a n\<close>: the block of \<open>n\<close> pages at \<open>a\<close> has been handed out. A new block is apart from every block
  that is held, and a block that is held can be released.
\<close>

locale page_source =
  fixes al :: "u32 \<Rightarrow> 'v \<Rightarrow> (u32 \<times> 'v) res" and fr :: "u32 \<Rightarrow> 'v \<Rightarrow> 'v res"
    and vok :: "'v \<Rightarrow> bool" and held :: "'v \<Rightarrow> u32 \<Rightarrow> nat \<Rightarrow> bool"
  assumes alloc: "vok v \<Longrightarrow> 0 < unat n \<Longrightarrow> al n v = Inr (a, v') \<Longrightarrow>
      vok v' \<and> block_addr a (unat n) \<and> held v' a (unat n) \<and> (\<forall>b k. held v b k \<longrightarrow> held v' b k \<and> apart a (unat n) b k)"
    and release: "vok v \<Longrightarrow> held v a j \<Longrightarrow> 0 < j \<Longrightarrow> block_addr a j \<Longrightarrow>
      \<exists>v'. fr a v = Inr v' \<and> vok v' \<and> (\<forall>b k. held v b k \<and> apart a j b k \<longrightarrow> held v' b k)"

subsection \<open>Blocks in use\<close>

definition npages :: "u32 \<Rightarrow> nat" where
  "npages sz = unat ((sz + PAGE_SIZE - 1) div PAGE_SIZE)"

lemma npages_bound:
  assumes "unat sz \<le> 4294963200" and "2048 \<le> sz"
  shows "unat sz \<le> 4096 * npages sz" and "0 < npages sz"
proof -
  have e: "sz + PAGE_SIZE - 1 = sz + 4095" by (simp add: PAGE_SIZE_def)
  have "unat (sz + 4095) = unat sz + unat (4095 :: u32)" using assms(1) by (intro unat_add_u32_le) simp
  then have "unat (sz + PAGE_SIZE - 1) = unat sz + 4095" unfolding e by simp
  then have n: "npages sz = (unat sz + 4095) div 4096" by (simp add: npages_def unat_div PAGE_SIZE_def)
  have "unat sz + 4095 < 4096 + 4096 * npages sz" unfolding n by (rule dividend_less_times_div) simp
  then show "unat sz \<le> 4096 * npages sz" by simp
  then show "0 < npages sz" using assms(2) by (cases "npages sz") (simp_all add: word_le_nat_alt)
qed

text \<open>The blocks of whole pages the heap has: its own pages and the large blocks of its clients.\<close>

definition owned :: "kheap \<Rightarrow> u32 list \<Rightarrow> (u32 \<rightharpoonup> u32) \<Rightarrow> (u32 \<times> nat) set" where
  "owned h L B = (\<lambda>pg. (pg, 1)) ` set (heap_pages h L) \<union> {(a, npages sz) | a sz. B a = Some sz \<and> 2048 \<le> sz}"

lemma in_owned: "(x, n) \<in> owned h L B \<longleftrightarrow> n = 1 \<and> x \<in> set (heap_pages h L) \<or> (\<exists>sz. B x = Some sz \<and> 2048 \<le> sz \<and> n = npages sz)"
  by (auto simp: owned_def)

lemma owned_eqI: "(\<And>x n. (x, n) \<in> X \<longleftrightarrow> (x, n) \<in> Y) \<Longrightarrow> X = (Y :: (u32 \<times> nat) set)"
  by auto

definition held_all :: "('v \<Rightarrow> u32 \<Rightarrow> nat \<Rightarrow> bool) \<Rightarrow> (u32 \<times> nat) set \<Rightarrow> 'v \<Rightarrow> bool" where
  "held_all held X v \<longleftrightarrow> (\<forall>(a, n)\<in>X. held v a n \<and> block_addr a n \<and> 0 < n) \<and>
     (\<forall>x\<in>X. \<forall>y\<in>X. x \<noteq> y \<longrightarrow> apart (fst x) (snd x) (fst y) (snd y))"

text \<open>\<open>B\<close> gives the size that was asked for each block a client holds.\<close>

definition blocks_match :: "(u32 \<rightharpoonup> u32) \<Rightarrow> (u32 \<Rightarrow> u32 list) \<Rightarrow> u32 list \<Rightarrow> kheap \<Rightarrow> bool" where
  "blocks_match B F L h \<longleftrightarrow>
     (\<forall>p\<in>set L. \<forall>a\<in>live_in F h p. \<exists>sz. B a = Some sz \<and> sz < 2048 \<and> sz \<le> sizes ! btype (refs h p)) \<and>
     (\<forall>a sz. B a = Some sz \<and> sz < 2048 \<longrightarrow> (\<exists>p\<in>set L. a \<in> live_in F h p)) \<and>
     (\<forall>a sz. B a = Some sz \<and> 2048 \<le> sz \<longrightarrow> unat sz \<le> 4096 * npages sz \<and> a \<notin> set (heap_pages h L))"

definition heap_inv :: "('v \<Rightarrow> bool) \<Rightarrow> ('v \<Rightarrow> u32 \<Rightarrow> nat \<Rightarrow> bool) \<Rightarrow> (u32 \<rightharpoonup> u32) \<Rightarrow> (u32 \<Rightarrow> u32 list) \<Rightarrow> u32 list \<Rightarrow> kheap \<Rightarrow> 'v \<Rightarrow> bool" where
  "heap_inv vok held B F L h v \<longleftrightarrow> heap_ok F L h \<and> vok v \<and> held_all held (owned h L B) v \<and> blocks_match B F L h"

text \<open>The words of the blocks in use.\<close>

definition in_use :: "(u32 \<rightharpoonup> u32) \<Rightarrow> u32 set" where
  "in_use B = {x. \<exists>a sz. B a = Some sz \<and> unat a \<le> unat x \<and> unat x < unat a + unat sz}"

lemma held_allD: "held_all held X v \<Longrightarrow> (a, n) \<in> X \<Longrightarrow> held v a n \<and> block_addr a n \<and> 0 < n"
  by (auto simp: held_all_def)

lemma held_all_apart: "held_all held X v \<Longrightarrow> (a, n) \<in> X \<Longrightarrow> (b, k) \<in> X \<Longrightarrow> (a, n) \<noteq> (b, k) \<Longrightarrow> apart a n b k"
  by (fastforce simp: held_all_def)

lemma held_all_insert:
  assumes "held_all held X v" and "held v a n" and "block_addr a n" and "0 < n" and "\<And>b k. (b, k) \<in> X \<Longrightarrow> apart a n b k"
  shows "held_all held (insert (a, n) X) v"
  unfolding held_all_def
proof (intro conjI ballI impI)
  show "case x of (a, n) \<Rightarrow> held v a n \<and> block_addr a n \<and> 0 < n" if "x \<in> insert (a, n) X" for x
    using assms(1-4) that by (auto simp: held_all_def)
  show "apart (fst x) (snd x) (fst y) (snd y)" if xy: "x \<in> insert (a, n) X" "y \<in> insert (a, n) X" "x \<noteq> y" for x y
  proof (cases "x = (a, n)")
    case True
    then show ?thesis using xy assms(5) [of "fst y" "snd y"] by simp
  next
    case x: False
    show ?thesis
    proof (cases "y = (a, n)")
      case True
      then show ?thesis using xy x assms(5) [of "fst x" "snd x"] apart_sym by simp
    next
      case False
      then show ?thesis using xy x assms(1) by (simp add: held_all_def)
    qed
  qed
qed

subsection \<open>Where the blocks are\<close>

lemma heap_invD:
  assumes "heap_inv vok held B F L h v"
  shows "heap_ok F L h" and "vok v" and "held_all held (owned h L B) v" and "blocks_match B F L h"
    and "p \<in> set L \<Longrightarrow> a \<in> live_in F h p \<Longrightarrow> \<exists>sz. B a = Some sz \<and> sz < 2048 \<and> sz \<le> sizes ! btype (refs h p)"
    and "B a = Some sz \<Longrightarrow> sz < 2048 \<Longrightarrow> \<exists>p\<in>set L. a \<in> live_in F h p"
    and "B a = Some sz \<Longrightarrow> 2048 \<le> sz \<Longrightarrow> unat sz \<le> 4096 * npages sz \<and> a \<notin> set (heap_pages h L) \<and> (a, npages sz) \<in> owned h L B"
proof -
  show h: "heap_ok F L h" "vok v" "held_all held (owned h L B) v" "blocks_match B F L h" using assms by (simp_all add: heap_inv_def)
  show "p \<in> set L \<Longrightarrow> a \<in> live_in F h p \<Longrightarrow> \<exists>sz. B a = Some sz \<and> sz < 2048 \<and> sz \<le> sizes ! btype (refs h p)" using h(4) by (simp add: blocks_match_def)
  show "B a = Some sz \<Longrightarrow> sz < 2048 \<Longrightarrow> \<exists>p\<in>set L. a \<in> live_in F h p" using h(4) unfolding blocks_match_def by blast
  show "B a = Some sz \<Longrightarrow> 2048 \<le> sz \<Longrightarrow> unat sz \<le> 4096 * npages sz \<and> a \<notin> set (heap_pages h L) \<and> (a, npages sz) \<in> owned h L B"
    using h(4) unfolding blocks_match_def owned_def by blast
qed

lemma page_owned:
  shows "p \<in> set L \<Longrightarrow> (pgaddr h p, 1) \<in> owned h L B" and "pg \<in> set (heap_pages h L) \<Longrightarrow> (pg, 1) \<in> owned h L B"
  by (auto simp: owned_def heap_pages_def)

lemma live_page:
  assumes ok: "heap_ok F L h" and p: "p \<in> set L" and a: "a \<in> set (blocks (pgaddr h p) (btype (refs h p)))"
  shows "unat (pgaddr h p) \<le> unat a \<and> unat a + bsize (btype (refs h p)) \<le> unat (pgaddr h p) + 4096" and "16 \<le> bsize (btype (refs h p))"
  using block_in_page(1) [OF page_okD(2,1) [OF heap_okD(5) [OF ok p]] a] bsize_bounds [OF page_okD(1) [OF heap_okD(5) [OF ok p]]] by simp_all

text \<open>A large block meets no page of the heap.\<close>

lemma large_off_pages:
  assumes inv: "heap_inv vok held B F L h v" and B: "B a = Some sz" "2048 \<le> sz" and pg: "pg \<in> set (heap_pages h L)"
  shows "apart a (npages sz) pg 1"
  using held_all_apart [OF heap_invD(3) [OF inv], of a "npages sz" pg 1] heap_invD(7) [OF inv B] page_owned(2) [OF pg] pg by auto

lemma block_small:
  assumes inv: "heap_inv vok held B F L h v" and p: "p \<in> set L" and a: "a \<in> set (blocks (pgaddr h p) (btype (refs h p)))" and B: "B a = Some sz"
  shows "sz < 2048 \<and> a \<in> live_in F h p"
proof (cases "sz < 2048")
  case True
  then obtain q where q: "q \<in> set L" "a \<in> live_in F h q" using heap_invD(6) [OF inv B] by blast
  then have "q = p" using block_of_one_page [OF heap_invD(1) [OF inv] q(1) p _ a] by (simp add: live_in_def)
  then show ?thesis using True q by simp
next
  case False
  then have l: "2048 \<le> sz" by (simp add: not_less)
  have "pgaddr h p \<in> set (heap_pages h L)" using p by (simp add: heap_pages_def)
  then have "apart a (npages sz) (pgaddr h p) 1" by (rule large_off_pages [OF inv B l])
  moreover have "0 < npages sz" using held_allD [OF heap_invD(3) [OF inv]] heap_invD(7) [OF inv B l] by blast
  ultimately show ?thesis using live_page [OF heap_invD(1) [OF inv] p a] by (auto simp: apart_def)
qed

text \<open>Every block lies in a block of whole pages that the heap has.\<close>

lemma block_container:
  assumes inv: "heap_inv vok held B F L h v" and B: "B a = Some sz"
  obtains c n where "(c, n) \<in> owned h L B" and "unat c \<le> unat a" and "unat a + unat sz \<le> unat c + 4096 * n"
    and "unat a < unat c + 4096 * n" and "sz < 2048 \<Longrightarrow> n = 1 \<and> c \<in> set (heap_pages h L)" and "2048 \<le> sz \<Longrightarrow> c = a \<and> n = npages sz"
proof (cases "sz < 2048")
  case True
  then obtain p where p: "p \<in> set L" "a \<in> live_in F h p" using heap_invD(6) [OF inv B] by blast
  note ok = heap_invD(1) [OF inv]
  have a: "a \<in> set (blocks (pgaddr h p) (btype (refs h p)))" using p(2) by (simp add: live_in_def)
  have "sz \<le> sizes ! btype (refs h p)" using heap_invD(5) [OF inv p] B by auto
  then have "unat sz \<le> bsize (btype (refs h p))" using sizes_unat [OF page_okD(1) [OF heap_okD(5) [OF ok p(1)]]] by (simp add: word_le_nat_alt)
  then show thesis using that [of "pgaddr h p" 1] page_owned(1) [OF p(1)] live_page [OF ok p(1) a] True p(1) by (auto simp: heap_pages_def)
next
  case False
  then have "2048 \<le> sz" by (simp add: not_less)
  moreover from this have l: "unat sz \<le> 4096 * npages sz" "(a, npages sz) \<in> owned h L B" using heap_invD(7) [OF inv B] by simp_all
  moreover have "0 < npages sz" using held_allD [OF heap_invD(3) [OF inv] l(2)] by simp
  ultimately show thesis using that [of a "npages sz"] False by auto
qed

lemma small_size:
  assumes inv: "heap_inv vok held B F L h v" and p: "p \<in> set L" and a: "a \<in> live_in F h p" and B: "B a = Some sz"
  shows "unat sz \<le> bsize (btype (refs h p))"
proof -
  have "sz \<le> sizes ! btype (refs h p)" using heap_invD(5) [OF inv p a] B by auto
  then show ?thesis using sizes_unat [OF page_okD(1) [OF heap_okD(5) [OF heap_invD(1) [OF inv] p]]] by (simp add: word_le_nat_alt)
qed

text \<open>All the bytes of a small block's slot are apart from the other blocks.\<close>

lemma live_vs_block:
  assumes inv: "heap_inv vok held B F L h v" and p: "p \<in> set L" and a: "a \<in> live_in F h p" and B: "B b = Some tz" "b \<noteq> a"
  shows "unat a + bsize (btype (refs h p)) \<le> unat b \<or> unat b + unat tz \<le> unat a"
proof (cases "tz < 2048")
  case True
  then obtain q where q: "q \<in> set L" "b \<in> live_in F h q" using heap_invD(6) [OF inv B(1)] by blast
  note ok = heap_invD(1) [OF inv]
  have ab: "a \<in> set (blocks (pgaddr h p) (btype (refs h p)))" "b \<in> set (blocks (pgaddr h q) (btype (refs h q)))" using a q(2) by (simp_all add: live_in_def)
  show ?thesis
    using block_ranges [OF ok p q(1) ab] block_ranges [OF ok q(1) p ab(2,1)] small_size [OF inv q B(1)] B(2) by fastforce
next
  case False
  then have l: "2048 \<le> tz" by (simp add: not_less)
  have ab: "a \<in> set (blocks (pgaddr h p) (btype (refs h p)))" using a by (simp add: live_in_def)
  have "apart b (npages tz) (pgaddr h p) 1" by (rule large_off_pages [OF inv B(1) l]) (use p in \<open>simp add: heap_pages_def\<close>)
  then show ?thesis using heap_invD(7) [OF inv B(1) l] live_page [OF heap_invD(1) [OF inv] p ab] by (auto simp: apart_def)
qed

lemma blocks_disjoint_inv:
  assumes inv: "heap_inv vok held B F L h v" and B: "B a = Some sz" "B b = Some tz" "a \<noteq> b"
  shows "unat a + unat sz \<le> unat b \<or> unat b + unat tz \<le> unat a"
proof -
  consider "sz < 2048" | "tz < 2048" | "2048 \<le> sz" "2048 \<le> tz" by fastforce
  then show ?thesis
  proof cases
    case 1
    then obtain p where p: "p \<in> set L" "a \<in> live_in F h p" using heap_invD(6) [OF inv B(1)] by blast
    then show ?thesis using live_vs_block [OF inv p B(2)] small_size [OF inv p B(1)] B(3) by fastforce
  next
    case 2
    then obtain p where p: "p \<in> set L" "b \<in> live_in F h p" using heap_invD(6) [OF inv B(2)] by blast
    then show ?thesis using live_vs_block [OF inv p B(1)] small_size [OF inv p B(2)] B(3) by fastforce
  next
    case 3
    then have "(a, npages sz) \<in> owned h L B" "(b, npages tz) \<in> owned h L B" "unat sz \<le> 4096 * npages sz" "unat tz \<le> 4096 * npages tz"
      using heap_invD(7) [OF inv B(1)] heap_invD(7) [OF inv B(2)] by blast+
    then show ?thesis using held_all_apart [OF heap_invD(3) [OF inv], of a "npages sz" b "npages tz"] B(3) by (fastforce simp: apart_def)
  qed
qed

context page_source
begin

lemma alloc_grow:
  assumes "vok v" and "held_all held X v" and "0 < unat n" and "al n v = Inr (a, v')"
  shows "vok v'" and "held_all held (insert (a, unat n) X) v'" and "block_addr a (unat n)" and "(a, k) \<notin> X"
proof -
  note a = alloc [OF assms(1,3,4)]
  show "vok v'" "block_addr a (unat n)" using a by simp_all
  have ap: "apart a (unat n) b k \<and> held v' b k \<and> block_addr b k \<and> 0 < k" if "(b, k) \<in> X" for b k using a assms(2) that by (auto simp: held_all_def)
  then show "(a, k) \<notin> X" using not_apart_self [OF assms(3)] by blast
  have "held_all held X v'" using ap assms(2) by (auto simp: held_all_def)
  then show "held_all held (insert (a, unat n) X) v'" by (rule held_all_insert) (use a ap assms(3) in blast)+
qed

lemma free_shrink:
  assumes "vok v" and "held_all held X v" and "(a, n) \<in> X"
  shows "\<exists>v'. fr a v = Inr v' \<and> vok v' \<and> held_all held (X - {(a, n)}) v'"
proof -
  have an: "held v a n" "0 < n" "block_addr a n" using assms(2,3) by (auto simp: held_all_def)
  from release [OF assms(1) an(1-3)] obtain v' where v': "fr a v = Inr v'" "vok v'" "\<forall>b k. held v b k \<and> apart a n b k \<longrightarrow> held v' b k" by blast
  have "held v' b k" if "(b, k) \<in> X - {(a, n)}" for b k
    using v'(3) held_allD [OF assms(2), of b k] held_all_apart [OF assms(2,3), of b k] that by blast
  then have "held_all held (X - {(a, n)}) v'" using assms(2) unfolding held_all_def by blast
  with v' show ?thesis by blast
qed

end

end
