(* ===== verification/Kmalloc_Steps.thy ===== *)
theory Kmalloc_Steps
  imports Kmalloc_Source
begin

text \<open>The operations of the heap keep the invariant, for every page allocator that keeps the contract.\<close>

subsection \<open>Taking a small block\<close>

lemma take_block:
  assumes inv: "heap_inv vok held B F L h v" and p: "p \<in> set L" and F: "F p = y # ys" and sz: "sz < 2048" "sz \<le> sizes ! btype (refs h p)"
  shows "\<exists>h'. doalloc p h = Inr (y, h') \<and> heap_inv vok held (B(y \<mapsto> sz)) (F(p := ys)) L h' v \<and> B y = None \<and> hmem h' = hmem h \<and> y \<noteq> 0"
proof -
  note ok = heap_invD(1) [OF inv] and bm = heap_invD(4) [OF inv]
  note P = page_okD [OF heap_okD(5) [OF ok p]]
  have y: "y \<in> set (blocks (pgaddr h p) (btype (refs h p)))" "y \<in> set (F p)" "y \<notin> set ys" using P(5,6) F by simp_all
  have B: "B y = None"
  proof (cases "B y")
    case (Some tz)
    then have "y \<in> live_in F h p" using block_small [OF inv p y(1)] by blast
    then show ?thesis using y(2) by (simp add: live_in_def)
  qed
  obtain h' where h': "doalloc p h = Inr (y, h')" "heap_ok (F(p := ys)) L h'" "heap_pages h' L = heap_pages h L" "hmem h' = hmem h" "same_pages h h' UNIV"
    using heap_doalloc [OF ok p F] by blast
  note sp = same_pagesD [OF h'(5) UNIV_I]
  have lp: "live_in (F(p := ys)) h' p = insert y (live_in F h p)" using y F unfolding live_in_def sp(1,2) by auto
  have lq: "live_in (F(p := ys)) h' q = live_in F h q" if "q \<noteq> p" for q using that unfolding live_in_def sp(1,2) by simp
  have "owned h' L (B(y \<mapsto> sz)) = owned h L B"
    using B sz(1) unfolding owned_def h'(3) by (auto simp: not_le split: if_splits)
  moreover have "blocks_match (B(y \<mapsto> sz)) (F(p := ys)) L h'"
    unfolding blocks_match_def
  proof (intro conjI ballI allI impI)
    fix q a assume q: "q \<in> set L" "a \<in> live_in (F(p := ys)) h' q"
    show "\<exists>tz. (B(y \<mapsto> sz)) a = Some tz \<and> tz < 2048 \<and> tz \<le> sizes ! btype (refs h' q)"
    proof (cases "a = y")
      case True
      have "q = p" using block_of_one_page [OF ok q(1) p _ y(1)] q(2) True unfolding live_in_def sp(1,2) by simp
      then show ?thesis using True sz sp(2) by simp
    next
      case False
      then have "a \<in> live_in F h q" using q(2) lp lq by (cases "q = p") auto
      then show ?thesis using False heap_invD(5) [OF inv q(1)] sp(2) by simp
    qed
  next
    fix a tz assume a: "(B(y \<mapsto> sz)) a = Some tz \<and> tz < 2048"
    show "\<exists>q\<in>set L. a \<in> live_in (F(p := ys)) h' q"
    proof (cases "a = y")
      case True
      then show ?thesis using p lp by blast
    next
      case False
      then obtain q where "q \<in> set L" "a \<in> live_in F h q" using a heap_invD(6) [OF inv] by auto
      then show ?thesis using lp lq by (cases "q = p") auto
    qed
  next
    fix a tz assume a: "(B(y \<mapsto> sz)) a = Some tz \<and> 2048 \<le> tz"
    then have "B a = Some tz" using sz(1) by (auto simp: not_le [symmetric] split: if_splits)
    then show "unat tz \<le> 4096 * npages tz" "a \<notin> set (heap_pages h' L)" using heap_invD(7) [OF inv] a h'(3) by simp_all
  qed
  ultimately have "heap_inv vok held (B(y \<mapsto> sz)) (F(p := ys)) L h' v"
    using h'(2) heap_invD(2,3) [OF inv] by (simp add: heap_inv_def)
  moreover have "y \<noteq> 0" using block_in_page(2) [OF P(2,1) y(1)] .
  ultimately show ?thesis using h'(1,4) B by blast
qed

subsection \<open>Adding a page\<close>

abbreviation large_of :: "(u32 \<rightharpoonup> u32) \<Rightarrow> (u32 \<times> nat) set" where
  "large_of B \<equiv> {(a, npages sz) | a sz. B a = Some sz \<and> 2048 \<le> sz}"

lemma add_page:
  assumes inv: "heap_inv vok held B F L h v" and b: "b < 8" and R: "roots_ok R" "refs_of R = insert pr (set L)" "pr \<notin> set L" "pr \<noteq> 0"
    and pg: "page_addr pg" and d: "distinct (root_pages R @ pg # map (pgaddr h) L)"
    and v': "vok v'" "held_all held ((\<lambda>pg. (pg, 1)) ` set (root_pages R @ pg # map (pgaddr h) L) \<union> large_of B) v'"
    and off: "\<And>a sz. B a = Some sz \<Longrightarrow> 2048 \<le> sz \<Longrightarrow> a \<notin> set (root_pages R @ pg # map (pgaddr h) L)"
  shows "\<exists>h'. new_page b pg pr (h\<lparr>kheaproots := R\<rparr>) = Inr h' \<and> heap_inv vok held B (F(pr := rev (blocks pg b))) (pr # L) h' v' \<and>
    btype (refs h' pr) = b \<and> (\<forall>a. a \<notin> set (blocks pg b) \<longrightarrow> hmem h' a = hmem h a)"
proof -
  note ok = heap_invD(1) [OF inv]
  obtain h' where n: "new_page b pg pr (h\<lparr>kheaproots := R\<rparr>) = Inr h'" "heap_ok (F(pr := rev (blocks pg b))) (pr # L) h'"
    "heap_pages h' (pr # L) = root_pages R @ pg # map (pgaddr h) L" "same_pages h h' (set L)" "pgaddr h' pr = pg" "btype (refs h' pr) = b"
    "\<forall>a. a \<notin> set (blocks pg b) \<longrightarrow> hmem h' a = hmem h a"
    using heap_new_page [OF ok b R pg d] by blast
  let ?F = "F(pr := rev (blocks pg b))"
  have l0: "live_in ?F h' pr = {}" using n(5,6) by (simp add: live_in_def)
  have lq: "live_in ?F h' q = live_in F h q" "btype (refs h' q) = btype (refs h q)" if "q \<in> set L" for q
    using same_pagesD [OF n(4) that] that R(3) by (auto simp: live_in_def)
  have "blocks_match B ?F (pr # L) h'"
    unfolding blocks_match_def n(3)
  proof (intro conjI ballI allI impI)
    fix q a assume q: "q \<in> set (pr # L)" "a \<in> live_in ?F h' q"
    then have "q \<in> set L" using l0 by auto
    then show "\<exists>sz. B a = Some sz \<and> sz < 2048 \<and> sz \<le> sizes ! btype (refs h' q)" using heap_invD(5) [OF inv] lq q(2) by simp
  next
    fix a sz assume "B a = Some sz \<and> sz < 2048"
    then obtain q where "q \<in> set L" "a \<in> live_in F h q" using heap_invD(6) [OF inv] by blast
    then show "\<exists>q\<in>set (pr # L). a \<in> live_in ?F h' q" using lq by auto
  next
    fix a sz assume a: "B a = Some sz \<and> 2048 \<le> sz"
    show "unat sz \<le> 4096 * npages sz" using heap_invD(7) [OF inv] a by blast
    show "a \<notin> set (root_pages R @ pg # map (pgaddr h) L)" using off a by blast
  qed
  moreover have "held_all held (owned h' (pr # L) B) v'" unfolding owned_def n(3) by (rule v'(2))
  ultimately have "heap_inv vok held B ?F (pr # L) h' v'" using n(2) v'(1) by (simp add: heap_inv_def)
  then show ?thesis using n(1,6,7) by blast
qed

subsection \<open>Small blocks\<close>

lemma block_addr_checks: "block_addr a n \<Longrightarrow> a \<noteq> 0 \<and> a mod PAGE_SIZE = 0"
proof -
  assume "block_addr a n"
  then have "unat (a mod PAGE_SIZE) = 0" "0 < unat a" by (simp_all add: block_addr_def unat_mod PAGE_SIZE_def)
  then show ?thesis by (auto simp: unat_eq_0)
qed

lemma in_use_container:
  assumes inv: "heap_inv vok held B F L h v" and x: "x \<in> in_use B"
  obtains c n where "(c, n) \<in> owned h L B" and "unat c \<le> unat x" and "unat x < unat c + 4096 * n"
proof -
  obtain a sz where a: "B a = Some sz" "unat a \<le> unat x" "unat x < unat a + unat sz" using x by (auto simp: in_use_def)
  show thesis by (rule block_container [OF inv a(1)]) (use that a(2,3) in fastforce)
qed

lemma blocktype_ok: "sz < 2048 \<Longrightarrow> \<exists>b<8. blocktype sz = Inr b \<and> sz \<le> sizes ! b"
proof -
  assume "sz < 2048"
  then have "sz \<le> sizes ! 7" by (simp add: sizes_def)
  then have "find (\<lambda>i. sz \<le> sizes ! i) [0..<8] \<noteq> None" by (auto simp: find_None_iff intro!: exI [of _ 7])
  then obtain b where "find (\<lambda>i. sz \<le> sizes ! i) [0..<8] = Some b" by blast
  moreover from this have "b < 8" "sz \<le> sizes ! b" by (auto simp: find_Some_iff)
  ultimately show ?thesis by (auto simp: blocktype_def NSIZES_def)
qed

text \<open>What an allocation gives: a block nobody holds, and nothing of the other blocks has changed.\<close>

definition malloc_post ::
    "('v \<Rightarrow> bool) \<Rightarrow> ('v \<Rightarrow> u32 \<Rightarrow> nat \<Rightarrow> bool) \<Rightarrow> (u32 \<rightharpoonup> u32) \<Rightarrow> u32 \<Rightarrow> kheap \<Rightarrow> u32 \<Rightarrow> kheap \<Rightarrow> 'v \<Rightarrow> bool" where
  "malloc_post vok held B sz h a h' v' \<longleftrightarrow> (a = 0 \<or> B a = None) \<and> (\<forall>x\<in>in_use B. hmem h' x = hmem h x) \<and>
     (\<exists>F' L'. heap_inv vok held (if a = 0 then B else B(a \<mapsto> sz)) F' L' h' v')"

context page_source
begin

text \<open>What a new page reference leaves behind.\<close>

definition ref_added :: "u32 list \<Rightarrow> kheap \<Rightarrow> 'v \<Rightarrow> (u32 \<times> nat) set \<Rightarrow> u32 \<Rightarrow> kheap_root list \<Rightarrow> 'v \<Rightarrow> bool" where
  "ref_added L h v X p R v1 \<longleftrightarrow> p \<noteq> 0 \<and> p \<notin> set L \<and> roots_ok R \<and> refs_of R = insert p (set L) \<and> vok v1 \<and>
     (v1 = v \<and> root_pages R = root_pages (kheaproots h) \<or>
      (\<exists>va. set (root_pages R) = insert va (set (root_pages (kheaproots h))) \<and> distinct (root_pages R) \<and> (\<forall>k. (va, k) \<notin> X) \<and>
         held_all held (insert (va, 1) X) v1))"

lemma slot_result_post:
  assumes ok: "heap_ok F L h" and v: "vok v" "held_all held X v" and X: "\<And>pg. pg \<in> set (heap_pages h L) \<Longrightarrow> (pg, 1) \<in> X"
    and w: "w < length (kheaproots h)" and n: "n < 256" "n \<notin> inuse_set (kheaproots h ! w)"
  shows "case slot_result al w n h v of
      Inl e \<Rightarrow> al 1 v = Inl e
    | Inr (p, h1, v1) \<Rightarrow> \<exists>R. h1 = h\<lparr>kheaproots := R\<rparr> \<and> ref_added L h v X p R v1"
proof -
  let ?R = "kheaproots h"
  note ro = heap_okD(1) [OF ok] and rL = heap_okD(6) [OF ok]
  show ?thesis
  proof (cases "page (?R ! w) = 0")
    case False
    note t = take_slot_roots [OF ro w n False refl]
    have pg: "page_addr (page (?R ! w))" using roots_okD(3) [OF ro w False] .
    have "page (?R ! w) + 16 * of_nat n \<notin> set L" unfolding rL by (rule slot_fresh [OF ro w n(1) pg]) (use n(2) in simp)
    moreover have "unat (page (?R ! w) + 16 * of_nat n) \<noteq> 0" using slot_unat [OF pg n(1)] pg by (simp add: page_addr_def)
    ultimately have "ref_added L h v X (page (?R ! w) + 16 * of_nat n) (?R[w := take_slot n (?R ! w)]) v"
      using t v(1) rL by (auto simp: ref_added_def)
    then show ?thesis using False by (auto simp: slot_result_def Let_def)
  next
    case True
    show ?thesis
    proof (cases "al 1 v")
      case (Inl e)
      then show ?thesis using True by (simp add: slot_result_def Let_def)
    next
      case (Inr r)
      obtain va v1 where r: "al 1 v = Inr (va, v1)" using Inr by (cases r) simp
      have "0 < unat (1 :: u32)" by simp
      note g = alloc_grow [OF v this r]
      have pg: "page_addr va" using g(3) by (simp add: page_addr_block)
      have new: "(va, k) \<notin> X" for k by (rule g(4))
      then have nr: "va \<notin> set (root_pages ?R)" using X by (auto simp: heap_pages_def)
      note t = new_root_page [OF ro w n True pg nr refl]
      have "va + 16 * of_nat n \<notin> set L" unfolding rL by (rule slot_fresh [OF ro w n(1) pg]) (use nr in simp)
      moreover have "unat (va + 16 * of_nat n) \<noteq> 0" using slot_unat [OF pg n(1)] pg by (simp add: page_addr_def)
      ultimately have "ref_added L h v X (va + 16 * of_nat n) (?R[w := (take_slot n (?R ! w))\<lparr>page := va\<rparr>]) v1"
        using t g(1,2) rL new by (auto simp: ref_added_def)
      then show ?thesis using True r block_addr_checks [OF g(3)] by (auto simp: slot_result_def Let_def)
    qed
  qed
qed

lemma allocpageref_post:
  assumes ok: "heap_ok F L h" and v: "vok v" "held_all held X v" and X: "\<And>pg. pg \<in> set (heap_pages h L) \<Longrightarrow> (pg, 1) \<in> X"
  shows "case allocpageref al fr h v of
      Inl e \<Rightarrow> al 1 v = Inl e
    | Inr (p, h1, v1) \<Rightarrow> p = 0 \<and> h1 = h \<and> v1 = v \<or> (\<exists>R. h1 = h\<lparr>kheaproots := R\<rparr> \<and> ref_added L h v X p R v1)"
proof -
  have len: "length (kheaproots h) = NUM_PAGEREFPAGES" using heap_okD(1) [OF ok] by (simp add: roots_ok_def)
  have "allocpageref al fr h v = Inr (0, h, v) \<or>
      (\<exists>w n. w < length (kheaproots h) \<and> n < 256 \<and> n \<notin> inuse_set (kheaproots h ! w) \<and> allocpageref al fr h v = slot_result al w n h v)"
    using allocpageref_loop_cases [of "[0..<NUM_PAGEREFPAGES]" h al fr v] roots_okD(1) [OF heap_okD(1) [OF ok]] len
    unfolding allocpageref_def by auto
  then show ?thesis
  proof
    assume "\<exists>w n. w < length (kheaproots h) \<and> n < 256 \<and> n \<notin> inuse_set (kheaproots h ! w) \<and> allocpageref al fr h v = slot_result al w n h v"
    then obtain w n where w: "w < length (kheaproots h)" "n < 256" "n \<notin> inuse_set (kheaproots h ! w)" "allocpageref al fr h v = slot_result al w n h v" by blast
    show ?thesis unfolding w(4) using slot_result_post [OF ok v X w(1-3)] by (auto split: sum.splits)
  qed simp
qed

lemma fresh_page_post:
  assumes inv: "heap_inv vok held B F L h v" and b: "b < 8" and sz: "sz < 2048" "sz \<le> sizes ! b"
    and al1: "vok v1" "held_all held (insert (pg, 1) (owned h L B)) v1" "page_addr pg" "\<And>k. (pg, k) \<notin> owned h L B"
    and R: "ref_added L h v1 (insert (pg, 1) (owned h L B)) pr R v2"
  shows "\<exists>h2 a h3. new_page b pg pr (h\<lparr>kheaproots := R\<rparr>) = Inr h2 \<and> doalloc pr h2 = Inr (a, h3) \<and> malloc_post vok held B sz h a h3 v2"
proof -
  let ?X = "owned h L B" and ?P = "root_pages R @ pg # map (pgaddr h) L"
  note ok = heap_invD(1) [OF inv] and r = R [unfolded ref_added_def]
  have dp: "distinct (root_pages (kheaproots h))" "distinct (map (pgaddr h) L)" "set (root_pages (kheaproots h)) \<inter> pgaddr h ` set L = {}"
    using heap_okD(7) [OF ok] by (auto simp: heap_pages_def)
  have np: "pg \<notin> set (heap_pages h L)" using al1(4) page_owned(2) by blast
  have X: "?X = (\<lambda>pg. (pg, 1)) ` set (root_pages (kheaproots h) @ map (pgaddr h) L) \<union> large_of B" by (simp add: owned_def heap_pages_def)
  have lg: "a \<notin> set (heap_pages h L)" "a \<noteq> pg" "(a, npages tz) \<in> ?X" if "B a = Some tz" "2048 \<le> tz" for a tz
    using heap_invD(7) [OF inv that] al1(4) by auto
  have star: "distinct ?P \<and> held_all held ((\<lambda>pg. (pg, 1)) ` set ?P \<union> large_of B) v2 \<and> (\<forall>a tz. B a = Some tz \<and> 2048 \<le> tz \<longrightarrow> a \<notin> set ?P)"
  proof (cases "v2 = v1 \<and> root_pages R = root_pages (kheaproots h)")
    case True
    have "(\<lambda>pg. (pg, 1)) ` set ?P \<union> large_of B = insert (pg, 1) ?X" unfolding X using True by auto
    then show ?thesis using True al1(2) dp np lg by (auto simp: heap_pages_def)
  next
    case False
    then obtain va where va: "set (root_pages R) = insert va (set (root_pages (kheaproots h)))" "distinct (root_pages R)"
      "\<forall>k. (va, k) \<notin> insert (pg, 1) ?X" "held_all held (insert (va, 1) (insert (pg, 1) ?X)) v2" using r by blast
    have nv: "va \<noteq> pg" "va \<notin> set (heap_pages h L)" "\<And>k. (va, k) \<notin> ?X" using va(3) page_owned(2) by blast+
    have e: "(\<lambda>pg. (pg, 1)) ` set ?P \<union> large_of B = insert (va, 1) (insert (pg, 1) ?X)" unfolding X set_append va(1) by auto
    have d: "distinct ?P" using va(1,2) dp nv np by (auto simp: heap_pages_def)
    have "a \<notin> set ?P" if "B a = Some tz" "2048 \<le> tz" for a tz
      using lg [OF that] va(1) nv(3) by (auto simp: heap_pages_def)
    then show ?thesis unfolding e using d va(4) by blast
  qed
  note P = star [THEN conjunct1] star [THEN conjunct2, THEN conjunct1] and off = star [THEN conjunct2, THEN conjunct2]
  have off: "a \<notin> set ?P" if "B a = Some tz" "2048 \<le> tz" for a tz using off that by blast
  have R: "roots_ok R" "refs_of R = insert pr (set L)" "pr \<notin> set L" "pr \<noteq> 0" "vok v2" using r by simp_all
  have "\<exists>h'. new_page b pg pr (h\<lparr>kheaproots := R\<rparr>) = Inr h' \<and> heap_inv vok held B (F(pr := rev (blocks pg b))) (pr # L) h' v2 \<and>
      btype (refs h' pr) = b \<and> (\<forall>a. a \<notin> set (blocks pg b) \<longrightarrow> hmem h' a = hmem h a)"
    by (rule add_page [OF inv b R(1-4) al1(3) P(1) R(5) P(2)]) (rule off)
  then obtain h2 where h2: "new_page b pg pr (h\<lparr>kheaproots := R\<rparr>) = Inr h2" "heap_inv vok held B (F(pr := rev (blocks pg b))) (pr # L) h2 v2"
    "btype (refs h2 pr) = b" "\<forall>a. a \<notin> set (blocks pg b) \<longrightarrow> hmem h2 a = hmem h a" by (elim exE conjE) (rule that)
  have "length (rev (blocks pg b)) \<noteq> 0" using bsize_bounds [OF b] by simp
  then obtain y ys where y: "rev (blocks pg b) = y # ys" by (metis length_0_conv list.exhaust)
  obtain h3 where h3: "doalloc pr h2 = Inr (y, h3)" "heap_inv vok held (B(y \<mapsto> sz)) ((F(pr := rev (blocks pg b)))(pr := ys)) (pr # L) h3 v2"
    "B y = None" "hmem h3 = hmem h2" "y \<noteq> 0"
    using take_block [OF h2(2), of pr y ys sz] y sz h2(3) by auto
  have "x \<notin> set (blocks pg b)" if x: "x \<in> in_use B" for x
  proof
    assume xb: "x \<in> set (blocks pg b)"
    obtain c n where c: "(c, n) \<in> ?X" "unat c \<le> unat x" "unat x < unat c + 4096 * n" by (rule in_use_container [OF inv x])
    then have "apart pg 1 c n" using held_all_apart [OF al1(2), of pg 1 c n] al1(4) by blast
    then show False using c(2,3) block_in_page(1) [OF al1(3) b xb] bsize_bounds [OF b] by (auto simp: apart_def)
  qed
  then have "malloc_post vok held B sz h y h3 v2" unfolding malloc_post_def using h2(4) h3(2-5) by auto
  then show ?thesis using h2(1) h3(1) by blast
qed

lemma subpage_kmalloc_post:
  assumes inv: "heap_inv vok held B F L h v" and sz: "sz < 2048"
  shows "case subpage_kmalloc al fr sz h v of
      Inl e \<Rightarrow> \<exists>v1. vok v1 \<and> al 1 v1 = Inl e
    | Inr (a, h', v') \<Rightarrow> malloc_post vok held B sz h a h' v'"
proof -
  note ok = heap_invD(1) [OF inv]
  obtain b where b: "b < 8" "blocktype sz = Inr b" "sz \<le> sizes ! b" using blocktype_ok [OF sz] by blast
  show ?thesis
  proof (cases "find_page b h = Inr 0")
    case False
    then obtain p where p: "p \<in> set L" "btype (refs h p) = b" "F p \<noteq> []" "p \<noteq> 0" "find_page b h = Inr p" using find_page_ok [OF ok b(1)] by blast
    then obtain y ys where "F p = y # ys" by (cases "F p") auto
    then obtain h' where "doalloc p h = Inr (y, h')" "heap_inv vok held (B(y \<mapsto> sz)) (F(p := ys)) L h' v" "B y = None" "hmem h' = hmem h" "y \<noteq> 0"
      using take_block [OF inv p(1) _ sz] b(3) p(2) by blast
    then show ?thesis using b(2) p(4,5) by (auto simp: subpage_kmalloc_def malloc_post_def)
  next
    case True
    show ?thesis
    proof (cases "al 1 v")
      case (Inl e)
      then show ?thesis using True b(2) heap_invD(2) [OF inv] by (auto simp: subpage_kmalloc_def)
    next
      case (Inr r)
      obtain pg v1 where r: "al 1 v = Inr (pg, v1)" using Inr by (cases r) simp
      let ?X = "owned h L B"
      have "0 < unat (1 :: u32)" by simp
      note g = alloc_grow [OF heap_invD(2,3) [OF inv] this r, simplified]
      have pa: "page_addr pg" using g(3) by (simp add: page_addr_block)
      have X: "\<And>q. q \<in> set (heap_pages h L) \<Longrightarrow> (q, 1) \<in> insert (pg, 1) ?X" using page_owned(2) by blast
      have ap: "case allocpageref al fr h v1 of
          Inl e \<Rightarrow> al 1 v1 = Inl e
        | Inr (p, h1, v2) \<Rightarrow> p = 0 \<and> h1 = h \<and> v2 = v1 \<or> (\<exists>R. h1 = h\<lparr>kheaproots := R\<rparr> \<and> ref_added L h v1 (insert (pg, 1) ?X) p R v2)"
        by (rule allocpageref_post [OF ok g(1) _ X]) (use g(2) in simp)
      have e: "subpage_kmalloc al fr sz h v = rbind (allocpageref al fr h v1) (\<lambda>(pr, h1, v2).
          if pr = 0 then rbind (fr pg v2) (\<lambda>v3. Inr (0, h1, v3))
          else rbind (new_page b pg pr h1) (\<lambda>h2. rbind (doalloc pr h2) (\<lambda>(a, h3). Inr (a, h3, v2))))"
        using True b(2) r block_addr_checks [OF g(3)] by (simp add: subpage_kmalloc_def)
      show ?thesis
      proof (cases "allocpageref al fr h v1")
        case (Inl e')
        then show ?thesis using ap g(1) e by auto
      next
        case (Inr s)
        obtain pr h1 v2 where s: "allocpageref al fr h v1 = Inr (pr, h1, v2)" using Inr by (cases s) simp
        show ?thesis
        proof (cases "pr = 0")
          case True
          then have "h1 = h" "v2 = v1" using ap s by (auto simp: ref_added_def)
          moreover obtain v3 where v3: "fr pg v1 = Inr v3" "vok v3" "held_all held (insert (pg, 1) ?X - {(pg, 1)}) v3"
            using free_shrink [OF g(1), of "insert (pg, 1) ?X" pg 1] g(2) by auto
          moreover have "insert (pg, 1) ?X - {(pg, 1)} = ?X" using g(4) by blast
          ultimately have "heap_inv vok held B F L h v3" using inv by (simp add: heap_inv_def)
          then show ?thesis using e s True \<open>h1 = h\<close> \<open>v2 = v1\<close> v3(1) by (auto simp: malloc_post_def)
        next
          case False
          then obtain R where R: "h1 = h\<lparr>kheaproots := R\<rparr>" "ref_added L h v1 (insert (pg, 1) ?X) pr R v2" using ap s by auto
          have "held_all held (insert (pg, 1) ?X) v1" using g(2) by simp
          from fresh_page_post [OF inv b(1) sz b(3) g(1) this pa g(4) R(2)]
          show ?thesis using e s False R(1) by auto
        qed
      qed
    qed
  qed
qed

end

end
