(* ===== verification/Kmalloc_Ops.thy ===== *)
theory Kmalloc_Ops
  imports Kmalloc_Steps
begin

text \<open>\<open>kmalloc\<close> and \<open>kfree\<close> keep the invariant.\<close>

subsection \<open>Freeing a small block\<close>

lemma push_inv:
  assumes inv: "heap_inv vok held B F L h v" and p: "p \<in> set L" and a: "a \<in> live_in F h p"
  shows "heap_inv vok held (B(a := None)) (F(p := a # F p)) L (pushed p a h) v"
    and "x \<in> in_use (B(a := None)) \<Longrightarrow> hmem (pushed p a h) x = hmem h x"
proof -
  let ?h = "pushed p a h" and ?F = "F(p := a # F p)" and ?B = "B(a := None)"
  note ok = heap_invD(1) [OF inv]
  note push = heap_push [OF ok p a]
  note sp = same_pagesD [OF push(3) UNIV_I]
  have lp: "live_in ?F ?h p = live_in F h p - {a}" unfolding live_in_def sp(1,2) by auto
  have lq: "live_in ?F ?h q = live_in F h q" if "q \<noteq> p" for q using that unfolding live_in_def sp(1,2) by simp
  have na: "a \<notin> live_in F h q" if "q \<in> set L" "q \<noteq> p" for q
    using block_of_one_page [OF ok that(1) p] that(2) a by (auto simp: live_in_def)
  have live: "live_in ?F ?h q = live_in F h q - {a}" if "q \<in> set L" for q using lp lq na [OF that] by (cases "q = p") auto
  obtain sz where sz: "B a = Some sz" "sz < 2048" using heap_invD(5) [OF inv p a] by blast
  have lg: "?B b = Some tz \<and> 2048 \<le> tz \<longleftrightarrow> B b = Some tz \<and> 2048 \<le> tz" for b tz using sz by (auto simp: not_le [symmetric])
  have "owned ?h L ?B = owned h L B" unfolding owned_def push(2) lg ..
  moreover have "blocks_match ?B ?F L ?h"
    unfolding blocks_match_def push(2)
  proof (intro conjI ballI allI impI)
    fix q b assume q: "q \<in> set L" "b \<in> live_in ?F ?h q"
    then show "\<exists>sz. ?B b = Some sz \<and> sz < 2048 \<and> sz \<le> sizes ! btype (refs ?h q)" using heap_invD(5) [OF inv q(1)] live sp(2) by auto
  next
    fix b tz assume b: "?B b = Some tz \<and> tz < 2048"
    then have "B b = Some tz" "b \<noteq> a" by (auto split: if_splits)
    then obtain q where "q \<in> set L" "b \<in> live_in F h q" using heap_invD(6) [OF inv] b by blast
    then show "\<exists>q\<in>set L. b \<in> live_in ?F ?h q" using live \<open>b \<noteq> a\<close> by blast
  next
    fix b tz assume b: "?B b = Some tz \<and> 2048 \<le> tz"
    then have "B b = Some tz" by (auto split: if_splits)
    then show "unat tz \<le> 4096 * npages tz" "b \<notin> set (heap_pages h L)" using heap_invD(7) [OF inv] b by blast+
  qed
  ultimately show "heap_inv vok held ?B ?F L ?h v" using push(1) heap_invD(2,3) [OF inv] by (simp add: heap_inv_def)
  show "hmem ?h x = hmem h x" if x: "x \<in> in_use ?B"
  proof (rule push(6))
    obtain b tz where "B b = Some tz" "b \<noteq> a" "unat b \<le> unat x" "unat x < unat b + unat tz" using x by (auto simp: in_use_def split: if_splits)
    then show "\<not> (unat a \<le> unat x \<and> unat x < unat a + bsize (btype (refs h p)))" using live_vs_block [OF inv p a, of b tz] by auto
  qed
qed

lemma page_all_free:
  assumes ok: "heap_ok F L h" and p: "p \<in> set L" and n: "length (F p) = nblocks (btype (refs h p))"
  shows "live_in F h p = {}"
proof -
  note P = page_okD [OF heap_okD(5) [OF ok p]]
  have "card (set (F p)) = card (set (blocks (pgaddr h p) (btype (refs h p))))"
    using n distinct_card [OF P(6)] distinct_card [OF distinct_blocks [OF P(2,1)]] by simp
  then have "set (F p) = set (blocks (pgaddr h p) (btype (refs h p)))" using P(5) by (intro card_subset_eq) simp_all
  then show ?thesis by (simp add: live_in_def)
qed

context page_source
begin

lemma release_inv:
  assumes inv: "heap_inv vok held B F L h v" and p: "p \<in> set L" and e: "live_in F h p = {}"
  shows "\<exists>h2 h3 v'. remove_lists p (btype (refs h p)) h = Inr h2 \<and> freepageref p h2 = Inr h3 \<and> fr (pgaddr h p) v = Inr v' \<and>
    heap_inv vok held B F (remove1 p L) h3 v' \<and> hmem h3 = hmem h"
proof -
  note ok = heap_invD(1) [OF inv]
  obtain h2 h3 where r: "remove_lists p (btype (refs h p)) h = Inr h2" "freepageref p h2 = Inr h3" "heap_ok F (remove1 p L) h3"
    "set (heap_pages h3 (remove1 p L)) = set (heap_pages h L) - {pgaddr h p}" "hmem h3 = hmem h" "same_pages h h3 UNIV"
    using heap_release [OF ok p] by blast
  note sp = same_pagesD [OF r(6) UNIV_I]
  have sL: "set (remove1 p L) = set L - {p}" using heap_okD(8) [OF ok] by simp
  have lg: "a \<noteq> pgaddr h p" if "B a = Some tz" "2048 \<le> tz" for a tz
    using heap_invD(7) [OF inv that] p by (auto simp: heap_pages_def)
  have ow: "owned h3 (remove1 p L) B = owned h L B - {(pgaddr h p, 1)}"
    unfolding owned_def r(4) using lg by auto
  from free_shrink [OF heap_invD(2,3) [OF inv] page_owned(1) [OF p]]
  obtain v' where v': "fr (pgaddr h p) v = Inr v'" "vok v'" "held_all held (owned h3 (remove1 p L) B) v'" unfolding ow by blast
  have "blocks_match B F (remove1 p L) h3"
    unfolding blocks_match_def r(4) sL sp
  proof (intro conjI ballI allI impI)
    fix q a assume "q \<in> set L - {p}" "a \<in> live_in F h q"
    then show "\<exists>sz. B a = Some sz \<and> sz < 2048 \<and> sz \<le> sizes ! btype (refs h q)" using heap_invD(5) [OF inv] by blast
  next
    fix a sz assume "B a = Some sz \<and> sz < 2048"
    then show "\<exists>q\<in>set L - {p}. a \<in> live_in F h q" using heap_invD(6) [OF inv] e by blast
  next
    fix a sz assume "B a = Some sz \<and> 2048 \<le> sz"
    then show "unat sz \<le> 4096 * npages sz" "a \<notin> set (heap_pages h L) - {pgaddr h p}" using heap_invD(7) [OF inv] by blast+
  qed
  then have "heap_inv vok held B F (remove1 p L) h3 v'" using r(3) v'(2,3) by (simp add: heap_inv_def)
  then show ?thesis using r(1,2,5) v'(1) by blast
qed

text \<open>What releasing a block gives.\<close>

definition free_post :: "(u32 \<rightharpoonup> u32) \<Rightarrow> u32 \<Rightarrow> kheap \<Rightarrow> kheap \<Rightarrow> 'v \<Rightarrow> bool" where
  "free_post B a h h' v' \<longleftrightarrow> (\<forall>x\<in>in_use (B(a := None)). hmem h' x = hmem h x) \<and> (\<exists>F' L'. heap_inv vok held (B(a := None)) F' L' h' v')"

lemma kfree_small:
  assumes inv: "heap_inv vok held B F L h v" and p: "p \<in> set L" and a: "a \<in> live_in F h p"
  shows "\<exists>h' v'. kfree fr a h v = Inr (h', v') \<and> free_post B a h h' v'"
proof -
  let ?h = "pushed p a h" and ?F = "F(p := a # F p)" and ?B = "B(a := None)"
  note ok = heap_invD(1) [OF inv]
  note i1 = push_inv [OF inv p a]
  have a0: "a \<noteq> 0" using a block_in_page(2) [OF page_okD(2,1) [OF heap_okD(5) [OF ok p]]] by (simp add: live_in_def)
  show ?thesis
  proof (cases "Suc (length (F p)) = nblocks (btype (refs h p))")
    case False
    then have "kfree fr a h v = Inr (?h, v)" using a0 subpage_kfree_live [OF ok p a, of fr v] by (simp add: kfree_def)
    then show ?thesis using i1 by (auto simp: free_post_def)
  next
    case True
    note sp = same_pagesD [OF heap_push(3) [OF ok p a] UNIV_I]
    have "live_in ?F ?h p = {}" by (rule page_all_free [OF heap_invD(1) [OF i1(1)] p]) (use True sp(2) in simp)
    from release_inv [OF i1(1) p this] obtain h2 h3 v' where r: "remove_lists p (btype (refs ?h p)) ?h = Inr h2" "freepageref p h2 = Inr h3"
      "fr (pgaddr ?h p) v = Inr v'" "heap_inv vok held ?B ?F (remove1 p L) h3 v'" "hmem h3 = hmem ?h" by blast
    then have "kfree fr a h v = Inr (h3, v')" using True a0 subpage_kfree_live [OF ok p a, of fr v] sp by (simp add: kfree_def)
    then show ?thesis using r(4,5) i1(2) by (auto simp: free_post_def)
  qed
qed

lemma kfree_large:
  assumes inv: "heap_inv vok held B F L h v" and B: "B a = Some sz" "2048 \<le> sz"
  shows "\<exists>h' v'. kfree fr a h v = Inr (h', v') \<and> free_post B a h h' v'"
proof -
  let ?B = "B(a := None)"
  note ok = heap_invD(1) [OF inv] and l = heap_invD(7) [OF inv B]
  have ha: "block_addr a (npages sz)" "0 < npages sz" using held_allD [OF heap_invD(3) [OF inv]] l by blast+
  have "\<not> (unat (pgaddr h p) \<le> unat a \<and> unat a < unat (pgaddr h p) + 4096)" if "p \<in> set L" for p
    using large_off_pages [OF inv B, of "pgaddr h p"] that ha(2) by (auto simp: heap_pages_def apart_def)
  then have f: "find_pageref a h = Inr 0" using find_pageref_ok [OF ok, of a] by blast
  from free_shrink [OF heap_invD(2,3) [OF inv], of a "npages sz"] l
  obtain v' where v': "fr a v = Inr v'" "vok v'" "held_all held (owned h L B - {(a, npages sz)}) v'" by blast
  have k: "kfree fr a h v = Inr (h, v')" using f v'(1) block_addr_checks [OF ha(1)] by (simp add: kfree_def subpage_kfree_def)
  have "owned h L ?B = owned h L B - {(a, npages sz)}" by (rule owned_eqI) (use l B in \<open>auto simp: in_owned split: if_splits\<close>)
  moreover have "blocks_match ?B F L h"
    unfolding blocks_match_def
  proof (intro conjI ballI allI impI)
    fix q b assume q: "q \<in> set L" "b \<in> live_in F h q"
    then obtain tz where tz: "B b = Some tz" "tz < 2048" "tz \<le> sizes ! btype (refs h q)" using heap_invD(5) [OF inv] by blast
    then have "b \<noteq> a" using B by (auto simp: not_le [symmetric])
    then show "\<exists>tz. ?B b = Some tz \<and> tz < 2048 \<and> tz \<le> sizes ! btype (refs h q)" using tz by simp
  next
    fix b tz assume "?B b = Some tz \<and> tz < 2048"
    then show "\<exists>q\<in>set L. b \<in> live_in F h q" using heap_invD(6) [OF inv, of b tz] by (simp split: if_splits)
  next
    fix b tz assume "?B b = Some tz \<and> 2048 \<le> tz"
    then have "B b = Some tz" "2048 \<le> tz" by (auto split: if_splits)
    then show "unat tz \<le> 4096 * npages tz" "b \<notin> set (heap_pages h L)" using heap_invD(7) [OF inv] by blast+
  qed
  ultimately have "heap_inv vok held ?B F L h v'" using ok v'(2,3) by (simp add: heap_inv_def)
  then show ?thesis using k by (auto simp: free_post_def)
qed

lemma kfree_post:
  assumes inv: "heap_inv vok held B F L h v" and a: "a = 0 \<or> B a \<noteq> None"
  shows "\<exists>h' v'. kfree fr a h v = Inr (h', v') \<and> free_post B a h h' v'"
proof (cases "B a")
  case None
  then have "a = 0" "B(a := None) = B" using a by (auto simp: fun_eq_iff)
  then show ?thesis using inv by (auto simp: kfree_def free_post_def)
next
  case (Some sz)
  show ?thesis
  proof (cases "sz < 2048")
    case True
    then show ?thesis using heap_invD(6) [OF inv Some] kfree_small [OF inv] by blast
  next
    case False
    then show ?thesis using kfree_large [OF inv Some] by (simp add: not_less)
  qed
qed

lemma kmalloc_large:
  assumes inv: "heap_inv vok held B F L h v" and sz: "2048 \<le> sz" "unat sz \<le> 4294963200"
    and a: "al ((sz + PAGE_SIZE - 1) div PAGE_SIZE) v = Inr (a, v')"
  shows "malloc_post vok held B sz h a h v'" and "a \<noteq> 0 \<and> a mod PAGE_SIZE = 0"
proof -
  let ?n = "npages sz"
  note np = npages_bound [OF sz(2,1)]
  have "0 < unat ((sz + PAGE_SIZE - 1) div PAGE_SIZE)" using np(2) by (simp add: npages_def)
  note g = alloc_grow [OF heap_invD(2,3) [OF inv] this a, folded npages_def]
  show a0: "a \<noteq> 0 \<and> a mod PAGE_SIZE = 0" by (rule block_addr_checks [OF g(3)])
  have ap: "apart a ?n c k" if "(c, k) \<in> owned h L B" for c k
    using held_all_apart [OF g(2), of a ?n c k] g(4) that by blast
  have B: "B a = None"
  proof (cases "B a")
    case (Some tz)
    obtain c k where c: "(c, k) \<in> owned h L B" "unat c \<le> unat a" "unat a < unat c + 4096 * k" by (rule block_container [OF inv Some]) blast
    then show ?thesis using ap [OF c(1)] np(2) by (auto simp: apart_def)
  qed
  have nh: "a \<notin> set (heap_pages h L)" using g(4) page_owned(2) by blast
  have "owned h L (B(a \<mapsto> sz)) = insert (a, ?n) (owned h L B)" by (rule owned_eqI) (use B sz(1) in \<open>auto simp: in_owned\<close>)
  moreover have "blocks_match (B(a \<mapsto> sz)) F L h"
    unfolding blocks_match_def
  proof (intro conjI ballI allI impI)
    fix q b assume q: "q \<in> set L" "b \<in> live_in F h q"
    then obtain tz where tz: "B b = Some tz" "tz < 2048" "tz \<le> sizes ! btype (refs h q)" using heap_invD(5) [OF inv] by blast
    then show "\<exists>tz. (B(a \<mapsto> sz)) b = Some tz \<and> tz < 2048 \<and> tz \<le> sizes ! btype (refs h q)" using B by auto
  next
    fix b tz assume b: "(B(a \<mapsto> sz)) b = Some tz \<and> tz < 2048"
    then have "B b = Some tz" using sz(1) by (auto simp: not_le [symmetric] split: if_splits)
    then show "\<exists>q\<in>set L. b \<in> live_in F h q" using heap_invD(6) [OF inv] b by blast
  next
    fix b tz assume b: "(B(a \<mapsto> sz)) b = Some tz \<and> 2048 \<le> tz"
    show "unat tz \<le> 4096 * npages tz" "b \<notin> set (heap_pages h L)"
      using b np(1) nh heap_invD(7) [OF inv, of b tz] by (auto split: if_splits)
  qed
  ultimately have "heap_inv vok held (B(a \<mapsto> sz)) F L h v'" using heap_invD(1) [OF inv] g(1,2) by (simp add: heap_inv_def)
  then show "malloc_post vok held B sz h a h v'" using a0 B by (auto simp: malloc_post_def)
qed

lemma kmalloc_post:
  assumes inv: "heap_inv vok held B F L h v" and sz: "unat sz \<le> 4294963200"
  shows "case kmalloc al fr sz h v of
      Inl e \<Rightarrow> \<exists>n v1. vok v1 \<and> al n v1 = Inl e
    | Inr (a, h', v') \<Rightarrow> malloc_post vok held B sz h a h' v'"
proof (cases "sz < 2048")
  case True
  then have "\<not> sz \<ge> LARGEST_SUBPAGE_SIZE" by (simp add: LARGEST_SUBPAGE_SIZE_def not_le)
  then have "kmalloc al fr sz h v = subpage_kmalloc al fr sz h v" by (simp add: kmalloc_def)
  then show ?thesis using subpage_kmalloc_post [OF inv True] by (auto split: sum.splits)
next
  case False
  then have l: "2048 \<le> sz" by (simp add: not_less)
  show ?thesis
  proof (cases "al ((sz + PAGE_SIZE - 1) div PAGE_SIZE) v")
    case (Inl e)
    then have "kmalloc al fr sz h v = Inl e" using l by (simp add: kmalloc_def LARGEST_SUBPAGE_SIZE_def Let_def)
    then show ?thesis using Inl heap_invD(2) [OF inv] by auto
  next
    case (Inr r)
    obtain a v' where r: "al ((sz + PAGE_SIZE - 1) div PAGE_SIZE) v = Inr (a, v')" using Inr by (cases r) simp
    note k = kmalloc_large [OF inv l sz r]
    have "kmalloc al fr sz h v = Inr (a, h, v')" using l r k(2) by (simp add: kmalloc_def LARGEST_SUBPAGE_SIZE_def Let_def)
    then show ?thesis using k(1) by simp
  qed
qed

end

subsection \<open>The empty heap\<close>

lemma heap_start:
  assumes "vok v"
  shows "heap_inv vok held Map.empty (\<lambda>_. []) [] (kheap_start r m) v"
proof -
  let ?r = "\<lparr>page = 0, pagerefs_inuse = replicate 8 0, numinuse = 0\<rparr> :: kheap_root"
  have i: "inuse_set ?r = {}" by (auto simp: inuse_set_def)
  then have ro: "root_ok ?r" by (simp add: root_ok_def)
  have rp: "root_pages (replicate NUM_PAGEREFPAGES ?r) = []" by (simp add: root_pages_def)
  have "roots_ok (replicate NUM_PAGEREFPAGES ?r)" using ro rp by (auto simp: roots_ok_def)
  moreover have "refs_of (replicate NUM_PAGEREFPAGES ?r) = {}" using i by (auto simp: refs_of_def)
  ultimately have "heap_ok (\<lambda>_. []) [] (kheap_start r m)" using rp by (simp add: heap_ok_def kheap_start_def heap_pages_def)
  then show ?thesis using assms rp
    by (simp add: heap_inv_def held_all_def owned_def blocks_match_def heap_pages_def kheap_start_def)
qed

subsection \<open>Clients\<close>

text \<open>A client writes to its blocks.\<close>

lemma client_write:
  assumes inv: "heap_inv vok held B F L h v" and m: "\<And>x. m x \<noteq> hmem h x \<Longrightarrow> x \<in> in_use B"
  shows "heap_inv vok held B F L (h\<lparr>hmem := m\<rparr>) v"
proof -
  let ?h = "h\<lparr>hmem := m\<rparr>"
  note ok = heap_invD(1) [OF inv]
  have free: "x \<notin> in_use B" if p: "p \<in> set L" and x: "x \<in> set (F p)" for p x
  proof
    assume "x \<in> in_use B"
    then obtain a sz where a: "B a = Some sz" "unat a \<le> unat x" "unat x < unat a + unat sz" by (auto simp: in_use_def)
    have xb: "x \<in> set (blocks (pgaddr h p) (btype (refs h p)))" using page_okD(5) [OF heap_okD(5) [OF ok p]] x by blast
    show False
    proof (cases "sz < 2048")
      case True
      then obtain q where q: "q \<in> set L" "a \<in> live_in F h q" using heap_invD(6) [OF inv a(1)] by blast
      have ab: "a \<in> set (blocks (pgaddr h q) (btype (refs h q)))" "a \<notin> set (F q)" using q(2) by (simp_all add: live_in_def)
      have "x = a" using block_ranges [OF ok q(1) p ab(1) xb] a(2,3) small_size [OF inv q a(1)] by linarith
      then show False using block_of_one_page [OF ok q(1) p ab(1)] xb x ab(2) by blast
    next
      case False
      then have l: "2048 \<le> sz" by (simp add: not_less)
      have "apart a (npages sz) (pgaddr h p) 1" by (rule large_off_pages [OF inv a(1) l]) (use p in \<open>simp add: heap_pages_def\<close>)
      then show False using a(2,3) heap_invD(7) [OF inv a(1) l] live_page [OF ok p xb] by (auto simp: apart_def)
    qed
  qed
  have pgs: "page_ok (hmem ?h) (refs ?h q) (F q)" if q: "q \<in> set L" for q
    using page_ok_cong [OF heap_okD(5) [OF ok q], of m] free [OF q] m by (metis (no_types) kheap.select_convs(2,5) kheap.surjective kheap.update_convs(5))
  have f: "kheaproots ?h = kheaproots h" "sizebases ?h = sizebases h" "allbase ?h = allbase h" "nextS ?h q = nextS h q" "nextA ?h q = nextA h q"
    "pageaddr_and_blocktype (refs ?h q) = pageaddr_and_blocktype (refs h q)" for q by simp_all
  have h: "heap_ok F L ?h" "heap_pages ?h L = heap_pages h L" by (rule heap_ok_upd [OF ok f pgs]; assumption)+
  have "live_in F ?h = live_in F h" by (simp add: live_in_def fun_eq_iff)
  then have "blocks_match B F L ?h = blocks_match B F L h" unfolding blocks_match_def h(2) by simp
  moreover have "owned ?h L B = owned h L B" unfolding owned_def h(2) ..
  ultimately show ?thesis using inv h(1) by (simp add: heap_inv_def)
qed

text \<open>
  The heap in use: clients allocate, release what they hold and write to it, and other parts of the kernel use the
  page allocator without touching the blocks that are held. \<open>B\<close> is what the clients hold.
\<close>

inductive heap_run ::
    "(u32 \<Rightarrow> 'v \<Rightarrow> (u32 \<times> 'v) res) \<Rightarrow> (u32 \<Rightarrow> 'v \<Rightarrow> 'v res) \<Rightarrow> ('v \<Rightarrow> bool) \<Rightarrow> ('v \<Rightarrow> u32 \<Rightarrow> nat \<Rightarrow> bool) \<Rightarrow>
     (u32 \<rightharpoonup> u32) \<Rightarrow> kheap \<Rightarrow> 'v \<Rightarrow> bool" for al fr vok held where
  start: "vok v \<Longrightarrow> heap_run al fr vok held Map.empty (kheap_start r m) v"
| malloc: "heap_run al fr vok held B h v \<Longrightarrow> unat sz \<le> 4294963200 \<Longrightarrow> kmalloc al fr sz h v = Inr (a, h', v') \<Longrightarrow>
    heap_run al fr vok held (if a = 0 then B else B(a \<mapsto> sz)) h' v'"
| free: "heap_run al fr vok held B h v \<Longrightarrow> a = 0 \<or> B a \<noteq> None \<Longrightarrow> kfree fr a h v = Inr (h', v') \<Longrightarrow>
    heap_run al fr vok held (B(a := None)) h' v'"
| client: "heap_run al fr vok held B h v \<Longrightarrow> (\<And>x. m x \<noteq> hmem h x \<Longrightarrow> x \<in> in_use B) \<Longrightarrow>
    heap_run al fr vok held B (h\<lparr>hmem := m\<rparr>) v"
| other: "heap_run al fr vok held B h v \<Longrightarrow> vok v' \<Longrightarrow> (\<And>a n. held v a n \<Longrightarrow> held v' a n) \<Longrightarrow> heap_run al fr vok held B h v'"

context page_source
begin

lemma run_inv:
  assumes "heap_run al fr vok held B h v"
  shows "\<exists>F L. heap_inv vok held B F L h v"
  using assms
proof (induction rule: heap_run.induct)
  case (start v r m)
  show ?case by (intro exI, rule heap_start [where vok = vok and v = v]) (rule start)
next
  case (malloc B h v sz a h' v')
  from malloc.IH obtain F L where i: "heap_inv vok held B F L h v" by (elim exE)
  have "malloc_post vok held B sz h a h' v'" using kmalloc_post [OF i malloc.hyps(2)] malloc.hyps(3) by simp
  then show ?case unfolding malloc_post_def by (elim conjE)
next
  case (free B h v a h' v')
  from free.IH obtain F L where i: "heap_inv vok held B F L h v" by (elim exE)
  from kfree_post [OF i free.hyps(2)] free.hyps(3) have "free_post B a h h' v'" by auto
  then show ?case unfolding free_post_def by (elim conjE)
next
  case (client B h v m)
  from client.IH obtain F L where i: "heap_inv vok held B F L h v" by (elim exE)
  show ?case by (intro exI, rule client_write [OF i]) (rule client.hyps(2))
next
  case (other B h v v')
  from other.IH obtain F L where "heap_inv vok held B F L h v" by (elim exE)
  then have "heap_inv vok held B F L h v'" using other.hyps(2,3) unfolding heap_inv_def held_all_def by blast
  then show ?case by (intro exI)
qed

end

end
