(* ===== verification/Kmalloc_Props.thy ===== *)
theory Kmalloc_Props
  imports Kmalloc_Ops Vm_Frames
begin

text \<open>
  The heap over the kernel's page allocator: \<open>alloc_kpages\<close> and \<open>free_kpages\<close> keep the contract the heap
  relies on, and the properties of \<open>kmalloc\<close> and \<open>kfree\<close> that follow.
\<close>

subsection \<open>The coremap as a page source\<close>

definition kpages_ok :: "'f vnode_ops \<Rightarrow> ('f \<Rightarrow> nat \<Rightarrow> u8 list option) \<Rightarrow> 'f kstate \<Rightarrow> bool" where
  "kpages_ok ops slot st \<longleftrightarrow> vm_inv slot st \<and> swap_vnode_ok ops (swapfile st) slot \<and> vm_initialized st"

text \<open>Frames in the hands of the kernel: marked, not up for replacement and in no page table.\<close>

definition kernel_frame :: "'f kstate \<Rightarrow> nat \<Rightarrow> bool" where
  "kernel_frame st j \<longleftrightarrow> \<not> cme_is_free (coremap st ! j) \<and> j \<notin> set (replacement_queue st) \<and>
     (\<forall>as v. \<not> resident st as v (of_nat j * PAGE_SIZE))"

definition kpages_at :: "'f kstate \<Rightarrow> nat \<Rightarrow> nat \<Rightarrow> bool" where
  "kpages_at st f n \<longleftrightarrow> 0 < n \<and> f + n \<le> length (coremap st) \<and> unat (cme_alloc_size (coremap st ! f)) = n \<and>
     (\<forall>j. f \<le> j \<and> j < f + n \<longrightarrow> kernel_frame st j)"

definition kpages_held :: "'f kstate \<Rightarrow> vaddr \<Rightarrow> nat \<Rightarrow> bool" where
  "kpages_held st a n \<longleftrightarrow> (\<exists>f. a = PADDR_TO_KVADDR (of_nat f * PAGE_SIZE) \<and> kpages_at st f n)"

lemma kva_unat: "f < 131072 \<Longrightarrow> unat (PADDR_TO_KVADDR (of_nat f * PAGE_SIZE)) = 0x80000000 + f * 4096"
proof -
  assume f: "f < 131072"
  then have u: "unat (of_nat f * PAGE_SIZE) = f * 4096" by (rule frame_addr_unat)
  have k: "unat MIPS_KSEG0 = 0x80000000" by (simp add: MIPS_KSEG0_def)
  have "unat (of_nat f * PAGE_SIZE + MIPS_KSEG0) = unat (of_nat f * PAGE_SIZE) + unat MIPS_KSEG0"
    by (rule unat_add_u32_le) (use f u k in linarith)
  then show ?thesis unfolding PADDR_TO_KVADDR_def u k by simp
qed

lemma kpages_bound: "vm_inv slot st \<Longrightarrow> kpages_at st f n \<Longrightarrow> f < 131072 \<and> f + n \<le> 131072"
  by (auto simp: kpages_at_def vm_inv_defs frames_ok_def)

lemma kpages_block_addr:
  assumes "vm_inv slot st" and "kpages_at st f n"
  shows "block_addr (PADDR_TO_KVADDR (of_nat f * PAGE_SIZE)) n"
proof -
  note b = kpages_bound [OF assms]
  then have u: "unat (PADDR_TO_KVADDR (of_nat f * PAGE_SIZE)) = 0x80000000 + f * 4096" by (intro kva_unat) simp
  show ?thesis unfolding block_addr_def u using b by (intro conjI) (presburger, simp, linarith)
qed

lemma kpages_apart:
  assumes "f < 131072" and "g < 131072" and "f + n \<le> g \<or> g + k \<le> f"
  shows "apart (PADDR_TO_KVADDR (of_nat f * PAGE_SIZE)) n (PADDR_TO_KVADDR (of_nat g * PAGE_SIZE)) k"
  unfolding apart_def kva_unat [OF assms(1)] kva_unat [OF assms(2)] using assms(3) by linarith

lemma kernel_frame_kept:
  assumes "evicts st st'" and "keeps_pinned st st'" and "j < length (coremap st)" and "kernel_frame st j"
  shows "kernel_frame st' j" and "coremap st' ! j = coremap st ! j"
proof -
  show c: "coremap st' ! j = coremap st ! j" using assms(2-4) by (simp add: keeps_pinned_def kernel_frame_def)
  have "j \<notin> set (replacement_queue st')" using assms(2-4) by (simp add: keeps_pinned_def kernel_frame_def)
  moreover have "\<not> resident st' as v (of_nat j * PAGE_SIZE)" for as v
    using assms(4) evicts_resident [OF assms(1), of as v] unfolding kernel_frame_def by blast
  ultimately show "kernel_frame st' j" using c assms(4) by (simp add: kernel_frame_def)
qed

lemma kpages_at_kept:
  assumes "evicts st st'" and "keeps_pinned st st'" and at: "kpages_at st f n"
  shows "kpages_at st' f n"
proof -
  have b: "0 < n" "f + n \<le> length (coremap st)" "unat (cme_alloc_size (coremap st ! f)) = n"
    and fr: "\<And>j. f \<le> j \<Longrightarrow> j < f + n \<Longrightarrow> kernel_frame st j" using at by (simp_all add: kpages_at_def)
  have k: "kernel_frame st' j \<and> coremap st' ! j = coremap st ! j" if "f \<le> j" "j < f + n" for j
  proof -
    have "j < length (coremap st)" using that b(2) by linarith
    then show ?thesis using kernel_frame_kept [OF assms(1,2) _ fr [OF that]] by simp
  qed
  have "length (coremap st') = length (coremap st)" using assms(2) by (simp add: keeps_pinned_def)
  then show ?thesis using b k by (auto simp: kpages_at_def)
qed

lemma kpages_alloc:
  assumes ok: "kpages_ok ops slot st" and n: "0 < unat n" and al: "alloc_kpages ops n st = Inr (a, st')"
  shows "kpages_ok ops slot st' \<and> block_addr a (unat n) \<and> kpages_held st' a (unat n) \<and>
    (\<forall>b k. kpages_held st b k \<longrightarrow> kpages_held st' b k \<and> apart a (unat n) b k)"
proof -
  have s: "vm_inv slot st" "swap_vnode_ok ops (swapfile st) slot" "vm_initialized st" using ok by (simp_all add: kpages_ok_def)
  then obtain p where k: "coremap_kalloc ops n st = Inr (p, st')" and a: "a = PADDR_TO_KVADDR p"
    using al by (auto simp: alloc_kpages_def)
  obtain f where p: "p = of_nat f * PAGE_SIZE" and post: "kalloc_post slot f (unat n) st st'"
    by (rule coremap_kalloc_ok [OF s(1,2) n k])
  then have i: "vm_inv slot st'" and ev: "evicts st st'" and kp: "keeps_pinned st st'" by (simp_all add: kalloc_post_def)
  have at: "kpages_at st' f (unat n)" using post n by (auto simp: kalloc_post_def kpages_at_def kernel_frame_def)
  have "kpages_held st' b k \<and> apart a (unat n) b k" if "kpages_held st b k" for b k
  proof -
    from that obtain g where b: "b = PADDR_TO_KVADDR (of_nat g * PAGE_SIZE)" and g: "kpages_at st g k" by (auto simp: kpages_held_def)
    have g': "kpages_at st' g k" by (rule kpages_at_kept [OF ev kp g])
    have "f + unat n \<le> g \<or> g + k \<le> f"
    proof (rule ccontr)
      assume "\<not> ?thesis"
      moreover have k: "0 < k" "g + k \<le> length (coremap st)" using g by (simp_all add: kpages_at_def)
      ultimately have m: "f \<le> max f g \<and> max f g < f + unat n" "g \<le> max f g \<and> max f g < g + k" using n by auto
      then have "kernel_frame st (max f g)" "max f g < length (coremap st)" using g k(2) by (simp_all add: kpages_at_def del: max_less_iff_conj)
      then show False using post m(1) by (simp add: kalloc_post_def kernel_frame_def del: max_less_iff_conj)
    qed
    then show ?thesis
      using kpages_apart [of f g "unat n" k] kpages_bound [OF i at] kpages_bound [OF i g'] g' b a p by (auto simp: kpages_held_def)
  qed
  moreover have "kpages_ok ops slot st'" using i s ev by (simp add: kpages_ok_def evicts_def)
  ultimately show ?thesis using kpages_block_addr [OF i at] at a p by (auto simp: kpages_held_def)
qed

text \<open>Releasing frames that no page table has keeps the invariant.\<close>

lemma vm_inv_release:
  assumes inv: "vm_inv slot st" and len: "length cm = length (coremap st)"
    and same: "\<And>i. i < length (coremap st) \<Longrightarrow> \<not> kernel_frame st i \<Longrightarrow> cm ! i = coremap st ! i"
  shows "vm_inv slot (st\<lparr>coremap := cm\<rparr>)"
proof -
  let ?s = "st\<lparr>coremap := cm\<rparr>"
  have i: "resident_ok st" "queue_ok {} st" using inv by (simp_all add: vm_inv_defs)
  have "resident_ok ?s"
    unfolding resident_ok_def resident_upd
  proof (intro allI impI)
    fix a v p assume r: "resident st a v p"
    with i(1) obtain i where i: "i < length (coremap st)" "p = of_nat i * PAGE_SIZE" "frame_of (coremap st ! i) a v"
      unfolding resident_ok_def by blast
    then have "\<not> kernel_frame st i" using r by (auto simp: kernel_frame_def)
    with same i len show "\<exists>i<length (coremap ?s). p = of_nat i * PAGE_SIZE \<and> frame_of (coremap ?s ! i) a v" by auto
  qed
  moreover have "cm ! i = coremap st ! i" if "i \<in> set (replacement_queue st)" for i
    using that same [of i] i(2) by (simp add: kernel_frame_def queue_ok_def)
  then have "queue_ok {} ?s" using i(2) len by (simp add: queue_ok_def)
  ultimately show ?thesis
    using inv len by (simp add: vm_inv_defs frames_ok_def swapped_ok_def swapped_inj_def swap_wf_def)
qed

lemma kpages_release:
  assumes ok: "kpages_ok ops slot st" and held: "kpages_held st a n"
  shows "\<exists>st'. free_kpages a st = Inr st' \<and> kpages_ok ops slot st' \<and>
    (\<forall>b k. kpages_held st b k \<and> apart a n b k \<longrightarrow> kpages_held st' b k)"
proof -
  have s: "vm_inv slot st" "vm_initialized st" "frames_ok st" using ok by (simp_all add: kpages_ok_def vm_inv_defs)
  obtain f where a: "a = PADDR_TO_KVADDR (of_nat f * PAGE_SIZE)" and at: "kpages_at st f n" using held by (auto simp: kpages_held_def)
  have f: "f < length (coremap st)" "f + n \<le> length (coremap st)" "unat (cme_alloc_size (coremap st ! f)) = n" "f < 131072"
    using at kpages_bound [OF s(1) at] by (auto simp: kpages_at_def)
  then obtain cm where cm: "free_kpages a st = Inr (st\<lparr>coremap := cm\<rparr>)" "length cm = length (coremap st)"
    "\<And>j. cm ! j = (if f \<le> j \<and> j < f + n then (coremap st ! j)\<lparr>cme_is_free := True\<rparr> else coremap st ! j)"
    using free_kpages_block [OF s(2,3) f(1)] unfolding a by auto
  let ?s = "st\<lparr>coremap := cm\<rparr>"
  have "cm ! i = coremap st ! i" if "\<not> kernel_frame st i" for i using at that cm(3) by (auto simp: kpages_at_def)
  then have "vm_inv slot ?s" by (intro vm_inv_release [OF s(1) cm(2)])
  then have "kpages_ok ops slot ?s" using ok by (simp add: kpages_ok_def)
  moreover have "kpages_held ?s b k" if b: "kpages_held st b k" "apart a n b k" for b k
  proof -
    obtain g where g: "b = PADDR_TO_KVADDR (of_nat g * PAGE_SIZE)" "kpages_at st g k" using b(1) by (auto simp: kpages_held_def)
    then have "g < 131072" using kpages_bound [OF s(1)] by blast
    then have "f + n \<le> g \<or> g + k \<le> f" using b(2) unfolding a g(1) apart_def kva_unat [OF f(4)] by (simp add: kva_unat) linarith
    then have "cm ! j = coremap st ! j" if "g \<le> j" "j < g + k" for j using that cm(3) by auto
    then have "kpages_at ?s g k" using g(2) cm(2) by (auto simp: kpages_at_def kernel_frame_def)
    then show ?thesis using g(1) by (auto simp: kpages_held_def)
  qed
  ultimately show ?thesis using cm(1) by blast
qed

interpretation kp: page_source "alloc_kpages ops" free_kpages "kpages_ok ops slot" kpages_held for ops slot
proof
  show "kpages_ok ops slot v' \<and> block_addr a (unat n) \<and> kpages_held v' a (unat n) \<and> (\<forall>b k. kpages_held v b k \<longrightarrow> kpages_held v' b k \<and> apart a (unat n) b k)"
    if "kpages_ok ops slot v" and "0 < unat n" and "alloc_kpages ops n v = Inr (a, v')" for v n a v'
    by (rule kpages_alloc [OF that])
  show "\<exists>v'. free_kpages a v = Inr v' \<and> kpages_ok ops slot v' \<and> (\<forall>b k. kpages_held v b k \<and> apart a j b k \<longrightarrow> kpages_held v' b k)"
    if "kpages_ok ops slot v" and "kpages_held v a j" and "0 < j" and "block_addr a j" for v a j
    by (rule kpages_release [OF that(1,2)])
qed

subsection \<open>An example\<close>

lemma alloc_kpages_found:
  assumes "vm_initialized st" and "kalloc_scan (coremap st) np 0 [0..<unat (num_frames st)] = (f, Some l)"
  shows "alloc_kpages ops np st = Inr (PADDR_TO_KVADDR (of_nat f * PAGE_SIZE), st\<lparr>coremap := kalloc_mark np f l (coremap st)\<rparr>)"
  using assms by (simp add: alloc_kpages_def coremap_kalloc_def coremap_kalloc_loop.simps [of ops np 0 st])

definition kstate_kpage :: "nat \<Rightarrow> page_fs kstate \<Rightarrow> page_fs kstate" where
  "kstate_kpage f st = st\<lparr>coremap := (coremap st)[f := kframe\<lparr>cme_paddr := of_nat f * PAGE_SIZE\<rparr>]\<rparr>"

lemma kstate0_kpage:
  "alloc_kpages ops 1 kstate0 = Inr (0x80004000, kstate_kpage 4 kstate0)"
  "alloc_kpages ops 1 (kstate_kpage 4 kstate0) = Inr (0x80005000, kstate_kpage 5 (kstate_kpage 4 kstate0))"
proof -
  have u: "[0..<8] = [0, 1, 2, 3, 4, 5, 6, 7 :: nat]" by (simp add: upt_rec)
  have l: "replicate 4 x = [x, x, x, x]" for x :: coremap_entry by (simp add: numeral_eq_Suc)
  have "kalloc_scan (coremap kstate0) 1 0 [0..<unat (num_frames kstate0)] = (4, Some 4)"
    by (simp add: kstate0_def kframe_def u l)
  from alloc_kpages_found [OF _ this, of ops] show "alloc_kpages ops 1 kstate0 = Inr (0x80004000, kstate_kpage 4 kstate0)"
    by (simp add: kstate_kpage_def kstate0_def kframe_def l kalloc_mark_def kalloc_mark_step_def PADDR_TO_KVADDR_def MIPS_KSEG0_def PAGE_SIZE_def)
  have "kalloc_scan (coremap (kstate_kpage 4 kstate0)) 1 0 [0..<unat (num_frames (kstate_kpage 4 kstate0))] = (5, Some 5)"
    by (simp add: kstate_kpage_def kstate0_def kframe_def u l)
  from alloc_kpages_found [OF _ this, of ops]
  show "alloc_kpages ops 1 (kstate_kpage 4 kstate0) = Inr (0x80005000, kstate_kpage 5 (kstate_kpage 4 kstate0))"
    by (simp add: kstate_kpage_def kstate0_def kframe_def l kalloc_mark_def kalloc_mark_step_def PADDR_TO_KVADDR_def MIPS_KSEG0_def PAGE_SIZE_def)
qed

lemma kmalloc_example:
  "\<exists>h. kmalloc (alloc_kpages ops) free_kpages 1500 (kheap_start r m) kstate0 =
     Inr (0x80004800, h, kstate_kpage 5 (kstate_kpage 4 kstate0))"
proof -
  let ?v1 = "kstate_kpage 4 kstate0" let ?v2 = "kstate_kpage 5 ?v1"
  let ?R = "\<lparr>page = 0, pagerefs_inuse = replicate 8 0, numinuse = 0\<rparr> :: kheap_root"
  have u: "[0..<32] = 0 # [1..<32 :: nat]" "[0..<NUM_PAGEREFPAGES] = 0 # [1..<16]" by (simp_all add: upt_rec NUM_PAGEREFPAGES_def)
  have b: "blocktype 1500 = Inr 7" by (simp add: blocktype_def NSIZES_def sizes_def upt_rec)
  have "sizebases (kheap_start r m) ! 7 = 0" by (simp add: kheap_start_def NSIZES_def)
  then have f: "find_page 7 (kheap_start r m) = Inr 0" by (simp add: find_page_def walk.simps [of _ _ 0])
  have s: "scan_words (pagerefs_inuse ?R) 0 = Inr (Some (0, 0))" using replicate_Suc [of 7 "0 :: u32"] by (simp add: u(1))
  have r: "kheaproots (kheap_start r m) = replicate 16 ?R" by (simp add: kheap_start_def NUM_PAGEREFPAGES_def)
  let ?h = "(kheap_start r m)\<lparr>kheaproots := (replicate 16 ?R)[0 := (set_inuse 0 0 ?R)\<lparr>page := 0x80005000\<rparr>]\<rparr>"
  have "page (set_inuse 0 0 ?R) = 0" by (simp add: set_inuse_def)
  then have pp: "allocpagerefpage (alloc_kpages ops) free_kpages 0 ((kheap_start r m)\<lparr>kheaproots := (replicate 16 ?R)[0 := set_inuse 0 0 ?R]\<rparr>) ?v1 = Inr (?h, ?v2)"
    by (simp add: allocpagerefpage_def kstate0_kpage PAGE_SIZE_def)
  have h1: "allocpageref (alloc_kpages ops) free_kpages (kheap_start r m) ?v1 = Inr (0x80005000, ?h, ?v2)"
    using s pp by (simp add: allocpageref_def u(2) r NPAGEREFS_PER_PAGE_def PAGE_SIZE_def Let_def del: scan_words.simps)
  have h1': "refs ?h = r" "sizebases ?h = replicate 8 0" "allbase ?h = 0" "hmem ?h = m" by (simp_all add: kheap_start_def NSIZES_def)
  have n: "[Suc 0..<2] = [1]" by (simp add: upt_rec)
  obtain h2 where h2: "new_page 7 0x80004000 0x80005000 ?h = Inr h2" "hmem h2 0x80004800 = 0x80004000"
    "refs h2 0x80005000 = \<lparr>next_samesize = 0, next_all = 0, pageaddr_and_blocktype = 0x80004007, freelist_offset = 2048, nfree = 2\<rparr>"
    by (simp add: new_page_def h1' sizes_def PAGE_SIZE_def n Let_def MKPAB_def PAGE_FRAME_def)
  obtain h3 where h3: "doalloc 0x80005000 h2 = Inr (0x80004800, h3)"
    by (simp add: doalloc_def h2 Let_def PR_PAGEADDR_def PAGE_FRAME_def PAGE_SIZE_def)
  show ?thesis using b f h1 h2(1) h3
    by (simp add: kmalloc_def LARGEST_SUBPAGE_SIZE_def subpage_kmalloc_def kstate0_kpage PAGE_SIZE_def)
qed

subsection \<open>The kernel's heap in use\<close>

abbreviation kheap_run ::
    "'f vnode_ops \<Rightarrow> ('f \<Rightarrow> nat \<Rightarrow> u8 list option) \<Rightarrow> (u32 \<rightharpoonup> u32) \<Rightarrow> kheap \<Rightarrow> 'f kstate \<Rightarrow> bool" where
  "kheap_run ops slot \<equiv> heap_run (alloc_kpages ops) free_kpages (kpages_ok ops slot) kpages_held"

lemma kheap_run_start: "kheap_run page_ops page_slot Map.empty (kheap_start r m) kstate0"
proof -
  have "kpages_ok page_ops page_slot kstate0" using kstate0_inv page_ops_ok by (simp add: kpages_ok_def kstate0_sel)
  then show ?thesis by (rule heap_run.start)
qed

lemma kheap_run_example: "\<exists>h. kheap_run page_ops page_slot [0x80004800 \<mapsto> 1500] h (kstate_kpage 5 (kstate_kpage 4 kstate0))"
proof -
  fix r m
  obtain h where "kmalloc (alloc_kpages page_ops) free_kpages 1500 (kheap_start r m) kstate0 =
      Inr (0x80004800, h, kstate_kpage 5 (kstate_kpage 4 kstate0))" using kmalloc_example by blast
  from heap_run.malloc [OF kheap_run_start _ this] show ?thesis by auto
qed

lemma kernel_block_off_user:
  assumes inv: "vm_inv slot st" and held: "kpages_held st c n" and r: "resident st as v p"
  shows "unat c + 4096 * n \<le> 0x80000000 + unat p \<or> 0x80000000 + unat p + 4096 \<le> unat c"
proof -
  obtain f where c: "c = PADDR_TO_KVADDR (of_nat f * PAGE_SIZE)" and at: "kpages_at st f n" using held by (auto simp: kpages_held_def)
  have ok: "frames_ok st" "resident_ok st" using inv by (simp_all add: vm_inv_defs)
  obtain j where j: "j < length (coremap st)" "j < 131072" "p = of_nat j * PAGE_SIZE" "frame_of (coremap st ! j) as v"
    by (rule resident_frame [OF ok r])
  have "\<not> (f \<le> j \<and> j < f + n)" using at r j(3) unfolding kpages_at_def kernel_frame_def by blast
  moreover have "unat c = 0x80000000 + f * 4096" unfolding c using kpages_bound [OF inv at] by (intro kva_unat) simp
  moreover have "unat p = j * 4096" unfolding j(3) by (rule frame_addr_unat) (rule j(2))
  ultimately show ?thesis by linarith
qed







lemma live_in_held:
  assumes inv: "heap_inv vok held B F L h v" and p: "p \<in> set L"
  shows "live_in F h p = {a \<in> set (blocks (pgaddr h p) (btype (refs h p))). B a \<noteq> None}"
proof (intro equalityI subsetI)
  fix a assume "a \<in> live_in F h p"
  then show "a \<in> {a \<in> set (blocks (pgaddr h p) (btype (refs h p))). B a \<noteq> None}" using heap_invD(5) [OF inv p] by (auto simp: live_in_def)
next
  fix a assume "a \<in> {a \<in> set (blocks (pgaddr h p) (btype (refs h p))). B a \<noteq> None}"
  then show "a \<in> live_in F h p" using block_small [OF inv p] by blast
qed



end
