(* ===== verification/Proc.thy ===== *)
theory Proc
  imports Synch Vnode Addrspace
begin

text \<open>
  Processes (\<open>kern/proc/proc.c\<close> and \<open>kern/syscall/proc_syscalls.c\<close>): the table of process numbers, the life of a
  \<open>struct proc\<close>, and the protocol by which \<open>proc_wait\<close> learns the status that \<open>sys__exit\<close> leaves.

  A \<open>struct proc\<close> is a number into \<open>procs\<close>, which has nothing where no process is allocated. The condition variable
  and the lock of a process are objects of \<open>Synch\<close>, its directory is a vnode of \<open>Vnode\<close>, its address space one of
  \<open>Addrspace\<close>. The spinlocks \<open>p_lock\<close> and \<open>pt.lock\<close> are held for single assignments only, so a stretch under them
  is part of one step. Outcomes of \<open>kmalloc\<close> are arguments.
\<close>

subsection \<open>State\<close>

record proc =
  p_name :: string
  p_numthreads :: u32
  p_addrspace :: "vaddr option"
  p_cwd :: "nat option"
  p_cv :: nat
  p_cv_lock :: nat
  p_status_set :: bool
  p_status :: int
  p_pid :: int
  p_open_ftable :: "nat option list"

record 'f psys =
  procs :: "nat \<rightharpoonup> proc"
  pid_table :: "nat option list"
  kproc :: "nat option"
  t_proc :: "tid \<Rightarrow> nat option"
  synch :: ssys
  vns :: vstore
  kst :: "'f kstate"

text \<open>The outcomes of the allocations of one object of \<open>Synch\<close>: its address, its name, its wait channel.\<close>

type_synonym synch_alloc = "nat option \<times> bool \<times> bool"

definition MAX_PROC :: int where "MAX_PROC = 100"
definition PID_MIN :: int where "PID_MIN = 2"
definition TABLE_SIZE :: nat where "TABLE_SIZE = nat (MAX_PROC - PID_MIN + 1)"

definition set_proc :: "nat \<Rightarrow> proc \<Rightarrow> 'f psys \<Rightarrow> 'f psys" where
  "set_proc p pr ps = ps\<lparr>procs := (procs ps)(p \<mapsto> pr)\<rparr>"

subsection \<open>Process numbers\<close>

definition proc_assign_pid :: "nat \<Rightarrow> 'f psys \<Rightarrow> 'f psys res" where
  "proc_assign_pid p ps =
     rbind (obj (procs ps p)) (\<lambda>pr.
       case find (\<lambda>i. pid_table ps ! i = None) [0..<TABLE_SIZE] of
         None \<Rightarrow> Inr (set_proc p (pr\<lparr>p_pid := - 1\<rparr>) ps)
       | Some i \<Rightarrow> Inr ((set_proc p (pr\<lparr>p_pid := int i + 1\<rparr>) ps)\<lparr>pid_table := (pid_table ps)[i := Some p]\<rparr>))"

definition proc_unassign_pid :: "nat \<Rightarrow> 'f psys \<Rightarrow> 'f psys res" where
  "proc_unassign_pid p ps =
     rbind (obj (procs ps p)) (\<lambda>pr.
       if p_pid pr - 1 < 0 \<or> p_pid pr - 1 \<ge> int TABLE_SIZE then Inl OutOfBounds
       else Inr (ps\<lparr>pid_table := (pid_table ps)[nat (p_pid pr - 1) := None]\<rparr>))"

definition proc_find_by_pid :: "int \<Rightarrow> 'f psys \<Rightarrow> nat res" where
  "proc_find_by_pid pid ps =
     (if \<not> (pid \<ge> PID_MIN \<and> pid \<le> MAX_PROC) then Inl KAssertFail
      else if pid - 1 \<ge> int TABLE_SIZE then Inl OutOfBounds
      else case pid_table ps ! nat (pid - 1) of
          None \<Rightarrow> Inl KAssertFail
        | Some p \<Rightarrow> rbind (obj (procs ps p)) (\<lambda>pr. if p_pid pr \<noteq> pid then Inl KAssertFail else Inr p))"

subsection \<open>Creating and destroying a process\<close>

text \<open>
  \<open>raw\<close> is what the memory of the new structure holds. When the lock cannot be made, the memory of the
  condition variable is released.
\<close>

definition proc_create ::
    "nat option \<Rightarrow> bool \<Rightarrow> synch_alloc \<Rightarrow> synch_alloc \<Rightarrow> proc \<Rightarrow> string \<Rightarrow> 'f psys \<Rightarrow> (nat option \<times> 'f psys) res" where
  "proc_create alloc strdup acv alk raw name ps =
     (case alloc of
        None \<Rightarrow> Inr (None, ps)
      | Some p \<Rightarrow>
          if \<not> strdup then Inr (None, ps)
          else
            (case (case acv of (a, s, w) \<Rightarrow> cv_create a s w name (synch ps)) of
               (None, sy1) \<Rightarrow> Inr (None, ps\<lparr>synch := sy1\<rparr>)
             | (Some c, sy1) \<Rightarrow>
                 (case (case alk of (a, s, w) \<Rightarrow> lock_create a s w name sy1) of
                    (None, sy2) \<Rightarrow> Inr (None, ps\<lparr>synch := sy2\<lparr>cvs := (cvs sy2)(c := None)\<rparr>\<rparr>)
                  | (Some l, sy2) \<Rightarrow>
                      let pr = raw\<lparr>p_name := name, p_numthreads := 0, p_addrspace := None, p_cwd := None,
                                   p_cv := c, p_cv_lock := l, p_status_set := False\<rparr> in
                      rbind (proc_assign_pid p (set_proc p pr (ps\<lparr>synch := sy2\<rparr>))) (\<lambda>ps1.
                      rbind (obj (procs ps1 p)) (\<lambda>pr1.
                        if p_pid pr1 < 0 then Inl PanicCall else Inr (Some p, ps1))))))"

text \<open>
  \<open>proc_destroy\<close>. For the current process the address space is taken out with \<open>proc_setas\<close> and \<open>as_deactivate\<close>, which
  does nothing, is called; for another one the field is cleared: the same on this state.
\<close>

definition drop_cwd :: "(u32 \<Rightarrow> u32) \<Rightarrow> (nat \<Rightarrow> vstore \<Rightarrow> int \<times> vstore) \<Rightarrow> nat \<Rightarrow> proc \<Rightarrow> 'f psys \<Rightarrow> 'f psys res" where
  "drop_cwd magic vop_reclaim p pr ps =
     (case p_cwd pr of
        None \<Rightarrow> Inr ps
      | Some v \<Rightarrow> rbind (vnode_decref magic vop_reclaim (Some v) (vns ps)) (\<lambda>vs.
          Inr ((set_proc p (pr\<lparr>p_cwd := None\<rparr>) ps)\<lparr>vns := vs\<rparr>)))"

definition drop_as :: "'f vnode_ops \<Rightarrow> nat \<Rightarrow> 'f psys \<Rightarrow> 'f psys res" where
  "drop_as ops p ps =
     rbind (obj (procs ps p)) (\<lambda>pr.
       case p_addrspace pr of
         None \<Rightarrow> Inr ps
       | Some as \<Rightarrow> rbind (as_destroy ops as (kst ps)) (\<lambda>k.
           Inr ((set_proc p (pr\<lparr>p_addrspace := None\<rparr>) ps)\<lparr>kst := k\<rparr>)))"

definition free_proc :: "nat \<Rightarrow> 'f psys \<Rightarrow> 'f psys res" where
  "free_proc p ps =
     rbind (obj (procs ps p)) (\<lambda>pr.
       if p_numthreads pr \<noteq> 0 then Inl KAssertFail
       else rbind (cv_destroy (p_cv pr) (synch ps)) (\<lambda>sy1.
            rbind (lock_destroy (p_cv_lock pr) sy1) (\<lambda>sy2.
            rbind (proc_unassign_pid p (ps\<lparr>synch := sy2\<rparr>)) (\<lambda>ps1.
              Inr (ps1\<lparr>procs := (procs ps1)(p := None)\<rparr>)))))"

definition proc_destroy ::
    "'f vnode_ops \<Rightarrow> (u32 \<Rightarrow> u32) \<Rightarrow> (nat \<Rightarrow> vstore \<Rightarrow> int \<times> vstore) \<Rightarrow> nat option \<Rightarrow> 'f psys \<Rightarrow> 'f psys res" where
  "proc_destroy ops magic vop_reclaim proc ps =
     (case proc of
        None \<Rightarrow> Inl KAssertFail
      | Some p \<Rightarrow>
          if kproc ps = Some p then Inl KAssertFail
          else rbind (obj (procs ps p)) (\<lambda>pr.
               rbind (drop_cwd magic vop_reclaim p pr ps) (\<lambda>ps1.
               rbind (drop_as ops p ps1) (free_proc p))))"

text \<open>\<open>proc_bootstrap\<close>: the table is cleared and the process of the kernel made.\<close>

definition proc_bootstrap :: "nat option \<Rightarrow> bool \<Rightarrow> synch_alloc \<Rightarrow> synch_alloc \<Rightarrow> proc \<Rightarrow> 'f psys \<Rightarrow> 'f psys res" where
  "proc_bootstrap alloc strdup acv alk raw ps =
     rbind (proc_create alloc strdup acv alk raw ''[kernel]'' (ps\<lparr>pid_table := replicate TABLE_SIZE None\<rparr>)) (\<lambda>(kp, ps1).
       case kp of None \<Rightarrow> Inl PanicCall | Some p \<Rightarrow> Inr (ps1\<lparr>kproc := Some p\<rparr>))"

text \<open>\<open>t\<close> is the current thread and \<open>curproc\<close> its process.\<close>

definition curproc_of :: "tid \<Rightarrow> 'f psys \<Rightarrow> (nat \<times> proc) res" where
  "curproc_of t ps =
     (case t_proc ps t of None \<Rightarrow> Inl NullDeref | Some c \<Rightarrow> rbind (obj (procs ps c)) (\<lambda>cr. Inr (c, cr)))"

definition proc_create_runprogram ::
    "tid \<Rightarrow> nat option \<Rightarrow> bool \<Rightarrow> synch_alloc \<Rightarrow> synch_alloc \<Rightarrow> proc \<Rightarrow> string \<Rightarrow> 'f psys \<Rightarrow> (nat option \<times> 'f psys) res" where
  "proc_create_runprogram t alloc strdup acv alk raw name ps =
     rbind (proc_create alloc strdup acv alk raw name ps) (\<lambda>(newproc, ps1).
       case newproc of
         None \<Rightarrow> Inr (None, ps1)
       | Some p \<Rightarrow>
           rbind (obj (procs ps1 p)) (\<lambda>pr.
           rbind (curproc_of t ps1) (\<lambda>(c, cr).
             case p_cwd cr of
               None \<Rightarrow> Inr (Some p, set_proc p (pr\<lparr>p_addrspace := None\<rparr>) ps1)
             | Some v \<Rightarrow> rbind (vnode_incref (Some v) (vns ps1)) (\<lambda>vs.
                 Inr (Some p, (set_proc p (pr\<lparr>p_addrspace := None, p_cwd := Some v\<rparr>) ps1)\<lparr>vns := vs\<rparr>)))))"

subsection \<open>Threads and address spaces\<close>

definition proc_addthread :: "nat \<Rightarrow> tid \<Rightarrow> 'f psys \<Rightarrow> 'f psys res" where
  "proc_addthread p t ps =
     (if t_proc ps t \<noteq> None then Inl KAssertFail
      else rbind (obj (procs ps p)) (\<lambda>pr.
        Inr ((set_proc p (pr\<lparr>p_numthreads := p_numthreads pr + 1\<rparr>) ps)\<lparr>t_proc := (t_proc ps)(t \<mapsto> p)\<rparr>)))"

definition proc_remthread :: "tid \<Rightarrow> 'f psys \<Rightarrow> 'f psys res" where
  "proc_remthread t ps =
     (case t_proc ps t of
        None \<Rightarrow> Inl KAssertFail
      | Some p \<Rightarrow> rbind (obj (procs ps p)) (\<lambda>pr.
          if \<not> p_numthreads pr > 0 then Inl KAssertFail
          else Inr ((set_proc p (pr\<lparr>p_numthreads := p_numthreads pr - 1\<rparr>) ps)\<lparr>t_proc := (t_proc ps)(t := None)\<rparr>)))"

definition proc_getas_of :: "tid \<Rightarrow> 'f psys \<Rightarrow> vaddr option res" where
  "proc_getas_of t ps =
     (case t_proc ps t of None \<Rightarrow> Inr None | Some p \<Rightarrow> rbind (obj (procs ps p)) (\<lambda>pr. Inr (p_addrspace pr)))"

definition proc_setas :: "tid \<Rightarrow> vaddr option \<Rightarrow> 'f psys \<Rightarrow> (vaddr option \<times> 'f psys) res" where
  "proc_setas t newas ps =
     (case t_proc ps t of
        None \<Rightarrow> Inl KAssertFail
      | Some p \<Rightarrow> rbind (obj (procs ps p)) (\<lambda>pr. Inr (p_addrspace pr, set_proc p (pr\<lparr>p_addrspace := newas\<rparr>) ps)))"

subsection \<open>System calls without waiting\<close>

definition sys_getpid :: "tid \<Rightarrow> 'f psys \<Rightarrow> int res" where
  "sys_getpid t ps =
     (case t_proc ps t of
        None \<Rightarrow> Inl KAssertFail
      | Some p \<Rightarrow> rbind (obj (procs ps p)) (\<lambda>pr. Inr (p_pid pr)))"

text \<open>\<open>sys_fork\<close> as far as it is written: the child has no thread, and the parent gets an error.\<close>

definition sys_fork ::
    "'f vnode_ops \<Rightarrow> (u32 \<Rightarrow> u32) \<Rightarrow> (nat \<Rightarrow> vstore \<Rightarrow> int \<times> vstore) \<Rightarrow> tid \<Rightarrow> nat option \<Rightarrow> bool \<Rightarrow> synch_alloc \<Rightarrow> synch_alloc \<Rightarrow>
     proc \<Rightarrow> bool \<Rightarrow> segment list \<Rightarrow> 'f psys \<Rightarrow> (int \<times> 'f psys) res" where
  "sys_fork ops magic vop_reclaim t alloc strdup acv alk raw kmalloc_seg rawsegs ps =
     (if t_proc ps t = None then Inl KAssertFail
      else rbind (curproc_of t ps) (\<lambda>(c, parent).
           rbind (proc_create_runprogram t alloc strdup acv alk raw (p_name parent) ps) (\<lambda>(child, ps1).
             case child of
               None \<Rightarrow> Inr (- 1, ps1)
             | Some p \<Rightarrow>
                 rbind (as_copy ops kmalloc_seg rawsegs (case p_addrspace parent of None \<Rightarrow> 0 | Some a \<Rightarrow> a) (kst ps1)) (\<lambda>(r, k).
                   let ps2 = ps1\<lparr>kst := k\<rparr> in
                   case r of
                     Err e \<Rightarrow> rbind (proc_destroy ops magic vop_reclaim (Some p) ps2) (\<lambda>ps3. Inr (- 1, ps3))
                   | Ret a \<Rightarrow> rbind (obj (procs ps2 p)) (\<lambda>pr. Inr (- 1, set_proc p (pr\<lparr>p_addrspace := Some a\<rparr>) ps2))))))"

end
