(* ===== verification/Proc_Wait.thy ===== *)
theory Proc_Wait
  imports Proc
begin

text \<open>
  Waiting for a process: \<open>sys__exit\<close> and \<open>proc_wait\<close> as the steps of any number of threads. A step ends where a
  thread can be delayed: at the operations of \<open>Synch\<close>, before reading \<open>p_status_set\<close>, which \<open>sys__exit\<close> writes without the lock,
  and before \<open>proc_destroy\<close>.
\<close>

subsection \<open>Where a thread is\<close>

text \<open>
  In \<open>sys__exit\<close>: before \<open>lock_acquire\<close>, in it, before \<open>cv_signal\<close>, before \<open>lock_release\<close>, before \<open>thread_exit\<close>. In \<open>proc_wait\<close>:
  before \<open>lock_acquire\<close>, in it, before the test of the loop, before \<open>cv_wait\<close>, in it, before \<open>lock_release\<close>, before reading
  the status.
\<close>

datatype ppc = Outside | Gone
  | Ex_lock nat | Ex_locking nat | Ex_signal nat | Ex_release nat | Ex_thread nat
  | Wa_lock nat | Wa_locking nat | Wa_test nat | Wa_call nat | Wa_cv nat | Wa_release nat | Wa_status nat

record 'f wsys =
  pc :: "tid \<Rightarrow> ppc"
  psy :: "'f psys"

datatype pevent = Exited nat int | Waited tid nat int

type_synonym 'f wres = "(pevent list \<times> 'f wsys) res option"

definition at_pc :: "tid \<Rightarrow> ppc \<Rightarrow> 'f wsys \<Rightarrow> 'f wsys" where
  "at_pc t x ws = ws\<lparr>pc := (pc ws)(t := x)\<rparr>"

definition with_proc :: "nat \<Rightarrow> (proc \<Rightarrow> 'f wres) \<Rightarrow> 'f wsys \<Rightarrow> 'f wres" where
  "with_proc p f ws = (case procs (psy ws) p of None \<Rightarrow> Some (Inl UseAfterFree) | Some pr \<Rightarrow> f pr)"

text \<open>An operation of \<open>Synch\<close>; while it waits for the spinlock of a condition variable the thread makes no step.\<close>

definition sync :: "tid \<Rightarrow> sres option \<Rightarrow> (ssys \<Rightarrow> ppc) \<Rightarrow> 'f wsys \<Rightarrow> 'f wres" where
  "sync t r k ws =
     (case r of
        None \<Rightarrow> None
      | Some (Inl e) \<Rightarrow> (if e = Spins then None else Some (Inl e))
      | Some (Inr (es, sy)) \<Rightarrow> Some (Inr ([], at_pc t (k sy) (ws\<lparr>psy := (psy ws)\<lparr>synch := sy\<rparr>\<rparr>))))"

definition returned :: "tid \<Rightarrow> ppc \<Rightarrow> ppc \<Rightarrow> ssys \<Rightarrow> ppc" where
  "returned t yes no sy = (if pos sy t = Idle then yes else no)"

subsection \<open>Leaving\<close>

definition sys__exit :: "tid \<Rightarrow> int \<Rightarrow> 'f wsys \<Rightarrow> 'f wres" where
  "sys__exit t status ws =
     (if pc ws t \<noteq> Outside then None
      else Some (rbind (curproc_of t (psy ws)) (\<lambda>(p, pr).
        Inr ([Exited p status],
             at_pc t (Ex_lock p) (ws\<lparr>psy := set_proc p (pr\<lparr>p_status_set := True, p_status := status\<rparr>) (psy ws)\<rparr>)))))"

text \<open>The last step is the part of \<open>thread_exit\<close> that detaches the thread from its process.\<close>

fun sys__exit_step :: "tid \<Rightarrow> ppc \<Rightarrow> 'f wsys \<Rightarrow> 'f wres" where
  "sys__exit_step t (Ex_lock p) ws =
     with_proc p (\<lambda>pr. sync t (Some (lock_acquire False t (p_cv_lock pr) (synch (psy ws)))) (returned t (Ex_signal p) (Ex_locking p)) ws) ws"
| "sys__exit_step t (Ex_locking p) ws =
     sync t (synch_step t Resume (synch (psy ws))) (returned t (Ex_signal p) (Ex_locking p)) ws"
| "sys__exit_step t (Ex_signal p) ws =
     with_proc p (\<lambda>pr. sync t (Some (cv_signal t (p_cv pr) (p_cv_lock pr) (synch (psy ws)))) (\<lambda>_. Ex_release p) ws) ws"
| "sys__exit_step t (Ex_release p) ws =
     with_proc p (\<lambda>pr. sync t (Some (lock_release t (p_cv_lock pr) (synch (psy ws)))) (\<lambda>_. Ex_thread p) ws) ws"
| "sys__exit_step t (Ex_thread p) ws =
     Some (rbind (proc_remthread t (psy ws)) (\<lambda>ps. Inr ([], at_pc t Gone (ws\<lparr>psy := ps\<rparr>))))"
| "sys__exit_step t _ ws = None"

subsection \<open>Waiting\<close>

definition proc_wait :: "tid \<Rightarrow> nat option \<Rightarrow> 'f wsys \<Rightarrow> 'f wres" where
  "proc_wait t proc ws =
     (if pc ws t \<noteq> Outside then None
      else case proc of
          None \<Rightarrow> Some (Inl KAssertFail)
        | Some p \<Rightarrow>
            if kproc (psy ws) = Some p then Some (Inl KAssertFail) else Some (Inr ([], at_pc t (Wa_lock p) ws)))"

fun proc_wait_step ::
    "'f vnode_ops \<Rightarrow> (u32 \<Rightarrow> u32) \<Rightarrow> (nat \<Rightarrow> vstore \<Rightarrow> int \<times> vstore) \<Rightarrow> tid \<Rightarrow> ppc \<Rightarrow> 'f wsys \<Rightarrow> 'f wres" where
  "proc_wait_step ops magic reclaim t (Wa_lock p) ws =
     with_proc p (\<lambda>pr. sync t (Some (lock_acquire False t (p_cv_lock pr) (synch (psy ws)))) (returned t (Wa_test p) (Wa_locking p)) ws) ws"
| "proc_wait_step ops magic reclaim t (Wa_locking p) ws =
     sync t (synch_step t Resume (synch (psy ws))) (returned t (Wa_test p) (Wa_locking p)) ws"
| "proc_wait_step ops magic reclaim t (Wa_test p) ws =
     with_proc p (\<lambda>pr. Some (Inr ([], at_pc t (if p_status_set pr then Wa_release p else Wa_call p) ws))) ws"
| "proc_wait_step ops magic reclaim t (Wa_call p) ws =
     with_proc p (\<lambda>pr. sync t (Some (cv_wait t (p_cv pr) (p_cv_lock pr) (synch (psy ws)))) (\<lambda>_. Wa_cv p) ws) ws"
| "proc_wait_step ops magic reclaim t (Wa_cv p) ws =
     sync t (synch_step t Resume (synch (psy ws))) (returned t (Wa_test p) (Wa_cv p)) ws"
| "proc_wait_step ops magic reclaim t (Wa_release p) ws =
     with_proc p (\<lambda>pr. sync t (Some (lock_release t (p_cv_lock pr) (synch (psy ws)))) (\<lambda>_. Wa_status p) ws) ws"
| "proc_wait_step ops magic reclaim t (Wa_status p) ws =
     with_proc p (\<lambda>pr. Some (rbind (proc_destroy ops magic reclaim (Some p) (psy ws)) (\<lambda>ps.
       Inr ([Waited t p (p_status pr)], at_pc t Outside (ws\<lparr>psy := ps\<rparr>))))) ws"
| "proc_wait_step ops magic reclaim t _ ws = None"

text \<open>
  \<open>sys_waitpid\<close> finds the process and calls \<open>proc_wait\<close>; then it stores the status and returns \<open>p->p_pid\<close>.
\<close>

definition sys_waitpid :: "tid \<Rightarrow> int \<Rightarrow> 'f wsys \<Rightarrow> 'f wres" where
  "sys_waitpid t pid ws =
     (case proc_find_by_pid pid (psy ws) of Inl e \<Rightarrow> Some (Inl e) | Inr p \<Rightarrow> proc_wait t (Some p) ws)"

definition sys_waitpid_return :: "nat \<Rightarrow> 'f psys \<Rightarrow> int res" where
  "sys_waitpid_return p ps = rbind (obj (procs ps p)) (\<lambda>pr. Inr (p_pid pr))"

definition proc_step ::
    "'f vnode_ops \<Rightarrow> (u32 \<Rightarrow> u32) \<Rightarrow> (nat \<Rightarrow> vstore \<Rightarrow> int \<times> vstore) \<Rightarrow> tid \<Rightarrow> 'f wsys \<Rightarrow> 'f wres" where
  "proc_step ops magic reclaim t ws =
     (case sys__exit_step t (pc ws t) ws of None \<Rightarrow> proc_wait_step ops magic reclaim t (pc ws t) ws | Some r \<Rightarrow> Some r)"

subsection \<open>Runs\<close>

text \<open>
  A process that a kernel thread makes for a program: \<open>proc_create_runprogram\<close> and the thread that \<open>thread_fork\<close> attaches to it.
  The memory given out is not in use.
\<close>

definition spawn ::
    "tid \<Rightarrow> nat \<Rightarrow> nat \<Rightarrow> nat \<Rightarrow> proc \<Rightarrow> string \<Rightarrow> tid \<Rightarrow> 'f wsys \<Rightarrow> 'f wsys res" where
  "spawn t p c l raw name t' ws =
     rbind (proc_create_runprogram t (Some p) True (Some c, True, True) (Some l, True, True) raw name (psy ws)) (\<lambda>(q, ps1).
     rbind (proc_addthread p t' ps1) (\<lambda>ps2. Inr (ws\<lparr>psy := ps2\<rparr>)))"

definition fresh_for :: "nat \<Rightarrow> nat \<Rightarrow> nat \<Rightarrow> tid \<Rightarrow> 'f wsys \<Rightarrow> bool" where
  "fresh_for p c l t' ws \<longleftrightarrow> procs (psy ws) p = None \<and> cvs (synch (psy ws)) c = None \<and> lks (synch (psy ws)) l = None \<and>
     t_proc (psy ws) t' = None \<and> pc ws t' = Outside"

text \<open>The start: the process of the kernel with any threads, all of them outside.\<close>

definition proc_start :: "'f wsys \<Rightarrow> bool" where
  "proc_start ws \<longleftrightarrow>
     (\<exists>k kp. kproc (psy ws) = Some k \<and> procs (psy ws) = [k \<mapsto> kp] \<and> p_pid kp = 1 \<and> \<not> p_status_set kp \<and>
        pid_table (psy ws) = (replicate TABLE_SIZE None)[0 := Some k] \<and>
        (\<forall>t. t_proc (psy ws) t \<in> {None, Some k}) \<and> (\<forall>t. pc ws t = Outside) \<and> quiescent (synch (psy ws)) \<and>
        lks (synch (psy ws)) (p_cv_lock kp) \<noteq> None \<and> cvs (synch (psy ws)) (p_cv kp) \<noteq> None)"

text \<open>
  Threads wait for processes, at most one for each process, and the threads of processes other than the kernel's exit.
  In between processes are made, address spaces change and the rest of the kernel runs.
\<close>

inductive proc_run ::
    "'f vnode_ops \<Rightarrow> (u32 \<Rightarrow> u32) \<Rightarrow> (nat \<Rightarrow> vstore \<Rightarrow> int \<times> vstore) \<Rightarrow> pevent list \<Rightarrow> 'f wsys \<Rightarrow> bool" for ops magic reclaim where
  start: "proc_start ws \<Longrightarrow> proc_run ops magic reclaim [] ws"
| exit: "proc_run ops magic reclaim es ws \<Longrightarrow> t_proc (psy ws) t \<noteq> kproc (psy ws) \<Longrightarrow> sys__exit t status ws = Some (Inr (es', ws')) \<Longrightarrow>
    proc_run ops magic reclaim (es @ es') ws'"
| wait: "proc_run ops magic reclaim es ws \<Longrightarrow> procs (psy ws) p \<noteq> None \<Longrightarrow>
    (\<And>u. pc ws u \<notin> {Wa_lock p, Wa_locking p, Wa_test p, Wa_call p, Wa_cv p, Wa_release p, Wa_status p}) \<Longrightarrow>
    proc_wait t (Some p) ws = Some (Inr (es', ws')) \<Longrightarrow> proc_run ops magic reclaim (es @ es') ws'"
| step: "proc_run ops magic reclaim es ws \<Longrightarrow> proc_step ops magic reclaim t ws = Some (Inr (es', ws')) \<Longrightarrow>
    proc_run ops magic reclaim (es @ es') ws'"
| spawn: "proc_run ops magic reclaim es ws \<Longrightarrow> fresh_for p c l t' ws \<Longrightarrow> spawn t p c l raw name t' ws = Inr ws' \<Longrightarrow>
    proc_run ops magic reclaim es ws'"
| setas: "proc_run ops magic reclaim es ws \<Longrightarrow> proc_setas t as (psy ws) = Inr (old, ps) \<Longrightarrow>
    proc_run ops magic reclaim es (ws\<lparr>psy := ps\<rparr>)"
| other: "proc_run ops magic reclaim es ws \<Longrightarrow> proc_run ops magic reclaim es (ws\<lparr>psy := (psy ws)\<lparr>vns := vs, kst := k\<rparr>\<rparr>)"

end
