(* ===== verification/Proc_Inv.thy ===== *)
theory Proc_Inv
  imports Proc_Wait
begin

text \<open>The invariant of the protocol between \<open>sys__exit\<close> and \<open>proc_wait\<close>.\<close>

subsection \<open>One process\<close>

fun pc_proc :: "ppc \<Rightarrow> nat option" where
  "pc_proc Outside = None"
| "pc_proc Gone = None"
| "pc_proc (Ex_lock p) = Some p"
| "pc_proc (Ex_locking p) = Some p"
| "pc_proc (Ex_signal p) = Some p"
| "pc_proc (Ex_release p) = Some p"
| "pc_proc (Ex_thread p) = Some p"
| "pc_proc (Wa_lock p) = Some p"
| "pc_proc (Wa_locking p) = Some p"
| "pc_proc (Wa_test p) = Some p"
| "pc_proc (Wa_call p) = Some p"
| "pc_proc (Wa_cv p) = Some p"
| "pc_proc (Wa_release p) = Some p"
| "pc_proc (Wa_status p) = Some p"

definition exiting :: "nat \<Rightarrow> ppc \<Rightarrow> bool" where
  "exiting p x \<longleftrightarrow> x \<in> {Ex_lock p, Ex_locking p, Ex_signal p, Ex_release p, Ex_thread p}"

definition waiting :: "nat \<Rightarrow> ppc \<Rightarrow> bool" where
  "waiting p x \<longleftrightarrow> x \<in> {Wa_lock p, Wa_locking p, Wa_test p, Wa_call p, Wa_cv p, Wa_release p, Wa_status p}"

definition has_lock :: "nat \<Rightarrow> ppc \<Rightarrow> bool" where
  "has_lock p x \<longleftrightarrow> x \<in> {Ex_signal p, Ex_release p, Wa_test p, Wa_call p, Wa_release p}"

text \<open>The thread that will call \<open>cv_signal\<close>.\<close>

definition will_signal :: "nat \<Rightarrow> ppc \<Rightarrow> bool" where
  "will_signal p x \<longleftrightarrow> x \<in> {Ex_lock p, Ex_locking p, Ex_signal p}"

lemmas pc_defs = exiting_def waiting_def has_lock_def will_signal_def

definition pos_ok :: "nat \<Rightarrow> nat \<Rightarrow> nat \<Rightarrow> ppc \<Rightarrow> pos \<Rightarrow> bool" where
  "pos_ok p c l x y \<longleftrightarrow>
     (if x \<in> {Ex_locking p, Wa_locking p} then y = In_lock_acquire l
      else if x = Wa_cv p then y \<in> {In_cv_wait c l, In_cv_sleep c l, In_lock_acquire l}
      else y = Idle)"

text \<open>
  The part of the invariant that concerns one process: who has its lock and the spinlock of its condition variable, who is
  queued, that one thread at most waits, and that a thread that sleeps although the status is set is about to be woken.
\<close>

definition pv_ok ::
    "nat \<Rightarrow> nat \<Rightarrow> nat \<Rightarrow> tid option \<Rightarrow> tid option \<Rightarrow> tid list \<Rightarrow> tid list \<Rightarrow> bool \<Rightarrow> (tid \<Rightarrow> ppc) \<Rightarrow> (tid \<Rightarrow> pos) \<Rightarrow> bool" where
  "pv_ok p c l owner cvl cvq lkq ss pcs poss \<longleftrightarrow>
     (\<forall>t. owner = Some t \<longleftrightarrow> has_lock p (pcs t)) \<and>
     (\<forall>t. cvl = Some t \<longleftrightarrow> pcs t = Wa_cv p \<and> poss t = In_cv_wait c l) \<and>
     distinct cvq \<and> (\<forall>t\<in>set cvq. pcs t = Wa_cv p \<and> poss t = In_cv_sleep c l) \<and>
     (\<forall>t\<in>set lkq. pc_proc (pcs t) = Some p \<and> poss t = In_lock_acquire l) \<and>
     (\<forall>t. pc_proc (pcs t) = Some p \<longrightarrow> pos_ok p c l (pcs t) (poss t)) \<and>
     (\<forall>t u. waiting p (pcs t) \<and> waiting p (pcs u) \<longrightarrow> t = u) \<and>
     (\<forall>t. exiting p (pcs t) \<or> pcs t = Wa_release p \<or> pcs t = Wa_status p \<longrightarrow> ss) \<and>
     (\<forall>t. ss \<and> (pcs t = Wa_call p \<or> pcs t = Wa_cv p \<and> (poss t = In_cv_wait c l \<or> t \<in> set cvq)) \<longrightarrow> (\<exists>e. will_signal p (pcs e))) \<and>
     distinct lkq \<and> (owner = None \<and> lkq \<noteq> [] \<longrightarrow> (\<exists>u. pc_proc (pcs u) = Some p \<and> poss u = In_lock_acquire l \<and> u \<notin> set lkq))"

lemma pv_okI:
  assumes "\<And>t. owner = Some t \<longleftrightarrow> has_lock p (pcs t)" and "\<And>t. cvl = Some t \<longleftrightarrow> pcs t = Wa_cv p \<and> poss t = In_cv_wait c l"
    and "distinct cvq" and "\<And>t. t \<in> set cvq \<Longrightarrow> pcs t = Wa_cv p \<and> poss t = In_cv_sleep c l"
    and "\<And>t. t \<in> set lkq \<Longrightarrow> pc_proc (pcs t) = Some p \<and> poss t = In_lock_acquire l"
    and "\<And>t. pc_proc (pcs t) = Some p \<Longrightarrow> pos_ok p c l (pcs t) (poss t)"
    and "\<And>t u. waiting p (pcs t) \<Longrightarrow> waiting p (pcs u) \<Longrightarrow> t = u"
    and "\<And>t. exiting p (pcs t) \<or> pcs t = Wa_release p \<or> pcs t = Wa_status p \<Longrightarrow> ss"
    and "\<And>t. ss \<Longrightarrow> pcs t = Wa_call p \<or> pcs t = Wa_cv p \<and> (poss t = In_cv_wait c l \<or> t \<in> set cvq) \<Longrightarrow> \<exists>e. will_signal p (pcs e)"
    and "distinct lkq" and "owner = None \<Longrightarrow> lkq \<noteq> [] \<Longrightarrow> \<exists>u. pc_proc (pcs u) = Some p \<and> poss u = In_lock_acquire l \<and> u \<notin> set lkq"
  shows "pv_ok p c l owner cvl cvq lkq ss pcs poss"
  unfolding pv_ok_def using assms by blast

lemma pv_okD:
  assumes "pv_ok p c l owner cvl cvq lkq ss pcs poss"
  shows "owner = Some t \<longleftrightarrow> has_lock p (pcs t)" and "cvl = Some t \<longleftrightarrow> pcs t = Wa_cv p \<and> poss t = In_cv_wait c l"
    and "distinct cvq" and "t \<in> set cvq \<Longrightarrow> pcs t = Wa_cv p \<and> poss t = In_cv_sleep c l"
    and "t \<in> set lkq \<Longrightarrow> pc_proc (pcs t) = Some p \<and> poss t = In_lock_acquire l"
    and "pc_proc (pcs t) = Some p \<Longrightarrow> pos_ok p c l (pcs t) (poss t)"
    and "waiting p (pcs t) \<Longrightarrow> waiting p (pcs u) \<Longrightarrow> t = u"
    and "exiting p (pcs t) \<or> pcs t = Wa_release p \<or> pcs t = Wa_status p \<Longrightarrow> ss"
    and "ss \<Longrightarrow> pcs t = Wa_call p \<or> pcs t = Wa_cv p \<and> (poss t = In_cv_wait c l \<or> t \<in> set cvq) \<Longrightarrow> \<exists>e. will_signal p (pcs e)"
    and "distinct lkq" and "owner = None \<Longrightarrow> lkq \<noteq> [] \<Longrightarrow> \<exists>u. pc_proc (pcs u) = Some p \<and> poss u = In_lock_acquire l \<and> u \<notin> set lkq"
  using assms unfolding pv_ok_def by blast+

text \<open>Threads that have nothing to do with the process do not matter.\<close>

lemma pv_ok_frame:
  assumes "pv_ok p c l owner cvl cvq lkq ss pcs poss"
    and "\<And>u. pc_proc (pcs u) = Some p \<or> pc_proc (pcs' u) = Some p \<Longrightarrow> pcs' u = pcs u \<and> poss' u = poss u"
  shows "pv_ok p c l owner cvl cvq lkq ss pcs' poss'"
proof -
  note d = pv_okD [OF assms(1)]
  have same: "x = pcs u \<or> x = pcs' u \<Longrightarrow> pc_proc x = Some p \<Longrightarrow> pcs' u = pcs u \<and> poss' u = poss u" for x u using assms(2) by blast
  have h: "has_lock p (pcs' u) = has_lock p (pcs u)" "waiting p (pcs' u) = waiting p (pcs u)" "exiting p (pcs' u) = exiting p (pcs u)"
    "will_signal p (pcs' u) = will_signal p (pcs u)" for u using assms(2) [of u] by (auto simp: pc_defs)
  have w: "pcs' u = x \<longleftrightarrow> pcs u = x" if "pc_proc x = Some p" for u x using same [of x u] that by auto
  show ?thesis
  proof (rule pv_okI)
    show "owner = Some t \<longleftrightarrow> has_lock p (pcs' t)" for t using d(1) h by simp
    show "cvl = Some t \<longleftrightarrow> pcs' t = Wa_cv p \<and> poss' t = In_cv_wait c l" for t
      using d(2) [of t] same [of "Wa_cv p" t] by auto
    show "distinct cvq" by (rule d(3))
    show "pcs' t = Wa_cv p \<and> poss' t = In_cv_sleep c l" if "t \<in> set cvq" for t
      using d(4) [OF that] same [of "Wa_cv p" t] by simp
    show "pc_proc (pcs' t) = Some p \<and> poss' t = In_lock_acquire l" if "t \<in> set lkq" for t
      using d(5) [OF that] assms(2) [of t] by simp
    show "pos_ok p c l (pcs' t) (poss' t)" if "pc_proc (pcs' t) = Some p" for t using d(6) [of t] assms(2) [of t] that by simp
    show "t = u" if "waiting p (pcs' t)" "waiting p (pcs' u)" for t u using d(7) that h by simp
    show ss if "exiting p (pcs' t) \<or> pcs' t = Wa_release p \<or> pcs' t = Wa_status p" for t using d(8) [of t] that h w by simp
    show "\<exists>e. will_signal p (pcs' e)" if "ss" "pcs' t = Wa_call p \<or> pcs' t = Wa_cv p \<and> (poss' t = In_cv_wait c l \<or> t \<in> set cvq)" for t
    proof -
      have "pcs t = Wa_call p \<or> pcs t = Wa_cv p \<and> (poss t = In_cv_wait c l \<or> t \<in> set cvq)"
        using that(2) w [of "Wa_call p" t] same [of "Wa_cv p" t] by auto
      then show ?thesis using d(9) [OF that(1)] h by blast
    qed
    show "distinct lkq" by (rule d(10))
    show "\<exists>u. pc_proc (pcs' u) = Some p \<and> poss' u = In_lock_acquire l \<and> u \<notin> set lkq" if "owner = None" "lkq \<noteq> []"
      using d(11) [OF that] assms(2) by metis
  qed
qed

subsection \<open>The steps\<close>

text \<open>What changes when thread \<open>t\<close> goes from one place of the protocol to another.\<close>

lemma pv_move:
  assumes ok: "pv_ok p c l owner cvl cvq lkq ss pcs poss"
    and own: "\<And>u. u \<noteq> t \<Longrightarrow> owner' = Some u \<longleftrightarrow> owner = Some u" "owner' = Some t \<longleftrightarrow> has_lock p y"
    and cvl: "\<And>u. u \<noteq> t \<Longrightarrow> cvl' = Some u \<longleftrightarrow> cvl = Some u" "cvl' = Some t \<longleftrightarrow> y = Wa_cv p \<and> z = In_cv_wait c l"
    and cvq: "distinct cvq'" "\<And>u. u \<noteq> t \<Longrightarrow> u \<in> set cvq' \<Longrightarrow> u \<in> set cvq" "t \<in> set cvq' \<Longrightarrow> y = Wa_cv p \<and> z = In_cv_sleep c l"
    and lkq: "\<And>u. u \<noteq> t \<Longrightarrow> u \<in> set lkq' \<Longrightarrow> u \<in> set lkq" "t \<in> set lkq' \<Longrightarrow> pc_proc y = Some p \<and> z = In_lock_acquire l"
    and pos: "pc_proc y = Some p \<Longrightarrow> pos_ok p c l y z"
    and wait: "waiting p y \<Longrightarrow> waiting p (pcs t) \<or> (\<forall>u. u \<noteq> t \<longrightarrow> \<not> waiting p (pcs u))"
    and ss: "ss \<Longrightarrow> ss'" "exiting p y \<or> y = Wa_release p \<or> y = Wa_status p \<Longrightarrow> ss'"
    and sig: "\<And>u. ss' \<Longrightarrow> (pcs(t := y)) u = Wa_call p \<or> (pcs(t := y)) u = Wa_cv p \<and> ((poss(t := z)) u = In_cv_wait c l \<or> u \<in> set cvq') \<Longrightarrow>
        \<exists>e. will_signal p ((pcs(t := y)) e)"
    and lkd: "distinct lkq'"
    and lkw: "owner' = None \<Longrightarrow> lkq' \<noteq> [] \<Longrightarrow> \<exists>u. pc_proc ((pcs(t := y)) u) = Some p \<and> (poss(t := z)) u = In_lock_acquire l \<and> u \<notin> set lkq'"
  shows "pv_ok p c l owner' cvl' cvq' lkq' ss' (pcs(t := y)) (poss(t := z))"
proof -
  note d = pv_okD [OF ok]
  show ?thesis
  proof (rule pv_okI)
    show "owner' = Some u \<longleftrightarrow> has_lock p ((pcs(t := y)) u)" for u using own d(1) by simp
    show "cvl' = Some u \<longleftrightarrow> (pcs(t := y)) u = Wa_cv p \<and> (poss(t := z)) u = In_cv_wait c l" for u using cvl d(2) by simp
    show "distinct cvq'" by (rule cvq(1))
    show "(pcs(t := y)) u = Wa_cv p \<and> (poss(t := z)) u = In_cv_sleep c l" if "u \<in> set cvq'" for u using cvq(2,3) d(4) that by auto
    show "pc_proc ((pcs(t := y)) u) = Some p \<and> (poss(t := z)) u = In_lock_acquire l" if "u \<in> set lkq'" for u using lkq d(5) that by auto
    show "pos_ok p c l ((pcs(t := y)) u) ((poss(t := z)) u)" if "pc_proc ((pcs(t := y)) u) = Some p" for u using pos d(6) that by (cases "u = t") auto
    show "u = v" if "waiting p ((pcs(t := y)) u)" "waiting p ((pcs(t := y)) v)" for u v
      using that wait d(7) [of u v] d(7) [of u t] d(7) [of t v] by (auto split: if_splits)
    show ss' if "exiting p ((pcs(t := y)) u) \<or> (pcs(t := y)) u = Wa_release p \<or> (pcs(t := y)) u = Wa_status p" for u
      using that ss d(8) [of u] by (auto split: if_splits)
  qed (use sig lkd lkw in blast)+
qed

text \<open>A thread that has been woken to take the lock still is on its way.\<close>

lemma woken_kept:
  assumes ok: "pv_ok p c l owner cvl cvq lkq ss pcs poss" and o: "owner = None" "lkq \<noteq> []" and t: "poss t \<noteq> In_lock_acquire l"
  shows "\<exists>u. pc_proc ((pcs(t := y)) u) = Some p \<and> (poss(t := z)) u = In_lock_acquire l \<and> u \<notin> set lkq"
proof -
  obtain u where "pc_proc (pcs u) = Some p" "poss u = In_lock_acquire l" "u \<notin> set lkq" using pv_okD(11) [OF ok o] by blast
  then show ?thesis using t by (intro exI [of _ u]) auto
qed

text \<open>Giving the lock back wakes a thread.\<close>

lemma woken_next:
  assumes ok: "pv_ok p c l owner cvl cvq lkq ss pcs poss" and q: "tl lkq \<noteq> []" and t: "t \<notin> set lkq"
  shows "\<exists>u. pc_proc ((pcs(t := y)) u) = Some p \<and> (poss(t := z)) u = In_lock_acquire l \<and> u \<notin> set (tl lkq)"
proof -
  obtain u q' where l: "lkq = u # q'" using q by (cases lkq) auto
  then have "pc_proc (pcs u) = Some p" "poss u = In_lock_acquire l" "u \<notin> set q'" "u \<noteq> t"
    using pv_okD(5) [OF ok, of u] pv_okD(10) [OF ok] t by auto
  then show ?thesis using l by (intro exI [of _ u]) auto
qed

text \<open>A signal that was on its way still is, unless it has been given.\<close>

lemma sig_kept:
  assumes ok: "pv_ok p c l owner cvl cvq lkq ss pcs poss" and ss: "ss"
    and keep: "will_signal p (pcs t) \<Longrightarrow> will_signal p y"
    and at: "(pcs(t := y)) u = Wa_call p \<or> (pcs(t := y)) u = Wa_cv p \<and> ((poss(t := z)) u = In_cv_wait c l \<or> u \<in> set cvq')"
    and q: "u \<noteq> t \<Longrightarrow> u \<in> set cvq' \<Longrightarrow> u \<in> set cvq"
    and new: "u = t \<Longrightarrow> pcs t = Wa_call p \<or> pcs t = Wa_cv p \<and> (poss t = In_cv_wait c l \<or> t \<in> set cvq)"
  shows "\<exists>e. will_signal p ((pcs(t := y)) e)"
proof -
  have "pcs u = Wa_call p \<or> pcs u = Wa_cv p \<and> (poss u = In_cv_wait c l \<or> u \<in> set cvq)"
    using at q new by (cases "u = t") auto
  then obtain e where "will_signal p (pcs e)" using pv_okD(9) [OF ok ss] by blast
  then show ?thesis using keep by (cases "e = t") (auto intro: exI [of _ e])
qed

text \<open>The lock is taken, at once or after sleeping.\<close>

definition locks_to :: "nat \<Rightarrow> ppc \<Rightarrow> ppc \<Rightarrow> ppc \<Rightarrow> bool" where
  "locks_to p x y w \<longleftrightarrow> x \<in> {Ex_lock p, Ex_locking p} \<and> y = Ex_signal p \<and> w = Ex_locking p \<or>
     x \<in> {Wa_lock p, Wa_locking p} \<and> y = Wa_test p \<and> w = Wa_locking p \<or> x = Wa_cv p \<and> y = Wa_test p \<and> w = Wa_cv p"

lemma pv_acquired:
  assumes ok: "pv_ok p c l None cvl cvq lkq ss pcs poss" and x: "locks_to p (pcs t) y w"
    and t: "t \<notin> set cvq" "t \<notin> set lkq" "cvl \<noteq> Some t"
  shows "pv_ok p c l (Some t) cvl cvq lkq ss (pcs(t := y)) (poss(t := Idle))"
proof -
  note d = pv_okD [OF ok]
  show ?thesis
  proof (rule pv_move [OF ok])
    show "\<exists>e. will_signal p ((pcs(t := y)) e)"
      if "ss" "(pcs(t := y)) u = Wa_call p \<or> (pcs(t := y)) u = Wa_cv p \<and> ((poss(t := Idle)) u = In_cv_wait c l \<or> u \<in> set cvq)" for u
      by (rule sig_kept [OF ok that(1) _ that(2)]) (use x that(2) in \<open>auto simp: locks_to_def pc_defs\<close>)
    show ss if "exiting p y \<or> y = Wa_release p \<or> y = Wa_status p" using d(8) [of t] x that by (auto simp: locks_to_def pc_defs)
  qed (use x t d(3,10) in \<open>auto simp: locks_to_def pc_defs pos_ok_def\<close>)
qed

lemma pv_blocked:
  assumes ok: "pv_ok p c l owner cvl cvq lkq ss pcs poss" and x: "locks_to p (pcs t) y w"
    and t: "t \<notin> set cvq" "cvl \<noteq> Some t" "t \<notin> set lkq" and held: "owner \<noteq> None"
  shows "pv_ok p c l owner cvl cvq (lkq @ [t]) ss (pcs(t := w)) (poss(t := In_lock_acquire l))"
proof -
  note d = pv_okD [OF ok]
  have "owner \<noteq> Some t" using d(1) [of t] x by (auto simp: locks_to_def pc_defs)
  show ?thesis
  proof (rule pv_move [OF ok])
    show "\<exists>e. will_signal p ((pcs(t := w)) e)"
      if "ss" "(pcs(t := w)) u = Wa_call p \<or> (pcs(t := w)) u = Wa_cv p \<and> ((poss(t := In_lock_acquire l)) u = In_cv_wait c l \<or> u \<in> set cvq)" for u
      by (rule sig_kept [OF ok that(1) _ that(2)]) (use x that(2) t in \<open>auto simp: locks_to_def pc_defs\<close>)
    show ss if "exiting p w \<or> w = Wa_release p \<or> w = Wa_status p" using d(8) [of t] x that by (auto simp: locks_to_def pc_defs)
    show "owner = Some t \<longleftrightarrow> has_lock p w" using \<open>owner \<noteq> Some t\<close> x by (auto simp: locks_to_def pc_defs)
  qed (use x t d(3,10) held in \<open>auto simp: locks_to_def pc_defs pos_ok_def\<close>)
qed

lemma pv_idle:
  assumes "pv_ok p c l owner cvl cvq lkq ss pcs poss" and "pc_proc (pcs t) = Some p" and "poss t = Idle"
  shows "t \<notin> set cvq" and "t \<notin> set lkq" and "cvl \<noteq> Some t"
  using pv_okD(2,4,5) [OF assms(1), where t = t] assms(2,3) by auto

lemma pv_released:
  assumes ok: "pv_ok p c l (Some t) cvl cvq lkq ss pcs poss"
    and x: "pcs t = Ex_release p \<and> y = Ex_thread p \<or> pcs t = Wa_release p \<and> y = Wa_status p"
  shows "pv_ok p c l None cvl cvq (tl lkq) ss (pcs(t := y)) (poss(t := Idle))"
proof -
  note d = pv_okD [OF ok]
  have z: "poss t = Idle" using d(6) [of t] x by (auto simp: pos_ok_def)
  have "pc_proc (pcs t) = Some p" using x by auto
  note i = pv_idle [OF ok this z]
  show ?thesis
  proof (rule pv_move [OF ok])
    show "\<exists>e. will_signal p ((pcs(t := y)) e)"
      if "ss" "(pcs(t := y)) u = Wa_call p \<or> (pcs(t := y)) u = Wa_cv p \<and> ((poss(t := Idle)) u = In_cv_wait c l \<or> u \<in> set cvq)" for u
      by (rule sig_kept [OF ok that(1) _ that(2)]) (use x that(2) in \<open>auto simp: pc_defs\<close>)
    show ss if "exiting p y \<or> y = Wa_release p \<or> y = Wa_status p" using d(8) [of t] x that by (auto simp: pc_defs)
    show "u \<in> set lkq" if "u \<in> set (tl lkq)" for u using that by (rule in_tl)
    show "pc_proc y = Some p \<and> Idle = In_lock_acquire l" if "t \<in> set (tl lkq)" using in_tl [OF that] i(2) by blast
    show "\<exists>u. pc_proc ((pcs(t := y)) u) = Some p \<and> (poss(t := Idle)) u = In_lock_acquire l \<and> u \<notin> set (tl lkq)" if "tl lkq \<noteq> []"
      by (rule woken_next [OF ok that i(2)])
  qed (use x d(3,10) i in \<open>auto simp: pc_defs pos_ok_def distinct_tl\<close>)
qed

text \<open>The signal wakes the only thread that can be asleep.\<close>

lemma pv_signalled:
  assumes ok: "pv_ok p c l owner None cvq lkq ss pcs poss" and x: "pcs t = Ex_signal p"
  shows "pv_ok p c l owner None (tl cvq) lkq ss (pcs(t := Ex_release p)) (poss(t := Idle))"
proof -
  note d = pv_okD [OF ok]
  have z: "poss t = Idle" using d(6) [of t] x by (auto simp: pos_ok_def)
  have "pc_proc (pcs t) = Some p" using x by auto
  note i = pv_idle [OF ok this z]
  have own: "owner = Some t" using d(1) [of t] x by (simp add: pc_defs)
  have nocall: "pcs u \<noteq> Wa_call p" for u using d(1) [of u] own x by (auto simp: pc_defs)
  have one: "tl cvq = []"
  proof (cases cvq)
    case (Cons a q)
    have "b = a" if "b \<in> set q" for b
      using d(4) [of a] d(4) [of b] d(7) [of a b] that Cons by (simp add: pc_defs)
    then show ?thesis using d(3) Cons by (cases q) auto
  qed simp
  show ?thesis
  proof (rule pv_move [OF ok])
    show "\<exists>e. will_signal p ((pcs(t := Ex_release p)) e)"
      if "ss" "(pcs(t := Ex_release p)) u = Wa_call p \<or> (pcs(t := Ex_release p)) u = Wa_cv p \<and> ((poss(t := Idle)) u = In_cv_wait c l \<or> u \<in> set (tl cvq))" for u
      using that(2) nocall [of u] d(2) [of u] one by (auto split: if_splits)
    show ss if "exiting p (Ex_release p) \<or> Ex_release p = Wa_release p \<or> Ex_release p = Wa_status p" using d(8) [of t] x by (simp add: pc_defs)
  qed (use x i one own d(10) in \<open>auto simp: pc_defs pos_ok_def\<close>)
qed

lemma pv_tested:
  assumes ok: "pv_ok p c l owner cvl cvq lkq ss pcs poss" and x: "pcs t = Wa_test p"
  shows "pv_ok p c l owner cvl cvq lkq ss (pcs(t := if ss then Wa_release p else Wa_call p)) (poss(t := Idle))"
proof -
  note d = pv_okD [OF ok]
  have z: "poss t = Idle" using d(6) [of t] x by (auto simp: pos_ok_def)
  have "pc_proc (pcs t) = Some p" using x by auto
  note i = pv_idle [OF ok this z]
  have own: "owner = Some t" using d(1) [of t] x by (simp add: pc_defs)
  let ?y = "if ss then Wa_release p else Wa_call p"
  show ?thesis
  proof (rule pv_move [OF ok])
    show "\<exists>e. will_signal p ((pcs(t := ?y)) e)"
      if "ss" "(pcs(t := ?y)) u = Wa_call p \<or> (pcs(t := ?y)) u = Wa_cv p \<and> ((poss(t := Idle)) u = In_cv_wait c l \<or> u \<in> set cvq)" for u
      by (rule sig_kept [OF ok that(1) _ that(2)]) (use x that in \<open>auto simp: pc_defs\<close>)
  qed (use x i own d(3,10) in \<open>auto simp: pc_defs pos_ok_def split: if_splits\<close>)
qed

lemma pv_cv_wait:
  assumes ok: "pv_ok p c l owner None cvq lkq ss pcs poss" and x: "pcs t = Wa_call p"
  shows "pv_ok p c l None (Some t) cvq (tl lkq) ss (pcs(t := Wa_cv p)) (poss(t := In_cv_wait c l))"
proof -
  note d = pv_okD [OF ok]
  have z: "poss t = Idle" using d(6) [of t] x by (auto simp: pos_ok_def)
  have "pc_proc (pcs t) = Some p" using x by auto
  note i = pv_idle [OF ok this z]
  have own: "owner = Some t" using d(1) [of t] x by (simp add: pc_defs)
  show ?thesis
  proof (rule pv_move [OF ok])
    show "\<exists>e. will_signal p ((pcs(t := Wa_cv p)) e)"
      if "ss" "(pcs(t := Wa_cv p)) u = Wa_call p \<or> (pcs(t := Wa_cv p)) u = Wa_cv p \<and> ((poss(t := In_cv_wait c l)) u = In_cv_wait c l \<or> u \<in> set cvq)" for u
      by (rule sig_kept [OF ok that(1) _ that(2)]) (use x that in \<open>auto simp: pc_defs\<close>)
    show "u \<in> set lkq" if "u \<in> set (tl lkq)" for u using that by (rule in_tl)
    show "pc_proc (Wa_cv p) = Some p \<and> In_cv_wait c l = In_lock_acquire l" if "t \<in> set (tl lkq)" using in_tl [OF that] i(2) by blast
    show "\<exists>u. pc_proc ((pcs(t := Wa_cv p)) u) = Some p \<and> (poss(t := In_cv_wait c l)) u = In_lock_acquire l \<and> u \<notin> set (tl lkq)" if "tl lkq \<noteq> []"
      by (rule woken_next [OF ok that i(2)])
  qed (use x i own d(3,10) in \<open>auto simp: pc_defs pos_ok_def distinct_tl split: if_splits\<close>)
qed

lemma pv_sleep:
  assumes ok: "pv_ok p c l owner (Some t) cvq lkq ss pcs poss"
  shows "pv_ok p c l owner None (cvq @ [t]) lkq ss (pcs(t := Wa_cv p)) (poss(t := In_cv_sleep c l))"
proof -
  note d = pv_okD [OF ok]
  have x: "pcs t = Wa_cv p" "poss t = In_cv_wait c l" using d(2) [of t] by simp_all
  have i: "t \<notin> set cvq" "t \<notin> set lkq" "owner \<noteq> Some t" using d(1,4,5) [of t] x by (auto simp: pc_defs)
  show ?thesis
  proof (rule pv_move [OF ok])
    show "\<exists>e. will_signal p ((pcs(t := Wa_cv p)) e)"
      if "ss" "(pcs(t := Wa_cv p)) u = Wa_call p \<or> (pcs(t := Wa_cv p)) u = Wa_cv p \<and> ((poss(t := In_cv_sleep c l)) u = In_cv_wait c l \<or> u \<in> set (cvq @ [t]))" for u
      by (rule sig_kept [OF ok that(1) _ that(2)]) (use x that in \<open>auto simp: pc_defs\<close>)
    show "\<exists>u. pc_proc ((pcs(t := Wa_cv p)) u) = Some p \<and> (poss(t := In_cv_sleep c l)) u = In_lock_acquire l \<and> u \<notin> set lkq" if "owner = None" "lkq \<noteq> []"
      by (rule woken_kept [OF ok that]) (simp add: x)
  qed (use x i d(3,10) in \<open>auto simp: pc_defs pos_ok_def split: if_splits\<close>)
qed

lemma pv_exit:
  assumes ok: "pv_ok p c l owner cvl cvq lkq ss pcs poss" and x: "pcs t = Outside" and z: "poss t = Idle"
  shows "pv_ok p c l owner cvl cvq lkq True (pcs(t := Ex_lock p)) (poss(t := Idle))"
proof -
  note d = pv_okD [OF ok]
  have i: "t \<notin> set cvq" "t \<notin> set lkq" "owner \<noteq> Some t" "cvl \<noteq> Some t" using d(1,2,4,5) [of t] x z by (auto simp: pc_defs)
  show ?thesis
  proof (rule pv_move [OF ok])
    have "will_signal p ((pcs(t := Ex_lock p)) t)" by (simp add: pc_defs)
    then show "\<exists>e. will_signal p ((pcs(t := Ex_lock p)) e)" by (rule exI)
    show "\<exists>u. pc_proc ((pcs(t := Ex_lock p)) u) = Some p \<and> (poss(t := Idle)) u = In_lock_acquire l \<and> u \<notin> set lkq" if "owner = None" "lkq \<noteq> []"
      by (rule woken_kept [OF ok that]) (simp add: z)
  qed (use x i d(3,10) in \<open>auto simp: pc_defs pos_ok_def split: if_splits\<close>)
qed

lemma pv_wait:
  assumes ok: "pv_ok p c l owner cvl cvq lkq ss pcs poss" and x: "pcs t = Outside" and z: "poss t = Idle"
    and one: "\<And>u. \<not> waiting p (pcs u)"
  shows "pv_ok p c l owner cvl cvq lkq ss (pcs(t := Wa_lock p)) (poss(t := Idle))"
proof -
  note d = pv_okD [OF ok]
  have i: "t \<notin> set cvq" "t \<notin> set lkq" "owner \<noteq> Some t" "cvl \<noteq> Some t" using d(1,2,4,5) [of t] x z by (auto simp: pc_defs)
  show ?thesis
  proof (rule pv_move [OF ok])
    show "\<exists>e. will_signal p ((pcs(t := Wa_lock p)) e)"
      if "ss" "(pcs(t := Wa_lock p)) u = Wa_call p \<or> (pcs(t := Wa_lock p)) u = Wa_cv p \<and> ((poss(t := Idle)) u = In_cv_wait c l \<or> u \<in> set cvq)" for u
      by (rule sig_kept [OF ok that(1) _ that(2)]) (use x that in \<open>auto simp: pc_defs\<close>)
    show "\<exists>u. pc_proc ((pcs(t := Wa_lock p)) u) = Some p \<and> (poss(t := Idle)) u = In_lock_acquire l \<and> u \<notin> set lkq" if "owner = None" "lkq \<noteq> []"
      by (rule woken_kept [OF ok that]) (simp add: z)
  qed (use x i d(3,10) one in \<open>auto simp: pc_defs pos_ok_def split: if_splits\<close>)
qed

lemma pv_leave:
  assumes ok: "pv_ok p c l owner cvl cvq lkq ss pcs poss" and x: "pcs t = Ex_thread p"
  shows "pv_ok p c l owner cvl cvq lkq ss (pcs(t := Gone)) (poss(t := Idle))"
proof -
  note d = pv_okD [OF ok]
  have z: "poss t = Idle" using d(6) [of t] x by (auto simp: pos_ok_def)
  have "pc_proc (pcs t) = Some p" using x by auto
  note i = pv_idle [OF ok this z]
  have own: "owner \<noteq> Some t" using d(1) [of t] x by (simp add: pc_defs)
  show ?thesis
  proof (rule pv_move [OF ok])
    show "\<exists>e. will_signal p ((pcs(t := Gone)) e)"
      if "ss" "(pcs(t := Gone)) u = Wa_call p \<or> (pcs(t := Gone)) u = Wa_cv p \<and> ((poss(t := Idle)) u = In_cv_wait c l \<or> u \<in> set cvq)" for u
      by (rule sig_kept [OF ok that(1) _ that(2)]) (use x that in \<open>auto simp: pc_defs\<close>)
    show "\<exists>u. pc_proc ((pcs(t := Gone)) u) = Some p \<and> (poss(t := Idle)) u = In_lock_acquire l \<and> u \<notin> set lkq" if "owner = None" "lkq \<noteq> []"
      by (rule woken_kept [OF ok that]) (simp add: z)
  qed (use x i d(3,10) own in \<open>auto simp: pc_defs pos_ok_def split: if_splits\<close>)
qed

end
