(* ===== verification/Proc_Run.thy ===== *)
theory Proc_Run
  imports Proc_Inv
begin

text \<open>The invariant of all processes and that every step of a run keeps it.\<close>

subsection \<open>All processes\<close>

definition view_ok :: "ssys \<Rightarrow> (tid \<Rightarrow> ppc) \<Rightarrow> nat \<Rightarrow> proc \<Rightarrow> bool" where
  "view_ok sy pcs p pr \<longleftrightarrow>
     (\<exists>lk cv. lks sy (p_cv_lock pr) = Some lk \<and> cvs sy (p_cv pr) = Some cv \<and>
        pv_ok p (p_cv pr) (p_cv_lock pr) (lk_owner lk) (cv_lock cv) (wchans sy (Cv_wchan (p_cv pr)))
          (wchans sy (Lk_wchan (p_cv_lock pr))) (p_status_set pr) pcs (pos sy))"

definition objs_ok :: "'f psys \<Rightarrow> bool" where
  "objs_ok ps \<longleftrightarrow> (\<forall>p q pr qr. procs ps p = Some pr \<and> procs ps q = Some qr \<and> p \<noteq> q \<longrightarrow>
     p_cv pr \<noteq> p_cv qr \<and> p_cv_lock pr \<noteq> p_cv_lock qr)"

definition pids_ok :: "'f psys \<Rightarrow> bool" where
  "pids_ok ps \<longleftrightarrow> length (pid_table ps) = TABLE_SIZE \<and>
     (\<forall>i<TABLE_SIZE. \<forall>p. pid_table ps ! i = Some p \<longleftrightarrow> (\<exists>pr. procs ps p = Some pr \<and> p_pid pr = int i + 1)) \<and>
     (\<forall>p pr. procs ps p = Some pr \<longrightarrow> 1 \<le> p_pid pr \<and> p_pid pr \<le> int TABLE_SIZE)"

text \<open>A process of a program has one thread at most, and \<open>p_numthreads\<close> says whether it has.\<close>

definition threads_ok :: "'f psys \<Rightarrow> bool" where
  "threads_ok ps \<longleftrightarrow> (\<exists>k. kproc ps = Some k \<and> procs ps k \<noteq> None) \<and>
     (\<forall>t p. t_proc ps t = Some p \<longrightarrow> procs ps p \<noteq> None) \<and>
     (\<forall>t u p. t_proc ps t = Some p \<and> t_proc ps u = Some p \<and> kproc ps \<noteq> Some p \<longrightarrow> t = u) \<and>
     (\<forall>p pr. procs ps p = Some pr \<and> kproc ps \<noteq> Some p \<longrightarrow> p_numthreads pr = (if \<exists>t. t_proc ps t = Some p then 1 else 0))"

definition places_ok :: "'f wsys \<Rightarrow> bool" where
  "places_ok ws \<longleftrightarrow>
     (\<forall>t p. exiting p (pc ws t) \<longrightarrow> t_proc (psy ws) t = Some p) \<and>
     (\<forall>t p. pc_proc (pc ws t) = Some p \<longrightarrow> procs (psy ws) p \<noteq> None \<and> kproc (psy ws) \<noteq> Some p) \<and>
     (\<forall>t. pc_proc (pc ws t) = None \<longrightarrow> pos (synch (psy ws)) t = Idle)"

definition pinv :: "'f wsys \<Rightarrow> bool" where
  "pinv ws \<longleftrightarrow> objs_ok (psy ws) \<and> pids_ok (psy ws) \<and> threads_ok (psy ws) \<and> places_ok ws \<and>
     (\<forall>p pr. procs (psy ws) p = Some pr \<longrightarrow> view_ok (synch (psy ws)) (pc ws) p pr)"

lemma pinvD:
  assumes "pinv ws"
  shows "objs_ok (psy ws)" and "pids_ok (psy ws)" and "threads_ok (psy ws)" and "places_ok ws"
    and "procs (psy ws) p = Some pr \<Longrightarrow> view_ok (synch (psy ws)) (pc ws) p pr"
  using assms by (simp_all add: pinv_def)

lemma pc_proc_cases: "pc_proc x = Some p \<longleftrightarrow> exiting p x \<or> waiting p x"
  by (cases x) (auto simp: pc_defs)

subsection \<open>Steps on one process\<close>

text \<open>Thread \<open>t\<close> works on the lock and the condition variable of one process.\<close>

definition same_but :: "nat \<Rightarrow> nat \<Rightarrow> tid \<Rightarrow> ssys \<Rightarrow> ssys \<Rightarrow> bool" where
  "same_but c l t sy sy' \<longleftrightarrow> (\<forall>x. x \<noteq> l \<longrightarrow> lks sy' x = lks sy x) \<and> (\<forall>x. x \<noteq> c \<longrightarrow> cvs sy' x = cvs sy x) \<and>
     (\<forall>w. w \<noteq> Cv_wchan c \<and> w \<noteq> Lk_wchan l \<longrightarrow> wchans sy' w = wchans sy w) \<and> (\<forall>u. u \<noteq> t \<longrightarrow> pos sy' u = pos sy u)"

lemma same_but_refl: "same_but c l t sy sy"
  by (simp add: same_but_def)

lemma same_but_trans: "same_but c l t sy sy1 \<Longrightarrow> same_but c l t sy1 sy2 \<Longrightarrow> same_but c l t sy sy2"
  by (simp add: same_but_def)

lemma view_frame:
  assumes v: "view_ok sy pcs q qr" and sb: "same_but c l t sy sy'" and ne: "p_cv qr \<noteq> c" "p_cv_lock qr \<noteq> l"
    and t: "pc_proc (pcs t) \<noteq> Some q" "pc_proc y \<noteq> Some q"
  shows "view_ok sy' (pcs(t := y)) q qr"
proof -
  from v obtain lk cv where o: "lks sy (p_cv_lock qr) = Some lk" "cvs sy (p_cv qr) = Some cv"
    and pv: "pv_ok q (p_cv qr) (p_cv_lock qr) (lk_owner lk) (cv_lock cv) (wchans sy (Cv_wchan (p_cv qr)))
          (wchans sy (Lk_wchan (p_cv_lock qr))) (p_status_set qr) pcs (pos sy)" by (auto simp: view_ok_def)
  have e: "lks sy' (p_cv_lock qr) = Some lk" "cvs sy' (p_cv qr) = Some cv" "wchans sy' (Cv_wchan (p_cv qr)) = wchans sy (Cv_wchan (p_cv qr))"
    "wchans sy' (Lk_wchan (p_cv_lock qr)) = wchans sy (Lk_wchan (p_cv_lock qr))"
    using o sb ne by (simp_all add: same_but_def)
  have "pv_ok q (p_cv qr) (p_cv_lock qr) (lk_owner lk) (cv_lock cv) (wchans sy (Cv_wchan (p_cv qr)))
          (wchans sy (Lk_wchan (p_cv_lock qr))) (p_status_set qr) (pcs(t := y)) (pos sy')"
    by (rule pv_ok_frame [OF pv]) (use t sb in \<open>auto simp: same_but_def split: if_splits\<close>)
  then show ?thesis unfolding view_ok_def using e by auto
qed

text \<open>The structure of process \<open>p\<close> may get a new status.\<close>

lemma pinv_local:
  assumes inv: "pinv ws" and p: "procs (psy ws) p = Some pr" "kproc (psy ws) \<noteq> Some p" and sb: "same_but (p_cv pr) (p_cv_lock pr) t (synch (psy ws)) sy'"
    and x: "pc_proc (pc ws t) \<in> {None, Some p}" and y: "pc_proc y = Some p" "exiting p y \<Longrightarrow> t_proc (psy ws) t = Some p"
    and pr': "pr' = pr\<lparr>p_status_set := ss', p_status := st'\<rparr>" and v: "view_ok sy' ((pc ws)(t := y)) p pr'"
    and ws': "psy ws' = (set_proc p pr' (psy ws))\<lparr>synch := sy'\<rparr>" "pc ws' = (pc ws)(t := y)"
  shows "pinv ws'"
proof -
  note d = pinvD [OF inv]
  have ps': "procs (psy ws') = (procs (psy ws))(p \<mapsto> pr')" "pid_table (psy ws') = pid_table (psy ws)" "kproc (psy ws') = kproc (psy ws)"
    "t_proc (psy ws') = t_proc (psy ws)" "synch (psy ws') = sy'" using ws' by (simp_all add: set_proc_def)
  have sel: "p_cv pr' = p_cv pr" "p_cv_lock pr' = p_cv_lock pr" "p_pid pr' = p_pid pr" "p_numthreads pr' = p_numthreads pr" by (simp_all add: pr')
  have "objs_ok (psy ws')" using d(1) p(1) unfolding objs_ok_def ps' by (auto simp: sel split: if_splits)
  moreover have "pids_ok (psy ws')"
    using d(2) p(1) unfolding pids_ok_def ps' by (auto simp: sel split: if_splits)
  moreover have "threads_ok (psy ws')" using d(3) p(1) unfolding threads_ok_def ps' by (auto simp: sel split: if_splits)
  moreover have "places_ok ws'"
    unfolding places_ok_def ps' ws'(2)
  proof (intro conjI allI impI)
    show "t_proc (psy ws) u = Some q" if "exiting q (((pc ws)(t := y)) u)" for u q
    proof (cases "u = t")
      case True
      then have "exiting q y" using that by simp
      moreover from this have "q = p" using y(1) pc_proc_cases [of y q] by simp
      ultimately show ?thesis using y(2) True by simp
    next
      case False
      then show ?thesis using that d(4) by (simp add: places_ok_def)
    qed
    show "((procs (psy ws))(p \<mapsto> pr')) q \<noteq> None" "kproc (psy ws) \<noteq> Some q" if "pc_proc (((pc ws)(t := y)) u) = Some q" for u q
      using that d(4) y(1) p by (auto simp: places_ok_def split: if_splits)
    show "pos sy' u = Idle" if "pc_proc (((pc ws)(t := y)) u) = None" for u
      using that d(4) y(1) sb by (auto simp: places_ok_def same_but_def split: if_splits)
  qed
  moreover have "view_ok sy' (pc ws') q qr" if "procs (psy ws') q = Some qr" for q qr
  proof (cases "q = p")
    case True
    then show ?thesis using v that by (simp add: ps' ws'(2))
  next
    case False
    then have q: "procs (psy ws) q = Some qr" using that by (simp add: ps')
    then have "p_cv qr \<noteq> p_cv pr" "p_cv_lock qr \<noteq> p_cv_lock pr" using d(1) p(1) False by (auto simp: objs_ok_def)
    then show ?thesis unfolding ws'(2) using view_frame [OF d(5) [OF q] sb] x y(1) False by auto
  qed
  ultimately show ?thesis by (simp add: pinv_def ps')
qed

subsection \<open>Operations on the lock and the condition variable\<close>

lemma view_okE:
  assumes "view_ok sy pcs p pr"
  obtains lk cv where "lks sy (p_cv_lock pr) = Some lk" and "cvs sy (p_cv pr) = Some cv"
    and "pv_ok p (p_cv pr) (p_cv_lock pr) (lk_owner lk) (cv_lock cv) (wchans sy (Cv_wchan (p_cv pr)))
          (wchans sy (Lk_wchan (p_cv_lock pr))) (p_status_set pr) pcs (pos sy)"
  using assms unfolding view_ok_def by blast

lemma acquire_local:
  assumes v: "view_ok sy pcs p pr" and x: "locks_to p (pcs t) y w"
    and t: "t \<notin> set (wchans sy (Cv_wchan (p_cv pr)))" "t \<notin> set (wchans sy (Lk_wchan (p_cv_lock pr)))"
      "\<And>cv. cvs sy (p_cv pr) = Some cv \<Longrightarrow> cv_lock cv \<noteq> Some t"
  shows "\<exists>es sy'. lock_acquire_loop t (p_cv_lock pr) sy = Inr (es, sy') \<and> same_but (p_cv pr) (p_cv_lock pr) t sy sy' \<and>
    view_ok sy' (pcs(t := returned t y w sy')) p pr"
proof -
  obtain lk cv where o: "lks sy (p_cv_lock pr) = Some lk" "cvs sy (p_cv pr) = Some cv"
    and pv: "pv_ok p (p_cv pr) (p_cv_lock pr) (lk_owner lk) (cv_lock cv) (wchans sy (Cv_wchan (p_cv pr)))
          (wchans sy (Lk_wchan (p_cv_lock pr))) (p_status_set pr) pcs (pos sy)" by (rule view_okE [OF v])
  show ?thesis
  proof (cases "lk_owner lk")
    case None
    let ?sy = "at_pos t Idle (sy\<lparr>lks := (lks sy)(p_cv_lock pr \<mapsto> lk\<lparr>lk_owner := Some t\<rparr>)\<rparr>)"
    have "lock_acquire_loop t (p_cv_lock pr) sy = Inr ([Acquired t (p_cv_lock pr)], ?sy)" using o None by (simp add: lock_acquire_loop_def)
    moreover have "same_but (p_cv pr) (p_cv_lock pr) t sy ?sy" by (simp add: same_but_def)
    moreover have "view_ok ?sy (pcs(t := y)) p pr"
      using pv_acquired [OF pv [unfolded None] x t(1,2) t(3) [OF o(2)]] o by (simp add: view_ok_def)
    ultimately show ?thesis by (auto simp: returned_def)
  next
    case (Some u)
    let ?sy = "sleep_on (Lk_wchan (p_cv_lock pr)) t (at_pos t (In_lock_acquire (p_cv_lock pr)) sy)"
    have "lock_acquire_loop t (p_cv_lock pr) sy = Inr ([], ?sy)" using o Some by (simp add: lock_acquire_loop_def)
    moreover have "same_but (p_cv pr) (p_cv_lock pr) t sy ?sy" by (simp add: same_but_def)
    moreover have "view_ok ?sy (pcs(t := w)) p pr"
      using pv_blocked [OF pv x t(1) t(3) [OF o(2)] t(2)] Some o by (simp add: view_ok_def)
    ultimately show ?thesis by (auto simp: returned_def)
  qed
qed

text \<open>A thread that is awake is in no queue.\<close>

lemma view_awake:
  assumes v: "view_ok sy pcs p pr" and p: "pc_proc (pcs t) = Some p" and a: "\<not> asleep t sy"
  shows "t \<notin> set (wchans sy (Cv_wchan (p_cv pr)))" and "t \<notin> set (wchans sy (Lk_wchan (p_cv_lock pr)))"
proof -
  obtain lk cv where "lks sy (p_cv_lock pr) = Some lk" "cvs sy (p_cv pr) = Some cv" and pv: "pv_ok p (p_cv pr) (p_cv_lock pr) (lk_owner lk) (cv_lock cv) (wchans sy (Cv_wchan (p_cv pr)))
          (wchans sy (Lk_wchan (p_cv_lock pr))) (p_status_set pr) pcs (pos sy)" by (rule view_okE [OF v])
  show "t \<notin> set (wchans sy (Cv_wchan (p_cv pr)))" using pv_okD(4) [OF pv, of t] a by (auto simp: asleep_iff)
  show "t \<notin> set (wchans sy (Lk_wchan (p_cv_lock pr)))" using pv_okD(5) [OF pv, of t] a by (auto simp: asleep_iff)
qed

lemma view_pos:
  assumes "view_ok sy pcs p pr" and "pc_proc (pcs t) = Some p"
  shows "pos_ok p (p_cv pr) (p_cv_lock pr) (pcs t) (pos sy t)"
proof -
  obtain lk cv where o: "lks sy (p_cv_lock pr) = Some lk" "cvs sy (p_cv pr) = Some cv"
    and pv: "pv_ok p (p_cv pr) (p_cv_lock pr) (lk_owner lk) (cv_lock cv) (wchans sy (Cv_wchan (p_cv pr)))
          (wchans sy (Lk_wchan (p_cv_lock pr))) (p_status_set pr) pcs (pos sy)" by (rule view_okE [OF assms(1)])
  show ?thesis by (rule pv_okD(6) [OF pv assms(2)])
qed

lemma view_spin:
  assumes "view_ok sy pcs p pr" and "cvs sy (p_cv pr) = Some cv"
  shows "cv_lock cv = Some t \<longleftrightarrow> pcs t = Wa_cv p \<and> pos sy t = In_cv_wait (p_cv pr) (p_cv_lock pr)"
proof -
  obtain lk cv1 where o: "lks sy (p_cv_lock pr) = Some lk" "cvs sy (p_cv pr) = Some cv1"
    and pv: "pv_ok p (p_cv pr) (p_cv_lock pr) (lk_owner lk) (cv_lock cv1) (wchans sy (Cv_wchan (p_cv pr)))
          (wchans sy (Lk_wchan (p_cv_lock pr))) (p_status_set pr) pcs (pos sy)" by (rule view_okE [OF assms(1)])
  show ?thesis using pv_okD(2) [OF pv, of t] o(2) assms(2) by simp
qed

lemma view_hold:
  assumes v: "view_ok sy pcs p pr"
  shows "lock_do_i_hold t (p_cv_lock pr) sy = Inr (has_lock p (pcs t))"
proof -
  obtain lk cv where o: "lks sy (p_cv_lock pr) = Some lk" "cvs sy (p_cv pr) = Some cv"
    and pv: "pv_ok p (p_cv pr) (p_cv_lock pr) (lk_owner lk) (cv_lock cv) (wchans sy (Cv_wchan (p_cv pr)))
          (wchans sy (Lk_wchan (p_cv_lock pr))) (p_status_set pr) pcs (pos sy)" by (rule view_okE [OF v])
  show ?thesis using o pv_okD(1) [OF pv, of t] by (auto simp: lock_do_i_hold_def)
qed

text \<open>A call of \<open>lock_acquire\<close>.\<close>

lemma call_acquire:
  assumes v: "view_ok sy pcs p pr" and x: "locks_to p (pcs t) y w" and a: "\<not> asleep t sy"
    and c: "pos sy t \<noteq> In_cv_wait (p_cv pr) (p_cv_lock pr)"
  shows "\<exists>es sy'. lock_acquire_loop t (p_cv_lock pr) sy = Inr (es, sy') \<and> lock_acquire False t (p_cv_lock pr) sy = Inr (es, sy') \<and>
    same_but (p_cv pr) (p_cv_lock pr) t sy sy' \<and> view_ok sy' (pcs(t := returned t y w sy')) p pr"
proof -
  have "pc_proc (pcs t) = Some p" using x by (auto simp: locks_to_def)
  note q = view_awake [OF v this a]
  have "cv_lock cv \<noteq> Some t" if "cvs sy (p_cv pr) = Some cv" for cv using view_spin [OF v that] c by simp
  from acquire_local [OF v x q this] obtain es sy' where r: "lock_acquire_loop t (p_cv_lock pr) sy = Inr (es, sy')"
    "same_but (p_cv pr) (p_cv_lock pr) t sy sy'" "view_ok sy' (pcs(t := returned t y w sy')) p pr" by blast
  have "\<not> has_lock p (pcs t)" using x by (auto simp: locks_to_def pc_defs)
  then have "lock_acquire False t (p_cv_lock pr) sy = Inr (es, sy')" using r(1) by (simp add: lock_acquire_def view_hold [OF v])
  then show ?thesis using r by blast
qed

lemma call_release:
  assumes v: "view_ok sy pcs p pr" and x: "pcs t = Ex_release p \<and> y = Ex_thread p \<or> pcs t = Wa_release p \<and> y = Wa_status p"
  shows "\<exists>es sy'. lock_release t (p_cv_lock pr) sy = Inr (es, sy') \<and> same_but (p_cv pr) (p_cv_lock pr) t sy sy' \<and> view_ok sy' (pcs(t := y)) p pr"
proof -
  obtain lk cv where o: "lks sy (p_cv_lock pr) = Some lk" "cvs sy (p_cv pr) = Some cv"
    and pv: "pv_ok p (p_cv pr) (p_cv_lock pr) (lk_owner lk) (cv_lock cv) (wchans sy (Cv_wchan (p_cv pr)))
          (wchans sy (Lk_wchan (p_cv_lock pr))) (p_status_set pr) pcs (pos sy)" by (rule view_okE [OF v])
  have own: "lk_owner lk = Some t" using pv_okD(1) [OF pv, of t] x by (auto simp: pc_defs)
  have z: "(pos sy)(t := Idle) = pos sy" using pv_okD(6) [OF pv, of t] x by (auto simp: pos_ok_def fun_eq_iff)
  let ?sy = "wakeone_on (Lk_wchan (p_cv_lock pr)) (sy\<lparr>lks := (lks sy)(p_cv_lock pr \<mapsto> lk\<lparr>lk_owner := None\<rparr>)\<rparr>)"
  have "has_lock p (pcs t)" using x by (auto simp: pc_defs)
  then have "lock_release t (p_cv_lock pr) sy = Inr ([Released t (p_cv_lock pr)], ?sy)" using o by (simp add: lock_release_def view_hold [OF v])
  moreover have "same_but (p_cv pr) (p_cv_lock pr) t sy ?sy" by (simp add: same_but_def)
  moreover have "view_ok ?sy (pcs(t := y)) p pr"
    using pv_released [OF pv [unfolded own] x] o z by (simp add: view_ok_def)
  ultimately show ?thesis by blast
qed

text \<open>The operations on the condition variable, unless its spinlock is taken.\<close>

lemma call_signal:
  assumes v: "view_ok sy pcs p pr" and x: "pcs t = Ex_signal p"
  shows "cv_signal t (p_cv pr) (p_cv_lock pr) sy = Inl Spins \<and> (\<exists>cv. cvs sy (p_cv pr) = Some cv \<and> cv_lock cv \<noteq> None) \<or>
    (\<exists>es sy'. cv_signal t (p_cv pr) (p_cv_lock pr) sy = Inr (es, sy') \<and> same_but (p_cv pr) (p_cv_lock pr) t sy sy' \<and>
       view_ok sy' (pcs(t := Ex_release p)) p pr)"
proof -
  obtain lk cv where o: "lks sy (p_cv_lock pr) = Some lk" "cvs sy (p_cv pr) = Some cv"
    and pv: "pv_ok p (p_cv pr) (p_cv_lock pr) (lk_owner lk) (cv_lock cv) (wchans sy (Cv_wchan (p_cv pr)))
          (wchans sy (Lk_wchan (p_cv_lock pr))) (p_status_set pr) pcs (pos sy)" by (rule view_okE [OF v])
  have h: "has_lock p (pcs t)" using x by (simp add: pc_defs)
  have z: "(pos sy)(t := Idle) = pos sy" using pv_okD(6) [OF pv, of t] x by (auto simp: pos_ok_def fun_eq_iff)
  show ?thesis
  proof (cases "cv_lock cv")
    case (Some u)
    then show ?thesis using o h by (simp add: cv_signal_def view_hold [OF v] take_cv_lock_def)
  next
    case None
    let ?sy = "(wakeone_on (Cv_wchan (p_cv pr)) sy)\<lparr>cvs := (cvs sy)(p_cv pr \<mapsto> cv\<lparr>cv_lock := None\<rparr>)\<rparr>"
    have "cv_signal t (p_cv pr) (p_cv_lock pr) sy = Inr ([], ?sy)"
      using o h None by (simp add: cv_signal_def view_hold [OF v] take_cv_lock_def drop_cv_lock_def wakeone_on_def)
    moreover have "same_but (p_cv pr) (p_cv_lock pr) t sy ?sy" by (simp add: same_but_def)
    moreover have "view_ok ?sy (pcs(t := Ex_release p)) p pr"
      using pv_signalled [OF pv [unfolded None] x] o None z by (simp add: view_ok_def)
    ultimately show ?thesis by blast
  qed
qed

lemma call_cv_wait:
  assumes v: "view_ok sy pcs p pr" and x: "pcs t = Wa_call p"
  shows "cv_wait t (p_cv pr) (p_cv_lock pr) sy = Inl Spins \<and> (\<exists>cv. cvs sy (p_cv pr) = Some cv \<and> cv_lock cv \<noteq> None) \<or>
    (\<exists>es sy'. cv_wait t (p_cv pr) (p_cv_lock pr) sy = Inr (es, sy') \<and> same_but (p_cv pr) (p_cv_lock pr) t sy sy' \<and>
       view_ok sy' (pcs(t := Wa_cv p)) p pr)"
proof -
  obtain lk cv where o: "lks sy (p_cv_lock pr) = Some lk" "cvs sy (p_cv pr) = Some cv"
    and pv: "pv_ok p (p_cv pr) (p_cv_lock pr) (lk_owner lk) (cv_lock cv) (wchans sy (Cv_wchan (p_cv pr)))
          (wchans sy (Lk_wchan (p_cv_lock pr))) (p_status_set pr) pcs (pos sy)" by (rule view_okE [OF v])
  have h: "has_lock p (pcs t)" using x by (simp add: pc_defs)
  have own: "lk_owner lk = Some t" using pv_okD(1) [OF pv, of t] h by simp
  show ?thesis
  proof (cases "cv_lock cv")
    case (Some u)
    then show ?thesis using o h by (simp add: cv_wait_def view_hold [OF v] take_cv_lock_def)
  next
    case None
    let ?sy1 = "sy\<lparr>cvs := (cvs sy)(p_cv pr \<mapsto> cv\<lparr>cv_lock := Some t\<rparr>)\<rparr>"
    let ?sy2 = "wakeone_on (Lk_wchan (p_cv_lock pr)) (?sy1\<lparr>lks := (lks ?sy1)(p_cv_lock pr \<mapsto> lk\<lparr>lk_owner := None\<rparr>)\<rparr>)"
    let ?sy = "at_pos t (In_cv_wait (p_cv pr) (p_cv_lock pr)) ?sy2"
    have "lock_release t (p_cv_lock pr) ?sy1 = Inr ([Released t (p_cv_lock pr)], ?sy2)" using o own by (simp add: lock_release_iff)
    then have "cv_wait t (p_cv pr) (p_cv_lock pr) sy = Inr ([Released t (p_cv_lock pr)], ?sy)"
      using o h None by (simp add: cv_wait_def view_hold [OF v] take_cv_lock_def)
    moreover have "same_but (p_cv pr) (p_cv_lock pr) t sy ?sy" by (simp add: same_but_def)
    moreover have "view_ok ?sy (pcs(t := Wa_cv p)) p pr"
      using pv_cv_wait [OF pv [unfolded None] x] o by (simp add: view_ok_def)
    ultimately show ?thesis by blast
  qed
qed

lemma call_cv_sleep:
  assumes v: "view_ok sy pcs p pr" and x: "pcs t = Wa_cv p" and z: "pos sy t = In_cv_wait (p_cv pr) (p_cv_lock pr)"
  shows "\<exists>es sy'. cv_wait_sleep t (p_cv pr) (p_cv_lock pr) sy = Inr (es, sy') \<and> same_but (p_cv pr) (p_cv_lock pr) t sy sy' \<and>
    pos sy' t \<noteq> Idle \<and> view_ok sy' (pcs(t := Wa_cv p)) p pr"
proof -
  obtain lk cv where o: "lks sy (p_cv_lock pr) = Some lk" "cvs sy (p_cv pr) = Some cv"
    and pv: "pv_ok p (p_cv pr) (p_cv_lock pr) (lk_owner lk) (cv_lock cv) (wchans sy (Cv_wchan (p_cv pr)))
          (wchans sy (Lk_wchan (p_cv_lock pr))) (p_status_set pr) pcs (pos sy)" by (rule view_okE [OF v])
  have own: "cv_lock cv = Some t" using pv_okD(2) [OF pv, of t] x z by simp
  let ?sy1 = "sleep_on (Cv_wchan (p_cv pr)) t (at_pos t (In_cv_sleep (p_cv pr) (p_cv_lock pr)) sy)"
  let ?sy = "?sy1\<lparr>cvs := (cvs ?sy1)(p_cv pr \<mapsto> cv\<lparr>cv_lock := None\<rparr>)\<rparr>"
  have "cv_wait_sleep t (p_cv pr) (p_cv_lock pr) sy = Inr ([], ?sy)" using o by (simp add: cv_wait_sleep_def drop_cv_lock_def)
  moreover have "same_but (p_cv pr) (p_cv_lock pr) t sy ?sy" by (simp add: same_but_def)
  moreover have "view_ok ?sy (pcs(t := Wa_cv p)) p pr" using pv_sleep [OF pv [unfolded own]] o by (simp add: view_ok_def)
  moreover have "pos ?sy t \<noteq> Idle" by simp
  ultimately show ?thesis by blast
qed

lemma call_cv_resume:
  assumes v: "view_ok sy pcs p pr" and x: "pcs t = Wa_cv p" and z: "pos sy t = In_cv_sleep (p_cv pr) (p_cv_lock pr)" and a: "\<not> asleep t sy"
  shows "cv_wait_resume t (p_cv pr) (p_cv_lock pr) sy = Inl Spins \<and> (\<exists>cv. cvs sy (p_cv pr) = Some cv \<and> cv_lock cv \<noteq> None) \<or>
    (\<exists>es sy'. cv_wait_resume t (p_cv pr) (p_cv_lock pr) sy = Inr (es, sy') \<and> same_but (p_cv pr) (p_cv_lock pr) t sy sy' \<and>
       view_ok sy' (pcs(t := returned t (Wa_test p) (Wa_cv p) sy')) p pr)"
proof -
  obtain lk cv where o: "lks sy (p_cv_lock pr) = Some lk" "cvs sy (p_cv pr) = Some cv"
    and pv: "pv_ok p (p_cv pr) (p_cv_lock pr) (lk_owner lk) (cv_lock cv) (wchans sy (Cv_wchan (p_cv pr)))
          (wchans sy (Lk_wchan (p_cv_lock pr))) (p_status_set pr) pcs (pos sy)" by (rule view_okE [OF v])
  show ?thesis
  proof (cases "cv_lock cv")
    case (Some u)
    then show ?thesis using o by (simp add: cv_wait_resume_def take_cv_lock_def)
  next
    case None
    then obtain sy1 where s1: "take_cv_lock (p_cv pr) t sy = Inr sy1" "drop_cv_lock (p_cv pr) sy1 = Inr sy"
      using o by (auto simp: take_cv_lock_def drop_cv_lock_def fun_upd_idem)
    have lt: "locks_to p (pcs t) (Wa_test p) (Wa_cv p)" using x by (simp add: locks_to_def)
    have "pos sy t \<noteq> In_cv_wait (p_cv pr) (p_cv_lock pr)" using z by simp
    from call_acquire [OF v lt a this] s1 show ?thesis by (auto simp: cv_wait_resume_def)
  qed
qed

subsection \<open>The steps of the protocol\<close>

text \<open>A step that returns, keeps the invariant and leaves the processes alone.\<close>

definition quiet_step :: "'f wsys \<Rightarrow> 'f wres \<Rightarrow> bool" where
  "quiet_step ws r \<longleftrightarrow>
     (case r of
        None \<Rightarrow> True
      | Some (Inl e) \<Rightarrow> False
      | Some (Inr (es, ws')) \<Rightarrow> es = [] \<and> pinv ws' \<and> procs (psy ws') = procs (psy ws))"

lemma set_proc_same: "procs ps p = Some pr \<Longrightarrow> set_proc p pr ps = ps"
  by (simp add: set_proc_def fun_upd_idem)

lemma quiet_move:
  assumes inv: "pinv ws" and p: "procs (psy ws) p = Some pr" "pc_proc (pc ws t) \<in> {None, Some p}" "kproc (psy ws) \<noteq> Some p"
    and sb: "same_but (p_cv pr) (p_cv_lock pr) t (synch (psy ws)) sy'" and v: "view_ok sy' ((pc ws)(t := y)) p pr"
    and y: "pc_proc y = Some p" "exiting p y \<Longrightarrow> t_proc (psy ws) t = Some p"
  shows "pinv (at_pc t y (ws\<lparr>psy := (psy ws)\<lparr>synch := sy'\<rparr>\<rparr>))"
proof (rule pinv_local [OF inv p(1,3) sb p(2) y])
  show "pr = pr\<lparr>p_status_set := p_status_set pr, p_status := p_status pr\<rparr>" by simp
  show "view_ok sy' ((pc ws)(t := y)) p pr" by (rule v)
qed (simp_all add: at_pc_def set_proc_same [OF p(1)])

lemma quiet_sync:
  assumes inv: "pinv ws" and p: "procs (psy ws) p = Some pr" "pc_proc (pc ws t) = Some p"
    and r: "r = None \<or> r = Some (Inl Spins) \<or> (\<exists>es sy'. r = Some (Inr (es, sy')) \<and>
        same_but (p_cv pr) (p_cv_lock pr) t (synch (psy ws)) sy' \<and> view_ok sy' ((pc ws)(t := k sy')) p pr)"
    and k: "\<And>sy'. pc_proc (k sy') = Some p" "\<And>sy'. exiting p (k sy') \<Longrightarrow> exiting p (pc ws t)"
  shows "quiet_step ws (sync t r k ws)"
proof -
  have kp: "kproc (psy ws) \<noteq> Some p" and ex: "exiting p (pc ws t) \<Longrightarrow> t_proc (psy ws) t = Some p"
    using pinvD(4) [OF inv] p(2) by (simp_all add: places_ok_def)
  from r consider "r = None" | "r = Some (Inl Spins)" | es sy' where "r = Some (Inr (es, sy'))"
      "same_but (p_cv pr) (p_cv_lock pr) t (synch (psy ws)) sy'" "view_ok sy' ((pc ws)(t := k sy')) p pr" by blast
  then show ?thesis
  proof cases
    case 3
    have "pinv (at_pc t (k sy') (ws\<lparr>psy := (psy ws)\<lparr>synch := sy'\<rparr>\<rparr>))"
      by (rule quiet_move [OF inv p(1) _ kp 3(2,3) k(1)]) (use p(2) ex k(2) in blast)+
    then show ?thesis using 3(1) by (simp add: quiet_step_def sync_def at_pc_def)
  qed (simp_all add: quiet_step_def sync_def)
qed

lemma returned_cases: "pc_proc y = Some p \<Longrightarrow> pc_proc w = Some p \<Longrightarrow> pc_proc (returned t y w sy) = Some p"
  by (simp add: returned_def)

lemma pinv_proc:
  assumes "pinv ws" and "pc_proc (pc ws t) = Some p"
  obtains pr where "procs (psy ws) p = Some pr" and "view_ok (synch (psy ws)) (pc ws) p pr"
  using pinvD(4,5) [OF assms(1)] assms(2) unfolding places_ok_def by blast

lemma locking_step:
  assumes inv: "pinv ws" and x: "locks_to p (pc ws t) y w" and d: "pc_proc y = Some p" "pc_proc w = Some p"
    and e: "exiting p y \<Longrightarrow> exiting p (pc ws t)" "exiting p w \<Longrightarrow> exiting p (pc ws t)"
    and pr: "procs (psy ws) p = Some pr" and v: "view_ok (synch (psy ws)) (pc ws) p pr"
  shows "pc ws t \<in> {Ex_lock p, Wa_lock p} \<Longrightarrow>
      quiet_step ws (sync t (Some (lock_acquire False t (p_cv_lock pr) (synch (psy ws)))) (returned t y w) ws)"
    and "pc ws t \<in> {Ex_locking p, Wa_locking p} \<Longrightarrow> quiet_step ws (sync t (synch_step t Resume (synch (psy ws))) (returned t y w) ws)"
proof -
  let ?sy = "synch (psy ws)"
  have pp: "pc_proc (pc ws t) = Some p" using x by (auto simp: locks_to_def)
  have k: "exiting p (returned t y w sy) \<Longrightarrow> exiting p (pc ws t)" for sy using e by (simp add: returned_def split: if_splits)
  note q = quiet_sync [OF inv pr pp _ returned_cases [OF d] k]
  note po = view_pos [OF v pp]
  show "quiet_step ws (sync t (Some (lock_acquire False t (p_cv_lock pr) ?sy)) (returned t y w) ws)" if l: "pc ws t \<in> {Ex_lock p, Wa_lock p}"
  proof -
    have i: "pos ?sy t = Idle" using po l by (auto simp: pos_ok_def)
    then have "\<not> asleep t ?sy" by (simp add: asleep_iff)
    from call_acquire [OF v x this] i show ?thesis by (intro q) auto
  qed
  show "quiet_step ws (sync t (synch_step t Resume ?sy) (returned t y w) ws)" if l: "pc ws t \<in> {Ex_locking p, Wa_locking p}"
  proof (cases "asleep t ?sy")
    case True
    then show ?thesis by (simp add: sync_def quiet_step_def)
  next
    case False
    have i: "pos ?sy t = In_lock_acquire (p_cv_lock pr)" using po l by (auto simp: pos_ok_def)
    from call_acquire [OF v x False] i False show ?thesis by (intro q) auto
  qed
qed

lemma wa_cv_step:
  assumes inv: "pinv ws" and x: "pc ws t = Wa_cv p"
  shows "quiet_step ws (sync t (synch_step t Resume (synch (psy ws))) (returned t (Wa_test p) (Wa_cv p)) ws)"
proof -
  let ?sy = "synch (psy ws)"
  have pp: "pc_proc (pc ws t) = Some p" using x by simp
  obtain pr where pr: "procs (psy ws) p = Some pr" and v: "view_ok ?sy (pc ws) p pr" by (rule pinv_proc [OF inv pp])
  have d: "pc_proc (returned t (Wa_test p) (Wa_cv p) sy) = Some p" "exiting p (returned t (Wa_test p) (Wa_cv p) sy) \<Longrightarrow> exiting p (pc ws t)" for sy
    by (auto simp: returned_def pc_defs split: if_splits)
  note q = quiet_sync [OF inv pr pp _ d]
  show ?thesis
  proof (cases "asleep t ?sy")
    case True
    then show ?thesis by (simp add: sync_def quiet_step_def)
  next
    case False
    consider "pos ?sy t = In_cv_wait (p_cv pr) (p_cv_lock pr)" | "pos ?sy t = In_cv_sleep (p_cv pr) (p_cv_lock pr)" | "pos ?sy t = In_lock_acquire (p_cv_lock pr)"
      using view_pos [OF v pp] x by (auto simp: pos_ok_def)
    then show ?thesis
    proof cases
      case 1
      from call_cv_sleep [OF v x 1] obtain es sy' where r: "cv_wait_sleep t (p_cv pr) (p_cv_lock pr) ?sy = Inr (es, sy')"
        "same_but (p_cv pr) (p_cv_lock pr) t ?sy sy'" "pos sy' t \<noteq> Idle" "view_ok sy' ((pc ws)(t := Wa_cv p)) p pr" by blast
      show ?thesis using r 1 False by (intro q) (simp add: returned_def)
    next
      case 2
      from call_cv_resume [OF v x 2 False] show ?thesis using 2 False by (intro q) auto
    next
      case 3
      have "locks_to p (pc ws t) (Wa_test p) (Wa_cv p)" using x by (simp add: locks_to_def)
      from call_acquire [OF v this False] show ?thesis using 3 False by (intro q) auto
    qed
  qed
qed

end
