(* ===== verification/Proc_Steps.thy ===== *)
theory Proc_Steps
  imports Proc_Run
begin

text \<open>Every step of a run keeps the invariant, and where \<open>proc_wait\<close> can fail.\<close>

subsection \<open>Steps inside the protocol\<close>

lemma exit_step_quiet:
  assumes inv: "pinv ws" and x: "pc ws t \<in> {Ex_lock p, Ex_locking p, Ex_signal p, Ex_release p}"
  shows "quiet_step ws (sys__exit_step t (pc ws t) ws)"
proof -
  let ?sy = "synch (psy ws)"
  have pp: "pc_proc (pc ws t) = Some p" using x by auto
  obtain pr where pr: "procs (psy ws) p = Some pr" and v: "view_ok ?sy (pc ws) p pr" by (rule pinv_proc [OF inv pp])
  consider "pc ws t \<in> {Ex_lock p, Ex_locking p}" | "pc ws t = Ex_signal p" | "pc ws t = Ex_release p" using x by blast
  then show ?thesis
  proof cases
    case 1
    then have "locks_to p (pc ws t) (Ex_signal p) (Ex_locking p)" by (auto simp: locks_to_def)
    note l = locking_step [OF inv this _ _ _ _ pr v]
    show ?thesis using 1 l pr by (auto simp: with_proc_def pc_defs)
  next
    case 2
    show ?thesis unfolding 2 using quiet_sync [OF inv pr pp, of "Some (cv_signal t (p_cv pr) (p_cv_lock pr) ?sy)" "\<lambda>_. Ex_release p"]
      call_signal [OF v 2] pr 2 by (auto simp: with_proc_def pc_defs)
  next
    case 3
    show ?thesis unfolding 3 using quiet_sync [OF inv pr pp, of "Some (lock_release t (p_cv_lock pr) ?sy)" "\<lambda>_. Ex_thread p"]
      call_release [OF v, of t "Ex_thread p"] pr 3 by (auto simp: with_proc_def pc_defs)
  qed
qed

lemma wait_step_quiet:
  assumes inv: "pinv ws" and x: "pc ws t \<in> {Wa_lock p, Wa_locking p, Wa_test p, Wa_call p, Wa_cv p, Wa_release p}"
  shows "quiet_step ws (proc_wait_step ops magic reclaim t (pc ws t) ws)"
proof -
  let ?sy = "synch (psy ws)"
  have pp: "pc_proc (pc ws t) = Some p" using x by auto
  obtain pr where pr: "procs (psy ws) p = Some pr" and v: "view_ok ?sy (pc ws) p pr" by (rule pinv_proc [OF inv pp])
  consider "pc ws t \<in> {Wa_lock p, Wa_locking p}" | "pc ws t = Wa_test p" | "pc ws t = Wa_call p" | "pc ws t = Wa_cv p" | "pc ws t = Wa_release p"
    using x by blast
  then show ?thesis
  proof cases
    case 1
    then have "locks_to p (pc ws t) (Wa_test p) (Wa_locking p)" by (auto simp: locks_to_def)
    note l = locking_step [OF inv this _ _ _ _ pr v]
    show ?thesis using 1 l pr by (auto simp: with_proc_def pc_defs)
  next
    case 2
    let ?y = "if p_status_set pr then Wa_release p else Wa_call p"
    obtain lk cv where o: "lks ?sy (p_cv_lock pr) = Some lk" "cvs ?sy (p_cv pr) = Some cv"
      and pv: "pv_ok p (p_cv pr) (p_cv_lock pr) (lk_owner lk) (cv_lock cv) (wchans ?sy (Cv_wchan (p_cv pr)))
          (wchans ?sy (Lk_wchan (p_cv_lock pr))) (p_status_set pr) (pc ws) (pos ?sy)" by (rule view_okE [OF v])
    have z: "(pos ?sy)(t := Idle) = pos ?sy" using view_pos [OF v pp] 2 by (auto simp: pos_ok_def fun_eq_iff)
    have v': "view_ok ?sy ((pc ws)(t := ?y)) p pr" unfolding view_ok_def using pv_tested [OF pv 2] o z by auto
    have kp: "kproc (psy ws) \<noteq> Some p" using pinvD(4) [OF inv] pp by (simp add: places_ok_def)
    have "pinv (at_pc t ?y (ws\<lparr>psy := (psy ws)\<lparr>synch := ?sy\<rparr>\<rparr>))"
      by (rule quiet_move [OF inv pr _ kp same_but_refl v']) (auto simp: pp pc_defs split: if_splits)
    then show ?thesis using pr 2 by (simp add: quiet_step_def with_proc_def at_pc_def)
  next
    case 3
    show ?thesis unfolding 3 using quiet_sync [OF inv pr pp, of "Some (cv_wait t (p_cv pr) (p_cv_lock pr) ?sy)" "\<lambda>_. Wa_cv p"]
      call_cv_wait [OF v 3] pr 3 by (auto simp: with_proc_def pc_defs)
  next
    case 4
    show ?thesis using wa_cv_step [OF inv 4] 4 by simp
  next
    case 5
    show ?thesis unfolding 5 using quiet_sync [OF inv pr pp, of "Some (lock_release t (p_cv_lock pr) ?sy)" "\<lambda>_. Wa_status p"]
      call_release [OF v, of t "Wa_status p"] pr 5 by (auto simp: with_proc_def pc_defs)
  qed
qed

subsection \<open>Entering the protocol\<close>

lemma exit_enters:
  assumes inv: "pinv ws" and t: "t_proc (psy ws) t \<noteq> kproc (psy ws)" and e: "sys__exit t status ws = Some r"
  shows "t_proc (psy ws) t = None \<and> r = Inl NullDeref \<or>
    (\<exists>p pr ws'. t_proc (psy ws) t = Some p \<and> procs (psy ws) p = Some pr \<and> r = Inr ([Exited p status], ws') \<and> pinv ws' \<and>
       procs (psy ws') = (procs (psy ws))(p \<mapsto> pr\<lparr>p_status_set := True, p_status := status\<rparr>))"
proof (cases "t_proc (psy ws) t")
  case None
  then show ?thesis using e by (auto simp: sys__exit_def curproc_of_def split: if_splits)
next
  case (Some p)
  let ?sy = "synch (psy ws)"
  obtain pr where pr: "procs (psy ws) p = Some pr" using pinvD(3) [OF inv] Some unfolding threads_ok_def by blast
  have out: "pc ws t = Outside" using e by (simp add: sys__exit_def split: if_splits)
  let ?pr = "pr\<lparr>p_status_set := True, p_status := status\<rparr>"
  let ?ws = "at_pc t (Ex_lock p) (ws\<lparr>psy := set_proc p ?pr (psy ws)\<rparr>)"
  have r: "r = Inr ([Exited p status], ?ws)" using e Some pr out by (auto simp: sys__exit_def curproc_of_def)
  note v = pinvD(5) [OF inv pr]
  obtain lk cv where o: "lks ?sy (p_cv_lock pr) = Some lk" "cvs ?sy (p_cv pr) = Some cv"
    and pv: "pv_ok p (p_cv pr) (p_cv_lock pr) (lk_owner lk) (cv_lock cv) (wchans ?sy (Cv_wchan (p_cv pr)))
        (wchans ?sy (Lk_wchan (p_cv_lock pr))) (p_status_set pr) (pc ws) (pos ?sy)" by (rule view_okE [OF v])
  have z: "pos ?sy t = Idle" "(pos ?sy)(t := Idle) = pos ?sy" using pinvD(4) [OF inv] out by (auto simp: places_ok_def fun_eq_iff)
  have v': "view_ok ?sy ((pc ws)(t := Ex_lock p)) p ?pr" using pv_exit [OF pv out z(1)] o z(2) by (simp add: view_ok_def)
  have "pinv ?ws"
    by (rule pinv_local [OF inv pr _ same_but_refl _ _ _ refl v']) (use t Some out in \<open>auto simp: at_pc_def pc_defs set_proc_def\<close>)
  then show ?thesis using Some pr r by (auto simp: at_pc_def set_proc_def)
qed

lemma wait_enters:
  assumes inv: "pinv ws" and p: "procs (psy ws) p \<noteq> None" and one: "\<And>u. \<not> waiting p (pc ws u)"
    and w: "proc_wait t (Some p) ws = Some r"
  shows "kproc (psy ws) = Some p \<and> r = Inl KAssertFail \<or> (\<exists>ws'. r = Inr ([], ws') \<and> pinv ws' \<and> procs (psy ws') = procs (psy ws))"
proof (cases "kproc (psy ws) = Some p")
  case True
  then show ?thesis using w by (simp add: proc_wait_def split: if_splits)
next
  case False
  let ?sy = "synch (psy ws)"
  have out: "pc ws t = Outside" using w by (simp add: proc_wait_def split: if_splits)
  obtain pr where pr: "procs (psy ws) p = Some pr" using p by blast
  note v = pinvD(5) [OF inv pr]
  obtain lk cv where o: "lks ?sy (p_cv_lock pr) = Some lk" "cvs ?sy (p_cv pr) = Some cv"
    and pv: "pv_ok p (p_cv pr) (p_cv_lock pr) (lk_owner lk) (cv_lock cv) (wchans ?sy (Cv_wchan (p_cv pr)))
        (wchans ?sy (Lk_wchan (p_cv_lock pr))) (p_status_set pr) (pc ws) (pos ?sy)" by (rule view_okE [OF v])
  have z: "pos ?sy t = Idle" "(pos ?sy)(t := Idle) = pos ?sy" using pinvD(4) [OF inv] out by (auto simp: places_ok_def fun_eq_iff)
  have v': "view_ok ?sy ((pc ws)(t := Wa_lock p)) p pr" using pv_wait [OF pv out z(1) one] o z(2) by (simp add: view_ok_def)
  have "pinv (at_pc t (Wa_lock p) (ws\<lparr>psy := (psy ws)\<lparr>synch := ?sy\<rparr>\<rparr>))"
    by (rule quiet_move [OF inv pr _ False same_but_refl v']) (simp_all add: out pc_defs)
  then show ?thesis using w False out by (auto simp: proc_wait_def at_pc_def)
qed

end
