(* ===== verification/Proc_Life.thy ===== *)
theory Proc_Life
  imports Proc_Steps
begin

text \<open>The steps that begin and end the life of a process keep the invariant.\<close>

lemma placesD:
  assumes "pinv ws"
  shows "exiting p (pc ws t) \<Longrightarrow> t_proc (psy ws) t = Some p" and "pc_proc (pc ws t) = Some p \<Longrightarrow> procs (psy ws) p \<noteq> None \<and> kproc (psy ws) \<noteq> Some p"
    and "pc_proc (pc ws t) = None \<Longrightarrow> pos (synch (psy ws)) t = Idle"
  using pinvD(4) [OF assms] unfolding places_ok_def by blast+

lemma threadsD:
  assumes "pinv ws"
  shows "\<exists>k. kproc (psy ws) = Some k \<and> procs (psy ws) k \<noteq> None" and "t_proc (psy ws) t = Some p \<Longrightarrow> procs (psy ws) p \<noteq> None"
    and "t_proc (psy ws) t = Some p \<Longrightarrow> t_proc (psy ws) u = Some p \<Longrightarrow> kproc (psy ws) \<noteq> Some p \<Longrightarrow> t = u"
    and "procs (psy ws) p = Some pr \<Longrightarrow> kproc (psy ws) \<noteq> Some p \<Longrightarrow> p_numthreads pr = (if \<exists>t. t_proc (psy ws) t = Some p then 1 else 0)"
  using pinvD(3) [OF assms] unfolding threads_ok_def by blast+

subsection \<open>The thread leaves\<close>

lemma leave_step:
  assumes inv: "pinv ws" and x: "pc ws t = Ex_thread p"
  shows "\<exists>pr ws'. sys__exit_step t (pc ws t) ws = Some (Inr ([], ws')) \<and> pinv ws' \<and> procs (psy ws) p = Some pr \<and>
    procs (psy ws') = (procs (psy ws))(p \<mapsto> pr\<lparr>p_numthreads := 0\<rparr>)"
proof -
  let ?sy = "synch (psy ws)"
  note d = pinvD [OF inv]
  have pp: "pc_proc (pc ws t) = Some p" using x by simp
  obtain pr where pr: "procs (psy ws) p = Some pr" and v: "view_ok ?sy (pc ws) p pr" by (rule pinv_proc [OF inv pp])
  have tp: "t_proc (psy ws) t = Some p" and kp: "kproc (psy ws) \<noteq> Some p" using placesD(1) [OF inv, of p t] placesD(2) [OF inv pp] x by (simp_all add: pc_defs)
  have n: "p_numthreads pr = 1" using threadsD(4) [OF inv pr kp] tp by auto
  have uni: "u = t" if "t_proc (psy ws) u = Some p" for u by (rule threadsD(3) [OF inv that tp kp])
  let ?pr = "pr\<lparr>p_numthreads := 0\<rparr>"
  let ?ps = "(set_proc p ?pr (psy ws))\<lparr>t_proc := (t_proc (psy ws))(t := None)\<rparr>"
  let ?ws = "at_pc t Gone (ws\<lparr>psy := ?ps\<rparr>)"
  have r: "sys__exit_step t (pc ws t) ws = Some (Inr ([], ?ws))" using x tp pr n by (simp add: proc_remthread_def)
  have sel: "procs ?ps = (procs (psy ws))(p \<mapsto> ?pr)" "pid_table ?ps = pid_table (psy ws)" "kproc ?ps = kproc (psy ws)"
    "t_proc ?ps = (t_proc (psy ws))(t := None)" "synch ?ps = ?sy" "pc ?ws = (pc ws)(t := Gone)" "psy ?ws = ?ps" by (simp_all add: set_proc_def at_pc_def)
  have "objs_ok ?ps" using d(1) pr unfolding objs_ok_def sel by (auto split: if_splits)
  moreover have "pids_ok ?ps" using d(2) pr unfolding pids_ok_def sel by (auto split: if_splits)
  moreover have "threads_ok ?ps"
    unfolding threads_ok_def sel
  proof (intro conjI allI impI)
    show "\<exists>k. kproc (psy ws) = Some k \<and> ((procs (psy ws))(p \<mapsto> ?pr)) k \<noteq> None" using threadsD(1) [OF inv] by auto
    show "((procs (psy ws))(p \<mapsto> ?pr)) q \<noteq> None" if "((t_proc (psy ws))(t := None)) u = Some q" for u q
      using threadsD(2) [OF inv, of u q] that by (auto split: if_splits)
    show "u = w" if "((t_proc (psy ws))(t := None)) u = Some q \<and> ((t_proc (psy ws))(t := None)) w = Some q \<and> kproc (psy ws) \<noteq> Some q" for u w q
      using threadsD(3) [OF inv, of u q w] that by (auto split: if_splits)
    show "p_numthreads qr = (if \<exists>u. ((t_proc (psy ws))(t := None)) u = Some q then 1 else 0)"
      if "((procs (psy ws))(p \<mapsto> ?pr)) q = Some qr \<and> kproc (psy ws) \<noteq> Some q" for q qr
    proof (cases "q = p")
      case True
      then show ?thesis using that uni by auto
    next
      case False
      then have "(\<exists>u. ((t_proc (psy ws))(t := None)) u = Some q) \<longleftrightarrow> (\<exists>u. t_proc (psy ws) u = Some q)"
        using tp by (metis fun_upd_apply option.distinct(1) option.inject)
      then show ?thesis using that False threadsD(4) [OF inv, of q qr] by simp
    qed
  qed
  moreover have "places_ok ?ws"
    unfolding places_ok_def sel
  proof (intro conjI allI impI)
    show "((t_proc (psy ws))(t := None)) u = Some q" if "exiting q (((pc ws)(t := Gone)) u)" for u q
      using that placesD(1) [OF inv, of q u] by (auto simp: pc_defs split: if_splits)
    show "((procs (psy ws))(p \<mapsto> ?pr)) q \<noteq> None" "kproc (psy ws) \<noteq> Some q" if "pc_proc (((pc ws)(t := Gone)) u) = Some q" for u q
      using that placesD(2) [OF inv, of u q] by (auto split: if_splits)
    show "pos ?sy u = Idle" if "pc_proc (((pc ws)(t := Gone)) u) = None" for u
      using that placesD(3) [OF inv, of u] view_pos [OF v pp] x by (auto simp: pos_ok_def split: if_splits)
  qed
  moreover have "view_ok ?sy ((pc ws)(t := Gone)) q qr" if q: "((procs (psy ws))(p \<mapsto> ?pr)) q = Some qr" for q qr
  proof (cases "q = p")
    case True
    obtain lk cv where o: "lks ?sy (p_cv_lock pr) = Some lk" "cvs ?sy (p_cv pr) = Some cv"
      and pv: "pv_ok p (p_cv pr) (p_cv_lock pr) (lk_owner lk) (cv_lock cv) (wchans ?sy (Cv_wchan (p_cv pr)))
          (wchans ?sy (Lk_wchan (p_cv_lock pr))) (p_status_set pr) (pc ws) (pos ?sy)" by (rule view_okE [OF v])
    have z: "(pos ?sy)(t := Idle) = pos ?sy" using view_pos [OF v pp] x by (auto simp: pos_ok_def fun_eq_iff)
    show ?thesis using pv_leave [OF pv x] o z True q by (auto simp: view_ok_def)
  next
    case False
    then have q': "procs (psy ws) q = Some qr" using q by simp
    then have "p_cv qr \<noteq> p_cv pr" "p_cv_lock qr \<noteq> p_cv_lock pr" using d(1) pr False by (auto simp: objs_ok_def)
    then show ?thesis using view_frame [OF d(5) [OF q'] same_but_refl] x False by auto
  qed
  ultimately have "pinv ?ws" by (simp add: pinv_def sel)
  then show ?thesis using r pr by (auto simp: at_pc_def set_proc_def)
qed

subsection \<open>Destroying a process\<close>

definition same_procs :: "nat \<Rightarrow> 'f psys \<Rightarrow> 'f psys \<Rightarrow> bool" where
  "same_procs p ps ps' \<longleftrightarrow> (\<forall>q. q \<noteq> p \<longrightarrow> procs ps' q = procs ps q) \<and> pid_table ps' = pid_table ps \<and> kproc ps' = kproc ps \<and>
     t_proc ps' = t_proc ps \<and> synch ps' = synch ps \<and>
     (\<forall>pr. procs ps p = Some pr \<longrightarrow> (\<exists>c a. procs ps' p = Some (pr\<lparr>p_cwd := c, p_addrspace := a\<rparr>)))"

lemma drop_same:
  assumes pr: "procs ps p = Some pr" and c: "drop_cwd magic reclaim p pr ps = Inr ps1" and a: "drop_as ops p ps1 = Inr ps2"
  shows "same_procs p ps ps2"
proof -
  let ?pr = "pr\<lparr>p_cwd := None\<rparr>"
  have c: "procs ps1 p = Some ?pr" and "procs ps1 = (procs ps)(p \<mapsto> ?pr)" "pid_table ps1 = pid_table ps" "kproc ps1 = kproc ps"
    "t_proc ps1 = t_proc ps" "synch ps1 = synch ps"
    using c pr by (auto simp: drop_cwd_def set_proc_def fun_upd_idem split: option.splits)
  moreover have "?pr = pr\<lparr>p_cwd := None, p_addrspace := p_addrspace pr\<rparr>" by simp
  ultimately have 1: "same_procs p ps ps1" using pr unfolding same_procs_def by (metis fun_upd_apply option.inject)
  show ?thesis
  proof (cases "p_addrspace pr")
    case None
    then have "ps2 = ps1" using a c by (simp add: drop_as_def)
    then show ?thesis using 1 by simp
  next
    case (Some x)
    then obtain k where "ps2 = (set_proc p (?pr\<lparr>p_addrspace := None\<rparr>) ps1)\<lparr>kst := k\<rparr>" using a c by (auto simp: drop_as_def)
    then show ?thesis using 1 pr by (auto simp: same_procs_def set_proc_def)
  qed
qed

text \<open>Nobody else is concerned with a process that its only waiting thread is about to destroy and whose thread has left.\<close>

lemma destroy_alone:
  assumes inv: "pinv ws" and x: "pc ws t = Wa_status p" and n: "\<And>u. t_proc (psy ws) u \<noteq> Some p" and u: "pc_proc (pc ws u) = Some p"
  shows "u = t"
proof -
  obtain pr where "procs (psy ws) p = Some pr" and v: "view_ok (synch (psy ws)) (pc ws) p pr" by (rule pinv_proc [OF inv u])
  obtain lk cv where "lks (synch (psy ws)) (p_cv_lock pr) = Some lk" "cvs (synch (psy ws)) (p_cv pr) = Some cv"
      and pv: "pv_ok p (p_cv pr) (p_cv_lock pr) (lk_owner lk) (cv_lock cv) (wchans (synch (psy ws)) (Cv_wchan (p_cv pr)))
          (wchans (synch (psy ws)) (Lk_wchan (p_cv_lock pr))) (p_status_set pr) (pc ws) (pos (synch (psy ws)))" by (rule view_okE [OF v])
  have "\<not> exiting p (pc ws u)" using placesD(1) [OF inv, of p u] n [of u] by blast
  then have "waiting p (pc ws u)" using u pc_proc_cases by blast
  moreover have "waiting p (pc ws t)" using x by (simp add: pc_defs)
  ultimately show ?thesis by (rule pv_okD(7) [OF pv])
qed

lemma free_proc_ok:
  assumes inv: "pinv ws" and x: "pc ws t = Wa_status p" and pr: "procs (psy ws) p = Some pr" and same: "same_procs p (psy ws) ps"
    and n: "\<And>u. t_proc (psy ws) u \<noteq> Some p"
  shows "\<exists>sy'. same_but (p_cv pr) (p_cv_lock pr) t (synch (psy ws)) sy' \<and> pos sy' = pos (synch (psy ws)) \<and>
    free_proc p ps = Inr (ps\<lparr>synch := sy', pid_table := (pid_table ps)[nat (p_pid pr - 1) := None], procs := (procs ps)(p := None)\<rparr>)"
proof -
  let ?sy = "synch (psy ws)"
  have pp: "pc_proc (pc ws t) = Some p" using x by simp
  note v = pinvD(5) [OF inv pr]
  obtain lk cv where o: "lks ?sy (p_cv_lock pr) = Some lk" "cvs ?sy (p_cv pr) = Some cv"
    and pv: "pv_ok p (p_cv pr) (p_cv_lock pr) (lk_owner lk) (cv_lock cv) (wchans ?sy (Cv_wchan (p_cv pr)))
        (wchans ?sy (Lk_wchan (p_cv_lock pr))) (p_status_set pr) (pc ws) (pos ?sy)" by (rule view_okE [OF v])
  have z: "pos ?sy t = Idle" using view_pos [OF v pp] x by (simp add: pos_ok_def)
  note q = pv_idle [OF pv pp z]
  have cvq: "wchans ?sy (Cv_wchan (p_cv pr)) = []"
  proof (rule ccontr)
    assume "wchans ?sy (Cv_wchan (p_cv pr)) \<noteq> []"
    then obtain u where u: "u \<in> set (wchans ?sy (Cv_wchan (p_cv pr)))" by (meson list.set_sel(1))
    then have "pc_proc (pc ws u) = Some p" using pv_okD(4) [OF pv u] by simp
    then show False using destroy_alone [OF inv x n] u q(1) by blast
  qed
  have lkq: "wchans ?sy (Lk_wchan (p_cv_lock pr)) = []"
  proof (rule ccontr)
    assume "wchans ?sy (Lk_wchan (p_cv_lock pr)) \<noteq> []"
    then obtain u where u: "u \<in> set (wchans ?sy (Lk_wchan (p_cv_lock pr)))" by (meson list.set_sel(1))
    then show False using destroy_alone [OF inv x n] pv_okD(5) [OF pv u] q(2) by blast
  qed
  have cl: "cv_lock cv = None"
  proof (cases "cv_lock cv")
    case (Some u)
    then have "pc_proc (pc ws u) = Some p" using pv_okD(2) [OF pv, of u] by simp
    then show ?thesis using destroy_alone [OF inv x n] Some q(3) by blast
  qed
  have pid: "1 \<le> p_pid pr" "p_pid pr \<le> int TABLE_SIZE" using pinvD(2) [OF inv] pr by (auto simp: pids_ok_def)
  have nt: "p_numthreads pr = 0" using threadsD(4) [OF inv pr] placesD(2) [OF inv pp] n by simp
  obtain c a where pr': "procs ps p = Some (pr\<lparr>p_cwd := c, p_addrspace := a\<rparr>)" and sy: "synch ps = ?sy" using same pr by (auto simp: same_procs_def)
  let ?sy1 = "?sy\<lparr>cvs := (cvs ?sy)(p_cv pr := None)\<rparr>"
  let ?sy2 = "?sy1\<lparr>lks := (lks ?sy1)(p_cv_lock pr := None)\<rparr>"
  have "cv_destroy (p_cv pr) ?sy = Inr ?sy1" using o cvq cl by (simp add: cv_destroy_def)
  moreover have "lock_destroy (p_cv_lock pr) ?sy1 = Inr ?sy2" using o lkq by (simp add: lock_destroy_def)
  ultimately have "free_proc p ps = Inr (ps\<lparr>synch := ?sy2, pid_table := (pid_table ps)[nat (p_pid pr - 1) := None], procs := (procs ps)(p := None)\<rparr>)"
    using pr' sy nt pid by (simp add: free_proc_def proc_unassign_pid_def)
  moreover have "same_but (p_cv pr) (p_cv_lock pr) t ?sy ?sy2" by (simp add: same_but_def)
  moreover have "pos ?sy2 = pos ?sy" by simp
  ultimately show ?thesis by blast
qed

lemma pids_remove:
  assumes ok: "pids_ok ps" and pr: "procs ps p = Some pr"
  shows "pids_ok (ps\<lparr>synch := sy', pid_table := (pid_table ps)[nat (p_pid pr - 1) := None], procs := (procs ps)(p := None)\<rparr>)"
proof -
  let ?i = "nat (p_pid pr - 1)"
  have b: "1 \<le> p_pid pr" "p_pid pr \<le> int TABLE_SIZE" and l: "length (pid_table ps) = TABLE_SIZE"
    and tab: "\<And>i q. i < TABLE_SIZE \<Longrightarrow> pid_table ps ! i = Some q \<longleftrightarrow> (\<exists>qr. procs ps q = Some qr \<and> p_pid qr = int i + 1)"
    using ok pr by (auto simp: pids_ok_def)
  have i: "?i < TABLE_SIZE" "int ?i + 1 = p_pid pr" using b by simp_all
  have own: "pid_table ps ! ?i = Some p" using tab [OF i(1)] i(2) pr by auto
  have "(pid_table ps)[?i := None] ! j = Some q \<longleftrightarrow> (\<exists>qr. ((procs ps)(p := None)) q = Some qr \<and> p_pid qr = int j + 1)"
    if j: "j < TABLE_SIZE" for j q
  proof (cases "j = ?i")
    case True
    have "\<not> (\<exists>qr. ((procs ps)(p := None)) q = Some qr \<and> p_pid qr = int j + 1)" using tab [OF i(1), of q] own True by auto
    then show ?thesis using True l j by simp
  next
    case False
    have "p_pid pr \<noteq> int j + 1" using False i(2) by auto
    then show ?thesis using tab [OF j, of q] False pr by auto
  qed
  then show ?thesis using ok l by (auto simp: pids_ok_def split: if_splits)
qed

lemma destroyed:
  assumes inv: "pinv ws" and x: "pc ws t = Wa_status p" and pr: "procs (psy ws) p = Some pr" and n: "\<And>u. t_proc (psy ws) u \<noteq> Some p"
    and sb: "same_but (p_cv pr) (p_cv_lock pr) t (synch (psy ws)) sy'" "pos sy' = pos (synch (psy ws))"
    and ps: "procs ps = (procs (psy ws))(p := None)" "pid_table ps = (pid_table (psy ws))[nat (p_pid pr - 1) := None]"
      "kproc ps = kproc (psy ws)" "t_proc ps = t_proc (psy ws)" "synch ps = sy'"
  shows "pinv (at_pc t Outside (ws\<lparr>psy := ps\<rparr>))"
proof -
  let ?ws = "at_pc t Outside (ws\<lparr>psy := ps\<rparr>)"
  have sel: "psy ?ws = ps" "pc ?ws = (pc ws)(t := Outside)" by (simp_all add: at_pc_def)
  note d = pinvD [OF inv]
  have pp: "pc_proc (pc ws t) = Some p" using x by simp
  have alone: "pc_proc (((pc ws)(t := Outside)) u) \<noteq> Some p" for u using destroy_alone [OF inv x n, of u] by auto
  have "objs_ok ps" using d(1) unfolding objs_ok_def ps by (auto split: if_splits)
  moreover have "pids_ok ps" using pids_remove [OF d(2) pr] unfolding pids_ok_def ps by simp
  moreover have "threads_ok ps"
    unfolding threads_ok_def ps
  proof (intro conjI allI impI)
    show "\<exists>k. kproc (psy ws) = Some k \<and> ((procs (psy ws))(p := None)) k \<noteq> None"
      using threadsD(1) [OF inv] placesD(2) [OF inv pp] by auto
    show "((procs (psy ws))(p := None)) q \<noteq> None" if "t_proc (psy ws) u = Some q" for u q
      using threadsD(2) [OF inv that] that n [of u] by auto
    show "u = w" if "t_proc (psy ws) u = Some q \<and> t_proc (psy ws) w = Some q \<and> kproc (psy ws) \<noteq> Some q" for u w q
      using threadsD(3) [OF inv, of u q w] that by blast
    show "p_numthreads qr = (if \<exists>u. t_proc (psy ws) u = Some q then 1 else 0)"
      if "((procs (psy ws))(p := None)) q = Some qr \<and> kproc (psy ws) \<noteq> Some q" for q qr
      using threadsD(4) [OF inv, of q qr] that by (auto split: if_splits)
  qed
  moreover have "places_ok ?ws"
    unfolding places_ok_def sel ps
  proof (intro conjI allI impI)
    show "t_proc (psy ws) u = Some q" if "exiting q (((pc ws)(t := Outside)) u)" for u q
      using that placesD(1) [OF inv, of q u] by (auto simp: pc_defs split: if_splits)
    show "((procs (psy ws))(p := None)) q \<noteq> None" if "pc_proc (((pc ws)(t := Outside)) u) = Some q" for u q
      using that placesD(2) [OF inv, of u q] alone [of u] by (auto split: if_splits)
    show "kproc (psy ws) \<noteq> Some q" if "pc_proc (((pc ws)(t := Outside)) u) = Some q" for u q
      using that placesD(2) [OF inv, of u q] by (auto split: if_splits)
    show "pos sy' u = Idle" if "pc_proc (((pc ws)(t := Outside)) u) = None" for u
      using that placesD(3) [OF inv, of u] view_pos [OF d(5) [OF pr] pp] x sb(2) by (auto simp: pos_ok_def split: if_splits)
  qed
  moreover have "view_ok sy' ((pc ws)(t := Outside)) q qr" if q: "((procs (psy ws))(p := None)) q = Some qr" for q qr
  proof -
    have q': "procs (psy ws) q = Some qr" "q \<noteq> p" using q by (auto split: if_splits)
    then have "p_cv qr \<noteq> p_cv pr" "p_cv_lock qr \<noteq> p_cv_lock pr" using d(1) pr by (auto simp: objs_ok_def)
    then show ?thesis using view_frame [OF d(5) [OF q'(1)] sb(1)] x q'(2) by auto
  qed
  ultimately show ?thesis by (simp add: pinv_def sel ps)
qed

text \<open>What \<open>proc_wait\<close> does when it destroys the process.\<close>

lemma destroy_step:
  assumes inv: "pinv ws" and x: "pc ws t = Wa_status p" and pr: "procs (psy ws) p = Some pr"
  shows "\<exists>r. proc_wait_step ops magic reclaim t (pc ws t) ws = Some r \<and>
    (case r of
       Inl e \<Rightarrow> drop_cwd magic reclaim p pr (psy ws) = Inl e \<or>
         (\<exists>ps1. drop_cwd magic reclaim p pr (psy ws) = Inr ps1 \<and> drop_as ops p ps1 = Inl e) \<or>
         e = KAssertFail \<and> (\<exists>u. t_proc (psy ws) u = Some p)
     | Inr (es, ws') \<Rightarrow> (\<forall>u. t_proc (psy ws) u \<noteq> Some p) \<and> es = [Waited t p (p_status pr)] \<and> pinv ws' \<and> procs (psy ws') = (procs (psy ws))(p := None))"
proof -
  have pp: "pc_proc (pc ws t) = Some p" using x by simp
  have kp: "kproc (psy ws) \<noteq> Some p" using placesD(2) [OF inv pp] by simp
  have step: "proc_wait_step ops magic reclaim t (pc ws t) ws = Some (rbind (rbind (drop_cwd magic reclaim p pr (psy ws)) (\<lambda>ps1. rbind (drop_as ops p ps1) (free_proc p)))
      (\<lambda>ps. Inr ([Waited t p (p_status pr)], at_pc t Outside (ws\<lparr>psy := ps\<rparr>))))"
    using x pr kp by (simp add: with_proc_def proc_destroy_def)
  show ?thesis
  proof (cases "drop_cwd magic reclaim p pr (psy ws)")
    case (Inl e)
    then show ?thesis using step by simp
  next
    case c: (Inr ps1)
    show ?thesis
    proof (cases "drop_as ops p ps1")
      case (Inl e)
      then show ?thesis using step c by simp
    next
      case a: (Inr ps2)
      have same: "same_procs p (psy ws) ps2" by (rule drop_same [OF pr c a])
      show ?thesis
      proof (cases "\<exists>u. t_proc (psy ws) u = Some p")
        case True
        then have "p_numthreads pr = 1" using threadsD(4) [OF inv pr kp] by simp
        then have "free_proc p ps2 = Inl KAssertFail" using same pr by (auto simp: same_procs_def free_proc_def)
        then show ?thesis using step c a True by simp
      next
        case False
        then have n: "t_proc (psy ws) u \<noteq> Some p" for u by blast
        obtain sy' where sb: "same_but (p_cv pr) (p_cv_lock pr) t (synch (psy ws)) sy'" "pos sy' = pos (synch (psy ws))"
          and fr: "free_proc p ps2 = Inr (ps2\<lparr>synch := sy', pid_table := (pid_table ps2)[nat (p_pid pr - 1) := None], procs := (procs ps2)(p := None)\<rparr>)"
          using free_proc_ok [OF inv x pr same n] by blast
        let ?ps = "ps2\<lparr>synch := sy', pid_table := (pid_table ps2)[nat (p_pid pr - 1) := None], procs := (procs ps2)(p := None)\<rparr>"
        have e: "procs ?ps = (procs (psy ws))(p := None)" using same by (auto simp: same_procs_def fun_eq_iff)
        have "pinv (at_pc t Outside (ws\<lparr>psy := ?ps\<rparr>))"
          by (rule destroyed [OF inv x pr n sb e]) (use same in \<open>simp_all add: same_procs_def\<close>)
        then show ?thesis using step c a fr n e by (simp add: at_pc_def)
      qed
    qed
  qed
qed

end
