(* ===== verification/Proc_Props.thy ===== *)
theory Proc_Props
  imports Proc_Life
begin

text \<open>Runs of processes: process numbers, and what \<open>proc_wait\<close> returns and when.\<close>

subsection \<open>Making a process\<close>

definition new_synch :: "nat \<Rightarrow> nat \<Rightarrow> string \<Rightarrow> ssys \<Rightarrow> ssys" where
  "new_synch c l name sy = sy\<lparr>cvs := (cvs sy)(c \<mapsto> \<lparr>cv_name = name, cv_lock = None\<rparr>), lks := (lks sy)(l \<mapsto> \<lparr>lk_name = name, lk_owner = None\<rparr>),
     wchans := (wchans sy)(Cv_wchan c := [], Lk_wchan l := [])\<rparr>"

lemma find_upt_least: "find f [0..<n] = Some i \<longleftrightarrow> i < n \<and> f i \<and> (\<forall>j<i. \<not> f j)"
  by (force simp: find_Some_iff)

lemma proc_create_ok:
  assumes "proc_create (Some p) True (Some c, True, True) (Some l, True, True) raw name ps = r"
  shows "r = Inl PanicCall \<and> (\<forall>i<TABLE_SIZE. pid_table ps ! i \<noteq> None) \<or>
    (\<exists>i pr. i < TABLE_SIZE \<and> pid_table ps ! i = None \<and> (\<forall>j<i. pid_table ps ! j \<noteq> None) \<and> p_pid pr = int i + 1 \<and> p_numthreads pr = 0 \<and>
       p_cv pr = c \<and> p_cv_lock pr = l \<and> \<not> p_status_set pr \<and> p_cwd pr = None \<and>
       r = Inr (Some p, ps\<lparr>synch := new_synch c l name (synch ps), procs := (procs ps)(p \<mapsto> pr), pid_table := (pid_table ps)[i := Some p]\<rparr>))"
proof -
  let ?sy1 = "(synch ps)\<lparr>cvs := (cvs (synch ps))(c \<mapsto> \<lparr>cv_name = name, cv_lock = None\<rparr>), wchans := (wchans (synch ps))(Cv_wchan c := [])\<rparr>"
  let ?sy2 = "?sy1\<lparr>lks := (lks ?sy1)(l \<mapsto> \<lparr>lk_name = name, lk_owner = None\<rparr>), wchans := (wchans ?sy1)(Lk_wchan l := [])\<rparr>"
  have sy: "?sy2 = new_synch c l name (synch ps)" by (simp add: new_synch_def)
  let ?pr = "raw\<lparr>p_name := name, p_numthreads := 0, p_addrspace := None, p_cwd := None, p_cv := c, p_cv_lock := l, p_status_set := False\<rparr>"
  have r: "r = rbind (proc_assign_pid p (set_proc p ?pr (ps\<lparr>synch := new_synch c l name (synch ps)\<rparr>))) (\<lambda>ps1.
      rbind (obj (procs ps1 p)) (\<lambda>pr1. if p_pid pr1 < 0 then Inl PanicCall else Inr (Some p, ps1)))"
    using assms sy by (simp add: proc_create_def cv_create_def lock_create_def)
  show ?thesis
  proof (cases "find (\<lambda>i. pid_table ps ! i = None) [0..<TABLE_SIZE]")
    case None
    then have "\<forall>i<TABLE_SIZE. pid_table ps ! i \<noteq> None" by (simp add: find_None_iff)
    then show ?thesis using r None by (simp add: proc_assign_pid_def set_proc_def)
  next
    case (Some i)
    then show ?thesis using r Some [unfolded find_upt_least]
      by (intro disjI2 exI [of _ i] exI [of _ "?pr\<lparr>p_pid := int i + 1\<rparr>"]) (simp add: proc_assign_pid_def set_proc_def)
  qed
qed

lemma pids_add:
  assumes ok: "pids_ok ps" and i: "i < TABLE_SIZE" "pid_table ps ! i = None" and p: "procs ps p = None" and pr: "p_pid pr = int i + 1"
    and ps': "procs ps' = (procs ps)(p \<mapsto> pr)" "pid_table ps' = (pid_table ps)[i := Some p]"
  shows "pids_ok ps'"
proof -
  have l: "length (pid_table ps) = TABLE_SIZE"
    and tab: "\<And>j q. j < TABLE_SIZE \<Longrightarrow> pid_table ps ! j = Some q \<longleftrightarrow> (\<exists>qr. procs ps q = Some qr \<and> p_pid qr = int j + 1)"
    using ok by (auto simp: pids_ok_def)
  have "(pid_table ps)[i := Some p] ! j = Some q \<longleftrightarrow> (\<exists>qr. ((procs ps)(p \<mapsto> pr)) q = Some qr \<and> p_pid qr = int j + 1)"
    if j: "j < TABLE_SIZE" for j q
  proof (cases "j = i")
    case True
    have "\<not> (\<exists>qr. procs ps q = Some qr \<and> p_pid qr = int i + 1)" using tab [OF i(1), of q] i(2) by simp
    then show ?thesis using True l j pr by auto
  next
    case False
    then show ?thesis using tab [OF j, of q] p pr by auto
  qed
  then show ?thesis using ok l i(1) pr unfolding pids_ok_def ps' by (auto split: if_splits)
qed

text \<open>Nobody has anything to do with the new process yet.\<close>

lemma new_view:
  assumes "\<And>u. pc_proc (pcs u) \<noteq> Some p" and "\<not> p_status_set pr"
  shows "view_ok (new_synch (p_cv pr) (p_cv_lock pr) name sy) pcs p pr"
proof -
  have h: "\<not> exiting p (pcs u)" "\<not> waiting p (pcs u)" for u using assms(1) [of u] pc_proc_cases by blast+
  then have "\<not> has_lock p (pcs u)" "pcs u \<noteq> Wa_cv p" "pcs u \<noteq> Wa_call p" "pcs u \<noteq> Wa_release p" "pcs u \<noteq> Wa_status p" for u
    using h [of u] by (auto simp: pc_defs)
  then have "pv_ok p (p_cv pr) (p_cv_lock pr) None None [] [] (p_status_set pr) pcs (pos sy)"
    by (intro pv_okI) (use h assms in auto)
  then show ?thesis by (simp add: view_ok_def new_synch_def)
qed

lemma pinv_new:
  assumes inv: "pinv ws" and fresh: "fresh_for p c l t' ws" and i: "i < TABLE_SIZE" "pid_table (psy ws) ! i = None"
    and pr: "p_pid pr = int i + 1" "p_numthreads pr = 1" "p_cv pr = c" "p_cv_lock pr = l" "\<not> p_status_set pr"
    and ps: "procs ps = (procs (psy ws))(p \<mapsto> pr)" "pid_table ps = (pid_table (psy ws))[i := Some p]" "kproc ps = kproc (psy ws)"
      "t_proc ps = (t_proc (psy ws))(t' \<mapsto> p)" "synch ps = new_synch c l name (synch (psy ws))"
  shows "pinv (ws\<lparr>psy := ps\<rparr>)"
proof -
  let ?sy = "synch (psy ws)"
  note d = pinvD [OF inv]
  have f: "procs (psy ws) p = None" "cvs ?sy c = None" "lks ?sy l = None" "t_proc (psy ws) t' = None" "pc ws t' = Outside"
    using fresh by (simp_all add: fresh_for_def)
  have other: "p_cv qr \<noteq> c \<and> p_cv_lock qr \<noteq> l" if "procs (psy ws) q = Some qr" for q qr
    by (rule view_okE [OF d(5) [OF that]]) (use f(2,3) in auto)
  have nopc: "pc_proc (pc ws u) \<noteq> Some p" for u using placesD(2) [OF inv, of u p] f(1) by blast
  have not: "t_proc (psy ws) u \<noteq> Some p" for u using threadsD(2) [OF inv, of u p] f(1) by blast
  have kp: "kproc (psy ws) \<noteq> Some p" using threadsD(1) [OF inv] f(1) by auto
  have "objs_ok ps" using d(1) other pr(3,4) unfolding objs_ok_def ps by (metis fun_upd_apply option.inject)
  moreover have "pids_ok ps" by (rule pids_add [OF d(2) i f(1) pr(1) ps(1,2)])
  moreover have "threads_ok ps"
    unfolding threads_ok_def ps
  proof (intro conjI allI impI)
    show "\<exists>k. kproc (psy ws) = Some k \<and> ((procs (psy ws))(p \<mapsto> pr)) k \<noteq> None" using threadsD(1) [OF inv] by auto
    show "((procs (psy ws))(p \<mapsto> pr)) q \<noteq> None" if "((t_proc (psy ws))(t' \<mapsto> p)) u = Some q" for u q
      using threadsD(2) [OF inv, of u q] that by (auto split: if_splits)
    show "u = w" if "((t_proc (psy ws))(t' \<mapsto> p)) u = Some q \<and> ((t_proc (psy ws))(t' \<mapsto> p)) w = Some q \<and> kproc (psy ws) \<noteq> Some q" for u w q
      using threadsD(3) [OF inv, of u q w] that not by (auto split: if_splits)
    show "p_numthreads qr = (if \<exists>u. ((t_proc (psy ws))(t' \<mapsto> p)) u = Some q then 1 else 0)"
      if "((procs (psy ws))(p \<mapsto> pr)) q = Some qr \<and> kproc (psy ws) \<noteq> Some q" for q qr
    proof (cases "q = p")
      case True
      then show ?thesis using that pr(2) by auto
    next
      case False
      then have "(\<exists>u. ((t_proc (psy ws))(t' \<mapsto> p)) u = Some q) \<longleftrightarrow> (\<exists>u. t_proc (psy ws) u = Some q)"
        using f(4) by (metis fun_upd_apply option.distinct(1) option.inject)
      then show ?thesis using that False threadsD(4) [OF inv, of q qr] by simp
    qed
  qed
  moreover have "places_ok (ws\<lparr>psy := ps\<rparr>)"
    unfolding places_ok_def
  proof (intro conjI allI impI)
    show "t_proc (psy (ws\<lparr>psy := ps\<rparr>)) u = Some q" if "exiting q (pc (ws\<lparr>psy := ps\<rparr>) u)" for u q
      using that placesD(1) [OF inv, of q u] f(4,5) by (auto simp: ps)
    show "procs (psy (ws\<lparr>psy := ps\<rparr>)) q \<noteq> None" "kproc (psy (ws\<lparr>psy := ps\<rparr>)) \<noteq> Some q" if "pc_proc (pc (ws\<lparr>psy := ps\<rparr>) u) = Some q" for u q
      using that placesD(2) [OF inv, of u q] by (simp_all add: ps)
    show "pos (synch (psy (ws\<lparr>psy := ps\<rparr>))) u = Idle" if "pc_proc (pc (ws\<lparr>psy := ps\<rparr>) u) = None" for u
      using that placesD(3) [OF inv, of u] by (simp add: ps new_synch_def)
  qed
  moreover have "view_ok (synch ps) (pc ws) q qr" if q: "procs ps q = Some qr" for q qr
  proof (cases "q = p")
    case True
    then have "qr = pr" using q ps by simp
    then show ?thesis using new_view [of "pc ws" p pr name ?sy] nopc pr(3,4,5) True by (simp add: ps)
  next
    case False
    then have q': "procs (psy ws) q = Some qr" using q ps by simp
    have "same_but c l t' ?sy (new_synch c l name ?sy)" by (auto simp: same_but_def new_synch_def)
    from view_frame [OF d(5) [OF q'] this, of Outside] other [OF q'] f(5) show ?thesis by (simp add: ps fun_upd_idem)
  qed
  ultimately show ?thesis by (simp add: pinv_def)
qed

lemma spawn_ok:
  assumes inv: "pinv ws" and fresh: "fresh_for p c l t' ws" and sp: "spawn t p c l raw name t' ws = Inr ws'"
  shows "pinv ws' \<and> (\<exists>i pr. i < TABLE_SIZE \<and> pid_table (psy ws) ! i = None \<and> (\<forall>j<i. pid_table (psy ws) ! j \<noteq> None) \<and> p_pid pr = int i + 1 \<and>
    \<not> p_status_set pr \<and> procs (psy ws') = (procs (psy ws))(p \<mapsto> pr))"
proof -
  let ?new = "new_synch c l name (synch (psy ws))"
  from sp obtain q ps1 ps2 where r: "proc_create_runprogram t (Some p) True (Some c, True, True) (Some l, True, True) raw name (psy ws) = Inr (q, ps1)"
    "proc_addthread p t' ps1 = Inr ps2" "ws' = ws\<lparr>psy := ps2\<rparr>" by (auto simp: spawn_def)
  from r(1) obtain n ps0 where c: "proc_create (Some p) True (Some c, True, True) (Some l, True, True) raw name (psy ws) = Inr (n, ps0)"
    by (auto simp: proc_create_runprogram_def)
  from proc_create_ok [OF c] obtain i pr where i: "i < TABLE_SIZE" "pid_table (psy ws) ! i = None" "\<forall>j<i. pid_table (psy ws) ! j \<noteq> None"
    and pr: "p_pid pr = int i + 1" "p_numthreads pr = 0" "p_cv pr = c" "p_cv_lock pr = l" "\<not> p_status_set pr"
    and ps0: "n = Some p" "ps0 = (psy ws)\<lparr>synch := ?new, procs := (procs (psy ws))(p \<mapsto> pr), pid_table := (pid_table (psy ws))[i := Some p]\<rparr>"
    by auto
  obtain a w where ps1: "procs ps1 = (procs (psy ws))(p \<mapsto> pr\<lparr>p_addrspace := a, p_cwd := w\<rparr>)" "pid_table ps1 = (pid_table (psy ws))[i := Some p]"
    "kproc ps1 = kproc (psy ws)" "t_proc ps1 = t_proc (psy ws)" "synch ps1 = ?new"
  proof -
    from r(1) c ps0 obtain x cr where cr: "curproc_of t ps0 = Inr (x, cr)" by (auto simp: proc_create_runprogram_def)
    show thesis
    proof (cases "p_cwd cr")
      case None
      have "pr\<lparr>p_addrspace := None\<rparr> = pr\<lparr>p_addrspace := None, p_cwd := p_cwd pr\<rparr>" by simp
      with None show thesis using r(1) c cr ps0 that [where a = None and w = "p_cwd pr"] by (auto simp: proc_create_runprogram_def set_proc_def)
    next
      case (Some v)
      then show thesis using r(1) c cr ps0 that [where a = None and w = "Some v"] by (auto simp: proc_create_runprogram_def set_proc_def)
    qed
  qed
  let ?pr = "pr\<lparr>p_addrspace := a, p_cwd := w, p_numthreads := 1\<rparr>"
  have ps2: "procs ps2 = (procs (psy ws))(p \<mapsto> ?pr)" "pid_table ps2 = (pid_table (psy ws))[i := Some p]"
    "kproc ps2 = kproc (psy ws)" "t_proc ps2 = (t_proc (psy ws))(t' \<mapsto> p)" "synch ps2 = ?new"
    using r(2) ps1 pr(2) by (auto simp: proc_addthread_def set_proc_def split: if_splits)
  have "pinv ws'" unfolding r(3)
    by (rule pinv_new [OF inv fresh i(1,2) _ _ _ _ _ ps2]) (use pr in simp_all)
  then show ?thesis using i pr ps2(1) r(3) by (intro conjI exI [of _ i] exI [of _ ?pr]) simp_all
qed

subsection \<open>Runs\<close>

lemma pinv_setas:
  assumes inv: "pinv ws" and sa: "proc_setas t a (psy ws) = Inr (old, ps)"
  shows "pinv (ws\<lparr>psy := ps\<rparr>) \<and> (\<exists>p pr. procs (psy ws) p = Some pr \<and> procs ps = (procs (psy ws))(p \<mapsto> pr\<lparr>p_addrspace := a\<rparr>))"
proof -
  obtain p pr where pr: "procs (psy ws) p = Some pr" and ps: "ps = set_proc p (pr\<lparr>p_addrspace := a\<rparr>) (psy ws)"
    using sa by (auto simp: proc_setas_def split: option.splits)
  let ?pr = "pr\<lparr>p_addrspace := a\<rparr>"
  have sel: "procs ps = (procs (psy ws))(p \<mapsto> ?pr)" "pid_table ps = pid_table (psy ws)" "kproc ps = kproc (psy ws)" "t_proc ps = t_proc (psy ws)"
    "synch ps = synch (psy ws)" by (simp_all add: ps set_proc_def)
  note d = pinvD [OF inv]
  have "objs_ok ps" using d(1) pr unfolding objs_ok_def sel by (auto split: if_splits)
  moreover have "pids_ok ps" using d(2) pr unfolding pids_ok_def sel by (auto split: if_splits)
  moreover have "threads_ok ps" using d(3) pr unfolding threads_ok_def sel by (auto split: if_splits)
  moreover have "places_ok (ws\<lparr>psy := ps\<rparr>)" using d(4) unfolding places_ok_def by (simp add: sel)
  moreover have "view_ok (synch (psy ws)) (pc ws) q qr" if "procs ps q = Some qr" for q qr
    using that d(5) pr by (auto simp: sel view_ok_def split: if_splits)
  ultimately show ?thesis using pr sel by (auto simp: pinv_def)
qed

lemma pinv_start:
  assumes "proc_start ws"
  shows "pinv ws" and "procs (psy ws) p = Some pr \<Longrightarrow> \<not> p_status_set pr"
proof -
  let ?sy = "synch (psy ws)"
  obtain k kp where k: "kproc (psy ws) = Some k" "procs (psy ws) = [k \<mapsto> kp]" "p_pid kp = 1" "\<not> p_status_set kp"
    and tab: "pid_table (psy ws) = (replicate TABLE_SIZE None)[0 := Some k]" and tp: "\<And>t. t_proc (psy ws) t \<in> {None, Some k}"
    and out: "\<And>t. pc ws t = Outside" and q: "quiescent ?sy" and o: "lks ?sy (p_cv_lock kp) \<noteq> None" "cvs ?sy (p_cv kp) \<noteq> None"
    using assms unfolding proc_start_def by blast
  show "procs (psy ws) p = Some pr \<Longrightarrow> \<not> p_status_set pr" using k by (auto split: if_splits)
  have ts: "TABLE_SIZE = 99" by (simp add: TABLE_SIZE_def MAX_PROC_def PID_MIN_def)
  have "objs_ok (psy ws)" by (auto simp: objs_ok_def k(2) split: if_splits)
  moreover have "pids_ok (psy ws)" by (auto simp: pids_ok_def k tab nth_list_update ts split: if_splits)
  moreover have "t_proc (psy ws) t = Some p \<Longrightarrow> p = k" for t p using tp [of t] by auto
  then have "threads_ok (psy ws)" unfolding threads_ok_def k by (auto split: if_splits)
  moreover have "places_ok ws" using q out by (auto simp: places_ok_def quiescent_def pc_defs)
  moreover have "view_ok ?sy (pc ws) k kp"
  proof -
    obtain lk cv where lc: "lks ?sy (p_cv_lock kp) = Some lk" "cvs ?sy (p_cv kp) = Some cv" using o by blast
    have z: "lk_owner lk = None" "cv_lock cv = None" "wchans ?sy w = []" for w using q lc by (auto simp: quiescent_def)
    have "pv_ok k (p_cv kp) (p_cv_lock kp) None None [] [] (p_status_set kp) (pc ws) (pos ?sy)"
      by (rule pv_okI) (use out k(4) in \<open>auto simp: pc_defs\<close>)
    then show ?thesis using lc z by (simp add: view_ok_def)
  qed
  ultimately show "pinv ws" by (auto simp: pinv_def k(2) split: if_splits)
qed

text \<open>The status with which process \<open>p\<close> has exited last, by the events of a run.\<close>

definition exit_status :: "pevent list \<Rightarrow> nat \<Rightarrow> int option" where
  "exit_status es p = fold (\<lambda>e s. case e of Exited q v \<Rightarrow> if q = p then Some v else s | Waited t q v \<Rightarrow> s) es None"

lemma exit_status_snoc [simp]:
  "exit_status (es @ [Exited q v]) p = (if q = p then Some v else exit_status es p)" "exit_status (es @ [Waited t q v]) p = exit_status es p"
  by (simp_all add: exit_status_def)

definition statuses_ok :: "pevent list \<Rightarrow> 'f wsys \<Rightarrow> bool" where
  "statuses_ok es ws \<longleftrightarrow> (\<forall>p pr. procs (psy ws) p = Some pr \<and> p_status_set pr \<longrightarrow> exit_status es p = Some (p_status pr))"

definition waits_ok :: "pevent list \<Rightarrow> bool" where
  "waits_ok es \<longleftrightarrow> (\<forall>xs t p v ys. es = xs @ Waited t p v # ys \<longrightarrow> exit_status xs p = Some v)"

lemma waits_ok_snoc:
  "waits_ok es \<Longrightarrow> (\<And>t p v. e = Waited t p v \<Longrightarrow> exit_status es p = Some v) \<Longrightarrow> waits_ok (es @ [e])"
  unfolding waits_ok_def by (metis append_eq_append_conv2 append_eq_Cons_conv append_is_Nil_conv append_self_conv butlast.simps(2) butlast_append butlast_snoc last_snoc list.distinct(1))

lemma proc_step_cases:
  assumes inv: "pinv ws" and r: "proc_step ops magic reclaim t ws = Some r"
  shows "quiet_step ws (Some r) \<or>
    (\<exists>p pr ws'. r = Inr ([], ws') \<and> pinv ws' \<and> procs (psy ws) p = Some pr \<and> procs (psy ws') = (procs (psy ws))(p \<mapsto> pr\<lparr>p_numthreads := 0\<rparr>)) \<or>
    (\<exists>p pr. pc ws t = Wa_status p \<and> procs (psy ws) p = Some pr \<and> p_status_set pr \<and> proc_wait_step ops magic reclaim t (pc ws t) ws = Some r)"
proof (cases "pc_proc (pc ws t)")
  case None
  then show ?thesis using r by (cases "pc ws t") (simp_all add: proc_step_def)
next
  case (Some p)
  obtain pr where pr: "procs (psy ws) p = Some pr" and v: "view_ok (synch (psy ws)) (pc ws) p pr" by (rule pinv_proc [OF inv Some])
  consider "pc ws t \<in> {Ex_lock p, Ex_locking p, Ex_signal p, Ex_release p}" | "pc ws t = Ex_thread p"
    | "pc ws t \<in> {Wa_lock p, Wa_locking p, Wa_test p, Wa_call p, Wa_cv p, Wa_release p}" | "pc ws t = Wa_status p"
    using Some by (cases "pc ws t") auto
  then show ?thesis
  proof cases
    case 1
    have n: "proc_wait_step ops magic reclaim t (pc ws t) ws = None" using 1 by auto
    have "sys__exit_step t (pc ws t) ws = Some r" using r n by (simp add: proc_step_def split: option.splits)
    then show ?thesis using exit_step_quiet [OF inv 1] by simp
  next
    case 2
    from leave_step [OF inv 2] obtain qr ws' where l: "sys__exit_step t (pc ws t) ws = Some (Inr ([], ws'))" "pinv ws'" "procs (psy ws) p = Some qr"
      "procs (psy ws') = (procs (psy ws))(p \<mapsto> qr\<lparr>p_numthreads := 0\<rparr>)" by blast
    then have "r = Inr ([], ws')" using r by (simp add: proc_step_def)
    then show ?thesis using l(2-4) by blast
  next
    case 3
    have "sys__exit_step t (pc ws t) ws = None" using 3 by auto
    then have "proc_wait_step ops magic reclaim t (pc ws t) ws = Some r" using r by (simp add: proc_step_def)
    then show ?thesis using wait_step_quiet [OF inv 3, of ops magic reclaim] by simp
  next
    case 4
    then have "proc_wait_step ops magic reclaim t (pc ws t) ws = Some r" using r by (simp add: proc_step_def)
    moreover obtain lk cv where "lks (synch (psy ws)) (p_cv_lock pr) = Some lk" "cvs (synch (psy ws)) (p_cv pr) = Some cv"
      and pv: "pv_ok p (p_cv pr) (p_cv_lock pr) (lk_owner lk) (cv_lock cv) (wchans (synch (psy ws)) (Cv_wchan (p_cv pr)))
          (wchans (synch (psy ws)) (Lk_wchan (p_cv_lock pr))) (p_status_set pr) (pc ws) (pos (synch (psy ws)))" by (rule view_okE [OF v])
    moreover have "p_status_set pr" using pv_okD(8) [OF pv, of t] 4 by simp
    ultimately show ?thesis using 4 pr by blast
  qed
qed

lemma run_pinv:
  assumes "proc_run ops magic reclaim es ws"
  shows "pinv ws \<and> statuses_ok es ws \<and> waits_ok es"
  using assms
proof (induction rule: proc_run.induct)
  case (start ws)
  show ?case unfolding statuses_ok_def waits_ok_def using pinv_start [OF start] by blast
next
  case (exit es ws t status es' ws')
  then have inv: "pinv ws" and st: "statuses_ok es ws" and wa: "waits_ok es" by simp_all
  from exit_enters [OF inv exit.hyps(2,3)] obtain p pr where es: "es' = [Exited p status]" and i: "pinv ws'"
    and pr: "procs (psy ws') = (procs (psy ws))(p \<mapsto> pr\<lparr>p_status_set := True, p_status := status\<rparr>)" by auto
  have "statuses_ok (es @ es') ws'" using st by (auto simp: statuses_ok_def es pr)
  moreover have "waits_ok (es @ es')" unfolding es by (rule waits_ok_snoc [OF wa]) simp
  ultimately show ?case using i by simp
next
  case (wait es ws p t es' ws')
  then have inv: "pinv ws" and st: "statuses_ok es ws" and wa: "waits_ok es" by simp_all
  have "\<not> waiting p (pc ws u)" for u using wait.hyps(3) [of u] by (simp add: waiting_def)
  from wait_enters [OF inv wait.hyps(2) this wait.hyps(4)] show ?case using st wa by (auto simp: statuses_ok_def)
next
  case (step es ws t es' ws')
  then have inv: "pinv ws" and st: "statuses_ok es ws" and wa: "waits_ok es" by simp_all
  from proc_step_cases [OF inv step.hyps(2)] show ?case
  proof (elim disjE exE conjE)
    assume "quiet_step ws (Some (Inr (es', ws')))"
    then show ?case using st wa by (simp add: quiet_step_def statuses_ok_def)
  next
    fix p pr ws'' assume "Inr (es', ws') = Inr ([], ws'')" "pinv ws''" "procs (psy ws) p = Some pr"
      "procs (psy ws'') = (procs (psy ws))(p \<mapsto> pr\<lparr>p_numthreads := 0\<rparr>)"
    then show ?case using st wa by (auto simp: statuses_ok_def)
  next
    fix p pr assume x: "pc ws t = Wa_status p" and pr: "procs (psy ws) p = Some pr" and ss: "p_status_set pr"
      and w: "proc_wait_step ops magic reclaim t (pc ws t) ws = Some (Inr (es', ws'))"
    from destroy_step [OF inv x pr, of ops magic reclaim] w have es: "es' = [Waited t p (p_status pr)]" and i: "pinv ws'"
      and ps: "procs (psy ws') = (procs (psy ws))(p := None)" by auto
    have e: "exit_status es p = Some (p_status pr)" using st pr ss by (simp add: statuses_ok_def)
    have "statuses_ok (es @ es') ws'" using st by (auto simp: statuses_ok_def es ps split: if_splits)
    moreover have "waits_ok (es @ es')" unfolding es by (rule waits_ok_snoc [OF wa]) (use e in auto)
    ultimately show ?case using i by simp
  qed
next
  case (spawn es ws p c l t' t raw name ws')
  then have inv: "pinv ws" and st: "statuses_ok es ws" and wa: "waits_ok es" by simp_all
  from spawn_ok [OF inv spawn.hyps(2,3)] show ?case using st wa by (auto simp: statuses_ok_def split: if_splits)
next
  case (setas es ws t as old ps)
  then have inv: "pinv ws" and st: "statuses_ok es ws" and wa: "waits_ok es" by simp_all
  from pinv_setas [OF inv setas.hyps(2)] show ?case using st wa by (auto simp: statuses_ok_def split: if_splits)
next
  case (other es ws vs k)
  then show ?case by (simp add: pinv_def objs_ok_def pids_ok_def threads_ok_def places_ok_def statuses_ok_def)
qed

subsection \<open>Progress\<close>

lemma sync_None: "sync t r k ws = None \<Longrightarrow> r = None \<or> r = Some (Inl Spins)"
  by (auto simp: sync_def split: option.splits sum.splits if_splits prod.splits)

text \<open>While nobody has the spinlock of the condition variable, only a thread that is asleep cannot go on.\<close>

lemma stuck_asleep:
  assumes inv: "pinv ws" and none: "proc_step ops magic reclaim t ws = None" and pp: "pc_proc (pc ws t) = Some p"
    and pr: "procs (psy ws) p = Some pr" and cv: "cvs (synch (psy ws)) (p_cv pr) = Some cv" "cv_lock cv = None"
  shows "asleep t (synch (psy ws))"
proof (rule ccontr)
  let ?sy = "synch (psy ws)"
  assume a: "\<not> asleep t ?sy"
  note v = pinvD(5) [OF inv pr]
  note po = view_pos [OF v pp]
  have n: "sys__exit_step t (pc ws t) ws = None" "proc_wait_step ops magic reclaim t (pc ws t) ws = None"
    using none by (auto simp: proc_step_def split: option.splits)
  have acq: "\<exists>x. lock_acquire False t (p_cv_lock pr) ?sy = Inr x \<and> lock_acquire_loop t (p_cv_lock pr) ?sy = Inr x"
    if "locks_to p (pc ws t) y w" "pos ?sy t \<noteq> In_cv_wait (p_cv pr) (p_cv_lock pr)" for y w
    using call_acquire [OF v that(1) a that(2)] by blast
  consider "pc ws t \<in> {Ex_lock p, Wa_lock p}" | "pc ws t \<in> {Ex_locking p, Wa_locking p}" | "pc ws t = Ex_signal p" | "pc ws t = Wa_call p"
    | "pc ws t = Ex_release p" | "pc ws t = Wa_release p" | "pc ws t = Ex_thread p" | "pc ws t = Wa_test p" | "pc ws t = Wa_status p" | "pc ws t = Wa_cv p"
    using pp by (cases "pc ws t") auto
  then show False
  proof cases
    case 1
    then have "pos ?sy t = Idle" "locks_to p (pc ws t) (if pc ws t = Ex_lock p then Ex_signal p else Wa_test p) (if pc ws t = Ex_lock p then Ex_locking p else Wa_locking p)"
      using po by (auto simp: pos_ok_def locks_to_def)
    with acq have "\<exists>x. lock_acquire False t (p_cv_lock pr) ?sy = Inr x" by fastforce
    then show False using n 1 pr by (auto simp: with_proc_def dest!: sync_None)
  next
    case 2
    then have z: "pos ?sy t = In_lock_acquire (p_cv_lock pr)"
      and "locks_to p (pc ws t) (if pc ws t = Ex_locking p then Ex_signal p else Wa_test p) (if pc ws t = Ex_locking p then Ex_locking p else Wa_locking p)"
      using po by (auto simp: pos_ok_def locks_to_def)
    with acq have "\<exists>x. lock_acquire_loop t (p_cv_lock pr) ?sy = Inr x" by fastforce
    then show False using n 2 z a by (auto dest!: sync_None)
  next
    case 3
    then show False using n(1) call_signal [OF v 3] cv pr by (auto simp: with_proc_def dest!: sync_None)
  next
    case 4
    then show False using n(2) call_cv_wait [OF v 4] cv pr by (auto simp: with_proc_def dest!: sync_None)
  next
    case 5
    then show False using n(1) call_release [OF v, of t "Ex_thread p"] pr by (auto simp: with_proc_def dest!: sync_None)
  next
    case 6
    then show False using n(2) call_release [OF v, of t "Wa_status p"] pr by (auto simp: with_proc_def dest!: sync_None)
  next
    case 10
    consider "pos ?sy t = In_cv_wait (p_cv pr) (p_cv_lock pr)" | "pos ?sy t = In_cv_sleep (p_cv pr) (p_cv_lock pr)" | "pos ?sy t = In_lock_acquire (p_cv_lock pr)"
      using po 10 by (auto simp: pos_ok_def)
    then show False
    proof cases
      case 1
      then show False using n(2) call_cv_sleep [OF v 10 1] 10 a by (auto dest!: sync_None)
    next
      case 2
      then show False using n(2) call_cv_resume [OF v 10 2 a] 10 a cv by (auto dest!: sync_None)
    next
      case 3
      have "locks_to p (pc ws t) (Wa_test p) (Wa_cv p)" using 10 by (simp add: locks_to_def)
      then show False using n(2) acq [of "Wa_test p" "Wa_cv p"] 3 10 a by (auto dest!: sync_None)
    qed
  qed (use n pr in \<open>auto simp: with_proc_def\<close>)
qed

end
