(* ===== verification/Proc_Claims.thy ===== *)
theory Proc_Claims
  imports Proc_Props Vm_Example
begin

text \<open>The properties of processes, and a kernel with one program.\<close>

subsection \<open>A kernel with one program\<close>

definition kproc0 :: proc where
  "kproc0 = \<lparr>p_name = ''[kernel]'', p_numthreads = 0, p_addrspace = None, p_cwd = None, p_cv = 0, p_cv_lock = 0, p_status_set = False,
     p_status = 0, p_pid = 1, p_open_ftable = []\<rparr>"

definition uproc0 :: proc where
  "uproc0 = \<lparr>p_name = ''prog'', p_numthreads = 1, p_addrspace = None, p_cwd = None, p_cv = 1, p_cv_lock = 1, p_status_set = False,
     p_status = 0, p_pid = 2, p_open_ftable = []\<rparr>"

definition ssys_ex :: "(nat \<rightharpoonup> tid option) \<Rightarrow> ssys" where
  "ssys_ex own = \<lparr>sems = Map.empty, lks = (\<lambda>l. map_option (\<lambda>u. \<lparr>lk_name = if l = 0 then ''[kernel]'' else ''prog'', lk_owner = u\<rparr>) (own l)),
     cvs = (\<lambda>c. map_option (\<lambda>_. \<lparr>cv_name = if c = 0 then ''[kernel]'' else ''prog'', cv_lock = None\<rparr>) (own c)),
     wchans = (\<lambda>_. []), pos = (\<lambda>_. Idle)\<rparr>"

definition psys0 :: "page_fs psys" where
  "psys0 = \<lparr>procs = [0 \<mapsto> kproc0], pid_table = (replicate TABLE_SIZE None)[0 := Some 0], kproc = Some 0, t_proc = (\<lambda>_. None)(0 := Some 0),
     synch = ssys_ex [0 \<mapsto> None], vns = Map.empty, kst = kstate0\<rparr>"

definition wsys0 :: "page_fs wsys" where
  "wsys0 = \<lparr>pc = \<lambda>_. Outside, psy = psys0\<rparr>"

text \<open>The program runs as thread 1 of process 1; \<open>x\<close> and \<open>y\<close> are the places of the kernel's thread and of the program's.\<close>

definition wsys1 :: "ppc \<Rightarrow> ppc \<Rightarrow> proc \<Rightarrow> nat option \<Rightarrow> tid option \<Rightarrow> page_fs wsys" where
  "wsys1 x y pr tp own = \<lparr>pc = (\<lambda>_. Outside)(0 := x, 1 := y),
     psy = psys0\<lparr>procs := [0 \<mapsto> kproc0, 1 \<mapsto> pr], pid_table := (replicate TABLE_SIZE None)[0 := Some 0, 1 := Some 1],
       t_proc := (\<lambda>_. None)(0 := Some 0, 1 := tp), synch := ssys_ex [0 \<mapsto> None, 1 \<mapsto> own]\<rparr>\<rparr>"

abbreviation reclaim0 :: "nat \<Rightarrow> vstore \<Rightarrow> int \<times> vstore" where
  "reclaim0 \<equiv> \<lambda>v vs. (0, vs)"

abbreviation run0 :: "pevent list \<Rightarrow> page_fs wsys \<Rightarrow> bool" where
  "run0 \<equiv> proc_run page_ops (\<lambda>_. 0) reclaim0"

lemma TABLE_SIZE_99: "TABLE_SIZE = 99"
  by (simp add: TABLE_SIZE_def MAX_PROC_def PID_MIN_def)

lemma wsys0_start: "proc_start wsys0"
  by (auto simp: proc_start_def wsys0_def psys0_def kproc0_def ssys_ex_def quiescent_def split: if_splits)

lemma wsys0_spawn: "spawn 0 1 1 1 uproc0 ''prog'' 1 wsys0 = Inr (wsys1 Outside Outside uproc0 (Some 1) None)"
proof -
  have f: "find (\<lambda>i. (replicate 99 None)[0 := Some 0 :: nat option] ! i = None) [0..<99] = Some 1"
    by (simp add: find_upt_least nth_list_update)
  show ?thesis
    by (simp add: spawn_def proc_create_runprogram_def proc_create_def cv_create_def lock_create_def proc_assign_pid_def proc_addthread_def
        wsys0_def psys0_def wsys1_def set_proc_def curproc_of_def f TABLE_SIZE_99 kproc0_def uproc0_def ssys_ex_def fun_eq_iff)
qed

definition uproc1 :: proc where "uproc1 = uproc0\<lparr>p_status_set := True, p_status := 7\<rparr>"

definition uproc2 :: proc where "uproc2 = uproc1\<lparr>p_numthreads := 0\<rparr>"

abbreviation step0 :: "tid \<Rightarrow> page_fs wsys \<Rightarrow> page_fs wres" where
  "step0 \<equiv> proc_step page_ops (\<lambda>_. 0) reclaim0"

lemmas ex_defs = wsys1_def psys0_def uproc0_def uproc1_def uproc2_def kproc0_def ssys_ex_def at_pc_def set_proc_def

lemma ex_exit:
  "sys__exit 1 7 (wsys1 Outside Outside uproc0 (Some 1) None) = Some (Inr ([Exited 1 7], wsys1 Outside (Ex_lock 1) uproc1 (Some 1) None))"
  "step0 1 (wsys1 Outside (Ex_lock 1) uproc1 (Some 1) None) = Some (Inr ([], wsys1 Outside (Ex_signal 1) uproc1 (Some 1) (Some 1)))"
  "step0 1 (wsys1 Outside (Ex_signal 1) uproc1 (Some 1) (Some 1)) = Some (Inr ([], wsys1 Outside (Ex_release 1) uproc1 (Some 1) (Some 1)))"
  "step0 1 (wsys1 Outside (Ex_release 1) uproc1 (Some 1) (Some 1)) = Some (Inr ([], wsys1 Outside (Ex_thread 1) uproc1 (Some 1) None))"
  "step0 1 (wsys1 Outside (Ex_thread 1) uproc1 (Some 1) None) = Some (Inr ([], wsys1 Outside Gone uproc2 None None))"
  by (auto simp: sys__exit_def curproc_of_def proc_step_def with_proc_def sync_def returned_def lock_acquire_def lock_do_i_hold_def lock_acquire_loop_def
      cv_signal_def take_cv_lock_def drop_cv_lock_def lock_release_def at_pos_def wakeone_on_def proc_remthread_def ex_defs fun_eq_iff)

lemma ex_wait:
  assumes "y \<in> {Ex_lock 1, Gone}" and "pr \<in> {uproc1, uproc2}"
  shows "proc_wait 0 (Some 1) (wsys1 Outside y pr tp None) = Some (Inr ([], wsys1 (Wa_lock 1) y pr tp None))"
    and "step0 0 (wsys1 (Wa_lock 1) y pr tp None) = Some (Inr ([], wsys1 (Wa_test 1) y pr tp (Some 0)))"
    and "step0 0 (wsys1 (Wa_test 1) y pr tp (Some 0)) = Some (Inr ([], wsys1 (Wa_release 1) y pr tp (Some 0)))"
    and "step0 0 (wsys1 (Wa_release 1) y pr tp (Some 0)) = Some (Inr ([], wsys1 (Wa_status 1) y pr tp None))"
  using assms
  by (auto simp: proc_wait_def proc_step_def with_proc_def sync_def returned_def lock_acquire_def lock_do_i_hold_def lock_acquire_loop_def
      lock_release_def at_pos_def wakeone_on_def ex_defs fun_eq_iff)

lemma ex_status:
  "step0 0 (wsys1 (Wa_status 1) (Ex_lock 1) uproc1 (Some 1) None) = Some (Inl KAssertFail)"
  "\<exists>ws. step0 0 (wsys1 (Wa_status 1) Gone uproc2 None None) = Some (Inr ([Waited 0 1 7], ws))"
  by (auto simp: proc_step_def with_proc_def proc_destroy_def drop_cwd_def drop_as_def free_proc_def cv_destroy_def lock_destroy_def
      proc_unassign_pid_def TABLE_SIZE_99 ex_defs)

lemma ex_run_spawned: "run0 [] (wsys1 Outside Outside uproc0 (Some 1) None)"
proof (rule proc_run.spawn [OF proc_run.start [OF wsys0_start] _ wsys0_spawn])
  show "fresh_for 1 1 1 1 wsys0" by (simp add: fresh_for_def wsys0_def ex_defs)
qed

lemma ex_run_exited: "run0 [Exited 1 7] (wsys1 Outside (Ex_lock 1) uproc1 (Some 1) None)"
  using proc_run.exit [OF ex_run_spawned _ ex_exit(1)] by (simp add: ex_defs)

lemma ex_run_left: "run0 [Exited 1 7] (wsys1 Outside Gone uproc2 None None)"
proof -
  note s = proc_run.step
  from s [OF ex_run_exited ex_exit(2)] s [OF _ ex_exit(3)] s [OF _ ex_exit(4)] s [OF _ ex_exit(5)] show ?thesis by simp
qed

lemma ex_run_waiting:
  assumes r: "run0 es (wsys1 Outside y pr tp None)" and y: "y \<in> {Ex_lock 1, Gone}" and pr: "pr \<in> {uproc1, uproc2}"
  shows "run0 es (wsys1 (Wa_status 1) y pr tp None)"
proof -
  note s = proc_run.step
  have "run0 (es @ []) (wsys1 (Wa_lock 1) y pr tp None)"
    by (rule proc_run.wait [OF r _ _ ex_wait(1) [OF y pr]]) (use y in \<open>auto simp: ex_defs\<close>)
  from s [OF this ex_wait(2) [OF y pr]] s [OF _ ex_wait(3) [OF y pr]] s [OF _ ex_wait(4) [OF y pr]] show ?thesis by simp
qed

subsection \<open>Properties\<close>








text \<open>
  C22: Process numbers are unique: in every run two processes never have the same number, every number is an index of the table plus
  one, and \<open>proc_find_by_pid\<close> finds each process with a number of at least \<open>PID_MIN\<close>.
\<close>

theorem pids_unique:
  assumes run: "proc_run ops magic reclaim es ws" and p: "procs (psy ws) p = Some pr"
  shows "1 \<le> p_pid pr \<and> p_pid pr \<le> int TABLE_SIZE \<and> (\<forall>q qr. procs (psy ws) q = Some qr \<and> p_pid qr = p_pid pr \<longrightarrow> q = p) \<and>
    (PID_MIN \<le> p_pid pr \<longrightarrow> proc_find_by_pid (p_pid pr) (psy ws) = Inr p)"
proof -
  have ok: "pids_ok (psy ws)" using run_pinv [OF run] by (simp add: pinv_def)
  then have b: "1 \<le> p_pid pr" "p_pid pr \<le> int TABLE_SIZE" using p by (auto simp: pids_ok_def)
  let ?i = "nat (p_pid pr - 1)"
  have i: "?i < TABLE_SIZE" "int ?i + 1 = p_pid pr" using b by simp_all
  have tab: "pid_table (psy ws) ! ?i = Some q \<longleftrightarrow> (\<exists>qr. procs (psy ws) q = Some qr \<and> p_pid qr = p_pid pr)" for q
    using ok i unfolding pids_ok_def by metis
  then have own: "pid_table (psy ws) ! ?i = Some p" using p by blast
  have "q = p" if "procs (psy ws) q = Some qr" "p_pid qr = p_pid pr" for q qr using tab [of q] own that by auto
  moreover have "proc_find_by_pid (p_pid pr) (psy ws) = Inr p" if "PID_MIN \<le> p_pid pr"
    using that b own p by (simp add: proc_find_by_pid_def MAX_PROC_def TABLE_SIZE_99)
  ultimately show ?thesis using b by blast
qed

theorem pids_unique_witness:
  "\<exists>es ws. run0 es ws \<and> proc_find_by_pid 2 (psy ws) = Inr 1 \<and> procs (psy ws) 0 \<noteq> None"
proof -
  have p: "procs (psy (wsys1 Outside Outside uproc0 (Some 1) None)) 1 = Some uproc0" by (simp add: ex_defs)
  have "p_pid uproc0 = 2" "PID_MIN \<le> p_pid uproc0" by (simp_all add: uproc0_def PID_MIN_def)
  moreover have "procs (psy (wsys1 Outside Outside uproc0 (Some 1) None)) 0 \<noteq> None" by (simp add: wsys1_def)
  ultimately show ?thesis using pids_unique [OF ex_run_spawned p] ex_run_spawned by auto
qed

text \<open>After \<open>proc_wait\<close> has returned, \<open>sys_waitpid\<close> reads the number of the process from memory that has been released.\<close>

lemma sys_waitpid_after_free:
  assumes run: "proc_run ops magic reclaim es ws" and w: "proc_step ops magic reclaim t ws = Some (Inr (Waited t p v # es', ws'))"
  shows "sys_waitpid_return p (psy ws') = Inl UseAfterFree"
proof -
  have inv: "pinv ws" using run_pinv [OF run] by simp
  from proc_step_cases [OF inv w] obtain q pr where x: "pc ws t = Wa_status q" and pr: "procs (psy ws) q = Some pr"
    and s: "proc_wait_step ops magic reclaim t (pc ws t) ws = Some (Inr (Waited t p v # es', ws'))" by (auto simp: quiet_step_def)
  from destroy_step [OF inv x pr, of ops magic reclaim] s have "q = p" "procs (psy ws') q = None" by auto
  then show ?thesis by (simp add: sys_waitpid_return_def)
qed

end
