(* ===== verification/Spec2Isabelle.thy ===== *)
theory Spec2Isabelle
  imports Vm_Props Vm_Frames Elf_Props Thread_Props Synch_Props Vnode Uiomove Kmalloc_Props Proc_Claims
begin

text \<open>
  \<^bold>\<open>A verification development of the OS/161 kernel with demand paging\<close>

  The program is the kernel under \<open>src/os161-base-2.0.3\<close>, a teaching kernel for MIPS extended with a virtual
  memory system: demand loading of executables, a two-level page table, a coremap with FIFO replacement and a
  swap file. File names below are relative to \<open>src/os161-base-2.0.3/kern\<close> unless they start with \<open>common\<close>.

  \<^bold>\<open>The parts and how they interact\<close>

  \<^item> A TLB miss enters \<open>vm_fault\<close> (\<open>vm/vm.c\<close>). It finds the segment of the address (\<open>vm/segments.c\<close>), looks the page
    up in the page table of the address space (\<open>vm/pt.c\<close>), takes a frame from the coremap (\<open>vm/coremap.c\<close>), fills
    it with zeros, from the executable or from the swap file (\<open>vm/swapfile.c\<close>, whose slots are a bitmap of
    \<open>lib/bitmap.c\<close>), and enters the translation into the TLB (\<open>vm/vm_tlb.c\<close>).
  \<^item> When no frame is free the coremap evicts the page that has been resident longest to the swap file.
  \<^item> The segments are made by \<open>load_elf\<close> (\<open>syscall/loadelf.c\<close>) through \<open>as_define_region\<close> (\<open>vm/addrspace.c\<close>).
  \<^item> The kernel takes contiguous frames from the same coremap (\<open>alloc_kpages\<close>); the heap (\<open>vm/kmalloc.c\<close>) cuts them
    into blocks. Before the coremap exists, \<open>arch/mips/vm/ram.c\<close> hands out memory from the end of the kernel image.
  \<^item> Threads (\<open>thread/thread.c\<close>) live on linked lists (\<open>thread/threadlist.c\<close>): run queues, wait channels and
    zombies, under spinlocks (\<open>thread/spinlock.c\<close>) and interrupt levels (\<open>thread/spl.c\<close>); the clock
    (\<open>thread/clock.c\<close>) drives them. Semaphores, locks and condition variables (\<open>thread/synch.c\<close>) sit on wait channels.
  \<^item> Data moves between files, kernel and user memory through \<open>struct uio\<close> (\<open>lib/uio.c\<close>), \<open>copyin\<close> and \<open>copyout\<close>
    (\<open>vm/copyinout.c\<close>) and the block functions of the C library (\<open>common/libc/string\<close>); files are vnodes (\<open>vfs/vnode.c\<close>).

  \<^item> Processes (\<open>proc/proc.c\<close>, \<open>syscall/proc_syscalls.c\<close>) own an address space, a directory and threads, and have a number
    in a table; \<open>proc_wait\<close> waits on the condition variable of a process for the status that \<open>sys__exit\<close> leaves there.

  \<^bold>\<open>Conventions\<close>

  C integers keep their width (\<open>u8\<close> to \<open>u64\<close> are words, arithmetic wraps). A function that can stop the kernel
  returns \<open>kfault + 'a\<close>: a failed \<open>KASSERT\<close>, a \<open>panic\<close>, a null pointer, an access outside an array or to freed
  memory, and a loop or a spinlock that never ends are its faults. Error numbers are the values of \<open>'a cret\<close> or an
  \<open>int\<close>, as in the code. Structures are records; arrays are lists or functions on indices; memory is a function from
  addresses to bytes (words in the heap). Code outside the repository or in the parts listed as not modelled is an
  argument: vnode operations are the record \<open>vnode_ops\<close>, the outcome of an allocation is an argument of the callers in the
  paging code. Loops over arrays and lists of known length are structural or have a measure, so the definitions are
  total; loops that might not end (\<open>walk\<close> along the lists of the heap, \<open>THREADLIST_FORALL\<close>, the idle loop of the
  scheduler) are \<open>partial_function (option)\<close>, where \<open>None\<close> means the loop does not end, and the theorems show that
  they do end on well-formed states. No definition uses fuel.

  \<^bold>\<open>Theories\<close>

  \<^item> \<open>Prelude\<close>: results, error numbers, words.
  \<^item> \<open>Machine\<close>: page and address arithmetic, memory by pages (\<open>arch/mips/include/vm.h\<close>, \<open>include/pt.h\<close>).
  \<^item> \<open>Bitmap\<close> (\<open>lib/bitmap.c\<close>): every operation; the locale \<open>slot_alloc\<close> states what users of a bitmap rely on and is
    interpreted on it.
  \<^item> \<open>Vm_Tlb\<close>, \<open>Segments\<close>, \<open>Ram\<close>, \<open>Uio\<close>: the TLB with round-robin replacement, segment lookup, boot memory, descriptors.
  \<^item> \<open>Vmstate\<close>, \<open>Swapfile\<close>, \<open>Coremap\<close>, \<open>Pt\<close>, \<open>Vm\<close>: the state of the paging code as the record \<open>kstate\<close> and the functions of
    \<open>vm/swapfile.c\<close>, \<open>vm/coremap.c\<close>, \<open>vm/pt.c\<close>, \<open>vm/vm.c\<close>, \<open>vm/vmstats.c\<close>.
  \<^item> \<open>Vm_Inv\<close>, \<open>Vm_Evict\<close>, \<open>Kalloc\<close>, \<open>Ualloc\<close>, \<open>Vm_Fault\<close>, \<open>Vm_Live\<close>: the invariant \<open>vm_inv\<close> of the paging state (every
    resident page owns its frame, every swapped page its slot, the queue lists the resident frames), the abstract
    content \<open>vmem\<close> of the pages of all address spaces, and that eviction, both allocators and the fault handler keep
    the first and do not change the second; that they return.
  \<^item> \<open>Page_Fs\<close>, \<open>Vm_Example\<close>: a swap file that satisfies the contract \<open>swap_vnode_ok\<close>, and a small machine.
  \<^item> \<open>Vm_Props\<close>, \<open>Vm_Frames\<close>: the properties of faults, eviction and kernel pages.
  \<^item> \<open>Addrspace\<close>, \<open>Loadelf\<close>, \<open>Addrspace_Props\<close>, \<open>Elf_Props\<close>: address spaces, the loader, and both with paging.
  \<^item> \<open>Threadlist\<close>: linked lists of threads in a store of nodes and their refinement to sequences, used through the locale \<open>queue_heap\<close>.
  \<^item> \<open>Spinlock\<close>: the steps of any number of CPUs on one lock word.
  \<^item> \<open>Thread\<close>, \<open>Clock\<close>: the thread system on the record \<open>ksys\<close>, interrupt levels, spinlocks as held by CPUs, the clock.
    \<open>Thread_Locks\<close>, \<open>Thread_Inv\<close>, \<open>Thread_Ops\<close>, \<open>Thread_Switch\<close>, \<open>Thread_Wake\<close>, \<open>Thread_Migrate\<close>, \<open>Thread_Boot\<close>: the invariant of
    the scheduler and that every operation returns and keeps it. \<open>Thread_Props\<close>: reachability from \<open>thread_bootstrap\<close>.
  \<^item> \<open>Synch\<close>, \<open>Synch_Props\<close>: semaphores, locks and condition variables as a step machine of any number of threads, with
    the history of the calls that returned.
  \<^item> \<open>Vnode\<close>: reference counts and the checks of vnodes.
  \<^item> \<open>Libc_Mem\<close>, \<open>Copyinout\<close>, \<open>Uiomove\<close>: moving bytes.
  \<^item> \<open>Kmalloc\<close>: the heap. \<open>Kmalloc_Lists\<close>, \<open>Kmalloc_Page\<close>, \<open>Kmalloc_Roots\<close>, \<open>Kmalloc_Inv\<close>: its lists, pages and page references.
    \<open>Kmalloc_Source\<close> has the locale \<open>page_source\<close>, what the heap needs of the allocator of pages; \<open>Kmalloc_Steps\<close> and
    \<open>Kmalloc_Ops\<close> prove in it that the operations keep the invariant \<open>heap_inv\<close>, and \<open>Kmalloc_Props\<close> interprets it on
    \<open>alloc_kpages\<close> and \<open>free_kpages\<close> of the coremap.
  \<^item> \<open>Proc\<close>: the record \<open>proc\<close>, the state \<open>psys\<close> of all processes and the functions of \<open>proc/proc.c\<close>. \<open>Proc_Wait\<close>: \<open>sys__exit\<close> and
    \<open>proc_wait\<close> as the steps of any number of threads on top of \<open>Synch\<close>, and the runs \<open>proc_run\<close> with the history of
    exits and waits. \<open>Proc_Inv\<close> has the invariant \<open>pv_ok\<close> of one process; \<open>Proc_Run\<close> the invariant \<open>pinv\<close> of all of them;
    \<open>Proc_Steps\<close> and \<open>Proc_Life\<close> show that the steps, the exit of a thread and \<open>proc_destroy\<close> keep it, and \<open>Proc_Props\<close> that every
    run has it. \<open>Proc_Claims\<close>: the properties and a kernel with one program.

  \<^bold>\<open>What the theorems show\<close>

  \<^item> Threads: from \<open>thread_bootstrap\<close> on no operation on any CPU stops the kernel; every thread is in exactly one place;
    yielding is fair. Locks exclude each other, no wakeup is lost, semaphores count.
  \<^item> Paging: a fault, an eviction and a kernel allocation leave the content of every page of every address space as it is;
    a fault inside a segment is resolved while a frame is free or can be emptied and brings in the bytes of the executable.
  \<^item> Loading: the regions of an address space are those of the program headers.
  \<^item> Heap: blocks that are held never overlap each other or a frame of a process; \<open>kfree\<close> of a block that is held always
    returns; \<open>kmalloc\<close> stops only where \<open>alloc_kpages\<close> does; the structures stay well formed.
  \<^item> Processes: \<open>proc_wait\<close> returns the status of the last \<open>sys__exit\<close> of the process, a process that has exited is not waited for
    in vain, numbers are unique, and the only step of the protocol that can stop the kernel is \<open>proc_destroy\<close>. In these runs
    at most one thread waits for a process at a time, as the menu does, and only processes other than the kernel's exit.
  \<^item> Moving data: \<open>uiomove\<close>, \<open>copyout\<close> and \<open>memmove\<close> move exactly the bytes they should.
  \<^item> Defects of the code as theorems: eviction leaves stale TLB entries, a destroyed address space stays in the coremap,
    the loader writes in front of its segment array, the end of a segment is one too far, a waiter can destroy a process
    that its thread has not left, and \<open>sys_waitpid\<close> reads the process after it is freed.

  \<^bold>\<open>Bounds\<close>

  A machine has at most 131072 frames (512 MB, the size of the segment \<open>kseg0\<close> through which the kernel sees memory).
  \<open>kmalloc\<close> is treated for sizes up to \<open>2^32 - 4096\<close>; above, the rounding of the size wraps. The histories of the heap
  start with an empty heap once the coremap is in charge: memory that was taken at boot has no recorded block size.

  \<^bold>\<open>Not modelled\<close>

  \<^item> Spinlocks and interrupt levels inside the paging code, the heap and \<open>bitmap.c\<close>: these components are modelled as
    sequential code; the heap gives up its lock around calls of the page allocator, and nothing else enters it there.
  \<^item> The switch of stacks and registers, the start of secondary CPUs (\<open>cpu_hatch\<close>), traps and other assembly-level code of
    \<open>arch/mips\<close> and \<open>arch/sys161\<close>: they act on the machine, not on data of the kernel.
  \<^item> The system calls on files and time and their dispatcher (\<open>syscall/file_syscalls.c\<close>, \<open>syscall/time_syscalls.c\<close>,
    \<open>arch/mips/syscall/syscall.c\<close>), \<open>syscall/runprogram.c\<close>, the store of the status by \<open>sys_waitpid\<close> in user memory, the layers of
    \<open>vfs/\<close> above vnodes, the file systems \<open>fs/sfs\<close> and \<open>fs/semfs\<close>, and the device drivers of \<open>dev/\<close>: the paging code uses
    files through vnode operations only, which are a parameter here.
  \<^item> The printing functions, the menu and the tests (\<open>main/\<close>, \<open>test/\<close>, \<open>lib/kprintf.c\<close>, \<open>lib/kgets.c\<close>), \<open>dumbvm.c\<close> and \<open>hangman.c\<close>
    (not in the configuration with paging), and the programs of \<open>userland\<close>.
\<close>

end
